(* ===== verification/Prelude.thy ===== *)
theory Prelude
  imports Complex_Main "HOL-Library.AList"
begin

text \<open>
  Shared vocabulary of the development: Python dictionaries as insertion-ordered association
  lists, slices, integer parsing as the environment switches use it, errors as values, and the
  collections of rewrite rules the component proofs share.

  \<^item> A dict is an association list: \<^const>\<open>AList.update\<close> keeps the position of a key that is
    already there and appends a new one, as a Python dict does; \<^const>\<open>AList.delete\<close> is
    \<open>dict.pop\<close>.
  \<^item> Token ids, counters and lengths that Python computes with are \<^typ>\<open>int\<close> or \<^typ>\<open>nat\<close>;
    they do not overflow in Python.
  \<^item> Raised exceptions are the left values of \<open>pyerr + 'a\<close>; the message text is not modelled.
\<close>

named_theorems dict_simps \<open>rewrite rules for dictionaries as association lists\<close>
named_theorems slice_simps \<open>rewrite rules for Python slices\<close>
named_theorems frame_simps \<open>fields an operation does not write\<close>

section \<open>Errors\<close>

datatype pyerr = ValueError | RuntimeError | KeyError | IndexError | DriftError | PipeError string | OtherError

type_synonym 'a res = "pyerr + 'a"

definition rbind :: "'a res \<Rightarrow> ('a \<Rightarrow> 'b res) \<Rightarrow> 'b res" where
  "rbind r f = (case r of Inl e \<Rightarrow> Inl e | Inr x \<Rightarrow> f x)"

lemma rbind_Inl [simp]: "rbind (Inl e) f = Inl e"
  by (simp add: rbind_def)

lemma rbind_Inr [simp]: "rbind (Inr x) f = f x"
  by (simp add: rbind_def)

lemma rbind_eq_Inr: "rbind r f = Inr y \<longleftrightarrow> (\<exists>x. r = Inr x \<and> f x = Inr y)"
  by (cases r) auto

fun rmap :: "('a \<Rightarrow> 'b res) \<Rightarrow> 'a list \<Rightarrow> 'b list res" where
  "rmap f [] = Inr []"
| "rmap f (x # xs) = rbind (f x) (\<lambda>y. rbind (rmap f xs) (\<lambda>ys. Inr (y # ys)))"

lemma rmap_Inr_map: "(\<And>x. x \<in> set xs \<Longrightarrow> f x = Inr (g x)) \<Longrightarrow> rmap f xs = Inr (map g xs)"
  by (induction xs) auto

lemma rmap_mem: "rmap f xs = Inr ys \<Longrightarrow> x \<in> set xs \<Longrightarrow> (\<And>y. f x = Inr y \<Longrightarrow> y \<in> set ys \<Longrightarrow> thesis) \<Longrightarrow> thesis"
  by (induction xs arbitrary: ys) (auto simp: rbind_eq_Inr)

lemma rmap_length: "rmap f xs = Inr ys \<Longrightarrow> length ys = length xs"
  by (induction xs arbitrary: ys) (auto simp: rbind_eq_Inr)

text \<open>
  Statements that thread a state and may raise: the state at the error is kept, as Python keeps
  the mutations made before an exception.
\<close>

type_synonym ('s, 'a) stmt = "'s \<Rightarrow> 'a res \<times> 's"

definition seq_bind :: "('s, 'a) stmt \<Rightarrow> ('a \<Rightarrow> ('s, 'b) stmt) \<Rightarrow> ('s, 'b) stmt" where
  "seq_bind m f s = (case m s of (Inl e, s') \<Rightarrow> (Inl e, s') | (Inr x, s') \<Rightarrow> f x s')"

definition seq_ret :: "'a \<Rightarrow> ('s, 'a) stmt" where
  "seq_ret x s = (Inr x, s)"

text \<open>A statement chosen by the state it starts in.\<close>

definition seq_get :: "('s \<Rightarrow> ('s, 'a) stmt) \<Rightarrow> ('s, 'a) stmt" where
  "seq_get f s = f s s"

fun seq_iter :: "('x \<Rightarrow> ('s, unit) stmt) \<Rightarrow> 'x list \<Rightarrow> ('s, unit) stmt" where
  "seq_iter f [] = seq_ret ()"
| "seq_iter f (x # xs) = seq_bind (f x) (\<lambda>_. seq_iter f xs)"

definition preserves :: "('s \<Rightarrow> bool) \<Rightarrow> ('s, 'a) stmt \<Rightarrow> bool" where
  "preserves P m \<longleftrightarrow> (\<forall>s r s'. P s \<longrightarrow> m s = (r, s') \<longrightarrow> P s')"

lemma preservesI: "(\<And>s r s'. P s \<Longrightarrow> m s = (r, s') \<Longrightarrow> P s') \<Longrightarrow> preserves P m"
  by (auto simp: preserves_def)

lemma preservesD: "preserves P m \<Longrightarrow> P s \<Longrightarrow> m s = (r, s') \<Longrightarrow> P s'"
  by (auto simp: preserves_def)

lemma preserves_conj: "preserves P m \<Longrightarrow> preserves Q m \<Longrightarrow> preserves (\<lambda>s. P s \<and> Q s) m"
  by (auto simp: preserves_def)

lemma preserves_ret [intro]: "preserves P (seq_ret x)"
  by (auto simp: preserves_def seq_ret_def)

lemma preserves_bind [intro]: "preserves P m \<Longrightarrow> (\<And>x. preserves P (f x)) \<Longrightarrow> preserves P (seq_bind m f)"
proof (rule preservesI)
  fix s r s'
  assume m: "preserves P m" and f: "\<And>x. preserves P (f x)" and P: "P s" and b: "seq_bind m f s = (r, s')"
  obtain a s1 where a: "m s = (a, s1)" by fastforce
  have "P s1" by (rule preservesD[OF m P a])
  with a b f show "P s'" by (cases a) (auto simp: seq_bind_def dest: preservesD)
qed

lemma preserves_get [intro]: "(\<And>s. preserves P (f s)) \<Longrightarrow> preserves P (seq_get f)"
  by (auto simp: preserves_def seq_get_def)

lemma preserves_if [intro]: "preserves P m \<Longrightarrow> preserves P m' \<Longrightarrow> preserves P (if b then m else m')"
  by simp

lemma preserves_option [intro]:
  "preserves P m \<Longrightarrow> (\<And>x. preserves P (f x)) \<Longrightarrow> preserves P (case v of None \<Rightarrow> m | Some x \<Rightarrow> f x)"
  by (cases v) auto

lemma preserves_prod [intro]: "(\<And>x y. preserves P (f x y)) \<Longrightarrow> preserves P (case v of (x, y) \<Rightarrow> f x y)"
  by (cases v) auto

lemma preserves_iter [intro]: "(\<And>x. preserves P (f x)) \<Longrightarrow> preserves P (seq_iter f xs)"
  by (induction xs) auto

text \<open>Kept when the statement raises, which is all an \<open>except\<close> block needs.\<close>

definition keeps_on_raise :: "('s \<Rightarrow> bool) \<Rightarrow> ('s, 'a) stmt \<Rightarrow> bool" where
  "keeps_on_raise P m \<longleftrightarrow> (\<forall>s e s'. P s \<longrightarrow> m s = (Inl e, s') \<longrightarrow> P s')"

lemma keeps_on_raise_preserves: "preserves P m \<Longrightarrow> keeps_on_raise P m"
  by (auto simp: preserves_def keeps_on_raise_def)

lemma keeps_on_raise_bind:
  "preserves P m \<Longrightarrow> (\<And>x. keeps_on_raise P (f x)) \<Longrightarrow> keeps_on_raise P (seq_bind m f)"
proof -
  assume m: "preserves P m" and f: "\<And>x. keeps_on_raise P (f x)"
  have "P s'" if "P s" "seq_bind m f s = (Inl e, s')" for s e s'
  proof -
    obtain a s1 where a: "m s = (a, s1)" by fastforce
    have "P s1" by (rule preservesD[OF m that(1) a])
    with a f that(2) show "P s'" by (cases a) (auto simp: seq_bind_def keeps_on_raise_def)
  qed
  then show ?thesis by (auto simp: keeps_on_raise_def)
qed

lemma keeps_on_raise_get: "(\<And>s. keeps_on_raise P (f s)) \<Longrightarrow> keeps_on_raise P (seq_get f)"
  by (auto simp: keeps_on_raise_def seq_get_def)

lemma keeps_on_raise_if:
  "keeps_on_raise P m \<Longrightarrow> keeps_on_raise P m' \<Longrightarrow> keeps_on_raise P (if b then m else m')"
  by simp

lemma seq_bind_Inr: "seq_bind m f s = (Inr y, s') \<longleftrightarrow> (\<exists>x s1. m s = (Inr x, s1) \<and> f x s1 = (Inr y, s'))"
  by (auto simp: seq_bind_def split: prod.splits sum.splits)

lemma seq_bind_cases:
  assumes "seq_bind m f s = (r, s')"
  obtains (raise) e where "m s = (Inl e, s')" "r = Inl e"
  | (go) x s1 where "m s = (Inr x, s1)" "f x s1 = (r, s')"
  using assms by (auto simp: seq_bind_def split: prod.splits sum.splits)

section \<open>Dictionaries\<close>

type_synonym rid = string
type_synonym token = int
type_synonym ('k, 'v) dict = "('k \<times> 'v) list"

abbreviation dict_keys :: "('k, 'v) dict \<Rightarrow> 'k list" where
  "dict_keys d \<equiv> map fst d"

definition dict_or :: "('k, 'v) dict \<Rightarrow> 'k \<Rightarrow> 'v \<Rightarrow> 'v" where
  "dict_or d k v = (case map_of d k of None \<Rightarrow> v | Some x \<Rightarrow> x)"

definition dict_updates :: "('k, 'v) dict \<Rightarrow> ('k \<times> 'v) list \<Rightarrow> ('k, 'v) dict" where
  "dict_updates d kvs = fold (\<lambda>(k, v) d. AList.update k v d) kvs d"

definition dict_ok :: "('k, 'v) dict \<Rightarrow> bool" where
  "dict_ok d \<longleftrightarrow> distinct (dict_keys d)"

lemma map_of_update [dict_simps]: "map_of (AList.update k v d) = (map_of d)(k \<mapsto> v)"
  by (simp add: update_conv')

lemma map_of_delete [dict_simps]: "map_of (AList.delete k d) = (map_of d)(k := None)"
  by (simp add: delete_conv')

lemma dict_ok_Nil [simp]: "dict_ok []"
  by (simp add: dict_ok_def)

lemma dict_ok_update [simp]: "dict_ok d \<Longrightarrow> dict_ok (AList.update k v d)"
  by (simp add: dict_ok_def distinct_update)

lemma dict_ok_delete [simp]: "dict_ok d \<Longrightarrow> dict_ok (AList.delete k d)"
  by (simp add: dict_ok_def distinct_delete)

lemma dict_ok_filter [simp]: "dict_ok d \<Longrightarrow> dict_ok (filter P d)"
  by (auto simp: dict_ok_def distinct_map_filter)

lemma map_of_filter_key [dict_simps]:
  "map_of (filter (\<lambda>(k, _). P k) d) k = (if P k then map_of d k else None)"
  by (induction d) auto

lemma dict_or_update [dict_simps]:
  "dict_or (AList.update k v d) k' w = (if k' = k then v else dict_or d k' w)"
  by (simp add: dict_or_def map_of_update)

lemma dict_or_delete [dict_simps]:
  "dict_or (AList.delete k d) k' w = (if k' = k then w else dict_or d k' w)"
  by (simp add: dict_or_def map_of_delete)

lemma dict_or_Nil [simp]: "dict_or [] k v = v"
  by (simp add: dict_or_def)

lemma dict_updates_Nil [simp]: "dict_updates d [] = d"
  by (simp add: dict_updates_def)

lemma dict_updates_Cons [simp]:
  "dict_updates d ((k, v) # kvs) = dict_updates (AList.update k v d) kvs"
  by (simp add: dict_updates_def)

lemma dict_ok_updates [simp]: "dict_ok d \<Longrightarrow> dict_ok (dict_updates d kvs)"
  by (induction kvs arbitrary: d) auto

lemma map_of_updates_other:
  "k \<notin> fst ` set kvs \<Longrightarrow> map_of (dict_updates d kvs) k = map_of d k"
  by (induction kvs arbitrary: d) (auto simp: dict_simps)

lemma map_of_updates_distinct:
  "distinct (map fst kvs) \<Longrightarrow>
   map_of (dict_updates d kvs) k = (case map_of kvs k of None \<Rightarrow> map_of d k | Some v \<Rightarrow> Some v)"
proof (induction kvs arbitrary: d)
  case Nil
  then show ?case by simp
next
  case (Cons kv kvs)
  obtain k' v' where kv: "kv = (k', v')" by (cases kv)
  with Cons.prems have "k' \<notin> fst ` set kvs" by simp
  then have "k = k' \<Longrightarrow> map_of kvs k = None" by (simp add: map_of_eq_None_iff)
  with Cons kv show ?case by (auto simp: dict_simps split: option.splits)
qed

lemma map_of_updates_mem:
  "map_of (dict_updates d kvs) k = Some v \<Longrightarrow> (k, v) \<in> set kvs \<or> map_of d k = Some v"
  by (induction kvs arbitrary: d) (fastforce simp: dict_simps split: if_splits)+

text \<open>\<open>zip\<close> stops at the shorter list, as Python's does.\<close>

lemma map_of_zip_at:
  "distinct ks \<Longrightarrow> i < length ks \<Longrightarrow> i < length vs \<Longrightarrow> map_of (zip ks vs) (ks ! i) = Some (vs ! i)"
proof (induction ks arbitrary: i vs)
  case Nil
  then show ?case by simp
next
  case (Cons k ks)
  then obtain v vs' where "vs = v # vs'" by (cases vs) auto
  with Cons show ?case by (cases i) auto
qed

lemma distinct_fst_zip: "distinct ks \<Longrightarrow> distinct (map fst (zip ks vs))"
  by (simp add: map_fst_zip_take)

section \<open>Slices\<close>

text \<open>\<open>xs[i:]\<close> with Python's negative indices, and \<open>row[:len(v)] = v\<close>.\<close>

definition py_from :: "'a list \<Rightarrow> int \<Rightarrow> 'a list" where
  "py_from xs i = (if i < 0 then drop (nat (int (length xs) + i)) xs else drop (nat i) xs)"

definition slice :: "'a list \<Rightarrow> nat \<Rightarrow> nat \<Rightarrow> 'a list" where
  "slice xs a b = take (b - a) (drop a xs)"

definition write_prefix :: "'a list \<Rightarrow> 'a list \<Rightarrow> 'a list" where
  "write_prefix row vs = take (length row) vs @ drop (length vs) row"

definition write_at :: "'a list \<Rightarrow> nat \<Rightarrow> 'a list \<Rightarrow> 'a list" where
  "write_at buf s vs = take s buf @ vs @ drop (s + length vs) buf"

lemma length_slice [slice_simps]: "length (slice xs a b) = min (length xs - a) (b - a)"
  by (simp add: slice_def)

lemma length_write_prefix [slice_simps]: "length (write_prefix row vs) = length row"
  by (simp add: write_prefix_def)

lemma write_prefix_Nil [simp]: "write_prefix row [] = row"
  by (simp add: write_prefix_def)

lemma write_prefix_same: "vs = take (length vs) row \<Longrightarrow> write_prefix row vs = row"
  by (metis append_take_drop_id length_take min.cobounded1 take_all write_prefix_def)

lemma length_write_at [slice_simps]:
  "s + length vs \<le> length buf \<Longrightarrow> length (write_at buf s vs) = length buf"
  by (simp add: write_at_def)

lemma nth_write_at [slice_simps]:
  assumes "s + length vs \<le> length buf" and "i < length buf"
  shows "write_at buf s vs ! i = (if s \<le> i \<and> i < s + length vs then vs ! (i - s) else buf ! i)"
  using assms by (auto simp: write_at_def nth_append)

lemma take_append_slice: "m \<le> n \<Longrightarrow> take m xs @ slice xs m n = take n xs"
  by (metis le_add_diff_inverse slice_def take_add)

section \<open>Integers\<close>

definition cdiv :: "int \<Rightarrow> int \<Rightarrow> int" where
  "cdiv a b = - ((- a) div b)"

lemma cdiv_bounds:
  assumes "0 < b"
  shows "a \<le> b * cdiv a b" and "b * cdiv a b < a + b"
proof -
  have *: "b * ((- a) div b) + (- a) mod b = - a" by simp
  have "0 \<le> (- a) mod b" and "(- a) mod b < b" using assms by simp_all
  moreover have "b * cdiv a b = - (b * ((- a) div b))" by (simp add: cdiv_def)
  ultimately show "a \<le> b * cdiv a b" and "b * cdiv a b < a + b" using * by linarith+
qed

lemma cdiv_nonneg: "0 < b \<Longrightarrow> 0 \<le> a \<Longrightarrow> 0 \<le> cdiv a b"
  using cdiv_bounds(1)[of b a] by (smt (verit) mult_pos_neg)

lemma cdiv_le_iff: "0 < b \<Longrightarrow> cdiv a b \<le> q \<longleftrightarrow> a \<le> b * q"
proof
  assume b: "0 < b" and "cdiv a b \<le> q"
  then have "b * cdiv a b \<le> b * q" by simp
  with cdiv_bounds(1)[OF b, of a] show "a \<le> b * q" by linarith
next
  assume b: "0 < b" and "a \<le> b * q"
  with cdiv_bounds(2)[OF b, of a] have "b * cdiv a b < b * (q + 1)"
    by (simp add: algebra_simps)
  with b show "cdiv a b \<le> q" by simp
qed

text \<open>Ceiling division on naturals.\<close>

definition cdivn :: "nat \<Rightarrow> nat \<Rightarrow> nat" where
  "cdivn n d = (n + d - 1) div d"

lemma cdivn_ge: "0 < d \<Longrightarrow> n \<le> cdivn n d * d"
proof -
  assume d: "0 < d"
  have "n + d - 1 < (n + d - 1) div d * d + d" using d by (metis div_mult_mod_eq mod_less_divisor nat_add_left_cancel_less)
  then show ?thesis using d by (simp add: cdivn_def)
qed

lemma cdivn_le: "0 < d \<Longrightarrow> n \<le> m * d \<Longrightarrow> cdivn n d \<le> m"
proof -
  assume d: "0 < d" and n: "n \<le> m * d"
  have "n + d - 1 < Suc m * d" using d n by simp
  then show ?thesis unfolding cdivn_def using less_mult_imp_div_less by (metis less_Suc_eq_le)
qed

section \<open>The environment\<close>

text \<open>
  \<open>os.environ\<close> is a dict of strings. \<open>py_strip\<close> is \<open>str.strip\<close> on ASCII blanks,
  \<open>py_int\<close> is \<open>int(s)\<close>: blanks around, an optional sign, decimal digits with single
  underscores between them, and \<^const>\<open>None\<close> where Python raises \<open>ValueError\<close>.
\<close>

type_synonym environ = "(string, string) dict"

definition is_blank :: "char \<Rightarrow> bool" where
  "is_blank c \<longleftrightarrow> c \<in> {CHR '' '', CHR 0x09, CHR 0x0A, CHR 0x0B, CHR 0x0C, CHR 0x0D}"

definition py_strip :: "string \<Rightarrow> string" where
  "py_strip s = rev (dropWhile is_blank (rev (dropWhile is_blank s)))"

definition env_get :: "environ \<Rightarrow> string \<Rightarrow> string \<Rightarrow> string" where
  "env_get e name d = dict_or e name d"

definition env_is :: "environ \<Rightarrow> string \<Rightarrow> string \<Rightarrow> bool" where
  "env_is e name v \<longleftrightarrow> py_strip (env_get e name []) = v"

definition digit_val :: "char \<Rightarrow> int option" where
  "digit_val c = (let n = of_char c :: int in if 48 \<le> n \<and> n \<le> 57 then Some (n - 48) else None)"

text \<open>\<open>py_digits acc fresh cs\<close>: \<open>fresh\<close> says the last character was a digit.\<close>

fun py_digits :: "int \<Rightarrow> bool \<Rightarrow> string \<Rightarrow> int option" where
  "py_digits acc fresh [] = (if fresh then Some acc else None)"
| "py_digits acc fresh (c # cs) =
     (case digit_val c of
        Some d \<Rightarrow> py_digits (10 * acc + d) True cs
      | None \<Rightarrow> if c = CHR ''_'' \<and> fresh then py_digits acc False cs else None)"

definition py_int :: "string \<Rightarrow> int option" where
  "py_int s = (case py_strip s of
      [] \<Rightarrow> None
    | c # cs \<Rightarrow> if c = CHR ''-'' then map_option uminus (py_digits 0 False cs)
                else if c = CHR ''+'' then py_digits 0 False cs
                else py_digits 0 False (c # cs))"

text \<open>\<open>int(os.environ.get(name, d) or d)\<close>: an empty value counts as the default.\<close>

definition env_int :: "environ \<Rightarrow> string \<Rightarrow> string \<Rightarrow> int option" where
  "env_int e name d = (let v = env_get e name d in py_int (if v = [] then d else v))"

end
