(* ===== verification/HistoryMirror.thy ===== *)
theory HistoryMirror
  imports Prelude
begin

text \<open>
  The CPU token mirror of the V2 hook (\<open>suffix_hybrid/wrap_v2.py\<close>): the growable row
  \<open>_Row\<close>, the staging buffers, and the closures \<open>_ensure_staging\<close>, \<open>_seed_row\<close>,
  \<open>_window_slice\<close>, \<open>_enqueue\<close> and \<open>_absorb_pending\<close> of \<open>_wrap_propose\<close>, over the record
  \<open>grow_row\<close> and the state record \<open>hook\<close> (the dict \<open>st\<close> of the source with the counters of
  \<open>state\<close>). GPU tensors are lists; a copy enqueued on the side stream is modelled by the value
  the source tensor has when it is enqueued, which is what the producer event orders.
\<close>

section \<open>The growable row\<close>

record grow_row =
  buf :: "token list"
  used :: nat

text \<open>\<open>np.empty(m)\<close>: m cells of unspecified content, here whatever \<open>junk\<close> gives.\<close>

definition np_empty :: "(nat \<Rightarrow> token) \<Rightarrow> nat \<Rightarrow> token list" where
  "np_empty junk m = map junk [0..<m]"

definition row_init :: "(nat \<Rightarrow> token) \<Rightarrow> token list \<Rightarrow> grow_row" where
  "row_init junk toks =
     \<lparr>buf = write_at (np_empty junk (max 64 (2 * length toks))) 0 toks, used = length toks\<rparr>"

definition row_extend :: "(nat \<Rightarrow> token) \<Rightarrow> grow_row \<Rightarrow> token list \<Rightarrow> grow_row" where
  "row_extend junk r toks =
     (let m = used r + length toks;
          b = (if length (buf r) < m
               then write_at (np_empty junk (2 * m)) 0 (take (used r) (buf r))
               else buf r)
      in \<lparr>buf = write_at b (used r) toks, used = m\<rparr>)"

definition row_view :: "grow_row \<Rightarrow> token list" where
  "row_view r = take (used r) (buf r)"

definition row_ok :: "grow_row \<Rightarrow> bool" where
  "row_ok r \<longleftrightarrow> used r \<le> length (buf r)"

lemma length_np_empty [simp]: "length (np_empty junk m) = m"
  by (simp add: np_empty_def)

lemma row_ok_init: "row_ok (row_init junk toks)"
  by (simp add: row_ok_def row_init_def slice_simps)

lemma row_view_init: "row_view (row_init junk toks) = toks"
  by (simp add: row_view_def row_init_def write_at_def)

lemma row_ok_extend: "row_ok r \<Longrightarrow> row_ok (row_extend junk r toks)"
  by (auto simp: row_ok_def row_extend_def Let_def write_at_def)

lemma row_view_extend: "row_ok r \<Longrightarrow> row_view (row_extend junk r toks) = row_view r @ toks"
  by (auto simp: row_ok_def row_view_def row_extend_def Let_def write_at_def min_def)

fun row_extends :: "(nat \<Rightarrow> token) \<Rightarrow> grow_row \<Rightarrow> token list list \<Rightarrow> grow_row" where
  "row_extends junk r [] = r"
| "row_extends junk r (ts # tss) = row_extends junk (row_extend junk r ts) tss"

lemma row_view_extends:
  "row_ok r \<Longrightarrow> row_view (row_extends junk r tss) = row_view r @ concat tss"
  by (induction tss arbitrary: r) (simp_all add: row_view_extend row_ok_extend)

section \<open>The hook state\<close>

record staging_bufs =
  tail_buf :: "token list list"
  counts_buf :: "int list"
  sampled_buf :: "int list"
  rejected_buf :: "int list"

datatype pending = NoPending | SyncPending | AsyncPending "rid list"

record hook =
  mirror :: "(rid, token list) dict"
  staging :: "staging_bufs option"
  stg_cap :: nat
  win :: int
  pend :: pending
  sync_ids :: "rid list"
  gate :: "(rid, nat) dict"
  pending_wins :: "(rid, bool) dict"
  fallback :: bool
  fallback_logged :: bool
  prev_widths :: "(rid, nat) dict"
  n_steps :: nat
  n_mixes :: nat
  n_skips :: nat
  skips_unchanged :: nat
  skips_probe :: nat
  skips_frozen :: nat

text \<open>\<open>st\<close> and \<open>state\<close> as \<open>_wrap_propose(.., k)\<close> creates them.\<close>

definition hook_init :: "int \<Rightarrow> hook" where
  "hook_init k = \<lparr>mirror = [], staging = None, stg_cap = 0, win = (if 0 < k then k + 2 else 0),
     pend = NoPending, sync_ids = [], gate = [], pending_wins = [], fallback = False,
     fallback_logged = False, prev_widths = [], n_steps = 0, n_mixes = 0, n_skips = 0,
     skips_unchanged = 0, skips_probe = 0, skips_frozen = 0\<rparr>"

text \<open>What the hook reads of \<open>runner.req_states\<close>: \<open>all_token_ids.gpu\<close> and \<open>total_len.gpu\<close>.\<close>

record device =
  ats :: "token list list"
  total_len :: "int list"

section \<open>Staging, seeding and the copy window\<close>

definition fresh_staging :: "nat \<Rightarrow> nat \<Rightarrow> staging_bufs" where
  "fresh_staging cap w = \<lparr>tail_buf = replicate cap (replicate w 0), counts_buf = replicate cap 0,
     sampled_buf = replicate cap 0, rejected_buf = replicate cap 0\<rparr>"

definition ensure_staging :: "nat \<Rightarrow> int \<Rightarrow> hook \<Rightarrow> hook" where
  "ensure_staging n_rows row_width st0 =
     (let st = (if win st0 \<le> 0 then st0\<lparr>win := max row_width 1 + 2\<rparr> else st0)
      in if staging st \<noteq> None \<and> n_rows \<le> stg_cap st then st
         else let c = max n_rows 8
              in st\<lparr>staging := Some (fresh_staging c (nat (win st))), stg_cap := c,
                   pend := NoPending\<rparr>)"

definition seed_row :: "token list \<Rightarrow> int \<Rightarrow> token list" where
  "seed_row gpu_row tot = take (nat (min (max tot 0) (int (length gpu_row)))) gpu_row"

definition window_slice :: "int \<Rightarrow> token list \<Rightarrow> int \<Rightarrow> token list" where
  "window_slice w gpu_row L =
     (let n = int (length gpu_row); s = min (max L 0) n
      in slice gpu_row (nat s) (nat (min n (s + w))))"

definition drop_gone :: "rid list \<Rightarrow> hook \<Rightarrow> hook" where
  "drop_gone ids st =
     (let gone = filter (\<lambda>r. r \<notin> set ids) (dict_keys (mirror st))
      in st\<lparr>mirror := filter (\<lambda>(r, _). r \<in> set ids) (mirror st),
           gate := filter (\<lambda>(r, _). r \<notin> set gone) (gate st),
           pending_wins := filter (\<lambda>(r, _). r \<notin> set gone) (pending_wins st)\<rparr>)"

text \<open>
  The copy loop: row \<open>i\<close> of the staging buffers receives the window and the total of request
  \<open>rid\<close>, whose request-state row is \<open>j\<close>. A row index outside the device tensors raises.
\<close>

fun enqueue_rows :: "device \<Rightarrow> int \<Rightarrow> nat \<Rightarrow> (rid \<times> nat) list \<Rightarrow>
    (rid, token list) dict \<times> staging_bufs \<Rightarrow> ((rid, token list) dict \<times> staging_bufs) res" where
  "enqueue_rows dev w i [] mb = Inr mb"
| "enqueue_rows dev w i ((rid, j) # rest) (m, b) =
     (if j < length (ats dev) \<and> j < length (total_len dev)
      then let row = ats dev ! j; tot = total_len dev ! j;
               m' = (if map_of m rid = None then AList.update rid (seed_row row tot) m else m);
               src = window_slice w row (int (length (dict_or m' rid [])));
               b' = b\<lparr>tail_buf := (tail_buf b)[i := write_prefix (tail_buf b ! i) src],
                      counts_buf := (counts_buf b)[i := tot]\<rparr>
           in enqueue_rows dev w (Suc i) rest (m', b')
      else Inl IndexError)"

definition enqueue :: "bool \<Rightarrow> device \<Rightarrow> rid list \<Rightarrow> nat list \<Rightarrow> int list \<Rightarrow> int list \<Rightarrow> int \<Rightarrow>
    hook \<Rightarrow> hook res" where
  "enqueue cuda dev ids idx num_sampled num_rejected k_slots st0 =
     (let st = drop_gone ids (ensure_staging (max (length ids) 1) k_slots st0)
      in case staging st of
           None \<Rightarrow> Inl OtherError
         | Some b \<Rightarrow>
             rbind (enqueue_rows dev (win st) 0 (zip ids idx) (mirror st, b)) (\<lambda>(m, b').
               let n = length ids;
                   b'' = b'\<lparr>sampled_buf := write_prefix (sampled_buf b') (take n num_sampled),
                            rejected_buf := write_prefix (rejected_buf b') (take n num_rejected)\<rparr>;
                   st' = st\<lparr>mirror := m, staging := Some b''\<rparr>
               in Inr (if cuda then st'\<lparr>pend := AsyncPending ids\<rparr>
                       else st'\<lparr>sync_ids := ids, pend := SyncPending\<rparr>)))"

section \<open>Absorbing the staged copies\<close>

definition absorb_row :: "int \<Rightarrow> rid \<Rightarrow> int \<Rightarrow> token list \<Rightarrow> (rid, token list) dict \<Rightarrow>
    (rid, token list) dict" where
  "absorb_row w rid new_len tail_row m =
     (case map_of m rid of
        None \<Rightarrow> m
      | Some toks \<Rightarrow>
          let last = int (length toks)
          in if new_len \<le> last then (if new_len = 0 then AList.delete rid m else m)
             else if new_len - last > w then AList.delete rid m
             else AList.update rid (toks @ take (nat (new_len - last)) tail_row) m)"

fun absorb_rows :: "int \<Rightarrow> (rid \<times> int \<times> token list) list \<Rightarrow> (rid, token list) dict \<Rightarrow>
    (rid, token list) dict" where
  "absorb_rows w [] m = m"
| "absorb_rows w ((rid, new_len, tail_row) # rest) m =
     absorb_rows w rest (absorb_row w rid new_len tail_row m)"

definition absorb_pending :: "hook \<Rightarrow> hook" where
  "absorb_pending st =
     (case pend st of
        NoPending \<Rightarrow> st
      | p \<Rightarrow>
          let ids = (case p of AsyncPending xs \<Rightarrow> xs | _ \<Rightarrow> sync_ids st);
              st' = st\<lparr>pend := NoPending\<rparr>
          in (case staging st of
                None \<Rightarrow> st'
              | Some b \<Rightarrow> st'\<lparr>mirror := absorb_rows (win st)
                    (zip ids (zip (counts_buf b) (tail_buf b))) (mirror st)\<rparr>))"

section \<open>The mirror holds the row's history\<close>

text \<open>What absorbing one staged total and window makes of a mirrored row.\<close>

definition absorb_val :: "int \<Rightarrow> int \<Rightarrow> token list \<Rightarrow> token list option \<Rightarrow> token list option" where
  "absorb_val w new_len tail_row old = (case old of None \<Rightarrow> None | Some toks \<Rightarrow>
     let last = int (length toks)
     in if new_len \<le> last then (if new_len = 0 then None else Some toks)
        else if new_len - last > w then None
        else Some (toks @ take (nat (new_len - last)) tail_row))"

lemma map_of_absorb_row:
  "map_of (absorb_row w rid n t m) r =
     (if r = rid then absorb_val w n t (map_of m rid) else map_of m r)"
  by (auto simp: absorb_row_def absorb_val_def Let_def dict_simps split: option.split)

lemma map_of_absorb_rows:
  "distinct (map fst xs) \<Longrightarrow>
   map_of (absorb_rows w xs m) r =
     (case map_of xs r of None \<Rightarrow> map_of m r | Some (n, t) \<Rightarrow> absorb_val w n t (map_of m r))"
proof (induction xs arbitrary: m)
  case Nil
  then show ?case by simp
next
  case (Cons x xs)
  obtain rid n t where x: "x = (rid, n, t)" by (cases x) auto
  with Cons.prems have "map_of xs rid = None" by (simp add: map_of_eq_None_iff)
  with Cons x show ?case by (auto simp: map_of_absorb_row split: option.splits)
qed

lemma length_window_slice: "int (length (window_slice w row L)) \<le> max w 0"
proof -
  define s where "s = min (max L 0) (int (length row))"
  have "length (window_slice w row L) \<le> nat (min (int (length row)) (s + w)) - nat s"
    unfolding window_slice_def Let_def s_def slice_def by simp
  also have "\<dots> \<le> nat (max w 0)"
  proof -
    have "0 \<le> s" by (simp add: s_def)
    then show ?thesis by arith
  qed
  finally show ?thesis by simp
qed

text \<open>The window after \<open>L\<close> mirrored tokens continues the row.\<close>

lemma take_window_slice:
  assumes "0 \<le> L" and "L \<le> tot" and "tot \<le> int (length row)" and "tot - L \<le> w"
  shows "take (nat L) row @ take (nat (tot - L)) (window_slice w row L) = take (nat tot) row"
proof -
  have s: "nat (min (max L 0) (int (length row))) = nat L" using assms by simp
  have "take (nat (tot - L)) (window_slice w row L) = slice row (nat L) (nat tot)"
    using assms by (auto simp: window_slice_def Let_def slice_def min_def nat_diff_distrib)
  then show ?thesis using assms by (simp add: take_append_slice)
qed

text \<open>The part of the staging buffers the enqueue loop leaves alone.\<close>

lemma enqueue_rows_frame_all:
  "enqueue_rows dev w i xs (m, b) = Inr (m', b') \<Longrightarrow>
   length (tail_buf b') = length (tail_buf b) \<and> length (counts_buf b') = length (counts_buf b) \<and>
   (\<forall>q < i. tail_buf b' ! q = tail_buf b ! q \<and> counts_buf b' ! q = counts_buf b ! q) \<and>
   sampled_buf b' = sampled_buf b \<and> rejected_buf b' = rejected_buf b"
proof (induction xs arbitrary: i m b)
  case Nil
  then show ?case by simp
next
  case (Cons x xs)
  obtain rid j where x: "x = (rid, j)" by (cases x)
  with Cons.prems Cons.IH[of "Suc i"] show ?case
    by (fastforce simp: Let_def split: if_splits)
qed

lemmas enqueue_rows_frame = enqueue_rows_frame_all [THEN conjunct1]
  enqueue_rows_frame_all [THEN conjunct2, THEN conjunct1]
  enqueue_rows_frame_all [THEN conjunct2, THEN conjunct2, THEN conjunct1, rule_format]

definition seeded :: "device \<Rightarrow> nat \<Rightarrow> token list option \<Rightarrow> token list" where
  "seeded dev j old = (case old of None \<Rightarrow> seed_row (ats dev ! j) (total_len dev ! j) | Some t \<Rightarrow> t)"

lemma enqueue_rows_mirror:
  assumes "enqueue_rows dev w i xs (m, b) = Inr (m', b')" and "distinct (map fst xs)"
  shows "map_of m' r = (case map_of xs r of None \<Rightarrow> map_of m r | Some j \<Rightarrow> Some (seeded dev j (map_of m r)))"
  using assms
proof (induction xs arbitrary: i m b)
  case Nil
  then show ?case by simp
next
  case (Cons x xs)
  obtain rid j where x: "x = (rid, j)" by (cases x)
  with Cons.prems have "map_of xs rid = None" by (simp add: map_of_eq_None_iff)
  with Cons x show ?case
    by (force simp: Let_def seeded_def dict_simps split: if_splits option.splits)
qed

lemma enqueue_rows_bufs:
  "enqueue_rows dev w i xs (m, b) = Inr (m', b') \<Longrightarrow> distinct (map fst xs) \<Longrightarrow>
   q < length xs \<Longrightarrow> xs ! q = (rid, j) \<Longrightarrow>
   i + length xs \<le> length (tail_buf b) \<Longrightarrow> i + length xs \<le> length (counts_buf b) \<Longrightarrow>
   tail_buf b' ! (i + q) = write_prefix (tail_buf b ! (i + q))
     (window_slice w (ats dev ! j) (int (length (seeded dev j (map_of m rid))))) \<and>
   counts_buf b' ! (i + q) = total_len dev ! j"
proof (induction xs arbitrary: i m b q)
  case Nil
  then show ?case by simp
next
  case (Cons x xs)
  obtain r0 j0 where x: "x = (r0, j0)" by (cases x)
  define m0 where "m0 = (if map_of m r0 = None
    then AList.update r0 (seed_row (ats dev ! j0) (total_len dev ! j0)) m else m)"
  define b0 where "b0 = b\<lparr>tail_buf := (tail_buf b)[i := write_prefix (tail_buf b ! i)
      (window_slice w (ats dev ! j0) (int (length (dict_or m0 r0 []))))],
    counts_buf := (counts_buf b)[i := total_len dev ! j0]\<rparr>"
  have src: "dict_or m0 r0 [] = seeded dev j0 (map_of m r0)"
    by (auto simp: m0_def seeded_def dict_or_def dict_simps split: option.splits)
  have rest: "enqueue_rows dev w (Suc i) xs (m0, b0) = Inr (m', b')"
    using Cons.prems(1) x by (auto simp: Let_def m0_def b0_def split: if_splits)
  show ?case
  proof (cases q)
    case 0
    then show ?thesis
      using Cons.prems x src enqueue_rows_frame(3)[OF rest, of i] by (simp add: b0_def)
  next
    case (Suc q')
    with Cons.prems have q': "q' < length xs" "xs ! q' = (rid, j)" by simp_all
    then have "rid \<in> fst ` set xs" by (metis fst_conv image_eqI nth_mem)
    with Cons.prems(2) x have "rid \<noteq> r0" by auto
    then have "map_of m0 rid = map_of m rid" by (simp add: m0_def dict_simps)
    moreover have "tail_buf b0 ! (Suc i + q') = tail_buf b ! (Suc i + q')" by (simp add: b0_def)
    ultimately show ?thesis
      using Cons.IH[OF rest _ q'] Cons.prems Suc by (simp add: b0_def)
  qed
qed

section \<open>One step of the mirror\<close>

text \<open>The staging buffers have one row of window width per staged request.\<close>

definition stg_ok :: "hook \<Rightarrow> bool" where
  "stg_ok st \<longleftrightarrow> (case staging st of None \<Rightarrow> True
     | Some b \<Rightarrow> 0 < win st \<and> length (tail_buf b) = stg_cap st \<and> length (counts_buf b) = stg_cap st \<and>
         length (sampled_buf b) = stg_cap st \<and> length (rejected_buf b) = stg_cap st \<and>
         (\<forall>t \<in> set (tail_buf b). length t = nat (win st)))"

lemma ensure_staging_ok:
  assumes "stg_ok st"
  shows "stg_ok (ensure_staging n rw st)" "staging (ensure_staging n rw st) \<noteq> None"
    "n \<le> stg_cap (ensure_staging n rw st) \<or> win (ensure_staging n rw st) \<le> 0"
    "0 < win (ensure_staging n rw st)" "mirror (ensure_staging n rw st) = mirror st"
  using assms by (auto simp: ensure_staging_def stg_ok_def Let_def fresh_staging_def split: option.splits)

lemma drop_gone_frame [simp]:
  "staging (drop_gone ids st) = staging st" "stg_cap (drop_gone ids st) = stg_cap st"
  "win (drop_gone ids st) = win st" "stg_ok (drop_gone ids st) = stg_ok st"
  "map_of (mirror (drop_gone ids st)) r = (if r \<in> set ids then map_of (mirror st) r else None)"
  by (auto simp: drop_gone_def Let_def stg_ok_def map_of_filter_key split: option.splits)

text \<open>Where a mirrored prefix ends up after one enqueue and absorb.\<close>

definition mirrored_after :: "int \<Rightarrow> token list \<Rightarrow> int \<Rightarrow> token list option \<Rightarrow> token list option" where
  "mirrored_after w row tot old =
     (let len = (case old of None \<Rightarrow> tot | Some t \<Rightarrow> int (length t))
      in if tot = 0 \<or> len + w < tot then None else Some (take (nat (max tot len)) row))"

lemma absorb_after_enqueue:
  assumes "0 < w" "0 \<le> tot" "tot \<le> int (length row)"
    and old: "\<And>t. old = Some t \<Longrightarrow> t = take (length t) row"
    and s: "s = (case old of None \<Rightarrow> seed_row row tot | Some t \<Rightarrow> t)"
    and buf: "length tb = nat w"
  shows "absorb_val w tot (write_prefix tb (window_slice w row (int (length s)))) (Some s)
           = mirrored_after w row tot old"
proof -
  define L where "L = int (length s)"
  have sL: "s = take (nat L) row \<and> L \<le> int (length row)"
  proof (cases old)
    case None
    with assms show ?thesis by (simp add: L_def seed_row_def)
  next
    case (Some t)
    then have "s = t" "t = take (length t) row" using s old by auto
    then have "length t \<le> length row" by (metis length_take min.cobounded1)
    with \<open>s = t\<close> \<open>t = take (length t) row\<close> show ?thesis by (simp add: L_def)
  qed
  have Leq: "L = (case old of None \<Rightarrow> tot | Some t \<Rightarrow> int (length t))"
    using assms by (auto simp: L_def seed_row_def split: option.splits)
  have wl: "length (window_slice w row L) \<le> nat w"
    using length_window_slice[of w row L] assms(1) by simp
  consider (reset) "tot \<le> L" | (over) "L + w < tot" | (grow) "L < tot" "tot \<le> L + w" by linarith
  then show ?thesis
  proof cases
    case reset
    then have "take (nat (max tot L)) row = s" using sL by (simp add: max_def)
    with reset Leq assms(1) show ?thesis
      by (simp add: absorb_val_def mirrored_after_def L_def[symmetric] Let_def)
  next
    case over
    with assms(1) show ?thesis
      by (simp add: absorb_val_def mirrored_after_def L_def[symmetric] Leq[symmetric] Let_def)
  next
    case grow
    have m: "nat (tot - L) \<le> length (window_slice w row L)"
      using grow assms(3) by (auto simp: window_slice_def Let_def slice_def L_def)
    then have "take (nat (tot - L)) (write_prefix tb (window_slice w row L))
                 = take (nat (tot - L)) (window_slice w row L)"
      using wl buf by (simp add: write_prefix_def)
    moreover have "s @ take (nat (tot - L)) (window_slice w row L) = take (nat tot) row"
    proof -
      have "0 \<le> L" by (simp add: L_def)
      then have "take (nat L) row @ take (nat (tot - L)) (window_slice w row L) = take (nat tot) row"
        using take_window_slice[of L tot row w] grow assms(3) by simp
      then show ?thesis using sL by argo
    qed
    moreover have "0 \<le> L" by (simp add: L_def)
    ultimately show ?thesis using grow
      by (simp add: absorb_val_def mirrored_after_def L_def[symmetric] Leq[symmetric] Let_def)
  qed
qed

lemma enqueue_absorb_val:
  assumes st: "stg_ok st" and e: "enqueue cuda dev ids idx ns nr k st = Inr st1"
    and d: "distinct ids" "length idx = length ids" "i < length ids"
    and row: "row = ats dev ! (idx ! i)" "tot = total_len dev ! (idx ! i)"
  shows "\<exists>tb. length tb = nat (win st1) \<and> map_of (mirror (absorb_pending st1)) (ids ! i) =
     (let s = seeded dev (idx ! i) (map_of (mirror st) (ids ! i))
      in absorb_val (win st1) tot (write_prefix tb (window_slice (win st1) row (int (length s)))) (Some s))"
proof -
  define se where "se = drop_gone ids (ensure_staging (max (length ids) 1) k st)"
  note en = ensure_staging_ok[OF st, of "max (length ids) 1" k]
  from en(2) obtain b where b: "staging se = Some b" by (auto simp: se_def)
  from e b obtain m b1 where er: "enqueue_rows dev (win se) 0 (zip ids idx) (mirror se, b) = Inr (m, b1)"
    and st1: "mirror st1 = m" "win st1 = win se"
      "\<exists>b2. staging st1 = Some b2 \<and> tail_buf b2 = tail_buf b1 \<and> counts_buf b2 = counts_buf b1"
      "pend st1 = (if cuda then AsyncPending ids else SyncPending)" "\<not> cuda \<Longrightarrow> sync_ids st1 = ids"
    unfolding enqueue_def Let_def se_def[symmetric] by (auto simp: rbind_eq_Inr)
  have w: "0 < win se" using en(4) by (simp add: se_def)
  have ok: "stg_ok se" and cap: "length ids \<le> stg_cap se" using en by (auto simp: se_def)
  with b have bl: "length (tail_buf b) = stg_cap se" "length (counts_buf b) = stg_cap se"
    "\<forall>t \<in> set (tail_buf b). length t = nat (win se)" by (auto simp: stg_ok_def)
  have dz: "distinct (map fst (zip ids idx))" using d by simp
  have zi: "zip ids idx ! i = (ids ! i, idx ! i)" "i < length (zip ids idx)" using d by simp_all
  have mo: "map_of (mirror se) (ids ! i) = map_of (mirror st) (ids ! i)"
    using d en(5) by (simp add: se_def)
  let ?s = "seeded dev (idx ! i) (map_of (mirror st) (ids ! i))"
  have bufs: "tail_buf b1 ! i = write_prefix (tail_buf b ! i) (window_slice (win se) row (int (length ?s)))"
    "counts_buf b1 ! i = tot"
    using enqueue_rows_bufs[OF er dz zi(2) zi(1)] d bl cap mo row by auto
  have len1: "length (tail_buf b1) = stg_cap se" "length (counts_buf b1) = stg_cap se"
    using enqueue_rows_frame(1,2)[OF er] bl by auto
  have m: "map_of m (ids ! i) = Some ?s"
    using enqueue_rows_mirror[OF er dz, of "ids ! i"] map_of_zip_at[of ids i idx] d mo by simp
  have zz: "map_of (zip ids (zip (counts_buf b1) (tail_buf b1))) (ids ! i) = Some (tot, tail_buf b1 ! i)"
    using map_of_zip_at[of ids i "zip (counts_buf b1) (tail_buf b1)"] d len1 cap bufs by simp
  have "mirror (absorb_pending st1) = absorb_rows (win se) (zip ids (zip (counts_buf b1) (tail_buf b1))) m"
    using st1 by (cases cuda) (auto simp: absorb_pending_def Let_def)
  moreover have "distinct (map fst (zip ids (zip (counts_buf b1) (tail_buf b1))))"
    using d by (simp add: distinct_fst_zip)
  ultimately have "map_of (mirror (absorb_pending st1)) (ids ! i)
      = absorb_val (win se) tot (tail_buf b1 ! i) (Some ?s)"
    by (simp add: map_of_absorb_rows zz m)
  moreover have "length (tail_buf b ! i) = nat (win se)" using d bl cap by auto
  ultimately show ?thesis unfolding bufs Let_def using st1 by auto
qed

lemma enqueue_win_pos: "stg_ok st \<Longrightarrow> enqueue cuda dev ids idx ns nr k st = Inr st1 \<Longrightarrow> 0 < win st1"
  using ensure_staging_ok(4)[of st "max (length ids) 1" k]
  by (auto simp: enqueue_def Let_def rbind_eq_Inr split: option.splits if_splits)

lemma enqueue_absorb_mirror:
  assumes st: "stg_ok st" and e: "enqueue cuda dev ids idx ns nr k st = Inr st1"
    and d: "distinct ids" "length idx = length ids" "i < length ids"
    and row: "row = ats dev ! (idx ! i)" "tot = total_len dev ! (idx ! i)"
    and tot: "0 \<le> tot" "tot \<le> int (length row)"
    and old: "\<And>t. map_of (mirror st) (ids ! i) = Some t \<Longrightarrow> t = take (length t) row"
  shows "map_of (mirror (absorb_pending st1)) (ids ! i)
           = mirrored_after (win st1) row tot (map_of (mirror st) (ids ! i))"
proof -
  let ?s = "seeded dev (idx ! i) (map_of (mirror st) (ids ! i))"
  from enqueue_absorb_val[OF st e d row] obtain tb where tb: "length tb = nat (win st1)"
    and ab: "map_of (mirror (absorb_pending st1)) (ids ! i)
      = absorb_val (win st1) tot (write_prefix tb (window_slice (win st1) row (int (length ?s)))) (Some ?s)"
    by (auto simp: Let_def)
  note ab
  also have "\<dots> = mirrored_after (win st1) row tot (map_of (mirror st) (ids ! i))"
    using enqueue_win_pos[OF st e] tot old tb row
    by (intro absorb_after_enqueue) (auto simp: seeded_def)
  finally show ?thesis .
qed

text \<open>A total below what is mirrored, but not zero, leaves the mirrored tokens as they are.\<close>

lemma enqueue_absorb_shrunk:
  assumes st: "stg_ok st" and e: "enqueue cuda dev ids idx ns nr k st = Inr st1"
    and d: "distinct ids" "length idx = length ids" "i < length ids"
    and tot: "0 < total_len dev ! (idx ! i)" "total_len dev ! (idx ! i) \<le> int (length t)"
    and old: "map_of (mirror st) (ids ! i) = Some t"
  shows "map_of (mirror (absorb_pending st1)) (ids ! i) = Some t"
proof -
  have "seeded dev (idx ! i) (map_of (mirror st) (ids ! i)) = t" by (simp add: seeded_def old)
  with enqueue_absorb_val[OF st e d refl refl] tot show ?thesis
    by (auto simp: Let_def absorb_val_def)
qed

section \<open>A run of steps\<close>

record mirror_in =
  m_dev :: device
  m_ids :: "rid list"
  m_idx :: "nat list"
  m_sampled :: "int list"
  m_rejected :: "int list"
  m_k :: int

text \<open>Enqueue a step's copies and absorb them; on a GPU the absorb opens the next step.\<close>

definition mirror_step :: "bool \<Rightarrow> mirror_in \<Rightarrow> hook \<Rightarrow> hook res" where
  "mirror_step cuda x st =
     rbind (enqueue cuda (m_dev x) (m_ids x) (m_idx x) (m_sampled x) (m_rejected x) (m_k x) st)
       (\<lambda>st'. Inr (absorb_pending st'))"

fun mirror_run :: "bool \<Rightarrow> mirror_in list \<Rightarrow> hook \<Rightarrow> hook res" where
  "mirror_run cuda [] st = Inr st"
| "mirror_run cuda (x # xs) st = rbind (mirror_step cuda x st) (mirror_run cuda xs)"

text \<open>The committed history of a request, as the device holds it in a step.\<close>

definition hist_of :: "mirror_in \<Rightarrow> rid \<Rightarrow> token list option" where
  "hist_of x r = (case map_of (zip (m_ids x) (m_idx x)) r of
      None \<Rightarrow> None
    | Some j \<Rightarrow> Some (take (nat (total_len (m_dev x) ! j)) (ats (m_dev x) ! j)))"

definition step_ok :: "mirror_in \<Rightarrow> bool" where
  "step_ok x \<longleftrightarrow> distinct (m_ids x) \<and> length (m_idx x) = length (m_ids x) \<and>
     (\<forall>j \<in> set (m_idx x). j < length (ats (m_dev x)) \<and> j < length (total_len (m_dev x)) \<and>
        0 < total_len (m_dev x) ! j \<and> total_len (m_dev x) ! j \<le> int (length (ats (m_dev x) ! j)))"

text \<open>
  A request that stays live only grows, by at most \<open>w\<close> tokens a step. The first argument is the
  history before the steps.
\<close>

definition grows_to :: "nat \<Rightarrow> token list option \<Rightarrow> token list option \<Rightarrow> bool" where
  "grows_to w old new = (case (old, new) of
      (Some h, Some h') \<Rightarrow> h = take (length h) h' \<and> length h' \<le> length h + w
    | _ \<Rightarrow> True)"

fun history_chain :: "nat \<Rightarrow> (rid \<Rightarrow> token list option) \<Rightarrow> mirror_in list \<Rightarrow> bool" where
  "history_chain w h [] = True"
| "history_chain w h (x # xs) =
     (step_ok x \<and> list_all (\<lambda>r. grows_to w (h r) (hist_of x r)) (m_ids x) \<and> history_chain w (hist_of x) xs)"

lemma enqueue_rows_total:
  "(\<forall>(r, j) \<in> set xs. j < length (ats dev) \<and> j < length (total_len dev)) \<Longrightarrow>
   \<exists>mb'. enqueue_rows dev w i xs mb = Inr mb'"
proof (induction xs arbitrary: i mb)
  case Nil
  then show ?case by simp
next
  case (Cons x xs)
  then show ?case by (cases mb; cases x) (auto simp: Let_def)
qed

lemma mirror_step_total: "step_ok x \<Longrightarrow> stg_ok st \<Longrightarrow> \<exists>st'. mirror_step cuda x st = Inr st'"
proof -
  assume x: "step_ok x" and st: "stg_ok st"
  define se where "se = drop_gone (m_ids x) (ensure_staging (max (length (m_ids x)) 1) (m_k x) st)"
  from ensure_staging_ok(2)[OF st] obtain b where b: "staging se = Some b" by (auto simp: se_def)
  have "\<forall>(r, j) \<in> set (zip (m_ids x) (m_idx x)). j < length (ats (m_dev x)) \<and> j < length (total_len (m_dev x))"
    using x by (auto simp: step_ok_def dest: set_zip_rightD)
  from enqueue_rows_total[OF this] obtain mb where
    "enqueue_rows (m_dev x) (win se) 0 (zip (m_ids x) (m_idx x)) (mirror se, b) = Inr mb" by blast
  with b show ?thesis
    unfolding mirror_step_def enqueue_def Let_def se_def[symmetric] by (cases mb) simp
qed

lemma all_list_update:
  "\<forall>t \<in> set xs. P t \<Longrightarrow> (i < length xs \<Longrightarrow> P y) \<Longrightarrow> \<forall>t \<in> set (xs[i := y]). P t"
  by (induction xs arbitrary: i) (auto split: nat.split)

lemma enqueue_rows_widths:
  "enqueue_rows dev w i xs (m, b) = Inr (m', b') \<Longrightarrow> 0 \<le> w \<Longrightarrow>
   \<forall>t \<in> set (tail_buf b). length t = nat w \<Longrightarrow> \<forall>t \<in> set (tail_buf b'). length t = nat w"
proof (induction xs arbitrary: i m b)
  case Nil
  then show ?case by simp
next
  case (Cons x xs)
  obtain rid j where x: "x = (rid, j)" by (cases x)
  let ?m = "if map_of m rid = None then AList.update rid (seed_row (ats dev ! j) (total_len dev ! j)) m else m"
  let ?src = "window_slice w (ats dev ! j) (int (length (dict_or ?m rid [])))"
  let ?b = "b\<lparr>tail_buf := (tail_buf b)[i := write_prefix (tail_buf b ! i) ?src],
      counts_buf := (counts_buf b)[i := total_len dev ! j]\<rparr>"
  have tb: "tail_buf ?b = (tail_buf b)[i := write_prefix (tail_buf b ! i) ?src]" by simp
  have "\<forall>t \<in> set (tail_buf ?b). length t = nat w"
    unfolding tb using Cons.prems(3)
    by (rule all_list_update) (metis Cons.prems(3) length_write_prefix nth_mem)
  moreover have "enqueue_rows dev w (Suc i) xs (?m, ?b) = Inr (m', b')"
    using Cons.prems(1) unfolding x enqueue_rows.simps Let_def
    by (cases "j < length (ats dev) \<and> j < length (total_len dev)")
      (simp_all only: if_True if_False sum.distinct simp_thms)
  ultimately show ?case using Cons.IH Cons.prems(2) by blast
qed

lemma enqueue_frame:
  assumes e: "enqueue cuda dev ids idx ns nr k st = Inr st1" and st: "stg_ok st"
  shows "stg_ok st1" "win st1 = win (ensure_staging (max (length ids) 1) k st)"
    "pend st1 = (if cuda then AsyncPending ids else SyncPending)" "\<not> cuda \<Longrightarrow> sync_ids st1 = ids"
    "r \<notin> set ids \<Longrightarrow> distinct ids \<Longrightarrow> length idx = length ids \<Longrightarrow> map_of (mirror st1) r = None"
proof -
  define se where "se = drop_gone ids (ensure_staging (max (length ids) 1) k st)"
  note en = ensure_staging_ok[OF st, of "max (length ids) 1" k]
  from en(2) obtain b where b: "staging se = Some b" by (auto simp: se_def)
  with e obtain m b1 where er: "enqueue_rows dev (win se) 0 (zip ids idx) (mirror se, b) = Inr (m, b1)"
    and st1: "st1 = (let n = length ids;
                   b'' = b1\<lparr>sampled_buf := write_prefix (sampled_buf b1) (take n ns),
                            rejected_buf := write_prefix (rejected_buf b1) (take n nr)\<rparr>;
                   st' = se\<lparr>mirror := m, staging := Some b''\<rparr>
               in if cuda then st'\<lparr>pend := AsyncPending ids\<rparr>
                  else st'\<lparr>sync_ids := ids, pend := SyncPending\<rparr>)"
    unfolding enqueue_def Let_def se_def[symmetric] by (auto simp: rbind_eq_Inr)
  have ok: "stg_ok se" using en(1) by (simp add: se_def)
  show "win st1 = win (ensure_staging (max (length ids) 1) k st)"
    by (simp add: st1 Let_def se_def)
  show "stg_ok st1"
    using ok b enqueue_rows_frame_all[OF er] enqueue_rows_widths[OF er]
    by (simp add: stg_ok_def st1 Let_def slice_simps)
  show "pend st1 = (if cuda then AsyncPending ids else SyncPending)" "\<not> cuda \<Longrightarrow> sync_ids st1 = ids"
    by (simp_all add: st1 Let_def)
  assume r: "r \<notin> set ids" and d: "distinct ids" "length idx = length ids"
  then have "map_of (zip ids idx) r = None" by (simp add: map_of_zip_is_None)
  with enqueue_rows_mirror[OF er, of r] r d show "map_of (mirror st1) r = None"
    by (simp add: st1 Let_def se_def)
qed

lemma absorb_pending_frame:
  "stg_ok (absorb_pending st) = stg_ok st" "win (absorb_pending st) = win st"
  by (auto simp: absorb_pending_def stg_ok_def Let_def split: pending.split option.split)

lemma absorb_rows_none: "map_of m r = None \<Longrightarrow> map_of (absorb_rows w xs m) r = None"
proof (induction xs arbitrary: m)
  case Nil
  then show ?case by simp
next
  case (Cons x xs)
  obtain rid n t where "x = (rid, n, t)" by (cases x) auto
  with Cons show ?case by (cases "r = rid") (simp_all add: map_of_absorb_row absorb_val_def)
qed

lemma absorb_pending_none:
  "map_of (mirror st) r = None \<Longrightarrow> map_of (mirror (absorb_pending st)) r = None"
  by (auto simp: absorb_pending_def Let_def absorb_rows_none split: pending.split option.split)

lemma win_ensure: "0 < win st \<Longrightarrow> win (ensure_staging n rw st) = win st"
  by (simp add: ensure_staging_def Let_def)

text \<open>A growing history of positive length is mirrored exactly.\<close>

lemma mirrored_after_grows:
  assumes "0 < tot" "tot \<le> int (length row)" "grows_to (nat w) old (Some (take (nat tot) row))" "0 < w"
  shows "mirrored_after w row tot old = Some (take (nat tot) row)"
proof (cases old)
  case None
  with assms show ?thesis by (simp add: mirrored_after_def)
next
  case (Some t)
  with assms have t: "t = take (length t) (take (nat tot) row)" "min (length row) (nat tot) \<le> length t + nat w"
    by (simp_all add: grows_to_def)
  have "length t \<le> nat tot" using arg_cong[OF t(1), of length] assms(2) by simp
  with Some t assms show ?thesis by (simp add: mirrored_after_def Let_def)
qed

lemma mirror_step_exact:
  assumes x: "step_ok x" and st: "stg_ok st" and w: "win st = int w" "0 < w"
    and old: "\<And>r. map_of (mirror st) r = h r"
    and g: "list_all (\<lambda>r. grows_to w (h r) (hist_of x r)) (m_ids x)"
    and s: "mirror_step cuda x st = Inr st'"
  shows "stg_ok st' \<and> win st' = int w \<and> (\<forall>r. map_of (mirror st') r = hist_of x r)"
proof -
  from s obtain st1 where e: "enqueue cuda (m_dev x) (m_ids x) (m_idx x) (m_sampled x) (m_rejected x) (m_k x) st = Inr st1"
    and st': "st' = absorb_pending st1"
    by (auto simp: mirror_step_def rbind_eq_Inr)
  have win: "win st1 = int w" using enqueue_frame(2)[OF e st] w win_ensure by simp
  have d: "distinct (m_ids x)" "length (m_idx x) = length (m_ids x)" using x by (auto simp: step_ok_def)
  have live: "map_of (mirror st') (m_ids x ! i) = hist_of x (m_ids x ! i)" if i: "i < length (m_ids x)" for i
  proof -
    let ?r = "m_ids x ! i" and ?row = "ats (m_dev x) ! (m_idx x ! i)" and ?tot = "total_len (m_dev x) ! (m_idx x ! i)"
    have t: "0 < ?tot" "?tot \<le> int (length ?row)" using x i d by (auto simp: step_ok_def)
    have hx: "hist_of x ?r = Some (take (nat ?tot) ?row)"
      using map_of_zip_at[of "m_ids x" i "m_idx x"] d i by (simp add: hist_of_def)
    have gr: "grows_to w (h ?r) (Some (take (nat ?tot) ?row))"
      using g i hx unfolding list_all_length by metis
    have o: "t = take (length t) ?row" if "map_of (mirror st) ?r = Some t" for t
    proof -
      from gr that old t have "t = take (length t) (take (nat ?tot) ?row)" by (simp add: grows_to_def)
      then show ?thesis by (metis take_take min.absorb_iff1 length_take min.cobounded1 min.commute)
    qed
    have "map_of (mirror st') ?r = mirrored_after (win st1) ?row ?tot (map_of (mirror st) ?r)"
      unfolding st' by (rule enqueue_absorb_mirror[OF st e d i refl refl _ t(2) o]) (use t in auto)
    also have "\<dots> = Some (take (nat ?tot) ?row)"
      using mirrored_after_grows[OF t, of "int w" "h ?r"] gr w old win by simp
    finally show ?thesis using hx by simp
  qed
  have "map_of (mirror st') r = hist_of x r" for r
  proof (cases "r \<in> set (m_ids x)")
    case True
    then show ?thesis using live by (auto simp: in_set_conv_nth)
  next
    case False
    then have "map_of (zip (m_ids x) (m_idx x)) r = None" using d by (simp add: map_of_zip_is_None)
    then have "hist_of x r = None" by (simp add: hist_of_def)
    with False enqueue_frame(5)[OF e st False d] show ?thesis
      by (simp add: st' absorb_pending_none)
  qed
  with enqueue_frame(1)[OF e st] win show ?thesis by (simp add: st' absorb_pending_frame)
qed

lemma mirror_run_exact:
  "history_chain w h (xs @ [x]) \<Longrightarrow> stg_ok st \<Longrightarrow> win st = int w \<Longrightarrow> 0 < w \<Longrightarrow>
   (\<And>r. map_of (mirror st) r = h r) \<Longrightarrow>
   \<exists>st'. mirror_run cuda (xs @ [x]) st = Inr st' \<and> (\<forall>r. map_of (mirror st') r = hist_of x r)"
proof (induction xs arbitrary: h st)
  case Nil
  from Nil mirror_step_total[of x st cuda] obtain st' where "mirror_step cuda x st = Inr st'" by auto
  with Nil mirror_step_exact[of x st w h cuda st'] show ?case by auto
next
  case (Cons y xs)
  from Cons.prems mirror_step_total[of y st cuda] obtain st' where y: "mirror_step cuda y st = Inr st'"
    by auto
  with Cons.prems mirror_step_exact[of y st w h cuda st']
  have "stg_ok st'" "win st' = int w" "\<And>r. map_of (mirror st') r = hist_of y r" by auto
  with Cons.IH[of "hist_of y" st'] Cons.prems y show ?case by simp
qed

section \<open>Properties\<close>

text \<open>Whatever \<open>np.empty\<close> leaves in the buffers, a row that was created with some tokens and
  extended piece by piece shows exactly their concatenation.\<close>

theorem row_buffer_appends:
  "row_view (row_extends junk (row_init junk toks) pieces) = toks @ concat pieces"
  by (simp add: row_view_extends row_ok_init row_view_init)

text \<open>C1: while the histories of the requests that stay live only grow, by at most the copy window
  (\<open>k + 2\<close> tokens) a step, the mirror never errs and after every step holds exactly the committed
  history of every live request and nothing else; requests may join, leave, come back and change
  rows at any step.\<close>

theorem mirror_tracks_history:
  assumes "0 < k" and "history_chain (nat (k + 2)) (\<lambda>_. None) (xs @ [x])"
  shows "\<exists>st. mirror_run cuda (xs @ [x]) (hook_init k) = Inr st \<and> (\<forall>r. map_of (mirror st) r = hist_of x r)"
  using assms by (intro mirror_run_exact) (auto simp: hook_init_def stg_ok_def)

definition demo_step :: "token list \<Rightarrow> rid list \<Rightarrow> mirror_in" where
  "demo_step row ids = \<lparr>m_dev = \<lparr>ats = [row @ [0, 0], [7, 7]], total_len = [int (length row), 2]\<rparr>,
     m_ids = ids, m_idx = [0 ..< length ids], m_sampled = [], m_rejected = [], m_k = 1\<rparr>"

lemma mirror_tracks_history_witness:
  "\<exists>st. mirror_run True [demo_step [1, 2] [''a'', ''b''], demo_step [1, 2, 3, 4] [''a'']] (hook_init 1) = Inr st
     \<and> (\<forall>r. map_of (mirror st) r = hist_of (demo_step [1, 2, 3, 4] [''a'']) r)"
proof -
  have c: "history_chain (nat (1 + 2)) (\<lambda>_. None)
      ([demo_step [1, 2] [''a'', ''b'']] @ [demo_step [1, 2, 3, 4] [''a'']])"
    by (simp add: demo_step_def step_ok_def hist_of_def grows_to_def upt_rec)
  show ?thesis
    using mirror_tracks_history[OF _ c, of True] by simp
qed

text \<open>A row that is reset to a shorter, non-empty history is not mirrored again: whatever the
  device row now holds, the mirror keeps the tokens of the old one (the comments of
  \<open>_absorb_pending\<close> expect a reset row to be re-seeded).\<close>

theorem reset_row_stays_stale:
  assumes "stg_ok st" and "enqueue cuda dev ids idx ns nr k st = Inr st1"
    and "distinct ids" and "length idx = length ids" and "i < length ids"
    and "0 < total_len dev ! (idx ! i)" and "total_len dev ! (idx ! i) \<le> int (length t)"
    and "map_of (mirror st) (ids ! i) = Some t"
  shows "map_of (mirror (absorb_pending st1)) (ids ! i) = Some t"
  using assms by (rule enqueue_absorb_shrunk)

definition demo_reset :: hook where
  "demo_reset = (hook_init 1)\<lparr>mirror := [(''a'', [1, 2, 3])]\<rparr>"

lemma reset_row_stays_stale_witness:
  "(case enqueue False \<lparr>ats = [[9, 8, 0]], total_len = [2]\<rparr> [''a''] [0] [] [] 1 demo_reset of
      Inl _ \<Rightarrow> False | Inr st1 \<Rightarrow> map_of (mirror (absorb_pending st1)) ''a'' = Some [1, 2, 3])"
proof -
  let ?dev = "\<lparr>ats = [[9, 8, 0]], total_len = [2]\<rparr> :: device"
  obtain st1 where e: "enqueue False ?dev [''a''] [0] [] [] 1 demo_reset = Inr st1"
    by (simp add: enqueue_def ensure_staging_def fresh_staging_def drop_gone_def demo_reset_def hook_init_def Let_def)
  have "stg_ok demo_reset" by (simp add: stg_ok_def demo_reset_def hook_init_def)
  from reset_row_stays_stale[OF this e, of 0 "[1, 2, 3]"] e show ?thesis
    by (simp add: demo_reset_def)
qed

end
