(* ===== verification/NativeHook.thy ===== *)
theory NativeHook
  imports HistoryMirror
begin

text \<open>
  The V2 hook around the native drafter (\<open>suffix_hybrid/wrap_v2.py\<close>): \<open>_sync_body\<close>,
  \<open>_wrap_propose_sync\<close> and \<open>_wrap_propose\<close> with its closures, over the mirror of
  \<open>HistoryMirror\<close>. The native drafter's rows are an input of the step; the Rust mixer is the
  record \<open>mixer\<close> of functions the hook calls, over its own state \<open>'m\<close>, and every statement
  below holds for every mixer. Timers, log lines and their counters of elapsed time are left out.
\<close>

section \<open>The hook's surroundings\<close>

record hook_cfg =
  probabilistic :: bool
  verifier_win :: bool
  split_diverge :: bool
  zero_op :: bool
  cuda :: bool
  world_size :: int
  rank :: nat

text \<open>
  \<open>HybridMixer\<close>: \<open>mix_numpy(ids, counts, history, native, accepted)\<close>, \<open>cache_tokens()\<close>,
  whether it exposes \<open>suffix_cache\<close>, and the tokens \<open>suffix_cache.speculate(tail, w)\<close> proposes.
\<close>

record 'm mixer =
  mx_mix :: "rid list \<Rightarrow> int list \<Rightarrow> token list list \<Rightarrow> token list list \<Rightarrow> int list \<Rightarrow> 'm \<Rightarrow>
             token list list res \<times> 'm"
  mx_tokens :: "'m \<Rightarrow> int res"
  mx_has_cache :: "'m \<Rightarrow> bool"
  mx_speculate :: "'m \<Rightarrow> token list \<Rightarrow> int \<Rightarrow> token list res"

text \<open>The arguments of one \<open>propose\<close> call, with the native rows and their width.\<close>

record step_in =
  req_ids :: "rid list"
  idx_mapping :: "nat list"
  lut :: "(rid, nat) dict option"
  num_sampled :: "int list"
  num_rejected :: "int list"
  temperature :: "rat list"
  native :: "token list list"
  native_k :: nat
  is_dummy :: bool

text \<open>
  What a rank does with the rows: return them, or hand them to \<open>group.broadcast(.., src=0)\<close>,
  which on rank 0 returns them and on every other rank returns rank 0's rows. \<open>rows_of\<close> are the
  rows the rank returns or hands in; what it receives is \<open>deliver\<close> of the whole group below.
\<close>

datatype outcome = Local "token list list" | Collective "token list list"

fun rows_of :: "outcome \<Rightarrow> token list list" where
  "rows_of (Local r) = r"
| "rows_of (Collective r) = r"

fun is_collective :: "outcome \<Rightarrow> bool" where
  "is_collective (Local _) = False"
| "is_collective (Collective _) = True"

section \<open>Switches read at every step\<close>

definition tp_mode :: "environ \<Rightarrow> string" where
  "tp_mode e = (let v = py_strip (env_get e ''SUFFIX_HYBRID_TP_MODE'' ''broadcast'')
                in if v = [] then ''broadcast'' else v)"

definition replay :: "environ \<Rightarrow> bool" where
  "replay e \<longleftrightarrow> tp_mode e = ''replay''"

definition can_skip_collective :: "hook_cfg \<Rightarrow> environ \<Rightarrow> bool" where
  "can_skip_collective c e \<longleftrightarrow> world_size c \<le> 1 \<or> replay e"

definition native_out :: "hook_cfg \<Rightarrow> environ \<Rightarrow> token list list \<Rightarrow> outcome" where
  "native_out c e nat_rows = (if can_skip_collective c e then Local nat_rows else Collective nat_rows)"

definition cache_n_gram :: "environ \<Rightarrow> int" where
  "cache_n_gram e = (case env_int e ''SUFFIX_HYBRID_INDEX_N'' ''8'' of None \<Rightarrow> 8 | Some n \<Rightarrow> n)"

definition probe_heartbeat :: "environ \<Rightarrow> int" where
  "probe_heartbeat e =
     (case env_int e ''SUFFIX_HYBRID_PROBE_HEARTBEAT'' ''8'' of None \<Rightarrow> 8 | Some n \<Rightarrow> n)"

definition probe_cooldown :: "environ \<Rightarrow> int" where
  "probe_cooldown e =
     (case env_int e ''SUFFIX_HYBRID_PROBE_COOLDOWN'' ''4'' of None \<Rightarrow> 4 | Some n \<Rightarrow> n)"

definition probe_depth_min :: "environ \<Rightarrow> int \<times> int" where
  "probe_depth_min e =
     (case (env_int e ''SUFFIX_HYBRID_PROBE_DEPTH'' ''64'', env_int e ''SUFFIX_HYBRID_PROBE_MIN_LEN'' ''2'') of
        (Some d, Some m) \<Rightarrow> (d, m)
      | _ \<Rightarrow> (64, 2))"

definition hb_due :: "int \<Rightarrow> nat \<Rightarrow> bool" where
  "hb_due hb steps \<longleftrightarrow> 0 < hb \<and> int steps mod hb = 0"

section \<open>Verification feedback\<close>

text \<open>
  The accepted draft length of one request, from the sampler's counts and the width published
  last time; -1 where the counts do not describe a verification of that width.
\<close>

definition accepted_len :: "int \<Rightarrow> int \<Rightarrow> int \<Rightarrow> int" where
  "accepted_len previous ns nr =
     (let a = ns - 1; verified = ns + nr - 1
      in if ns > 0 \<and> nr \<ge> 0 \<and> 0 < verified \<and> verified \<le> previous \<and> 0 \<le> a \<and> a \<le> verified
            \<and> (a < verified \<or> verified = previous)
         then a else -1)"

definition accepted_lengths :: "(rid, nat) dict \<Rightarrow> rid list \<Rightarrow> int list \<Rightarrow> int list \<Rightarrow> int list" where
  "accepted_lengths prev ids sampled rejected =
     map (\<lambda>(r, ns, nr). accepted_len (int (dict_or prev r 0)) ns nr) (zip ids (zip sampled rejected))"

definition greedy_rows :: "hook_cfg \<Rightarrow> rat list \<Rightarrow> nat list \<Rightarrow> bool list option res" where
  "greedy_rows c temps idx =
     (if \<not> probabilistic c then Inr None
      else if list_all (\<lambda>j. j < length temps) idx then Inr (Some (map (\<lambda>j. temps ! j = 0) idx))
      else Inl IndexError)"

definition check_widths :: "token list list \<Rightarrow> nat \<Rightarrow> unit res" where
  "check_widths mixed k = (if \<exists>row \<in> set mixed. k < length row then Inl ValueError else Inr ())"

section \<open>The synchronous body\<close>

text \<open>
  \<open>_sync_body.run\<close> on this rank: the owner reads totals and history through \<open>idx_mapping\<close>,
  mixes, and writes each mixed row over the head of the native one.
\<close>

definition sync_row :: "bool list option \<Rightarrow> nat \<Rightarrow> token list \<Rightarrow> token list \<Rightarrow> token list" where
  "sync_row g i row nat_row =
     (if row \<noteq> [] \<and> (case g of None \<Rightarrow> True | Some bs \<Rightarrow> bs ! i) then write_prefix nat_row row else nat_row)"

definition write_rows :: "bool list option \<Rightarrow> token list list \<Rightarrow> token list list \<Rightarrow> token list list" where
  "write_rows g mixed nat_rows =
     map (\<lambda>i. if i < length mixed then sync_row g i (mixed ! i) (nat_rows ! i) else nat_rows ! i)
       [0..<length nat_rows]"

text \<open>
  The same write as the two bodies perform it, on a clone of the native rows: \<open>eff_rows\<close> are the
  rows the greedy mask lets through, \<open>mask_ok\<close> says the mask is read in range. The assignment
  \<open>output[i, :len(row)] = torch.tensor(row)\<close> raises for a row index out of range, and for a row
  that does not fit, a single token excepted, which torch would broadcast into an empty slice.
\<close>

definition eff_rows :: "bool list option \<Rightarrow> token list list \<Rightarrow> token list list" where
  "eff_rows g mixed =
     map (\<lambda>i. if mixed ! i \<noteq> [] \<and> (case g of None \<Rightarrow> True | Some bs \<Rightarrow> bs ! i) then mixed ! i else [])
       [0..<length mixed]"

definition mask_ok :: "bool list option \<Rightarrow> token list list \<Rightarrow> bool" where
  "mask_ok g mixed \<longleftrightarrow> (case g of None \<Rightarrow> True
     | Some bs \<Rightarrow> \<forall>i < length mixed. mixed ! i \<noteq> [] \<longrightarrow> i < length bs)"

definition assign_row :: "token list \<Rightarrow> token list \<Rightarrow> token list res" where
  "assign_row nat_row row =
     (if length row \<le> length nat_row \<or> length row = 1 then Inr (write_prefix nat_row row)
      else Inl RuntimeError)"

fun assign_rows :: "token list list \<Rightarrow> token list list \<Rightarrow> token list list res" where
  "assign_rows [] out = Inr out"
| "assign_rows (row # rows) [] = (if row = [] then assign_rows rows [] else Inl IndexError)"
| "assign_rows (row # rows) (nat_row # out) =
     (case (if row = [] then Inr nat_row else assign_row nat_row row) of
        Inl err \<Rightarrow> Inl err
      | Inr r \<Rightarrow> (case assign_rows rows out of Inl err \<Rightarrow> Inl err | Inr rs \<Rightarrow> Inr (r # rs)))"

text \<open>
  The source checks the width of a row just before it writes it; a raise throws the clone away and
  every exception takes the same handler, so the checks stand before the writes here.
\<close>

definition sync_run :: "hook_cfg \<Rightarrow> 'm mixer \<Rightarrow> device \<Rightarrow> step_in \<Rightarrow> hook \<times> 'm \<Rightarrow>
    outcome res \<times> hook \<times> 'm" where
  "sync_run c mx dev inp = (\<lambda>(st, m).
     if rank c \<noteq> 0 then (Inr (Collective (native inp)), st, m)
     else if \<not> list_all (\<lambda>j. j < length (ats dev) \<and> j < length (total_len dev)) (idx_mapping inp)
       then (Inl IndexError, st, m)
     else
       let ids = req_ids inp;
           counts = map (\<lambda>j. total_len dev ! j) (idx_mapping inp);
           width = (if counts = [] then 0 else Max (set counts))
       in if width \<le> 0 then (Inr (Collective (native inp)), st, m)
          else
            let history = map (\<lambda>j. take (nat width) (ats dev ! j)) (idx_mapping inp)
            in case greedy_rows c (temperature inp) (idx_mapping inp) of
                 Inl e \<Rightarrow> (Inl e, st, m)
               | Inr g \<Rightarrow>
                   let accepted = accepted_lengths (prev_widths st) ids (num_sampled inp) (num_rejected inp)
                   in (case mx_mix mx ids counts history (native inp) accepted m of
                         (Inl e, m') \<Rightarrow> (Inl e, st, m')
                       | (Inr mixed, m') \<Rightarrow>
                           (case check_widths mixed (native_k inp) of
                              Inl e \<Rightarrow> (Inl e, st, m')
                            | Inr _ \<Rightarrow>
                                if \<not> mask_ok g mixed then (Inl IndexError, st, m')
                                else (case assign_rows (eff_rows g mixed) (native inp) of
                                        Inl e \<Rightarrow> (Inl e, st, m')
                                      | Inr out \<Rightarrow>
                                          (Inr (Collective out),
                                           st\<lparr>prev_widths := dict_updates [] (zip ids (map length mixed)),
                                              n_mixes := Suc (n_mixes st)\<rparr>, m')))))"

text \<open>\<open>_wrap_propose_sync.propose\<close>: dummy calls and any error return the native rows.\<close>

definition propose_sync :: "hook_cfg \<Rightarrow> 'm mixer \<Rightarrow> device \<Rightarrow> step_in \<Rightarrow> hook \<times> 'm \<Rightarrow>
    outcome \<times> hook \<times> 'm" where
  "propose_sync c mx dev inp s =
     (if is_dummy inp then (Local (native inp), s)
      else case sync_run c mx dev inp s of
             (Inr out, s') \<Rightarrow> (out, s')
           | (Inl _, st, m) \<Rightarrow> (Local (native inp), st\<lparr>n_skips := Suc (n_skips st)\<rparr>, m))"

section \<open>The fast body: mixing from the mirror\<close>

definition mirror_counts :: "(rid, token list) dict \<Rightarrow> rid list \<Rightarrow> int list" where
  "mirror_counts mir ids =
     (let cs = map (\<lambda>r. int (length (dict_or mir r []))) ids in if cs = [] then [0] else cs)"

definition mirror_history :: "(rid, token list) dict \<Rightarrow> rid list \<Rightarrow> token list list" where
  "mirror_history mir ids =
     (let w = nat (max (Max (set (mirror_counts mir ids))) 1);
          row = (\<lambda>r. write_prefix (replicate w 0) (dict_or mir r []))
      in if ids = [] then [replicate w 0] else map row ids)"

text \<open>The \<open>SUFFIX_HYBRID_VERIFIER_WIN\<close> settlement of last step's published differences.\<close>

fun settle_wins :: "(rid \<times> int) list \<Rightarrow> (rid, nat) dict \<times> (rid, bool) dict \<Rightarrow>
    (rid, nat) dict \<times> (rid, bool) dict" where
  "settle_wins [] gp = gp"
| "settle_wins ((r, a) # rest) (g, pw) =
     (if map_of pw r \<noteq> None
      then settle_wins rest
        (if a = -1 then g
         else if a \<ge> 1 then AList.update r 0 g
         else AList.update r (Suc (dict_or g r 0)) g,
         AList.delete r pw)
      else settle_wins rest (g, pw))"

definition settle :: "hook_cfg \<Rightarrow> rid list \<Rightarrow> int list \<Rightarrow> hook \<Rightarrow> hook" where
  "settle c ids accepted st =
     (if verifier_win c \<and> pending_wins st \<noteq> []
      then let (g, pw) = settle_wins (zip ids accepted) (gate st, pending_wins st)
           in st\<lparr>gate := g, pending_wins := filter (\<lambda>(r, _). r \<in> set ids) pw\<rparr>
      else st)"

definition mix_from_mirror :: "hook_cfg \<Rightarrow> 'm mixer \<Rightarrow> step_in \<Rightarrow> nat list \<Rightarrow> hook \<times> 'm \<Rightarrow>
    (token list list \<times> bool list option) res \<times> hook \<times> 'm" where
  "mix_from_mirror c mx inp idx = (\<lambda>(st0, m).
     let ids = req_ids inp; n = length ids;
         st = (if split_diverge c then absorb_pending st0 else st0);
         sampled = (case staging st of None \<Rightarrow> [] | Some b \<Rightarrow> take n (sampled_buf b));
         rejected = (case staging st of None \<Rightarrow> [] | Some b \<Rightarrow> take n (rejected_buf b))
     in case greedy_rows c (temperature inp) idx of
          Inl e \<Rightarrow> (Inl e, st, m)
        | Inr g \<Rightarrow>
            let accepted = accepted_lengths (prev_widths st) ids sampled rejected;
                st' = settle c ids accepted st
            in (case mx_mix mx ids (mirror_counts (mirror st) ids) (mirror_history (mirror st) ids)
                       (native inp) accepted m of
                  (Inl e, m') \<Rightarrow> (Inl e, st', m')
                | (Inr mixed, m') \<Rightarrow>
                    (case check_widths mixed (native_k inp) of
                       Inl e \<Rightarrow> (Inl e, st', m')
                     | Inr _ \<Rightarrow> (Inr (mixed, g), st', m'))))"

section \<open>Publishing\<close>

definition differs :: "token list \<Rightarrow> token list \<Rightarrow> bool" where
  "differs row nat_row \<longleftrightarrow> row \<noteq> [] \<and> row \<noteq> take (length row) nat_row"

text \<open>The miss counters: \<open>(rid, effective row, native row)\<close> in batch order.\<close>

fun note_gate :: "bool \<Rightarrow> (rid \<times> token list \<times> token list) list \<Rightarrow>
    (rid, nat) dict \<times> (rid, bool) dict \<Rightarrow> (rid, nat) dict \<times> (rid, bool) dict" where
  "note_gate vw [] gp = gp"
| "note_gate vw ((r, row, nrow) # rest) (g, pw) =
     note_gate vw rest
       (if differs row nrow
        then (if vw then (g, AList.update r True pw) else (AList.update r 0 g, pw))
        else (AList.update r (Suc (dict_or g r 0)) g, AList.delete r pw))"

definition publish :: "hook_cfg \<Rightarrow> environ \<Rightarrow> token list list \<Rightarrow> bool list option \<Rightarrow> step_in \<Rightarrow> hook \<Rightarrow>
    outcome res \<times> hook" where
  "publish c e mixed g inp st0 =
     (if \<not> mask_ok g mixed \<or> length (req_ids inp) < length mixed
         \<or> (\<exists>row \<in> set (drop (length (native inp)) (eff_rows g mixed)). row \<noteq> [])
      then (Inl IndexError, st0) else
      let ids = req_ids inp; nat_rows = native inp;
          eff = eff_rows g mixed;
          native_row = (\<lambda>i. if i < length nat_rows then nat_rows ! i else []);
          changed = (\<exists>i < length eff. differs (eff ! i) (native_row i));
          (gt, pw) = note_gate (verifier_win c)
            (map (\<lambda>i. (ids ! i, eff ! i, native_row i)) [0..<length eff]) (gate st0, pending_wins st0);
          widths = dict_updates [] (zip ids (map length mixed));
          st1 = st0\<lparr>gate := gt, pending_wins := pw\<rparr>;
          st = st1\<lparr>prev_widths := widths\<rparr>
      in if \<not> changed
         then (Inr (if can_skip_collective c e then Local nat_rows else Collective nat_rows),
               st\<lparr>skips_unchanged := Suc (skips_unchanged st)\<rparr>)
         else case assign_rows eff nat_rows of
                Inl err \<Rightarrow> (Inl err, st1)
              | Inr out \<Rightarrow>
                  (Inr (if replay e then Local out
                        else if 1 < world_size c then Collective out else Local out),
                   st\<lparr>n_mixes := Suc (n_mixes st)\<rparr>))"

section \<open>The probe, the frozen path and one step\<close>

text \<open>\<open>_mirror_probe\<close>: whether this step needs the mix at all.\<close>

fun probe_rows :: "'m mixer \<Rightarrow> 'm \<Rightarrow> environ \<Rightarrow> int \<Rightarrow> (rid, token list) dict \<Rightarrow> (rid, nat) dict \<Rightarrow>
    rid list \<Rightarrow> bool" where
  "probe_rows mx m e w mir gt [] = False"
| "probe_rows mx m e w mir gt (r # rs) =
     (case map_of mir r of
        None \<Rightarrow> True
      | Some row \<Rightarrow>
          let (depth, min_len) = probe_depth_min e; tl = py_from row (- depth)
          in if int (length tl) < cache_n_gram e then probe_rows mx m e w mir gt rs
             else case mx_speculate mx m tl w of
                    Inl _ \<Rightarrow> True
                  | Inr suffix \<Rightarrow>
                      if min_len \<le> int (length suffix)
                         \<and> (probe_cooldown e \<le> 0 \<or> int (dict_or gt r 0) < probe_cooldown e)
                      then True else probe_rows mx m e w mir gt rs)"

definition mirror_probe :: "'m mixer \<Rightarrow> environ \<Rightarrow> step_in \<Rightarrow> hook \<Rightarrow> 'm \<Rightarrow> bool" where
  "mirror_probe mx e inp st m =
     (case mx_tokens mx m of
        Inl _ \<Rightarrow> True
      | Inr n \<Rightarrow>
          if n = 0 then True
          else if hb_due (probe_heartbeat e) (n_steps st) then True
          else if \<not> mx_has_cache mx m \<or> req_ids inp = [] then True
          else probe_rows mx m e (if win st = 0 then int (native_k inp) + 2 else win st)
                 (mirror st) (gate st) (req_ids inp))"

definition lut_index :: "step_in \<Rightarrow> nat list" where
  "lut_index inp = (case lut inp of
      None \<Rightarrow> idx_mapping inp
    | Some d \<Rightarrow> if list_all (\<lambda>r. map_of d r \<noteq> None) (req_ids inp)
                then map (\<lambda>r. the (map_of d r)) (req_ids inp) else idx_mapping inp)"

definition native_widths :: "step_in \<Rightarrow> hook \<Rightarrow> hook" where
  "native_widths inp st = st\<lparr>prev_widths := dict_updates (prev_widths st)
     (map (\<lambda>r. (r, native_k inp)) (req_ids inp))\<rparr>"

text \<open>The frozen-path guard of \<open>_fast_body\<close>.\<close>

definition frozen_guard :: "hook_cfg \<Rightarrow> 'm mixer \<Rightarrow> environ \<Rightarrow> step_in \<Rightarrow> hook \<Rightarrow> 'm \<Rightarrow> bool" where
  "frozen_guard c mx e inp st m \<longleftrightarrow>
     0 < probe_cooldown e \<and> (case mx_tokens mx m of Inl _ \<Rightarrow> False | Inr n \<Rightarrow> 0 < n)
     \<and> \<not> split_diverge c
     \<and> (\<forall>r \<in> set (req_ids inp). probe_cooldown e \<le> int (dict_or (gate st) r 0))
     \<and> (\<forall>r \<in> set (req_ids inp). map_of (mirror st) r \<noteq> None)"

definition full_path :: "hook_cfg \<Rightarrow> 'm mixer \<Rightarrow> environ \<Rightarrow> device \<Rightarrow> step_in \<Rightarrow> hook \<times> 'm \<Rightarrow>
    outcome res \<times> hook \<times> 'm" where
  "full_path c mx e dev inp = (\<lambda>(st, m).
     let idx = lut_index inp in
     case enqueue (cuda c) dev (req_ids inp) idx (num_sampled inp) (num_rejected inp)
            (int (native_k inp)) (absorb_pending st) of
       Inl err \<Rightarrow> (Inl err, absorb_pending st, m)
     | Inr st1 \<Rightarrow>
         let st2 = (if cuda c then st1 else absorb_pending st1);
             st3 = st2\<lparr>n_steps := Suc (n_steps st2)\<rparr>
         in if \<not> split_diverge c \<and> \<not> mirror_probe mx e inp st3 m
            then (Inr (native_out c e (native inp)),
                  native_widths inp (st3\<lparr>skips_probe := Suc (skips_probe st3)\<rparr>), m)
            else case mix_from_mirror c mx inp idx (st3, m) of
                   (Inl err, s') \<Rightarrow> (Inl err, s')
                 | (Inr (mixed, g), st4, m') \<Rightarrow>
                     let (out, st5) = publish c e mixed g inp st4 in (out, st5, m'))"

definition fast_body :: "hook_cfg \<Rightarrow> 'm mixer \<Rightarrow> environ \<Rightarrow> device \<Rightarrow> step_in \<Rightarrow> hook \<times> 'm \<Rightarrow>
    outcome res \<times> hook \<times> 'm" where
  "fast_body c mx e dev inp = (\<lambda>(st, m).
     if rank c \<noteq> 0 \<and> \<not> replay e then (Inr (Collective (native inp)), st, m)
     else if frozen_guard c mx e inp st m \<and> \<not> hb_due (probe_heartbeat e) (Suc (n_steps st))
       then (Inr (native_out c e (native inp)),
             native_widths inp (st\<lparr>n_steps := Suc (n_steps st), skips_frozen := Suc (skips_frozen st)\<rparr>), m)
     else full_path c mx e dev inp (st, m))"

text \<open>
  \<open>_wrap_propose.propose\<close>. An error of the fast body sets \<open>fallback\<close> for good; the
  synchronous body then serves this step and every later one, and its errors return native.
\<close>

definition degrade :: "hook \<Rightarrow> hook" where
  "degrade st = st\<lparr>n_skips := Suc (n_skips st)\<rparr>"

definition enter_fallback :: "hook \<Rightarrow> hook" where
  "enter_fallback st1 =
     (let st2 = st1\<lparr>fallback := True\<rparr>
      in if fallback_logged st2 then st2 else degrade (st2\<lparr>fallback_logged := True\<rparr>))"

definition sync_or_native :: "hook_cfg \<Rightarrow> 'm mixer \<Rightarrow> device \<Rightarrow> step_in \<Rightarrow> hook \<times> 'm \<Rightarrow>
    outcome \<times> hook \<times> 'm" where
  "sync_or_native c mx dev inp s =
     (case sync_run c mx dev inp s of
        (Inr out, s') \<Rightarrow> (out, s')
      | (Inl _, st, m) \<Rightarrow> (Local (native inp), degrade st, m))"

definition propose :: "hook_cfg \<Rightarrow> 'm mixer \<Rightarrow> environ \<Rightarrow> device \<Rightarrow> step_in \<Rightarrow> hook \<times> 'm \<Rightarrow>
    outcome \<times> hook \<times> 'm" where
  "propose c mx e dev inp = (\<lambda>(st, m).
     if is_dummy inp \<or> zero_op c then (Local (native inp), st, m)
     else if \<not> fallback st \<and> \<not> env_is e ''SUFFIX_HYBRID_SYNC_HOOK'' ''1''
       then (case fast_body c mx e dev inp (st, m) of
               (Inr out, s') \<Rightarrow> (out, s')
             | (Inl _, st1, m1) \<Rightarrow> sync_or_native c mx dev inp (enter_fallback st1, m1))
     else sync_or_native c mx dev inp (st, m))"

section \<open>One step of the whole group\<close>

text \<open>
  A member of the group with its own arguments and state. The collective of rank 0 completes when
  every rank enters it with rows of the same shape, and every rank then holds rank 0's rows; when
  only some ranks enter it, or the shapes differ, the step does not complete (\<open>None\<close>).
\<close>

record 'm member =
  mem_cfg :: hook_cfg
  mem_mixer :: "'m mixer"
  mem_dev :: device
  mem_in :: step_in
  mem_state :: "hook \<times> 'm"

definition deliver :: "outcome list \<Rightarrow> token list list list option" where
  "deliver outs =
     (if \<forall>x \<in> set outs. is_collective x
      then if \<forall>x \<in> set outs. map length (rows_of x) = map length (rows_of (hd outs))
           then Some (map (\<lambda>_. rows_of (hd outs)) outs) else None
      else if \<exists>x \<in> set outs. is_collective x then None else Some (map rows_of outs))"

definition member_step :: "environ \<Rightarrow> 'm member \<Rightarrow> outcome \<times> hook \<times> 'm" where
  "member_step e p = propose (mem_cfg p) (mem_mixer p) e (mem_dev p) (mem_in p) (mem_state p)"

definition group_step :: "environ \<Rightarrow> 'm member list \<Rightarrow> token list list list option" where
  "group_step e ms = deliver (map (\<lambda>p. fst (member_step e p)) ms)"

section \<open>Rows keep their shape\<close>

definition good_in :: "step_in \<Rightarrow> bool" where
  "good_in inp \<longleftrightarrow> length (native inp) = length (req_ids inp)
     \<and> (\<forall>row \<in> set (native inp). length row = native_k inp)"

lemma length_write_rows [simp]: "length (write_rows g mixed nat_rows) = length nat_rows"
  by (simp add: write_rows_def)

lemma write_rows_nth:
  "i < length nat_rows \<Longrightarrow> write_rows g mixed nat_rows ! i =
     (if i < length mixed then sync_row g i (mixed ! i) (nat_rows ! i) else nat_rows ! i)"
  by (simp add: write_rows_def)

lemma length_sync_row [simp]: "length (sync_row g i row nat_row) = length nat_row"
  by (simp add: sync_row_def slice_simps)

lemma write_rows_length_nth:
  "i < length nat_rows \<Longrightarrow> length (write_rows g mixed nat_rows ! i) = length (nat_rows ! i)"
  by (simp add: write_rows_nth)

lemma length_eff_rows [simp]: "length (eff_rows g mixed) = length mixed"
  by (simp add: eff_rows_def)

lemma eff_rows_nth:
  "i < length mixed \<Longrightarrow> eff_rows g mixed ! i =
     (if mixed ! i \<noteq> [] \<and> (case g of None \<Rightarrow> True | Some bs \<Rightarrow> bs ! i) then mixed ! i else [])"
  by (cases g) (simp_all add: eff_rows_def)

text \<open>Writing the effective rows is writing the mixed rows under the greedy mask.\<close>

lemma write_eff_rows: "write_rows None (eff_rows g mixed) nat_rows = write_rows g mixed nat_rows"
proof (rule nth_equalityI)
  fix i
  assume "i < length (write_rows None (eff_rows g mixed) nat_rows)"
  then show "write_rows None (eff_rows g mixed) nat_rows ! i = write_rows g mixed nat_rows ! i"
    by (auto simp: write_rows_nth sync_row_def eff_rows_nth)
qed simp

lemma write_rows_Cons:
  "write_rows None (row # rows) (n # ns) = sync_row None 0 row n # write_rows None rows ns"
  by (simp add: write_rows_def map_upt_Suc sync_row_def del: upt_Suc)

lemma write_rows_Nil [simp]: "write_rows None [] nat_rows = nat_rows" "write_rows None rows [] = []"
  by (simp_all add: write_rows_def map_nth)

text \<open>An assignment that goes through is the write; one that fits goes through.\<close>

lemma assign_rows_write: "assign_rows rows ns = Inr out \<Longrightarrow> out = write_rows None rows ns"
  by (induction rows ns arbitrary: out rule: assign_rows.induct)
    (auto simp: write_rows_Cons sync_row_def assign_row_def split: if_splits sum.splits)

lemma assign_eff_rows: "assign_rows (eff_rows g mixed) ns = Inr out \<Longrightarrow> out = write_rows g mixed ns"
  by (drule assign_rows_write) (simp add: write_eff_rows)

lemma assign_rows_fit:
  "length rows \<le> length ns \<Longrightarrow> \<forall>i < length rows. length (rows ! i) \<le> length (ns ! i) \<Longrightarrow>
   \<exists>out. assign_rows rows ns = Inr out"
proof (induction rows arbitrary: ns)
  case (Cons row rows)
  from Cons.prems(1) obtain nat_row out where ns: "ns = nat_row # out" by (cases ns) auto
  have "\<forall>i < length rows. length (rows ! i) \<le> length (out ! i)"
    using Cons.prems(2) unfolding ns by (metis Suc_less_eq length_Cons nth_Cons_Suc)
  moreover have "length rows \<le> length out" using Cons.prems(1) ns by simp
  ultimately obtain rs where "assign_rows rows out = Inr rs" using Cons.IH by blast
  moreover have "length row \<le> length nat_row" using Cons.prems(2) unfolding ns by fastforce
  ultimately show ?case by (simp add: ns assign_row_def)
qed simp

lemma sync_row_same: "\<not> differs row nat_row \<Longrightarrow> sync_row None i row nat_row = nat_row"
  by (auto simp: sync_row_def differs_def intro: write_prefix_same)

lemma publish_Inr_cases:
  assumes "publish c e mixed g inp st = (Inr out, st')"
  obtains (unchanged) "rows_of out = native inp"
      "\<not> (\<exists>i < length mixed. differs (eff_rows g mixed ! i) (if i < length (native inp) then native inp ! i else []))"
  | (changed) "rows_of out = write_rows None (eff_rows g mixed) (native inp)"
  using assms
  by (auto simp: publish_def Let_def dest: assign_rows_write simp del: not_ex
      split: prod.splits if_splits sum.splits)

lemma publish_rows:
  assumes "publish c e mixed g inp st = (Inr out, st')"
  shows "rows_of out = write_rows g mixed (native inp)"
  using assms
proof (cases rule: publish_Inr_cases)
  case unchanged
  then have "write_rows None (eff_rows g mixed) (native inp) = native inp"
    by (intro nth_equalityI) (auto simp: write_rows_nth sync_row_same)
  with unchanged show ?thesis by (simp add: write_eff_rows)
qed (simp add: write_eff_rows)

text \<open>A row whose greedy flag is off stays native.\<close>

lemma write_rows_masked:
  "i < length nat_rows \<Longrightarrow> g = Some bs \<Longrightarrow> \<not> bs ! i \<Longrightarrow> write_rows g mixed nat_rows ! i = nat_rows ! i"
  by (simp add: write_rows_nth sync_row_def)

lemma greedy_rows_mask:
  "greedy_rows c temps idx = Inr g \<Longrightarrow> probabilistic c \<Longrightarrow>
   \<exists>bs. g = Some bs \<and> length bs = length idx \<and> (\<forall>i < length idx. bs ! i \<longleftrightarrow> temps ! (idx ! i) = 0)"
  by (auto simp: greedy_rows_def split: if_splits)

section \<open>What a step publishes\<close>

text \<open>
  The rows of a step are the native rows under rows the mixer answered for this batch, each of
  at most the native width, and the greedy mask.
\<close>

definition answered :: "'m mixer \<Rightarrow> step_in \<Rightarrow> token list list \<Rightarrow> bool" where
  "answered mx inp mixed \<longleftrightarrow>
     (\<exists>cs h acc m m'. mx_mix mx (req_ids inp) cs h (native inp) acc m = (Inr mixed, m'))"

definition mixed_over :: "hook_cfg \<Rightarrow> 'm mixer \<Rightarrow> step_in \<Rightarrow> token list list \<Rightarrow> bool" where
  "mixed_over c mx inp rows \<longleftrightarrow> rows = native inp \<or>
     (\<exists>g mixed. rows = write_rows g mixed (native inp) \<and> answered mx inp mixed \<and>
        (\<forall>row \<in> set mixed. length row \<le> native_k inp) \<and>
        (probabilistic c \<longrightarrow> (\<exists>bs. g = Some bs \<and>
           (\<exists>idx \<in> {lut_index inp, idx_mapping inp}.
              \<forall>i < length idx. bs ! i \<longleftrightarrow> temperature inp ! (idx ! i) = 0))))"

lemma mixed_over_native [simp]: "mixed_over c mx inp (native inp)"
  by (simp add: mixed_over_def)

lemma mixed_over_write:
  "greedy_rows c (temperature inp) idx = Inr g \<Longrightarrow> idx \<in> {lut_index inp, idx_mapping inp} \<Longrightarrow>
   answered mx inp mixed \<Longrightarrow> check_widths mixed (native_k inp) = Inr u \<Longrightarrow>
   mixed_over c mx inp (write_rows g mixed (native inp))"
  unfolding mixed_over_def by (rule disjI2, rule exI[of _ g], rule exI[of _ mixed])
    (auto simp: check_widths_def not_less split: if_splits dest: greedy_rows_mask)

lemma answeredI: "mx_mix mx (req_ids inp) cs h (native inp) acc m = (Inr mixed, m') \<Longrightarrow> answered mx inp mixed"
  unfolding answered_def by blast

lemma sync_run_rows:
  "sync_run c mx dev inp s = (Inr out, s') \<Longrightarrow> mixed_over c mx inp (rows_of out)"
  by (cases s) (auto simp: sync_run_def Let_def split: if_splits sum.splits prod.splits
      dest!: assign_eff_rows intro!: mixed_over_write[where idx = "idx_mapping inp"] answeredI)

lemma mix_from_mirror_mask:
  "mix_from_mirror c mx inp idx s = (Inr (mixed, g), s') \<Longrightarrow>
   greedy_rows c (temperature inp) idx = Inr g \<and> answered mx inp mixed \<and> check_widths mixed (native_k inp) = Inr ()"
  by (cases s) (auto simp: mix_from_mirror_def Let_def split: if_splits sum.splits prod.splits intro: answeredI)

lemma full_path_rows:
  assumes "full_path c mx e dev inp s = (Inr out, s')"
  shows "mixed_over c mx inp (rows_of out)"
proof -
  obtain st m where s: "s = (st, m)" by (cases s)
  from assms consider "rows_of out = native inp"
    | mixed g s4 st5 where "mix_from_mirror c mx inp (lut_index inp) s4 = (Inr (mixed, g), st5)"
        "\<exists>st4 st6. publish c e mixed g inp st4 = (Inr out, st6)"
    by (force simp: full_path_def Let_def s native_out_def split: if_splits sum.splits prod.splits)
  then show ?thesis
  proof cases
    case 1
    then show ?thesis by (simp add: mixed_over_def)
  next
    case 2
    then have "rows_of out = write_rows g mixed (native inp)" by (auto dest: publish_rows)
    moreover note mix_from_mirror_mask[OF 2(1)]
    ultimately show ?thesis using mixed_over_write by fastforce
  qed
qed

lemma fast_body_rows:
  "fast_body c mx e dev inp s = (Inr out, s') \<Longrightarrow> mixed_over c mx inp (rows_of out)"
  by (cases s) (auto simp: fast_body_def native_out_def split: if_splits dest: full_path_rows)

lemma sync_or_native_rows: "mixed_over c mx inp (rows_of (fst (sync_or_native c mx dev inp s)))"
  by (auto simp: sync_or_native_def split: sum.splits prod.splits dest: sync_run_rows)

lemma propose_cases:
  obtains (skip) "is_dummy inp \<or> zero_op c" "propose c mx e dev inp s = (Local (native inp), s)"
  | (fast) out s' where "fast_body c mx e dev inp s = (Inr out, s')" "propose c mx e dev inp s = (out, s')"
  | (sync) s1 where "\<not> (is_dummy inp \<or> zero_op c)" "propose c mx e dev inp s = sync_or_native c mx dev inp s1"
proof -
  obtain st m where s: "s = (st, m)" by (cases s)
  obtain r s1 where fb: "fast_body c mx e dev inp (st, m) = (r, s1)"
    by (cases "fast_body c mx e dev inp (st, m)")
  show thesis
  proof (cases "is_dummy inp \<or> zero_op c")
    case True
    with skip s show thesis by (simp add: propose_def)
  next
    case live: False
    show thesis
    proof (cases "fallback st \<or> env_is e ''SUFFIX_HYBRID_SYNC_HOOK'' ''1''")
      case True
      show thesis
        by (rule sync[OF live, of "(st, m)"]) (use True live s in \<open>auto simp: propose_def\<close>)
    next
      case False
      show thesis
      proof (cases r)
        case (Inr out)
        then show thesis using False live fast[of out s1] fb s by (simp add: propose_def)
      next
        case (Inl err)
        show thesis
          by (rule sync[OF live, of "(enter_fallback (fst s1), snd s1)"])
          (use Inl False live fb s in \<open>simp add: propose_def case_prod_beta\<close>)
      qed
    qed
  qed
qed

lemma propose_mixed_over:
  "mixed_over c mx inp (rows_of (fst (propose c mx e dev inp s)))"
  by (cases rule: propose_cases[of inp c mx e dev s])
    (auto simp: sync_or_native_rows dest: fast_body_rows)

lemma mixed_over_shape:
  assumes "mixed_over c mx inp rows" and "good_in inp"
  shows "length rows = length (req_ids inp)" and "\<forall>row \<in> set rows. length row = native_k inp"
proof -
  show "length rows = length (req_ids inp)"
    using assms by (auto simp: mixed_over_def good_in_def)
  have "length (rows ! i) = native_k inp" if "i < length rows" for i
    using assms that by (auto simp: mixed_over_def good_in_def write_rows_length_nth)
  then show "\<forall>row \<in> set rows. length row = native_k inp" by (metis in_set_conv_nth)
qed

lemma mixed_over_stochastic:
  assumes "mixed_over c mx inp rows" and "probabilistic c" and "i < length (native inp)"
    and "lut_index inp = idx_mapping inp" and "i < length (idx_mapping inp)" and "temperature inp ! (idx_mapping inp ! i) \<noteq> 0"
  shows "rows ! i = native inp ! i"
  using assms by (auto simp: mixed_over_def write_rows_masked)

section \<open>Collectives\<close>

lemma sync_run_collective: "sync_run c mx dev inp s = (Inr out, s') \<Longrightarrow> is_collective out"
  by (cases s) (auto simp: sync_run_def Let_def split: if_splits sum.splits prod.splits)

lemma publish_collective:
  "publish c e mixed g inp st = (Inr out, st') \<Longrightarrow> 1 < world_size c \<Longrightarrow> \<not> replay e \<Longrightarrow> is_collective out"
  by (auto simp: publish_def Let_def can_skip_collective_def split: if_splits prod.splits sum.splits)

lemma fast_body_collective:
  assumes "fast_body c mx e dev inp s = (Inr out, s')" and w: "1 < world_size c" "\<not> replay e"
  shows "is_collective out"
proof -
  obtain st m where s: "s = (st, m)" by (cases s)
  have "is_collective (native_out c e r)" for r
    using w by (simp add: native_out_def can_skip_collective_def)
  with assms show ?thesis
    by (auto simp: fast_body_def full_path_def Let_def s split: if_splits sum.splits prod.splits
        dest: publish_collective)
qed

lemma sync_run_other_rank: "rank c \<noteq> 0 \<Longrightarrow> sync_run c mx dev inp s = (Inr (Collective (native inp)), s)"
  by (cases s) (simp add: sync_run_def)

lemma propose_other_rank:
  assumes "rank c \<noteq> 0" "\<not> replay e" "\<not> is_dummy inp" "\<not> zero_op c"
  shows "propose c mx e dev inp s = (Collective (native inp), s)"
  using assms by (cases s) (simp add: propose_def fast_body_def sync_or_native_def sync_run_other_rank)

lemma propose_collective_or_error:
  assumes "1 < world_size c" "\<not> replay e" "\<not> is_dummy inp" "\<not> zero_op c"
    and "\<not> is_collective (fst (propose c mx e dev inp s))"
  shows "\<exists>s1 err s2. sync_run c mx dev inp s1 = (Inl err, s2)"
proof -
  have sn: "\<exists>err s2. sync_run c mx dev inp s1 = (Inl err, s2)"
    if "\<not> is_collective (fst (sync_or_native c mx dev inp s1))" for s1
    using that by (cases "sync_run c mx dev inp s1")
      (auto simp: sync_or_native_def dest: sync_run_collective split: sum.splits)
  show ?thesis
  proof (cases rule: propose_cases[of inp c mx e dev s])
    case skip
    with assms show ?thesis by simp
  next
    case (fast out s')
    then have "is_collective out" using assms fast_body_collective by blast
    with fast assms show ?thesis by simp
  next
    case (sync s1)
    with assms(5) have "\<not> is_collective (fst (sync_or_native c mx dev inp s1))" by simp
    then show ?thesis using sn by blast
  qed
qed

section \<open>The heartbeat\<close>

definition takes_frozen :: "hook_cfg \<Rightarrow> 'm mixer \<Rightarrow> environ \<Rightarrow> step_in \<Rightarrow> hook \<times> 'm \<Rightarrow> bool" where
  "takes_frozen c mx e inp = (\<lambda>(st, m). \<not> (rank c \<noteq> 0 \<and> \<not> replay e) \<and> frozen_guard c mx e inp st m
     \<and> \<not> hb_due (probe_heartbeat e) (Suc (n_steps st)))"

text \<open>How many of a run's first steps take the frozen path.\<close>

fun frozen_prefix :: "hook_cfg \<Rightarrow> 'm mixer \<Rightarrow> environ \<Rightarrow> (device \<times> step_in) list \<Rightarrow> hook \<times> 'm \<Rightarrow> nat" where
  "frozen_prefix c mx e [] s = 0"
| "frozen_prefix c mx e ((dev, inp) # rest) s =
     (if takes_frozen c mx e inp s
      then Suc (frozen_prefix c mx e rest (snd (fast_body c mx e dev inp s))) else 0)"

lemma takes_frozen_step:
  "takes_frozen c mx e inp s \<Longrightarrow> n_steps (fst (snd (fast_body c mx e dev inp s))) = Suc (n_steps (fst s))"
  by (cases s) (auto simp: takes_frozen_def fast_body_def native_widths_def)

lemma mod_Suc_int:
  fixes h :: int
  assumes "0 < h" and "(x + 1) mod h \<noteq> 0"
  shows "(x + 1) mod h = x mod h + 1"
proof -
  have e: "(x + 1) mod h = (x mod h + 1) mod h" by (simp add: mod_simps)
  have b: "0 \<le> x mod h" "x mod h < h" using assms by simp_all
  then have "x mod h + 1 \<noteq> h" using assms e by auto
  with b have "x mod h + 1 < h" by linarith
  with b show ?thesis by (simp add: e mod_pos_pos_trivial)
qed

lemma frozen_prefix_bound:
  assumes "0 < probe_heartbeat e"
  shows "int (frozen_prefix c mx e xs s) \<le> probe_heartbeat e - 1 - int (n_steps (fst s)) mod probe_heartbeat e"
proof (induction xs arbitrary: s)
  case Nil
  then show ?case using assms by simp
next
  case (Cons x xs)
  obtain dev inp where x: "x = (dev, inp)" by (cases x)
  let ?h = "probe_heartbeat e"
  show ?case
  proof (cases "takes_frozen c mx e inp s")
    case False
    then show ?thesis using assms x by simp
  next
    case True
    then have "int (Suc (n_steps (fst s))) mod ?h \<noteq> 0"
      using assms by (cases s) (auto simp: takes_frozen_def hb_due_def)
    then have "int (Suc (n_steps (fst s))) mod ?h = int (n_steps (fst s)) mod ?h + 1"
      using assms mod_Suc_int[of ?h "int (n_steps (fst s))"] by (simp add: add.commute)
    with Cons.IH[of "snd (fast_body c mx e dev inp s)"] True x show ?thesis
      by (simp add: takes_frozen_step)
  qed
qed

section \<open>Errors and the fallback\<close>

lemma sync_run_fallback: "fallback (fst (snd (sync_run c mx dev inp s))) = fallback (fst s)"
  by (cases s) (auto simp: sync_run_def Let_def split: sum.splits prod.splits)

lemma sync_or_native_fallback:
  "fallback (fst (snd (sync_or_native c mx dev inp s))) = fallback (fst s)"
  using sync_run_fallback[of c mx dev inp s]
  by (auto simp: sync_or_native_def degrade_def split: sum.splits prod.splits)

text \<open>A mixer that raises at every call and has an empty (or unreadable) cache.\<close>

definition broken_mixer :: "'m mixer \<Rightarrow> bool" where
  "broken_mixer mx \<longleftrightarrow> (\<forall>ids cs h nr acc m. \<exists>err m'. mx_mix mx ids cs h nr acc m = (Inl err, m'))
     \<and> (\<forall>m. case mx_tokens mx m of Inl _ \<Rightarrow> True | Inr n \<Rightarrow> n = 0)"

lemma broken_mixer_mix: "broken_mixer mx \<Longrightarrow> mx_mix mx ids cs h nr acc m \<noteq> (Inr mixed, m')"
  unfolding broken_mixer_def by (metis Inl_Inr_False prod.inject)

lemma broken_mixer_tokens: "broken_mixer mx \<Longrightarrow> mx_tokens mx m = Inr n \<Longrightarrow> n = 0"
  unfolding broken_mixer_def by (metis old.sum.simps(6))

lemma broken_probe: "broken_mixer mx \<Longrightarrow> mirror_probe mx e inp st m"
  by (auto simp: mirror_probe_def dest: broken_mixer_tokens split: sum.split)

lemma broken_frozen: "broken_mixer mx \<Longrightarrow> \<not> frozen_guard c mx e inp st m"
  by (auto simp: frozen_guard_def dest: broken_mixer_tokens split: sum.split)

lemma broken_mix_from_mirror: "broken_mixer mx \<Longrightarrow> mix_from_mirror c mx inp idx s \<noteq> (Inr x, s')"
  by (cases s) (auto simp: mix_from_mirror_def Let_def split: sum.split prod.split
      dest: broken_mixer_mix)

lemma broken_full_path: "broken_mixer mx \<Longrightarrow> full_path c mx e dev inp s \<noteq> (Inr out, s')"
  by (cases s) (auto simp: full_path_def Let_def broken_probe split: sum.split prod.split
      dest: broken_mix_from_mirror)

lemma broken_sync_run:
  assumes "broken_mixer mx" "rank c = 0" "j \<in> set (idx_mapping inp)" "0 < total_len dev ! j"
  shows "\<exists>err s'. sync_run c mx dev inp s = (Inl err, s')"
proof -
  obtain st m where s: "s = (st, m)" by (cases s)
  have "total_len dev ! j \<le> Max (set (map ((!) (total_len dev)) (idx_mapping inp)))"
    using assms(3) by (intro Max_ge) auto
  with assms show ?thesis
    by (auto simp: sync_run_def s Let_def split: sum.split prod.split dest: broken_mixer_mix)
qed

lemma broken_propose:
  assumes "broken_mixer mx" "rank c = 0" "\<not> is_dummy inp" "\<not> zero_op c"
    "j \<in> set (idx_mapping inp)" "0 < total_len dev ! j"
  shows "fst (propose c mx e dev inp s) = Local (native inp)"
proof (cases rule: propose_cases[of inp c mx e dev s])
  case (fast out s')
  obtain st m where s: "s = (st, m)" by (cases s)
  with fast broken_full_path[OF assms(1)] assms show ?thesis
    by (auto simp: fast_body_def broken_frozen split: if_splits)
next
  case (sync s1)
  with broken_sync_run[OF assms(1,2,5,6), of s1] show ?thesis
    by (auto simp: sync_or_native_def)
qed (use assms in auto)

lemma eff_rows_fit:
  "length mixed \<le> length ns \<Longrightarrow> \<forall>i < length mixed. length (mixed ! i) \<le> length (ns ! i) \<Longrightarrow>
   \<exists>out. assign_rows (eff_rows g mixed) ns = Inr out"
  by (rule assign_rows_fit) (auto simp: eff_rows_nth)

lemma publish_Inr:
  assumes "length mixed \<le> length (req_ids inp)" and "length mixed \<le> length (native inp)"
    and "\<forall>i < length mixed. length (mixed ! i) \<le> length (native inp ! i)" and "mask_ok g mixed"
  shows "\<exists>out st'. publish c e mixed g inp st = (Inr out, st')"
proof -
  obtain out where "assign_rows (eff_rows g mixed) (native inp) = Inr out"
    using assms eff_rows_fit by blast
  with assms show ?thesis by (auto simp: publish_def Let_def split: prod.split)
qed

section \<open>What the group receives\<close>

text \<open>A group in broadcast mode on a real step: the ranks in order, the batch of one shape.\<close>

definition broadcast_group :: "environ \<Rightarrow> 'm member list \<Rightarrow> bool" where
  "broadcast_group e ms \<longleftrightarrow> 1 < length ms \<and> \<not> replay e \<and>
     (\<forall>i < length ms. rank (mem_cfg (ms ! i)) = i) \<and>
     (\<forall>p \<in> set ms. world_size (mem_cfg p) = int (length ms) \<and> \<not> zero_op (mem_cfg p) \<and>
        \<not> is_dummy (mem_in p) \<and> good_in (mem_in p) \<and>
        length (req_ids (mem_in p)) = length (req_ids (mem_in (hd ms))) \<and>
        native_k (mem_in p) = native_k (mem_in (hd ms)))"

text \<open>The rows a completed step may leave, in terms of rank 0's arguments.\<close>

definition owner_table :: "'m member \<Rightarrow> token list list \<Rightarrow> bool" where
  "owner_table p t \<longleftrightarrow>
     length t = length (req_ids (mem_in p)) \<and> (\<forall>row \<in> set t. length row = native_k (mem_in p)) \<and>
     (t = native (mem_in p) \<or>
      (\<exists>mixed. answered (mem_mixer p) (mem_in p) mixed \<and>
         (\<forall>row \<in> set mixed. length row \<le> native_k (mem_in p)) \<and>
         (\<forall>i < length t. t ! i = native (mem_in p) ! i \<or>
            (i < length mixed \<and> mixed ! i \<noteq> [] \<and>
             t ! i = mixed ! i @ drop (length (mixed ! i)) (native (mem_in p) ! i)))))"

definition reads_ok :: "'m member \<Rightarrow> bool" where
  "reads_ok p \<longleftrightarrow> (let inp = mem_in p; dev = mem_dev p in
     length (idx_mapping inp) = length (req_ids inp) \<and>
     (\<forall>j \<in> set (idx_mapping inp). j < length (ats dev) \<and> j < length (total_len dev) \<and> j < length (temperature inp)))"

definition answers_fit :: "'m member \<Rightarrow> bool" where
  "answers_fit p \<longleftrightarrow> (\<forall>mixed. answered (mem_mixer p) (mem_in p) mixed \<longrightarrow>
     length mixed \<le> length (req_ids (mem_in p)) \<and> (\<forall>row \<in> set mixed. length row \<le> native_k (mem_in p)))"

text \<open>
  The mixer call of the synchronous body raises, at the mixer's state of before the step or as the
  failed fast body left it.
\<close>

definition sync_mix_raises :: "environ \<Rightarrow> 'm member \<Rightarrow> bool" where
  "sync_mix_raises e p \<longleftrightarrow>
     (let inp = mem_in p; dev = mem_dev p; st = fst (mem_state p);
          counts = map (\<lambda>j. total_len dev ! j) (idx_mapping inp);
          history = map (\<lambda>j. take (nat (Max (set counts))) (ats dev ! j)) (idx_mapping inp);
          accepted = accepted_lengths (prev_widths st) (req_ids inp) (num_sampled inp) (num_rejected inp)
      in \<exists>m \<in> {snd (mem_state p), snd (snd (fast_body (mem_cfg p) (mem_mixer p) e dev inp (mem_state p)))}.
           case fst (mx_mix (mem_mixer p) (req_ids inp) counts history (native inp) accepted m) of
             Inl _ \<Rightarrow> True | Inr _ \<Rightarrow> False)"

lemma mixed_over_table:
  assumes "mixed_over (mem_cfg p) (mem_mixer p) (mem_in p) t" and "good_in (mem_in p)"
  shows "owner_table p t"
proof -
  note sh = mixed_over_shape[OF assms]
  from assms(1) consider "t = native (mem_in p)"
    | g mixed where "t = write_rows g mixed (native (mem_in p))" "answered (mem_mixer p) (mem_in p) mixed"
        "\<forall>row \<in> set mixed. length row \<le> native_k (mem_in p)"
    by (auto simp: mixed_over_def)
  then show ?thesis
  proof cases
    case 2
    have "t ! i = native (mem_in p) ! i \<or> (i < length mixed \<and> mixed ! i \<noteq> [] \<and>
        t ! i = mixed ! i @ drop (length (mixed ! i)) (native (mem_in p) ! i))" if "i < length t" for i
    proof -
      have i: "i < length (native (mem_in p))" using that 2(1) by simp
      moreover have "length (native (mem_in p) ! i) = native_k (mem_in p)"
        using assms(2) i by (simp add: good_in_def)
      ultimately show ?thesis using 2
        by (auto simp: write_rows_nth sync_row_def write_prefix_def)
    qed
    with sh 2 show ?thesis unfolding owner_table_def by blast
  qed (use sh in \<open>auto simp: owner_table_def\<close>)
qed

lemma member_step_rows:
  "good_in (mem_in p) \<Longrightarrow> owner_table p (rows_of (fst (member_step e p)))"
  unfolding member_step_def by (rule mixed_over_table) (rule propose_mixed_over)

lemma broadcast_other:
  assumes "broadcast_group e ms" and "p \<in> set (tl ms)"
  shows "is_collective (fst (member_step e p))"
proof -
  from assms(2) obtain i where i: "i < length (tl ms)" "p = tl ms ! i" by (auto simp: in_set_conv_nth)
  then have "p = ms ! Suc i" "Suc i < length ms" by (auto simp: nth_tl)
  with assms(1) have "rank (mem_cfg p) \<noteq> 0" "\<not> replay e" "\<not> is_dummy (mem_in p)" "\<not> zero_op (mem_cfg p)"
    by (auto simp: broadcast_group_def)
  then show ?thesis by (simp add: member_step_def propose_other_rank)
qed

lemma deliver_cases:
  assumes "broadcast_group e ms"
  shows "group_step e ms =
    (if is_collective (fst (member_step e (hd ms)))
     then Some (replicate (length ms) (rows_of (fst (member_step e (hd ms))))) else None)"
proof -
  have ne: "ms \<noteq> []" and tn: "tl ms \<noteq> []" using assms by (cases ms; auto simp: broadcast_group_def)+
  have shape: "map length (rows_of (fst (member_step e p))) =
      replicate (length (req_ids (mem_in (hd ms)))) (native_k (mem_in (hd ms)))" if "p \<in> set ms" for p
  proof -
    have "good_in (mem_in p)" "length (req_ids (mem_in p)) = length (req_ids (mem_in (hd ms)))"
      "native_k (mem_in p) = native_k (mem_in (hd ms))"
      using assms that by (auto simp: broadcast_group_def)
    with member_step_rows[of p e] show ?thesis
      by (intro replicate_eqI) (auto simp: owner_table_def)
  qed
  have others: "is_collective (fst (member_step e p))" if "p \<in> set (tl ms)" for p
    using broadcast_other[OF assms that] .
  have hd_map: "hd (map (\<lambda>p. fst (member_step e p)) ms) = fst (member_step e (hd ms))"
    using ne by (simp add: hd_map)
  have "set ms = insert (hd ms) (set (tl ms))" using ne by (cases ms) auto
  then have all: "(\<forall>p \<in> set ms. is_collective (fst (member_step e p))) \<longleftrightarrow> is_collective (fst (member_step e (hd ms)))"
    using others by auto
  have some: "\<exists>p \<in> set ms. is_collective (fst (member_step e p))"
    using others tn ne by (metis list.set_sel)
  show ?thesis using shape ne
    by (simp add: group_step_def deliver_def hd_map all some map_replicate_const)
qed

lemma group_step_table:
  assumes "broadcast_group e ms"
  shows "\<forall>rows. group_step e ms = Some rows \<longrightarrow> (\<exists>t. rows = replicate (length ms) t \<and> owner_table (hd ms) t)"
proof -
  have "hd ms \<in> set ms" using assms by (cases ms) (auto simp: broadcast_group_def)
  with assms have "good_in (mem_in (hd ms))" by (auto simp: broadcast_group_def)
  then show ?thesis by (auto simp: deliver_cases[OF assms] dest: member_step_rows split: if_splits)
qed

text \<open>A failed fast body has not touched the published widths: the feedback is read from them.\<close>

lemma absorb_prev [simp]: "prev_widths (absorb_pending st) = prev_widths st"
  by (simp add: absorb_pending_def Let_def split: pending.split option.split)

lemma enqueue_prev: "enqueue cu dev ids idx ns nr k st = Inr st' \<Longrightarrow> prev_widths st' = prev_widths st"
  by (auto simp: enqueue_def drop_gone_def ensure_staging_def Let_def rbind_def
      split: option.splits sum.splits if_splits)

lemma settle_prev [simp]: "prev_widths (settle c ids acc st) = prev_widths st"
  by (simp add: settle_def split: prod.split)

lemma publish_Inl_prev: "publish c e mixed g inp st = (Inl err, st') \<Longrightarrow> prev_widths st' = prev_widths st"
  by (auto simp: publish_def Let_def split: prod.splits if_splits sum.splits)

lemma mix_prev: "mix_from_mirror c mx inp idx s = (r, s') \<Longrightarrow> prev_widths (fst s') = prev_widths (fst s)"
  by (cases s) (auto simp: mix_from_mirror_def Let_def split: sum.splits prod.splits if_splits)

lemma fast_body_Inl_prev:
  "fast_body c mx e dev inp s = (Inl err, s') \<Longrightarrow> prev_widths (fst s') = prev_widths (fst s)"
  by (cases s) (auto simp: fast_body_def full_path_def Let_def split: if_splits sum.splits prod.splits
      dest!: enqueue_prev publish_Inl_prev mix_prev)

lemma enter_fallback_prev [simp]: "prev_widths (enter_fallback st) = prev_widths st"
  by (simp add: enter_fallback_def degrade_def Let_def)

lemma sync_run_completes:
  assumes r: "reads_ok p" and f: "answers_fit p" and good: "good_in (mem_in p)" and "rank (mem_cfg p) = 0"
    and nr: "\<not> sync_mix_raises e p" and prev: "prev_widths st = prev_widths (fst (mem_state p))"
    and m: "m \<in> {snd (mem_state p), snd (snd (fast_body (mem_cfg p) (mem_mixer p) e (mem_dev p) (mem_in p) (mem_state p)))}"
  shows "\<exists>out s'. sync_run (mem_cfg p) (mem_mixer p) (mem_dev p) (mem_in p) (st, m) = (Inr out, s')"
proof -
  let ?inp = "mem_in p" and ?dev = "mem_dev p"
  let ?counts = "map (\<lambda>j. total_len ?dev ! j) (idx_mapping ?inp)"
  let ?hist = "map (\<lambda>j. take (nat (Max (set ?counts))) (ats ?dev ! j)) (idx_mapping ?inp)"
  let ?acc = "accepted_lengths (prev_widths st) (req_ids ?inp) (num_sampled ?inp) (num_rejected ?inp)"
  have idx: "list_all (\<lambda>j. j < length (ats ?dev) \<and> j < length (total_len ?dev)) (idx_mapping ?inp)"
    using r by (auto simp: reads_ok_def Let_def list_all_iff)
  obtain g where g: "greedy_rows (mem_cfg p) (temperature ?inp) (idx_mapping ?inp) = Inr g"
    and gl: "\<And>bs. g = Some bs \<Longrightarrow> length bs = length (req_ids ?inp)"
  proof -
    have "list_all (\<lambda>j. j < length (temperature ?inp)) (idx_mapping ?inp)"
      using r by (auto simp: reads_ok_def Let_def list_all_iff)
    with r show thesis
      by (cases "probabilistic (mem_cfg p)") (auto simp: greedy_rows_def reads_ok_def Let_def intro: that)
  qed
  obtain mixed m' where mix: "mx_mix (mem_mixer p) (req_ids ?inp) ?counts ?hist (native ?inp) ?acc m = (Inr mixed, m')"
    using nr m unfolding sync_mix_raises_def Let_def prev
    by (cases "mx_mix (mem_mixer p) (req_ids ?inp) ?counts ?hist (native ?inp) ?acc m") (auto simp: prev split: sum.splits)
  have fit: "length mixed \<le> length (req_ids ?inp)" "\<forall>row \<in> set mixed. length row \<le> native_k ?inp"
    using f answeredI[OF mix] by (auto simp: answers_fit_def)
  then have cw: "check_widths mixed (native_k ?inp) = Inr ()" by (auto simp: check_widths_def not_less)
  have mask: "mask_ok g mixed" using gl fit(1) by (auto simp: mask_ok_def split: option.split)
  have nat_len: "length (native ?inp) = length (req_ids ?inp)"
    "\<forall>i < length (native ?inp). length (native ?inp ! i) = native_k ?inp"
    using good by (simp_all add: good_in_def)
  obtain out where out: "assign_rows (eff_rows g mixed) (native ?inp) = Inr out"
    using eff_rows_fit[of mixed "native ?inp" g] fit nat_len by auto
  show ?thesis
    using idx g mix cw mask out assms(4) by (auto simp: sync_run_def Let_def)
qed

lemma group_step_completes:
  assumes "broadcast_group e ms"
  shows "reads_ok (hd ms) \<and> answers_fit (hd ms) \<and> \<not> sync_mix_raises e (hd ms) \<longrightarrow> group_step e ms \<noteq> None"
proof (intro impI, elim conjE)
  assume owner: "reads_ok (hd ms)" "answers_fit (hd ms)" "\<not> sync_mix_raises e (hd ms)"
  let ?p = "hd ms"
  have "?p \<in> set ms" and h: "?p = ms ! 0" using assms by (cases ms; auto simp: broadcast_group_def)+
  with assms have c: "1 < world_size (mem_cfg ?p)" "\<not> replay e" "\<not> is_dummy (mem_in ?p)" "\<not> zero_op (mem_cfg ?p)"
    "good_in (mem_in ?p)"
    by (auto simp: broadcast_group_def hd_conv_nth)
  have "0 < length ms" using assms by (auto simp: broadcast_group_def)
  with assms have own: "rank (mem_cfg ?p) = 0" unfolding h broadcast_group_def by blast
  obtain st m where s: "mem_state ?p = (st, m)" by (cases "mem_state ?p")
  let ?fb = "fast_body (mem_cfg ?p) (mem_mixer ?p) e (mem_dev ?p) (mem_in ?p) (st, m)"
  note fin = sync_run_completes[OF owner(1,2) c(5) own owner(3)]
  have sync: "is_collective (fst (sync_or_native (mem_cfg ?p) (mem_mixer ?p) (mem_dev ?p) (mem_in ?p) (st1, m1)))"
    if "prev_widths st1 = prev_widths st" "m1 \<in> {m, snd (snd ?fb)}" for st1 m1
  proof -
    have "\<exists>out s'. sync_run (mem_cfg ?p) (mem_mixer ?p) (mem_dev ?p) (mem_in ?p) (st1, m1) = (Inr out, s')"
      by (rule fin) (use that s in simp_all)
    then show ?thesis by (auto simp: sync_or_native_def sync_run_collective)
  qed
  have "is_collective (fst (member_step e ?p))"
  proof (cases "fallback st \<or> env_is e ''SUFFIX_HYBRID_SYNC_HOOK'' ''1''")
    case True
    then show ?thesis using c sync[of st m] by (auto simp: member_step_def propose_def s)
  next
    case False
    obtain r st1 m1 where fb: "?fb = (r, st1, m1)" by (cases ?fb) auto
    show ?thesis
    proof (cases r)
      case (Inr out)
      then show ?thesis using False c fb fast_body_collective[of _ _ _ _ _ "(st, m)" out "(st1, m1)"]
        by (simp add: member_step_def propose_def s)
    next
      case (Inl err)
      with fb have "prev_widths st1 = prev_widths st" using fast_body_Inl_prev by fastforce
      with sync[of "enter_fallback st1" m1] show ?thesis
        using False c fb Inl by (simp add: member_step_def propose_def s)
    qed
  qed
  then show "group_step e ms \<noteq> None" by (simp add: deliver_cases[OF assms])
qed

section \<open>Properties\<close>

text \<open>Concrete settings for the applications below.\<close>

definition demo_cfg :: hook_cfg where
  "demo_cfg = \<lparr>probabilistic = True, verifier_win = False, split_diverge = False, zero_op = False,
     cuda = False, world_size = 2, rank = 0\<rparr>"

definition demo_in :: step_in where
  "demo_in = \<lparr>req_ids = [''a'', ''b''], idx_mapping = [0, 1], lut = None, num_sampled = [1, 1],
     num_rejected = [0, 0], temperature = [0, 1], native = [[1, 2], [3, 4]], native_k = 2, is_dummy = False\<rparr>"

definition demo_dev :: device where
  "demo_dev = \<lparr>ats = [[5, 6, 0], [7, 0, 0]], total_len = [2, 1]\<rparr>"

definition demo_mixer :: "unit mixer" where
  "demo_mixer = \<lparr>mx_mix = \<lambda>ids cs h nr acc m. (Inr (map (\<lambda>_. [9]) ids), m), mx_tokens = \<lambda>m. Inr 3,
     mx_has_cache = \<lambda>m. True, mx_speculate = \<lambda>m t w. Inr [9, 9]\<rparr>"

definition broken_demo :: "unit mixer" where
  "broken_demo = \<lparr>mx_mix = \<lambda>ids cs h nr acc m. (Inl RuntimeError, m), mx_tokens = \<lambda>m. Inr 0,
     mx_has_cache = \<lambda>m. True, mx_speculate = \<lambda>m t w. Inl RuntimeError\<rparr>"

definition demo_member :: "nat \<Rightarrow> token list list \<Rightarrow> unit member" where
  "demo_member r rows = \<lparr>mem_cfg = demo_cfg\<lparr>rank := r\<rparr>, mem_mixer = demo_mixer, mem_dev = demo_dev,
     mem_in = demo_in\<lparr>native := rows\<rparr>, mem_state = (hook_init 2, ())\<rparr>"

text \<open>Two ranks whose native drafters disagree.\<close>

definition demo_group :: "unit member list" where
  "demo_group = [demo_member 0 [[1, 2], [3, 4]], demo_member 1 [[1, 2], [5, 6]]]"

text \<open>C3: one step of a multi-rank broadcast group. When it completes, every rank holds the same
  rows: one per request, each of the native width, and each row is rank 0's native row as it is or
  with a row over its head that rank 0's mixer answered for this batch in a call whose rows were all
  at most the native width; a longer row, masked or not, keeps the whole answer out. And it does
  complete whenever rank 0 can read its batch, the mixer's answers have at most one row per request
  and no row too wide, and the mixer call of the synchronous body does not raise: an error anywhere
  else, the fast body's own mixer call included, still leaves no rank waiting.\<close>

theorem broadcast_step_agrees:
  assumes "broadcast_group e ms"
  shows "(\<forall>rows. group_step e ms = Some rows \<longrightarrow>
            (\<exists>t. rows = replicate (length ms) t \<and> owner_table (hd ms) t)) \<and>
         (reads_ok (hd ms) \<and> answers_fit (hd ms) \<and> \<not> sync_mix_raises e (hd ms) \<longrightarrow>
            group_step e ms \<noteq> None)"
  using group_step_table[OF assms] group_step_completes[OF assms] by blast

lemma broadcast_step_agrees_witness:
  "\<exists>t. group_step [] demo_group = Some [t, t] \<and> length t = 2 \<and> (\<forall>row \<in> set t. length row = 2)"
proof -
  have "\<not> replay []" by code_simp
  then have g: "broadcast_group [] demo_group"
    by (simp add: broadcast_group_def demo_group_def demo_member_def demo_cfg_def demo_in_def good_in_def
        less_Suc_eq)
  have f: "reads_ok (hd demo_group)" "answers_fit (hd demo_group)" "\<not> sync_mix_raises [] (hd demo_group)"
    by (simp_all add: reads_ok_def answers_fit_def sync_mix_raises_def answered_def demo_group_def
        demo_member_def demo_in_def demo_dev_def demo_mixer_def)
  from broadcast_step_agrees[OF g] f obtain rows where r: "group_step [] demo_group = Some rows" by auto
  with broadcast_step_agrees[OF g] obtain t where "rows = replicate (length demo_group) t"
    "owner_table (hd demo_group) t" by blast
  with r show ?thesis
    by (simp add: owner_table_def demo_group_def demo_member_def demo_in_def numeral_2_eq_2)
qed

text \<open>C6: when the server samples drafts probabilistically, a row of a request with a non-zero
  temperature leaves every step as the native drafter wrote it.\<close>

theorem stochastic_rows_native:
  assumes "probabilistic c" and "i < length (native inp)" and "i < length (idx_mapping inp)"
    and "lut_index inp = idx_mapping inp" and "temperature inp ! (idx_mapping inp ! i) \<noteq> 0"
  shows "rows_of (fst (propose c mx e dev inp s)) ! i = native inp ! i"
  using assms mixed_over_stochastic propose_mixed_over by blast

lemma stochastic_rows_native_witness:
  "rows_of (fst (propose demo_cfg demo_mixer [] demo_dev demo_in (hook_init 2, ()))) ! 1 = [3, 4]"
  using stochastic_rows_native[of demo_cfg 1 demo_in demo_mixer "[]" demo_dev "(hook_init 2, ())"]
  by (simp add: demo_cfg_def demo_in_def lut_index_def)

text \<open>C8: publishing is exact. Whether or not the step is recognised as unchanged and skips the
  write, the rows that go out are the mixed rows written over the native ones under the greedy mask,
  and in a multi-rank broadcast they always go out through the collective.\<close>

theorem publish_exact:
  assumes "publish c e mixed g inp st = (Inr out, st')"
  shows "rows_of out = write_rows g mixed (native inp) \<and>
         is_collective out = (1 < world_size c \<and> \<not> replay e)"
proof
  show "is_collective out = (1 < world_size c \<and> \<not> replay e)"
    using assms
    by (auto simp: publish_def Let_def can_skip_collective_def split: if_splits prod.splits sum.splits)
qed (rule publish_rows[OF assms])

lemma publish_exact_witness:
  "rows_of (case fst (publish demo_cfg [] [[9], [9]] (Some [True, False]) demo_in (hook_init 2)) of
     Inr out \<Rightarrow> out) = [[9, 2], [3, 4]]"
proof -
  obtain out st' where p: "publish demo_cfg [] [[9], [9]] (Some [True, False]) demo_in (hook_init 2) = (Inr out, st')"
    using publish_Inr[of "[[9], [9]]" demo_in "Some [True, False]" demo_cfg "[]" "hook_init 2"]
    by (auto simp: demo_in_def mask_ok_def less_Suc_eq)
  have "write_rows (Some [True, False]) [[9], [9]] (native demo_in) = [[9, 2], [3, 4]]"
    by (simp add: write_rows_def sync_row_def write_prefix_def demo_in_def upt_rec)
  with publish_exact[OF p] show ?thesis by (simp add: p)
qed

text \<open>On every rank but the owner a real step is exactly one collective and leaves the hook and
  the mixer as they were.\<close>

theorem other_ranks_only_receive:
  assumes "rank c \<noteq> 0" and "\<not> replay e" and "\<not> is_dummy inp" and "\<not> zero_op c"
  shows "propose c mx e dev inp s = (Collective (native inp), s)"
  using assms by (rule propose_other_rank)

lemma other_ranks_only_receive_witness:
  "propose (demo_cfg\<lparr>rank := 1\<rparr>) demo_mixer [] demo_dev demo_in (hook_init 2, ())
     = (Collective [[1, 2], [3, 4]], (hook_init 2, ()))"
proof -
  have "\<not> replay []" by code_simp
  then show ?thesis
    using other_ranks_only_receive[of "demo_cfg\<lparr>rank := 1\<rparr>" "[]" demo_in demo_mixer demo_dev "(hook_init 2, ())"]
    by (simp add: demo_cfg_def demo_in_def)
qed

text \<open>The owner of a multi-rank broadcast leaves a real step without its collective only when the
  synchronous body raised.\<close>

theorem owner_broadcasts_unless_error:
  assumes "1 < world_size c" and "\<not> replay e" and "\<not> is_dummy inp" and "\<not> zero_op c"
    and "\<not> is_collective (fst (propose c mx e dev inp s))"
  shows "\<exists>s1 err s2. sync_run c mx dev inp s1 = (Inl err, s2)"
  using assms by (rule propose_collective_or_error)

lemma owner_broadcasts_unless_error_witness:
  "\<exists>s1 err s2. sync_run demo_cfg broken_demo demo_dev demo_in s1 = (Inl err, s2)"
proof -
  have r: "\<not> replay []" by code_simp
  have "fst (propose demo_cfg broken_demo [] demo_dev demo_in (hook_init 2, ())) = Local (native demo_in)"
    by (rule broken_propose[of _ _ _ 0])
      (simp_all add: broken_mixer_def broken_demo_def demo_cfg_def demo_in_def demo_dev_def)
  with r show ?thesis
    using owner_broadcasts_unless_error[of demo_cfg "[]" demo_in broken_demo demo_dev "(hook_init 2, ())"]
    by (simp add: demo_cfg_def demo_in_def)
qed

text \<open>C33: a mixer that raises on the owner takes the owner out of the step without a broadcast,
  while every other rank has entered it: the ranks disagree about the collective.\<close>

theorem owner_error_orphans_receivers:
  assumes "broken_mixer mx" and "rank c = 0" and "\<not> replay e" and "\<not> is_dummy inp" and "\<not> zero_op c"
    and "j \<in> set (idx_mapping inp)" and "0 < total_len dev ! j" and "r \<noteq> 0"
  shows "\<not> is_collective (fst (propose c mx e dev inp s)) \<and>
         is_collective (fst (propose (c\<lparr>rank := r\<rparr>) mx' e dev' inp s'))"
  using broken_propose[of mx c inp j dev e s] propose_other_rank[of "c\<lparr>rank := r\<rparr>" e inp mx' dev' s'] assms
  by simp

lemma owner_error_orphans_receivers_witness:
  "\<not> is_collective (fst (propose demo_cfg broken_demo [] demo_dev demo_in (hook_init 2, ()))) \<and>
   is_collective (fst (propose (demo_cfg\<lparr>rank := 1\<rparr>) broken_demo [] demo_dev demo_in (hook_init 2, ())))"
proof -
  have "\<not> replay []" by code_simp
  then show ?thesis
    by (intro owner_error_orphans_receivers[of _ _ _ _ 0])
      (simp_all add: broken_mixer_def broken_demo_def demo_cfg_def demo_in_def demo_dev_def)
qed

text \<open>With a positive heartbeat the frozen path, which freezes the mirror and the gates, cannot
  be taken more than heartbeat - 1 times in a row, whatever the mixer and the batches do: a step
  with absorb, enqueue and probe always comes.\<close>

theorem frozen_path_yields:
  assumes "0 < probe_heartbeat e"
  shows "int (frozen_prefix c mx e xs s) < probe_heartbeat e"
  using frozen_prefix_bound[OF assms, of c mx xs s]
    pos_mod_sign[OF assms, of "int (n_steps (fst s))"] by linarith

lemma frozen_path_yields_witness:
  "int (frozen_prefix demo_cfg demo_mixer [] (replicate 20 (demo_dev, demo_in)) (hook_init 2, ())) < 8"
proof -
  have "probe_heartbeat [] = 8" by code_simp
  with frozen_path_yields[of "[]" demo_cfg demo_mixer "replicate 20 (demo_dev, demo_in)" "(hook_init 2, ())"]
  show ?thesis by simp
qed

text \<open>The fallback is for good. Once an error has set it, no step runs the fast body again: a
  real step is the synchronous body or the native rows, and the flag stays.\<close>

theorem fallback_is_final:
  assumes "fallback (fst s)"
  shows "propose c mx e dev inp s =
           (if is_dummy inp \<or> zero_op c then (Local (native inp), s) else sync_or_native c mx dev inp s) \<and>
         fallback (fst (snd (propose c mx e dev inp s)))"
  using assms by (cases s) (auto simp: propose_def sync_or_native_fallback)

lemma fallback_is_final_witness:
  "fallback (fst (snd (propose demo_cfg demo_mixer [] demo_dev demo_in ((hook_init 2)\<lparr>fallback := True\<rparr>, ()))))"
  by (rule fallback_is_final[THEN conjunct2]) simp

text \<open>The accepted length a request reports back is -1 or the number of accepted drafts: between
  0 and the width published last time, and below the verified width unless the whole published
  width was verified.\<close>

theorem accepted_len_bounds:
  "accepted_len previous ns nr = -1 \<or>
   (0 \<le> accepted_len previous ns nr \<and> accepted_len previous ns nr = ns - 1 \<and>
    accepted_len previous ns nr + nr \<le> previous \<and> (nr = 0 \<longrightarrow> accepted_len previous ns nr = previous))"
  by (auto simp: accepted_len_def Let_def)

lemma accepted_len_bounds_witness:
  "accepted_len 3 4 0 = 3 \<and> accepted_len 3 2 1 = 1 \<and> accepted_len 3 3 0 = -1"
  using accepted_len_bounds[of 3 4 0] by (simp add: accepted_len_def)

end
