(* ===== verification/SuffixCache.thy ===== *)
theory SuffixCache
  imports Prelude "HOL-Library.Product_Lexorder"
begin

text \<open>
  The bounded suffix corpus of the Rust core (\<open>src/src/lib.rs\<close>, \<open>Cache\<close>): sequences in FIFO
  order under a token budget and an index from n-grams to the positions where they start.
  \<open>sequences\<close> is a hash map and becomes a partial map; \<open>index\<close> drops a key with its last position,
  so it becomes a function that is empty where there is no key. The f64 values of the
  configuration and the score are rationals.
\<close>

record cache_cfg =
  cf_n :: nat
  cf_depth :: nat
  cf_sequences :: nat
  cf_tokens :: nat
  cf_positions :: nat
  cf_candidates :: nat
  cf_support :: nat
  cf_factor :: rat
  cf_offset :: rat

record cache =
  sequences :: "nat \<Rightarrow> token list option"
  fifo :: "nat list"
  index :: "token list \<Rightarrow> (nat \<times> nat) list"
  next_id :: nat
  cached :: nat

definition cache_new :: cache where
  "cache_new = \<lparr>sequences = (\<lambda>_. None), fifo = [], index = (\<lambda>_. []), next_id = 0, cached = 0\<rparr>"

text \<open>\<open>slice::windows(n)\<close>.\<close>

definition windows :: "nat \<Rightarrow> 'a list \<Rightarrow> 'a list list" where
  "windows n xs = map (\<lambda>p. take n (drop p xs)) [0..<Suc (length xs) - n]"

definition evict :: "cache_cfg \<Rightarrow> cache \<Rightarrow> cache" where
  "evict cfg c = (case fifo c of
      [] \<Rightarrow> c
    | i # rest \<Rightarrow>
        let sq = (case sequences c i of None \<Rightarrow> [] | Some s \<Rightarrow> s); keys = windows (cf_n cfg) sq
        in c\<lparr>fifo := rest, sequences := (sequences c)(i := None), cached := cached c - length sq,
             index := (\<lambda>key. if key \<in> set keys then filter (\<lambda>(j, _). j \<noteq> i) (index c key)
                             else index c key)\<rparr>)"

text \<open>
  The eviction loop of \<open>add\<close>: \<open>None\<close> where the fuel runs out before the loop condition is false,
  as it would forever on an empty queue.
\<close>

fun evict_loop :: "nat \<Rightarrow> cache_cfg \<Rightarrow> nat \<Rightarrow> cache \<Rightarrow> cache option" where
  "evict_loop fuel cfg need c =
     (if cf_sequences cfg \<le> length (fifo c) \<or> cf_tokens cfg < cached c + need
      then (case fuel of 0 \<Rightarrow> None | Suc f \<Rightarrow> evict_loop f cfg need (evict cfg c))
      else Some c)"

declare evict_loop.simps [simp del]

text \<open>Indexing one n-gram: the oldest position goes when the bucket is full.\<close>

definition push_pos :: "nat \<Rightarrow> (nat \<times> nat) \<Rightarrow> (nat \<times> nat) list \<Rightarrow> (nat \<times> nat) list" where
  "push_pos cap e b = (let b' = b @ [e] in if cap < length b' then tl b' else b')"

fun index_keys :: "nat \<Rightarrow> nat \<Rightarrow> nat \<Rightarrow> token list list \<Rightarrow> (token list \<Rightarrow> (nat \<times> nat) list) \<Rightarrow>
    token list \<Rightarrow> (nat \<times> nat) list" where
  "index_keys cap i pos [] ix = ix"
| "index_keys cap i pos (key # keys) ix =
     index_keys cap i (Suc pos) keys (ix(key := push_pos cap (i, pos) (ix key)))"

definition cache_add :: "cache_cfg \<Rightarrow> token list \<Rightarrow> cache \<Rightarrow> cache option" where
  "cache_add cfg toks c =
     (if cf_sequences cfg = 0 \<or> cf_tokens cfg \<le> cf_n cfg then Some c
      else
        let kept = drop (length toks - cf_tokens cfg) toks
        in if length kept \<le> cf_n cfg then Some c
           else map_option (\<lambda>c.
                  let i = next_id c
                  in c\<lparr>next_id := Suc i,
                       index := index_keys (cf_positions cfg) i 0 (windows (cf_n cfg) kept) (index c),
                       cached := cached c + length kept,
                       sequences := (sequences c)(i := Some kept),
                       fifo := fifo c @ [i]\<rparr>)
                (evict_loop (length (fifo c)) cfg (length kept) c))"

section \<open>Speculation\<close>

definition seq_of :: "cache \<Rightarrow> nat \<Rightarrow> token list" where
  "seq_of c i = (case sequences c i of None \<Rightarrow> [] | Some s \<Rightarrow> s)"

text \<open>The backward match of a window against a sequence, from a match of \<open>m\<close> tokens on.\<close>

fun match_back :: "nat \<Rightarrow> token list \<Rightarrow> token list \<Rightarrow> nat \<Rightarrow> nat \<Rightarrow> nat" where
  "match_back 0 sq win e m = m"
| "match_back (Suc fuel) sq win e m =
     (if m < length win \<and> m < e \<and> sq ! (e - m - 1) = win ! (length win - m - 1)
      then match_back fuel sq win e (Suc m) else m)"

text \<open>The longest matches so far and where they end.\<close>

fun best_ends :: "cache \<Rightarrow> nat \<Rightarrow> token list \<Rightarrow> (nat \<times> nat) list \<Rightarrow> nat \<times> (nat \<times> nat) list \<Rightarrow>
    nat \<times> (nat \<times> nat) list" where
  "best_ends c n win [] be = be"
| "best_ends c n win ((i, pos) # es) (best, ends) =
     (let matched = match_back (length win) (seq_of c i) win (pos + n) n;
          ends' = (if best < matched then [] else ends);
          best' = max best matched
      in best_ends c n win es (best', if matched = best' then ends' @ [(i, pos + n)] else ends'))"

definition token_at :: "cache \<Rightarrow> nat \<Rightarrow> (nat \<times> nat) \<Rightarrow> token option" where
  "token_at c step = (\<lambda>(i, p). if p + step < length (seq_of c i) then Some (seq_of c i ! (p + step)) else None)"

text \<open>The votes for the next token: count, latest end and token, the greatest of which wins.\<close>

definition votes :: "cache \<Rightarrow> nat \<Rightarrow> (nat \<times> nat) list \<Rightarrow> ((nat \<times> nat \<times> nat) \<times> token) list" where
  "votes c step ends =
     map (\<lambda>t. let es = filter (\<lambda>e. token_at c step e = Some t) ends
              in ((length es, Max (insert (0, 0) (set es))), t))
       (remdups (List.map_filter (token_at c step) ends))"

fun draft_loop :: "cache_cfg \<Rightarrow> cache \<Rightarrow> nat \<Rightarrow> nat \<Rightarrow> (nat \<times> nat) list \<Rightarrow> rat \<Rightarrow> token list \<times> rat" where
  "draft_loop cfg c 0 step ends score = ([], score)"
| "draft_loop cfg c (Suc cap) step ends score =
     (let vs = votes c step ends
      in if vs = [] then ([], score)
         else let ((support, _), tok) = Max (set vs)
              in if support < cf_support cfg then ([], score)
                 else let (rest, s) = draft_loop cfg c cap (Suc step)
                            (filter (\<lambda>e. token_at c step e = Some tok) ends)
                            (score * of_nat support / of_nat (length ends))
                      in (tok # rest, s))"

definition draft_cap :: "cache_cfg \<Rightarrow> nat \<Rightarrow> nat \<Rightarrow> nat" where
  "draft_cap cfg max_tokens best =
     min max_tokens (nat (floor (max (cf_factor cfg * of_nat best + cf_offset cfg) 0)))"

definition speculate :: "cache_cfg \<Rightarrow> cache \<Rightarrow> token list \<Rightarrow> nat \<Rightarrow> token list \<times> rat \<times> nat" where
  "speculate cfg c context max_tokens =
     (let win = drop (length context - cf_depth cfg) context; n = cf_n cfg
      in if max_tokens = 0 \<or> length win < n then ([], 0, 0)
         else let bucket = index c (drop (length win - n) win)
              in if bucket = [] then ([], 0, 0)
                 else let (best, ends) = best_ends c n win (take (cf_candidates cfg) (rev bucket)) (0, []);
                          (toks, score) = draft_loop cfg c (draft_cap cfg max_tokens best) 0 ends 1
                      in (toks, if toks = [] then 0 else score, best))"

section \<open>The corpus invariant\<close>

definition seq_lens :: "cache \<Rightarrow> nat list" where
  "seq_lens c = map (\<lambda>i. length (seq_of c i)) (fifo c)"

definition cache_ok :: "cache_cfg \<Rightarrow> cache \<Rightarrow> bool" where
  "cache_ok cfg c \<longleftrightarrow> distinct (fifo c) \<and> dom (sequences c) = set (fifo c) \<and>
     (\<forall>i \<in> set (fifo c). i < next_id c) \<and>
     cached c = sum_list (seq_lens c) \<and> cached c \<le> cf_tokens cfg \<and> length (fifo c) \<le> cf_sequences cfg \<and>
     (\<forall>key. length (index c key) \<le> cf_positions cfg \<and>
        (\<forall>(i, p) \<in> set (index c key). i \<in> set (fifo c) \<and> p + cf_n cfg \<le> length (seq_of c i) \<and>
           take (cf_n cfg) (drop p (seq_of c i)) = key))"

lemma cache_okI:
  assumes "distinct (fifo c)" "dom (sequences c) = set (fifo c)" "\<And>i. i \<in> set (fifo c) \<Longrightarrow> i < next_id c"
    "cached c = sum_list (seq_lens c)" "cached c \<le> cf_tokens cfg" "length (fifo c) \<le> cf_sequences cfg"
    "\<And>key. length (index c key) \<le> cf_positions cfg"
    "\<And>key i p. (i, p) \<in> set (index c key) \<Longrightarrow> i \<in> set (fifo c) \<and> p + cf_n cfg \<le> length (seq_of c i) \<and>
       take (cf_n cfg) (drop p (seq_of c i)) = key"
  shows "cache_ok cfg c"
  using assms by (auto simp: cache_ok_def)

lemma cache_okD:
  assumes "cache_ok cfg c"
  shows "distinct (fifo c)" "dom (sequences c) = set (fifo c)" "i \<in> set (fifo c) \<Longrightarrow> i < next_id c"
    "cached c = sum_list (seq_lens c)" "cached c \<le> cf_tokens cfg" "length (fifo c) \<le> cf_sequences cfg"
    "length (index c key) \<le> cf_positions cfg"
    "(i, p) \<in> set (index c key) \<Longrightarrow> i \<in> set (fifo c)"
    "(i, p) \<in> set (index c key) \<Longrightarrow> p + cf_n cfg \<le> length (seq_of c i)"
    "(i, p) \<in> set (index c key) \<Longrightarrow> take (cf_n cfg) (drop p (seq_of c i)) = key"
  using assms by (auto simp: cache_ok_def)

lemma cache_ok_new: "cache_ok cfg cache_new"
  by (rule cache_okI) (auto simp: cache_new_def seq_lens_def)

lemma window_mem: "p + n \<le> length xs \<Longrightarrow> take n (drop p xs) \<in> set (windows n xs)"
  by (auto simp: windows_def)

lemma evict_ok:
  assumes ok: "cache_ok cfg c"
  shows "cache_ok cfg (evict cfg c)"
proof (cases "fifo c")
  case Nil
  with ok show ?thesis by (simp add: evict_def)
next
  case (Cons i rest)
  note d = cache_okD[OF ok]
  have i: "i \<notin> set rest" using d(1) Cons by simp
  have so: "seq_of (evict cfg c) j = (if j = i then [] else seq_of c j)" for j
    using Cons by (simp add: evict_def Let_def seq_of_def)
  have sl: "seq_lens c = length (seq_of c i) # map (\<lambda>j. length (seq_of c j)) rest"
    by (simp add: seq_lens_def Cons)
  have sl': "seq_lens (evict cfg c) = map (\<lambda>j. length (seq_of c j)) rest"
  proof -
    have "fifo (evict cfg c) = rest" using Cons by (simp add: evict_def Let_def)
    with i show ?thesis by (auto simp: seq_lens_def so)
  qed
  have ix: "set (index (evict cfg c) key) = {e \<in> set (index c key). fst e \<noteq> i}" for key
  proof -
    have "key \<in> set (windows (cf_n cfg) (seq_of c i))" if "(i, p) \<in> set (index c key)" for p
      using window_mem[of p "cf_n cfg" "seq_of c i"] d(9,10)[OF that] by simp
    then show ?thesis using Cons by (auto simp: evict_def Let_def seq_of_def[symmetric])
  qed
  have li: "length (index (evict cfg c) key) \<le> length (index c key)" for key
    using Cons by (simp add: evict_def Let_def)
  show ?thesis
  proof (rule cache_okI)
    show "distinct (fifo (evict cfg c))" "dom (sequences (evict cfg c)) = set (fifo (evict cfg c))"
      using d(1,2) Cons by (auto simp: evict_def Let_def)
    show "j < next_id (evict cfg c)" if "j \<in> set (fifo (evict cfg c))" for j
      using that d(3)[of j] Cons by (simp add: evict_def Let_def)
    show "cached (evict cfg c) = sum_list (seq_lens (evict cfg c))"
      unfolding sl' using d(4) Cons sl by (simp add: evict_def Let_def seq_of_def[symmetric])
    show "cached (evict cfg c) \<le> cf_tokens cfg" "length (fifo (evict cfg c)) \<le> cf_sequences cfg"
      using d(5,6) Cons by (auto simp: evict_def Let_def)
    show "length (index (evict cfg c) key) \<le> cf_positions cfg" for key
      using li[of key] d(7)[of key] by linarith
    show "j \<in> set (fifo (evict cfg c)) \<and> p + cf_n cfg \<le> length (seq_of (evict cfg c) j) \<and>
        take (cf_n cfg) (drop p (seq_of (evict cfg c) j)) = key"
      if "(j, p) \<in> set (index (evict cfg c) key)" for key j p
      using that d(8,9,10)[of j p key] Cons unfolding ix so by (auto simp: evict_def Let_def)
  qed
qed

lemma evict_empty: "cache_ok cfg c \<Longrightarrow> fifo c = [] \<Longrightarrow> cached c = 0"
  by (simp add: cache_ok_def seq_lens_def)

lemma evict_loop_total:
  "cache_ok cfg c \<Longrightarrow> need \<le> cf_tokens cfg \<Longrightarrow> 0 < cf_sequences cfg \<Longrightarrow> length (fifo c) \<le> fuel \<Longrightarrow>
   \<exists>c'. evict_loop fuel cfg need c = Some c' \<and> cache_ok cfg c' \<and> next_id c' = next_id c \<and>
        length (fifo c') < cf_sequences cfg \<and> cached c' + need \<le> cf_tokens cfg \<and>
        (\<exists>k. fifo c' = drop k (fifo c)) \<and> (\<forall>i \<in> set (fifo c'). seq_of c' i = seq_of c i)"
proof (induction fuel arbitrary: c)
  case 0
  then have "fifo c = []" "cached c = 0" by (auto dest: evict_empty)
  with 0 show ?case by (subst evict_loop.simps) auto
next
  case (Suc fuel)
  show ?case
  proof (cases "cf_sequences cfg \<le> length (fifo c) \<or> cf_tokens cfg < cached c + need")
    case False
    then show ?thesis using Suc.prems by (subst evict_loop.simps) (auto intro: exI[of _ 0])
  next
    case True
    with Suc.prems obtain i rest where f: "fifo c = i # rest"
      using evict_empty[of cfg c] by (cases "fifo c") auto
    have e: "fifo (evict cfg c) = rest" "next_id (evict cfg c) = next_id c"
      "\<And>j. j \<noteq> i \<Longrightarrow> seq_of (evict cfg c) j = seq_of c j"
      using f by (simp_all add: evict_def Let_def seq_of_def)
    from Suc.IH[OF evict_ok[OF Suc.prems(1)] Suc.prems(2,3)] Suc.prems(4) f e
    obtain c' k where c': "evict_loop fuel cfg need (evict cfg c) = Some c'" "cache_ok cfg c'"
      "next_id c' = next_id c" "length (fifo c') < cf_sequences cfg" "cached c' + need \<le> cf_tokens cfg"
      "fifo c' = drop k rest" "\<forall>j \<in> set (fifo c'). seq_of c' j = seq_of (evict cfg c) j"
      by auto
    have "i \<notin> set (fifo c')" using cache_okD(1)[OF Suc.prems(1)] f c'(6) by (auto dest: in_set_dropD)
    then have "\<forall>j \<in> set (fifo c'). seq_of c' j = seq_of c j" using c'(7) e(3) by metis
    moreover have "fifo c' = drop (Suc k) (fifo c)" using c'(6) f by simp
    moreover have "evict_loop (Suc fuel) cfg need c = Some c'"
      using True c'(1) by (subst evict_loop.simps) simp
    ultimately show ?thesis using c' e(2) by metis
  qed
qed

section \<open>Adding a sequence\<close>

lemma index_keys_set:
  "e \<in> set (index_keys cap i pos keys ix key) \<Longrightarrow>
   e \<in> set (ix key) \<or> (\<exists>q < length keys. keys ! q = key \<and> e = (i, pos + q))"
proof (induction keys arbitrary: pos ix)
  case Nil
  then show ?case by simp
next
  case (Cons k ks)
  let ?ix = "ix(k := push_pos cap (i, pos) (ix k))"
  from Cons.IH[of "Suc pos" ?ix] Cons.prems
  have "e \<in> set (?ix key) \<or> (\<exists>q < length ks. ks ! q = key \<and> e = (i, Suc pos + q))"
    by (simp only: index_keys.simps)
  then show ?case
  proof
    assume "e \<in> set (?ix key)"
    then have "e \<in> set (ix key) \<or> (k = key \<and> e = (i, pos))"
      by (cases "ix k") (auto simp: push_pos_def Let_def split: if_splits)
    then show ?thesis by (auto intro: exI[of _ 0])
  next
    assume "\<exists>q < length ks. ks ! q = key \<and> e = (i, Suc pos + q)"
    then obtain q where "q < length ks" "ks ! q = key" "e = (i, Suc pos + q)" by blast
    then show ?thesis by (intro disjI2 exI[of _ "Suc q"]) simp
  qed
qed

lemma index_keys_length:
  "(\<And>key. length (ix key) \<le> cap) \<Longrightarrow> length (index_keys cap i pos keys ix key) \<le> cap"
proof (induction keys arbitrary: pos ix)
  case Nil
  then show ?case by simp
next
  case (Cons k ks)
  have "length (push_pos cap e (ix k)) \<le> cap" for e
    using Cons.prems[of k] by (auto simp: push_pos_def Let_def)
  then show ?case using Cons.prems by (auto intro!: Cons.IH)
qed

lemma cache_add_total_ok:
  assumes ok: "cache_ok cfg c"
  shows "\<exists>c'. cache_add cfg toks c = Some c' \<and> cache_ok cfg c'"
proof -
  define kept where "kept = drop (length toks - cf_tokens cfg) toks"
  show ?thesis
  proof (cases "cf_sequences cfg = 0 \<or> cf_tokens cfg \<le> cf_n cfg \<or> length kept \<le> cf_n cfg")
    case True
    then show ?thesis using ok by (auto simp: cache_add_def kept_def Let_def)
  next
    case False
    have "length kept \<le> cf_tokens cfg" by (simp add: kept_def)
    with evict_loop_total[OF ok, of "length kept"] False obtain c1 where
      e: "evict_loop (length (fifo c)) cfg (length kept) c = Some c1" "cache_ok cfg c1"
      and room: "length (fifo c1) < cf_sequences cfg" "cached c1 + length kept \<le> cf_tokens cfg" by auto
    note d = cache_okD[OF e(2)]
    let ?i = "next_id c1"
    let ?c2 = "c1\<lparr>next_id := Suc ?i,
         index := index_keys (cf_positions cfg) ?i 0 (windows (cf_n cfg) kept) (index c1),
         cached := cached c1 + length kept, sequences := (sequences c1)(?i := Some kept),
         fifo := fifo c1 @ [?i]\<rparr>"
    have new: "?i \<notin> set (fifo c1)" using d(3) by blast
    have so: "seq_of ?c2 j = (if j = ?i then kept else seq_of c1 j)" for j by (simp add: seq_of_def)
    have sl: "seq_lens ?c2 = seq_lens c1 @ [length kept]"
      using new by (auto simp: seq_lens_def so)
    have "cache_ok cfg ?c2"
    proof (rule cache_okI)
      show "distinct (fifo ?c2)" "dom (sequences ?c2) = set (fifo ?c2)" using d(1,2) new by auto
      show "j < next_id ?c2" if "j \<in> set (fifo ?c2)" for j using that d(3)[of j] by auto
      show "cached ?c2 = sum_list (seq_lens ?c2)" unfolding sl using d(4) by simp
      show "cached ?c2 \<le> cf_tokens cfg" "length (fifo ?c2) \<le> cf_sequences cfg" using room by simp_all
      show "length (index ?c2 key) \<le> cf_positions cfg" for key using d(7) index_keys_length by simp
      show "j \<in> set (fifo ?c2) \<and> p + cf_n cfg \<le> length (seq_of ?c2 j) \<and>
          take (cf_n cfg) (drop p (seq_of ?c2 j)) = key" if "(j, p) \<in> set (index ?c2 key)" for key j p
      proof -
        from that index_keys_set consider (old) "(j, p) \<in> set (index c1 key)"
          | (fresh) q where "q < length (windows (cf_n cfg) kept)" "windows (cf_n cfg) kept ! q = key"
              "j = ?i" "p = q" by fastforce
        then show ?thesis
        proof cases
          case old
          then show ?thesis using d(8,9,10)[OF old] new unfolding so by auto
        next
          case fresh
          then show ?thesis unfolding so by (auto simp: windows_def)
        qed
      qed
    qed
    moreover have "cache_add cfg toks c = Some ?c2"
      using False e(1) by (simp add: cache_add_def kept_def[symmetric] Let_def)
    ultimately show ?thesis by blast
  qed
qed

section \<open>What speculation proposes\<close>

text \<open>\<open>back_match\<close>: the \<open>m\<close> tokens before end \<open>e\<close> of the sequence are the last \<open>m\<close> of the window.\<close>

definition back_match :: "token list \<Rightarrow> token list \<Rightarrow> nat \<Rightarrow> nat \<Rightarrow> bool" where
  "back_match sq win e m \<longleftrightarrow> m \<le> e \<and> m \<le> length win \<and> e \<le> length sq \<and>
     (\<forall>j < m. sq ! (e - j - 1) = win ! (length win - j - 1))"

lemma match_back_ok:
  "back_match sq win e m \<Longrightarrow> back_match sq win e (match_back fuel sq win e m) \<and> m \<le> match_back fuel sq win e m"
proof (induction fuel arbitrary: m)
  case 0
  then show ?case by simp
next
  case (Suc fuel)
  show ?case
  proof (cases "m < length win \<and> m < e \<and> sq ! (e - m - 1) = win ! (length win - m - 1)")
    case True
    with Suc.prems have "back_match sq win e (Suc m)"
      by (auto simp: back_match_def less_Suc_eq)
    from Suc.IH[OF this] True show ?thesis by simp
  next
    case False
    then have "match_back (Suc fuel) sq win e m = m" by (simp only: match_back.simps if_False)
    then show ?thesis using Suc.prems by simp
  qed
qed

lemma best_ends_ok:
  assumes "\<And>i p. (i, p) \<in> set es \<Longrightarrow> back_match (seq_of c i) win (p + n) n"
    and "\<And>i e. (i, e) \<in> set ends \<Longrightarrow> (\<exists>p. e = p + n) \<and> back_match (seq_of c i) win e best \<and> P i"
    and "\<And>i p. (i, p) \<in> set es \<Longrightarrow> P i"
    and "best_ends c n win es (best, ends) = (best', ends')" and "(i, e) \<in> set ends'"
  shows "back_match (seq_of c i) win e best' \<and> P i"
  using assms
proof (induction es arbitrary: best ends)
  case Nil
  then show ?case by auto
next
  case (Cons x es)
  obtain j pos where x: "x = (j, pos)" by (cases x)
  let ?m = "match_back (length win) (seq_of c j) win (pos + n) n"
  let ?ends = "if best < ?m then [] else ends"
  let ?best = "max best ?m"
  let ?ends' = "if ?m = ?best then ?ends @ [(j, pos + n)] else ?ends"
  have m: "back_match (seq_of c j) win (pos + n) ?m"
    using match_back_ok[of "seq_of c j" win "pos + n" n "length win"] Cons.prems(1)[of j pos] x by simp
  have "P j" using Cons.prems(3)[of j pos] x by simp
  have st: "best_ends c n win es (?best, ?ends') = (best', ends')"
    using Cons.prems(4) x by (simp add: Let_def)
  show ?case
  proof (rule Cons.IH[OF _ _ _ st])
    fix i' e' assume "(i', e') \<in> set ?ends'"
    then consider "best \<ge> ?m" "(i', e') \<in> set ends" | "?m = ?best" "i' = j" "e' = pos + n"
      by (auto split: if_splits)
    then show "(\<exists>p. e' = p + n) \<and> back_match (seq_of c i') win e' ?best \<and> P i'"
    proof cases
      case 1
      then have "?best = best" by simp
      then show ?thesis using Cons.prems(2) 1 by simp
    next
      case 2
      then show ?thesis using m \<open>P j\<close> by (metis (full_types))
    qed
  next
    fix i' p assume "(i', p) \<in> set es"
    then have "(i', p) \<in> set (x # es)" by simp
    then show "back_match (seq_of c i') win (p + n) n" "P i'" using Cons.prems(1,3) by blast+
  qed (rule Cons.prems(5))
qed

text \<open>The winning vote is a token some end really continues with.\<close>

lemma votes_winner:
  assumes "votes c step ends \<noteq> []" and "Max (set (votes c step ends)) = (r, tok)"
  shows "\<exists>e \<in> set ends. token_at c step e = Some tok"
proof -
  have "(r, tok) \<in> set (votes c step ends)"
    using Max_in[of "set (votes c step ends)"] assms by simp
  then show ?thesis by (auto simp: votes_def Let_def map_filter_def)
qed

text \<open>\<open>continues\<close>: reading on from end \<open>e\<close> gives these tokens.\<close>

definition continues :: "cache \<Rightarrow> nat \<Rightarrow> nat \<times> nat \<Rightarrow> token list \<Rightarrow> bool" where
  "continues c step e toks \<longleftrightarrow> (\<forall>q < length toks. token_at c (step + q) e = Some (toks ! q))"

lemma continues_Cons:
  "continues c step e (t # ts) \<longleftrightarrow> token_at c step e = Some t \<and> continues c (Suc step) e ts"
  by (auto simp: continues_def less_Suc_eq_0_disj)

lemma draft_loop_length: "length (fst (draft_loop cfg c cap step ends score)) \<le> cap"
  by (induction cap arbitrary: step ends score) (auto simp: Let_def case_prod_beta)

lemma draft_loop_continues:
  "draft_loop cfg c cap step ends score = (toks, s) \<Longrightarrow> toks \<noteq> [] \<Longrightarrow>
   \<exists>e \<in> set ends. continues c step e toks"
proof (induction cap arbitrary: step ends score toks s)
  case 0
  then show ?case by simp
next
  case (Suc cap)
  obtain sup last tok where mx: "Max (set (votes c step ends)) = ((sup, last), tok)"
    by (metis surj_pair)
  let ?ends = "filter (\<lambda>e. token_at c step e = Some tok) ends"
  let ?score = "score * of_nat sup / of_nat (length ends)"
  from Suc.prems mx have vs: "votes c step ends \<noteq> []" and "\<not> sup < cf_support cfg"
    by (auto simp: Let_def split: if_splits prod.splits)
  with Suc.prems mx obtain rest where
    rest: "draft_loop cfg c cap (Suc step) ?ends ?score = (rest, s)" and toks: "toks = tok # rest"
    by (auto simp: Let_def split: prod.splits)
  show ?case
  proof (cases rest)
    case Nil
    from votes_winner[OF vs mx] obtain e where "e \<in> set ends" "token_at c step e = Some tok" by blast
    with Nil toks show ?thesis by (auto simp: continues_Cons continues_def)
  next
    case (Cons t ts)
    with Suc.IH[OF rest] obtain e where "e \<in> set ?ends" "continues c (Suc step) e rest" by blast
    with toks show ?thesis by (auto simp: continues_Cons)
  qed
qed

lemma back_match_window:
  assumes "cf_n cfg \<le> length win" and "p + cf_n cfg \<le> length sq"
    and "take (cf_n cfg) (drop p sq) = drop (length win - cf_n cfg) win"
  shows "back_match sq win (p + cf_n cfg) (cf_n cfg)"
proof -
  have "sq ! (p + cf_n cfg - Suc j) = win ! (length win - Suc j)" if "j < cf_n cfg" for j
  proof -
    let ?q = "cf_n cfg - Suc j"
    have "take (cf_n cfg) (drop p sq) ! ?q = sq ! (p + ?q)" using that assms(1,2) by simp
    moreover have "drop (length win - cf_n cfg) win ! ?q = win ! (length win - cf_n cfg + ?q)"
      using assms(1) by simp
    moreover have "p + ?q = p + cf_n cfg - Suc j" "length win - cf_n cfg + ?q = length win - Suc j"
      using that assms(1) by linarith+
    ultimately show ?thesis using assms(3) by (simp only:)
  qed
  with assms show ?thesis by (auto simp: back_match_def)
qed

lemma back_match_slices:
  assumes "back_match sq win e m"
  shows "drop (length win - m) win = take m (drop (e - m) sq)"
proof (rule nth_equalityI)
  show len: "length (drop (length win - m) win) = length (take m (drop (e - m) sq))"
    using assms by (auto simp: back_match_def)
  fix i assume i: "i < length (drop (length win - m) win)"
  then have im: "i < m" using assms by (simp add: back_match_def)
  let ?j = "m - Suc i"
  have j: "?j < m" using im by simp
  have "sq ! (e - ?j - 1) = win ! (length win - ?j - 1)" using assms j by (simp only: back_match_def)
  moreover have "e - ?j - 1 = e - m + i" "length win - ?j - 1 = length win - m + i"
    using assms im by (auto simp: back_match_def)
  ultimately have "sq ! (e - m + i) = win ! (length win - m + i)" by (simp only:)
  then show "drop (length win - m) win ! i = take m (drop (e - m) sq) ! i"
    using assms im by (auto simp: back_match_def)
qed

lemma continues_slice:
  assumes "continues c 0 (i, e) toks"
  shows "toks = take (length toks) (drop e (seq_of c i))"
proof -
  have at: "e + q < length (seq_of c i) \<and> seq_of c i ! (e + q) = toks ! q" if "q < length toks" for q
    using assms that by (auto simp: continues_def token_at_def split: if_splits)
  show ?thesis
  proof (rule nth_equalityI)
    show "length toks = length (take (length toks) (drop e (seq_of c i)))"
      using at[of "length toks - 1"] by (cases toks) auto
    fix q assume "q < length toks"
    from at[OF this] \<open>q < length toks\<close> show "toks ! q = take (length toks) (drop e (seq_of c i)) ! q" by simp
  qed
qed

lemma speculate_length: "length (fst (speculate cfg c ctx m)) \<le> m"
proof -
  have "length (fst (draft_loop cfg c (draft_cap cfg m best) 0 ends 1)) \<le> m" for best ends
    using draft_loop_length[of cfg c "draft_cap cfg m best" 0 ends 1] by (simp add: draft_cap_def)
  then show ?thesis by (auto simp: speculate_def Let_def split: prod.split dest: meta_spec)
     (metis fst_conv)+
qed

lemma speculate_sound:
  assumes ok: "cache_ok cfg c" and r: "speculate cfg c ctx m = (toks, score, best)" and ne: "toks \<noteq> []"
  shows "\<exists>i \<in> set (fifo c). \<exists>e. best \<le> length ctx \<and> best \<le> e \<and>
     drop (length ctx - best) ctx = take best (drop (e - best) (seq_of c i)) \<and>
     toks = take (length toks) (drop e (seq_of c i))"
proof -
  define win where "win = drop (length ctx - cf_depth cfg) ctx"
  let ?n = "cf_n cfg" and ?b = "index c (drop (length win - cf_n cfg) win)"
  let ?es = "take (cf_candidates cfg) (rev ?b)"
  obtain best' ends where be: "best_ends c ?n win ?es (0, []) = (best', ends)" by (metis surj_pair)
  from r ne have n: "?n \<le> length win" and best: "best = best'"
    and dl: "\<exists>s. draft_loop cfg c (draft_cap cfg m best') 0 ends 1 = (toks, s)"
    unfolding speculate_def win_def[symmetric] Let_def
    by (auto simp: be not_less split: if_splits prod.splits)
  have start: "back_match (seq_of c i) win (p + ?n) ?n" and live: "i \<in> set (fifo c)"
    if "(i, p) \<in> set ?es" for i p
  proof -
    from that have b: "(i, p) \<in> set ?b" by (auto dest: in_set_takeD)
    show "i \<in> set (fifo c)" by (rule cache_okD(8)[OF ok b])
    show "back_match (seq_of c i) win (p + ?n) ?n"
      by (rule back_match_window[OF n cache_okD(9)[OF ok b] cache_okD(10)[OF ok b]])
  qed
  from dl draft_loop_continues[OF _ ne] obtain i e where e: "(i, e) \<in> set ends" "continues c 0 (i, e) toks"
    by fastforce
  from best_ends_ok[where P = "\<lambda>i. i \<in> set (fifo c)", OF start _ live be e(1)] have bm: "back_match (seq_of c i) win e best'"
    and i: "i \<in> set (fifo c)" by auto
  have "drop (length win - best') win = drop (length ctx - best') ctx" "best' \<le> length ctx"
    using bm by (auto simp: back_match_def win_def)
  with back_match_slices[OF bm] continues_slice[OF e(2)] bm i best show ?thesis
    by (auto simp: back_match_def)
qed

section \<open>Properties\<close>

fun cache_adds :: "cache_cfg \<Rightarrow> token list list \<Rightarrow> cache \<Rightarrow> cache option" where
  "cache_adds cfg [] c = Some c"
| "cache_adds cfg (ts # tss) c = (case cache_add cfg ts c of None \<Rightarrow> None | Some c' \<Rightarrow> cache_adds cfg tss c')"

lemma cache_adds_ok: "cache_ok cfg c \<Longrightarrow> \<exists>c'. cache_adds cfg tss c = Some c' \<and> cache_ok cfg c'"
proof (induction tss arbitrary: c)
  case Nil
  then show ?case by simp
next
  case (Cons ts tss)
  from cache_add_total_ok[OF Cons.prems, of ts] Cons.IH show ?case by fastforce
qed

lemma cache_adds_new_ok: "cache_adds cfg tss cache_new = Some c \<Longrightarrow> cache_ok cfg c"
  using cache_adds_ok[OF cache_ok_new, of cfg tss] by auto

definition demo_cache_cfg :: cache_cfg where
  "demo_cache_cfg = \<lparr>cf_n = 2, cf_depth = 8, cf_sequences = 2, cf_tokens = 8, cf_positions = 4,
     cf_candidates = 4, cf_support = 1, cf_factor = 1, cf_offset = 0\<rparr>"

text \<open>C19: adding sequences to a new corpus always ends (the eviction loop never runs on an empty
  queue) and keeps the corpus within its sequence and token budgets, its token count exact, and its
  index free of positions of evicted sequences and within its bucket bound.\<close>

theorem corpus_stays_bounded:
  "\<exists>c. cache_adds cfg tss cache_new = Some c \<and> length (fifo c) \<le> cf_sequences cfg \<and>
     cached c \<le> cf_tokens cfg \<and> cached c = sum_list (map (\<lambda>i. length (seq_of c i)) (fifo c)) \<and>
     (\<forall>key. length (index c key) \<le> cf_positions cfg \<and> fst ` set (index c key) \<subseteq> set (fifo c))"
proof -
  from cache_adds_ok[OF cache_ok_new, of cfg tss] obtain c where
    c: "cache_adds cfg tss cache_new = Some c" "cache_ok cfg c" by blast
  with cache_okD[OF c(2)] show ?thesis
    by (auto simp: seq_lens_def intro!: exI[of _ c])
qed

text \<open>C16: a draft speculated from such a corpus is at most as long as asked for and is copied from
  a live sequence: that sequence holds the last \<open>best\<close> tokens of the context followed by the draft.\<close>

theorem drafts_continue_corpus:
  assumes "cache_adds cfg tss cache_new = Some c" and "speculate cfg c ctx m = (toks, score, best)"
    and "toks \<noteq> []"
  shows "length toks \<le> m \<and> (\<exists>i \<in> set (fifo c). \<exists>e. best \<le> length ctx \<and> best \<le> e \<and>
     drop (length ctx - best) ctx = take best (drop (e - best) (seq_of c i)) \<and>
     toks = take (length toks) (drop e (seq_of c i)))"
  using speculate_sound[OF cache_adds_new_ok[OF assms(1)] assms(2,3)]
    speculate_length[of cfg c ctx m] assms(2) by simp

lemma drafts_continue_corpus_witness:
  "case cache_adds demo_cache_cfg [[1, 2, 3, 4], [5, 6, 7]] cache_new of None \<Rightarrow> False
   | Some c \<Rightarrow> \<exists>i \<in> set (fifo c). \<exists>e. [3, 4] = take 2 (drop e (seq_of c i))"
proof -
  define c where "c = the (cache_adds demo_cache_cfg [[1, 2, 3, 4], [5, 6, 7]] cache_new)"
  have s: "speculate demo_cache_cfg c [9, 1, 2] 5 = ([3, 4], 1, 2)"
    unfolding c_def by code_simp
  have a: "cache_adds demo_cache_cfg [[1, 2, 3, 4], [5, 6, 7]] cache_new = Some c"
    unfolding c_def using cache_adds_ok[OF cache_ok_new, of demo_cache_cfg "[[1, 2, 3, 4], [5, 6, 7]]"] by auto
  have l: "length [3 :: token, 4] = 2" by simp
  have "\<exists>i \<in> set (fifo c). \<exists>e. [3, 4] = take 2 (drop e (seq_of c i))"
    using drafts_continue_corpus[OF a s] unfolding l by blast
  then show ?thesis unfolding a by (simp only: option.case)
qed

end
