(* ===== verification/SuffixProposer.thy ===== *)
theory SuffixProposer
  imports SuffixCache
begin

text \<open>
  The Rust proposer the suffix-only mode drives (\<open>src/src/mixer.rs\<close>, \<open>V2SuffixProposer\<close>): the
  per-request token mirror, the width table, the width gate and one call of
  \<open>propose_suffix_only\<close>. The locale \<open>suffix_proposer\<close> is the interface the Python side relies on;
  it is interpreted on this model. Hash maps are association lists, so requests that are gone are
  ingested in list order; the gate's f64 average is rational.
\<close>

record pcfg =
  pk :: nat
  p_max_len :: nat
  p_min_len :: nat
  p_uniform :: bool
  p_gated :: bool
  p_cc :: cache_cfg

record gate_row =
  ewma :: rat
  last_width :: nat

record proposer =
  p_cache :: cache
  p_mirror :: "(rid, token list) dict"
  p_widths :: "(rid, nat) dict"
  p_gate :: "(rid, gate_row) dict"
  p_steps :: nat
  p_hits :: nat
  p_hit_tokens :: nat
  p_ingested :: nat
  p_resets :: nat
  p_padded :: nat

definition proposer_new :: "nat \<Rightarrow> nat \<Rightarrow> nat \<Rightarrow> bool \<Rightarrow> bool \<Rightarrow> cache_cfg \<Rightarrow> (pcfg \<times> proposer) res" where
  "proposer_new k max_len min_len uniform gated cc =
     (if k < 1 \<or> 64 < k \<or> max_len < 1 \<or> 16777216 < max_len then Inl ValueError
      else Inr (\<lparr>pk = k, p_max_len = max_len, p_min_len = max min_len 1, p_uniform = uniform,
                 p_gated = gated, p_cc = cc\<rparr>,
                \<lparr>p_cache = cache_new, p_mirror = [], p_widths = [], p_gate = [], p_steps = 0, p_hits = 0,
                 p_hit_tokens = 0, p_ingested = 0, p_resets = 0, p_padded = 0\<rparr>))"

lemma proposer_new_code [code]:
  "proposer_new k max_len min_len uniform gated cc =
     (if k < 1 \<or> 64 < k \<or> max_len < 1 \<or> (16777216 :: int) < int max_len then Inl ValueError
      else Inr (\<lparr>pk = k, p_max_len = max_len, p_min_len = max min_len 1, p_uniform = uniform,
                 p_gated = gated, p_cc = cc\<rparr>,
                \<lparr>p_cache = cache_new, p_mirror = [], p_widths = [], p_gate = [], p_steps = 0, p_hits = 0,
                 p_hit_tokens = 0, p_ingested = 0, p_resets = 0, p_padded = 0\<rparr>))"
  by (simp add: proposer_new_def)

section \<open>Requests that left\<close>

definition ingest :: "cache_cfg \<Rightarrow> token list \<Rightarrow> proposer \<Rightarrow> proposer" where
  "ingest cc row p =
     (if 8 < length row
      then p\<lparr>p_cache := (case cache_add cc row (p_cache p) of None \<Rightarrow> p_cache p | Some c \<Rightarrow> c),
             p_ingested := Suc (p_ingested p)\<rparr>
      else p)"

definition forget_row :: "cache_cfg \<Rightarrow> rid \<Rightarrow> proposer \<Rightarrow> proposer" where
  "forget_row cc r p =
     (case map_of (p_mirror p) r of
        None \<Rightarrow> p
      | Some row \<Rightarrow> ingest cc row (p\<lparr>p_mirror := AList.delete r (p_mirror p),
                                   p_widths := AList.delete r (p_widths p),
                                   p_gate := AList.delete r (p_gate p)\<rparr>))"

definition forget_gone :: "cache_cfg \<Rightarrow> rid list \<Rightarrow> proposer \<Rightarrow> proposer" where
  "forget_gone cc ids p =
     fold (forget_row cc) (filter (\<lambda>r. r \<notin> set ids) (dict_keys (p_mirror p))) p"

section \<open>One row\<close>

definition BOUNDARY :: nat where "BOUNDARY = 64"

text \<open>Whether the device row continues the tracked tokens: both 64-token ends agree.\<close>

definition row_continues :: "token list option \<Rightarrow> nat \<Rightarrow> token list \<Rightarrow> bool" where
  "row_continues tracked tot row = (case tracked of
      None \<Rightarrow> False
    | Some t \<Rightarrow> length t \<le> tot \<and>
        (let l = length t; w = min BOUNDARY l
         in list_all2 (=) (take w t) (take w row) \<and>
            list_all2 (=) (drop (l - w) t) (take w (drop (l - w) row))))"

definition sync_tracked :: "rid \<Rightarrow> nat \<Rightarrow> token list \<Rightarrow> proposer \<Rightarrow> proposer" where
  "sync_tracked r tot row p =
     (case map_of (p_mirror p) r of
        Some t \<Rightarrow>
          (if row_continues (Some t) tot row
           then p\<lparr>p_mirror := AList.update r (t @ take (tot - length t) (drop (length t) row)) (p_mirror p)\<rparr>
           else p\<lparr>p_resets := Suc (p_resets p), p_mirror := AList.update r (take tot row) (p_mirror p)\<rparr>)
      | None \<Rightarrow> p\<lparr>p_mirror := AList.update r (take tot row) (p_mirror p)\<rparr>)"

definition draft_of :: "pcfg \<Rightarrow> token list \<Rightarrow> cache \<Rightarrow> token list" where
  "draft_of cfg toks c =
     (let suffix = fst (speculate (p_cc cfg) c toks (pk cfg))
      in if suffix \<noteq> [] \<and> p_min_len cfg \<le> length suffix then take (pk cfg) suffix else [])"

text \<open>The accepted-length average of a gated row, fed by how far the tot moved.\<close>

definition gate_learn :: "nat option \<Rightarrow> nat \<Rightarrow> bool \<Rightarrow> gate_row \<Rightarrow> gate_row" where
  "gate_learn tracked_len tot cont g =
     (case tracked_len of
        Some l \<Rightarrow>
          (if cont \<and> 0 < last_width g \<and> 1 \<le> tot - l
           then let a = min (tot - l - 1) (last_width g)
                in g\<lparr>ewma := (if last_width g \<le> a then of_nat (last_width g + 1)
                              else 7 / 10 * ewma g + 3 / 10 * of_nat a)\<rparr>
           else g)
      | None \<Rightarrow> g)"

definition gate_width :: "nat \<Rightarrow> gate_row \<Rightarrow> nat" where
  "gate_width k g = min (max (nat (ceiling (ewma g))) 1) k"

definition gate_step :: "pcfg \<Rightarrow> rid \<Rightarrow> nat option \<Rightarrow> nat \<Rightarrow> bool \<Rightarrow> token list \<Rightarrow> (rid, gate_row) dict \<Rightarrow>
    token list \<times> (rid, gate_row) dict" where
  "gate_step cfg r tracked_len tot cont toks gt =
     (if \<not> p_gated cfg then (toks, gt)
      else let g = map_option (gate_learn tracked_len tot cont) (map_of gt r);
               w = (case g of None \<Rightarrow> pk cfg | Some g \<Rightarrow> gate_width (pk cfg) g);
               toks' = (if w < length toks then take w toks else toks);
               e = (case g of None \<Rightarrow> of_nat (pk cfg) | Some g \<Rightarrow> ewma g)
           in (toks', AList.update r \<lparr>ewma = e, last_width = (if p_uniform cfg then pk cfg else length toks')\<rparr> gt))"

record row_out =
  out_toks :: "token list"
  out_width :: nat
  out_real :: nat

definition row_step :: "pcfg \<Rightarrow> token list list \<Rightarrow> rid \<times> nat \<times> int \<Rightarrow> proposer \<Rightarrow> row_out res \<times> proposer" where
  "row_step cfg tokens = (\<lambda>(r, j, tt) p.
     if \<not> j < length tokens then (Inl IndexError, p)
     else if tt < 0 \<or> int (length (tokens ! j)) < tt \<or> int (p_max_len cfg) < tt
       then (Inl ValueError, p)
     else
       let row = tokens ! j; n = nat tt; tracked = map_of (p_mirror p) r;
           cont = row_continues tracked n row;
           p1 = sync_tracked r n row p;
           toks_row = dict_or (p_mirror p1) r [];
           pad = (if toks_row = [] then 0 else hd toks_row);
           (toks, gt) = gate_step cfg r (map_option length tracked) n cont
                          (draft_of cfg toks_row (p_cache p1)) (p_gate p1);
           real = length toks;
           out = (if p_uniform cfg
                  then \<lparr>out_toks = toks @ replicate (pk cfg - real) pad, out_width = pk cfg, out_real = real\<rparr>
                  else \<lparr>out_toks = toks, out_width = real, out_real = real\<rparr>)
       in (Inr out, p1\<lparr>p_gate := gt,
             p_hits := p_hits p1 + (if 0 < real then 1 else 0),
             p_hit_tokens := p_hit_tokens p1 + real,
             p_widths := AList.update r (out_width out) (p_widths p1)\<rparr>))"

fun row_steps :: "pcfg \<Rightarrow> token list list \<Rightarrow> (rid \<times> nat \<times> int) list \<Rightarrow> proposer \<Rightarrow>
    row_out list res \<times> proposer" where
  "row_steps cfg tokens [] p = (Inr [], p)"
| "row_steps cfg tokens (x # xs) p =
     (case row_step cfg tokens x p of
        (Inl e, p') \<Rightarrow> (Inl e, p')
      | (Inr out, p') \<Rightarrow>
          (case row_steps cfg tokens xs p' of
             (Inl e, p'') \<Rightarrow> (Inl e, p'')
           | (Inr outs, p'') \<Rightarrow> (Inr (out # outs), p'')))"

section \<open>One call\<close>

definition pack_row :: "nat \<Rightarrow> row_out \<Rightarrow> token list" where
  "pack_row k o' = take k (out_toks o') @ replicate (k - length (out_toks o')) 0"

definition propose_suffix_only :: "pcfg \<Rightarrow> rid list \<Rightarrow> nat list \<Rightarrow> int list \<Rightarrow> token list list \<Rightarrow> proposer \<Rightarrow>
    (token list list \<times> nat list) res \<times> proposer" where
  "propose_suffix_only cfg ids idx totals tokens p =
     (if length totals < length ids \<or> length idx < length ids then (Inl ValueError, p)
      else case row_steps cfg tokens (zip ids (zip idx totals)) (forget_gone (p_cc cfg) ids p) of
             (Inl e, p') \<Rightarrow> (Inl e, p')
           | (Inr outs, p') \<Rightarrow>
               (Inr (map (pack_row (pk cfg)) outs, map out_width outs),
                p'\<lparr>p_steps := Suc (p_steps p'),
                   p_padded := p_padded p' +
                     (if p_uniform cfg then length (filter (\<lambda>x. out_real x < out_width x) outs) else 0)\<rparr>))"

definition clear_widths :: "proposer \<Rightarrow> proposer" where
  "clear_widths p = p\<lparr>p_widths := map (\<lambda>(r, _). (r, 0)) (p_widths p),
     p_gate := map (\<lambda>(r, g). (r, if map_of (p_widths p) r = None then g else g\<lparr>last_width := 0\<rparr>)) (p_gate p)\<rparr>"

section \<open>The interface of the Python side\<close>

locale suffix_proposer =
  fixes k :: nat
    and call :: "rid list \<Rightarrow> nat list \<Rightarrow> int list \<Rightarrow> token list list \<Rightarrow> 'p \<Rightarrow>
      (token list list \<times> nat list) res \<times> 'p"
    and table :: "'p \<Rightarrow> (rid, nat) dict"
    and clear :: "'p \<Rightarrow> 'p"
    and inv :: "'p \<Rightarrow> bool"
  assumes inv_call: "inv p \<Longrightarrow> call ids idx tots toks p = (ans, p') \<Longrightarrow> inv p'"
    and inv_clear: "inv p \<Longrightarrow> inv (clear p)"
    and call_shape: "inv p \<Longrightarrow> call ids idx tots toks p = (Inr (rows, ws), p') \<Longrightarrow>
      length rows = length ids \<and> length ws = length ids \<and>
      (\<forall>row \<in> set rows. length row = k) \<and> (\<forall>w \<in> set ws. w \<le> k)"
    and call_table: "inv p \<Longrightarrow> call ids idx tots toks p = (Inr (rows, ws), p') \<Longrightarrow> distinct ids \<Longrightarrow>
      i < length ids \<Longrightarrow> map_of (table p') (ids ! i) = Some (ws ! i)"
    and table_bound: "inv p \<Longrightarrow> map_of (table p) r = Some w \<Longrightarrow> w \<le> k"
    and clear_table: "map_of (table (clear p)) r = map_option (\<lambda>_. 0) (map_of (table p) r)"
begin

lemma table_or_bound: "inv p \<Longrightarrow> dict_or (table p) r 0 \<le> k"
  by (auto simp: dict_or_def dest: table_bound split: option.split)

lemma clear_table_or: "dict_or (table (clear p)) r 0 = 0"
  by (auto simp: dict_or_def clear_table split: option.split)

end

section \<open>The laws hold\<close>

definition widths_ok :: "nat \<Rightarrow> (rid, nat) dict \<Rightarrow> bool" where
  "widths_ok k d \<longleftrightarrow> (\<forall>(r, w) \<in> set d. w \<le> k)"

definition proposer_ok :: "pcfg \<Rightarrow> proposer \<Rightarrow> bool" where
  "proposer_ok cfg p \<longleftrightarrow> cache_ok (p_cc cfg) (p_cache p) \<and> widths_ok (pk cfg) (p_widths p)"

lemma set_update_sub: "set (AList.update k v d) \<subseteq> insert (k, v) (set d)"
  by (induction d) auto

lemma widths_ok_update: "widths_ok k d \<Longrightarrow> w \<le> k \<Longrightarrow> widths_ok k (AList.update r w d)"
  using set_update_sub[of r w d] by (auto simp: widths_ok_def)

lemma widths_ok_delete: "widths_ok k d \<Longrightarrow> widths_ok k (AList.delete r d)"
  by (induction d) (auto simp: widths_ok_def)

lemma ingest_ok: "cache_ok cc (p_cache p) \<Longrightarrow> cache_ok cc (p_cache (ingest cc row p))"
  using cache_add_total_ok[of cc "p_cache p" row] by (auto simp: ingest_def split: option.split)

lemma ingest_frame [frame_simps]:
  "p_widths (ingest cc row p) = p_widths p" "p_mirror (ingest cc row p) = p_mirror p"
  "p_gate (ingest cc row p) = p_gate p"
  by (simp_all add: ingest_def)

lemma forget_row_ok: "proposer_ok cfg p \<Longrightarrow> proposer_ok cfg (forget_row (p_cc cfg) r p)"
  by (auto simp: proposer_ok_def forget_row_def frame_simps ingest_ok widths_ok_delete split: option.split)

lemma fold_inv: "(\<And>x p. P p \<Longrightarrow> P (f x p)) \<Longrightarrow> P p \<Longrightarrow> P (fold f xs p)"
  by (induction xs arbitrary: p) auto

lemma forget_gone_ok: "proposer_ok cfg p \<Longrightarrow> proposer_ok cfg (forget_gone (p_cc cfg) ids p)"
  unfolding forget_gone_def by (rule fold_inv) (simp_all add: forget_row_ok)

text \<open>A live request keeps its tracked tokens while the others are forgotten.\<close>

lemma forget_row_other: "s \<noteq> r \<Longrightarrow> map_of (p_mirror (forget_row cc r p)) s = map_of (p_mirror p) s"
  by (auto simp: forget_row_def frame_simps dict_simps split: option.split)

lemma fold_forget_other:
  "s \<notin> set rs \<Longrightarrow> map_of (p_mirror (fold (forget_row cc) rs p)) s = map_of (p_mirror p) s"
  by (induction rs arbitrary: p) (auto simp: forget_row_other)

lemma forget_gone_live:
  "s \<in> set ids \<Longrightarrow> map_of (p_mirror (forget_gone cc ids p)) s = map_of (p_mirror p) s"
  by (simp add: forget_gone_def fold_forget_other)

lemma forget_row_self: "map_of (p_mirror (forget_row cc r p)) r = None"
  by (auto simp: forget_row_def frame_simps dict_simps split: option.split)

lemma forget_row_none: "map_of (p_mirror p) s = None \<Longrightarrow> map_of (p_mirror (forget_row cc r p)) s = None"
  by (cases "s = r") (simp_all add: forget_row_self forget_row_other)

lemma fold_forget_none:
  "s \<in> set rs \<or> map_of (p_mirror p) s = None \<Longrightarrow> map_of (p_mirror (fold (forget_row cc) rs p)) s = None"
proof (induction rs arbitrary: p)
  case Nil
  then show ?case by simp
next
  case (Cons r rs)
  then show ?case by (cases "s = r") (auto simp: forget_row_self forget_row_none)
qed

lemma forget_gone_none: "s \<notin> set ids \<Longrightarrow> map_of (p_mirror (forget_gone cc ids p)) s = None"
  unfolding forget_gone_def
  by (rule fold_forget_none) (auto simp: map_of_eq_None_iff)

lemma sync_tracked_frame [frame_simps]:
  "p_cache (sync_tracked r n row p) = p_cache p" "p_widths (sync_tracked r n row p) = p_widths p"
  "p_gate (sync_tracked r n row p) = p_gate p"
  by (simp_all add: sync_tracked_def split: option.split)

lemma sync_tracked_other:
  "s \<noteq> r \<Longrightarrow> map_of (p_mirror (sync_tracked r n row p)) s = map_of (p_mirror p) s"
  by (simp add: sync_tracked_def dict_simps split: option.split)

text \<open>The tracked tokens after a row is synchronised, when the device row extends them.\<close>

lemma sync_tracked_exact:
  assumes "n \<le> length row"
    and "\<And>t. map_of (p_mirror p) r = Some t \<Longrightarrow> length t \<le> n \<Longrightarrow> t = take (length t) row"
  shows "map_of (p_mirror (sync_tracked r n row p)) r = Some (take n row)"
proof (cases "map_of (p_mirror p) r")
  case None
  then show ?thesis by (simp add: sync_tracked_def dict_simps)
next
  case (Some t)
  show ?thesis
  proof (cases "row_continues (Some t) n row")
    case True
    then have "length t \<le> n" by (simp add: row_continues_def)
    then have "t @ take (n - length t) (drop (length t) row) = take n row"
      using assms(2)[OF Some] by (metis le_add_diff_inverse take_add)
    with Some True show ?thesis by (simp add: sync_tracked_def dict_simps)
  next
    case False
    with Some show ?thesis by (simp add: sync_tracked_def dict_simps)
  qed
qed

text \<open>One row: what it changes, and the shape of its answer.\<close>

lemma draft_of_length: "length (draft_of cfg toks c) \<le> pk cfg"
  by (simp add: draft_of_def Let_def)

lemma draft_of_prefix:
  "draft_of cfg toks c = take (length (draft_of cfg toks c)) (fst (speculate (p_cc cfg) c toks (pk cfg)))"
  by (simp add: draft_of_def Let_def min_def)

lemma gate_step_prefix:
  "gate_step cfg r l n cont toks gt = (toks', gt') \<Longrightarrow> toks' = take (length toks') toks \<and> length toks' \<le> length toks"
  by (auto simp: gate_step_def Let_def split: if_splits)

lemma row_step_frame:
  assumes "row_step cfg tokens (r, j, tt) p = (ans, p')"
  shows "p_cache p' = p_cache p" "s \<noteq> r \<Longrightarrow> map_of (p_mirror p') s = map_of (p_mirror p) s"
    "s \<noteq> r \<Longrightarrow> map_of (p_widths p') s = map_of (p_widths p) s"
  using assms
  by (auto simp: row_step_def Let_def frame_simps sync_tracked_other dict_simps split: if_splits prod.splits)

lemma row_step_answer:
  assumes "row_step cfg tokens (r, j, tt) p = (Inr x, p')"
  shows "j < length tokens \<and> 0 \<le> tt \<and> tt \<le> int (length (tokens ! j)) \<and>
    p_mirror p' = p_mirror (sync_tracked r (nat tt) (tokens ! j) p) \<and>
    map_of (p_widths p') r = Some (out_width x) \<and> out_real x \<le> pk cfg \<and> out_width x \<le> pk cfg \<and>
    length (out_toks x) = (if p_uniform cfg then pk cfg else out_real x) \<and>
    out_width x = (if p_uniform cfg then pk cfg else out_real x) \<and>
    out_real x \<le> length (draft_of cfg (dict_or (p_mirror p') r []) (p_cache p)) \<and>
    take (out_real x) (out_toks x) =
      take (out_real x) (draft_of cfg (dict_or (p_mirror p') r []) (p_cache p))"
proof -
  define p1 where "p1 = sync_tracked r (nat tt) (tokens ! j) p"
  define d where "d = draft_of cfg (dict_or (p_mirror p1) r []) (p_cache p1)"
  obtain toks gt where g: "gate_step cfg r (map_option length (map_of (p_mirror p) r)) (nat tt)
      (row_continues (map_of (p_mirror p) r) (nat tt) (tokens ! j)) d (p_gate p1) = (toks, gt)"
    by fastforce
  have t: "toks = take (length toks) d" "length toks \<le> length d" "length d \<le> pk cfg"
    using gate_step_prefix[OF g] draft_of_length by (auto simp: d_def)
  have c: "p_cache p1 = p_cache p" by (simp add: p1_def frame_simps)
  from assms g have "j < length tokens" "0 \<le> tt" "tt \<le> int (length (tokens ! j))"
    and x: "x = (if p_uniform cfg
        then \<lparr>out_toks = toks @ replicate (pk cfg - length toks)
               (if dict_or (p_mirror p1) r [] = [] then 0 else hd (dict_or (p_mirror p1) r [])),
             out_width = pk cfg, out_real = length toks\<rparr>
        else \<lparr>out_toks = toks, out_width = length toks, out_real = length toks\<rparr>)"
    and p': "p_mirror p' = p_mirror p1" "p_widths p' = AList.update r (out_width x) (p_widths p1)"
    by (auto simp: row_step_def Let_def p1_def[symmetric] d_def[symmetric] split: if_splits)
  with t c show ?thesis by (auto simp: p1_def d_def dict_simps)
qed

text \<open>With uniform widths a row is filled up to k with the first tracked token.\<close>

lemma row_step_filler:
  assumes "row_step cfg tokens (r, j, tt) p = (Inr x, p')" and "p_uniform cfg"
  shows "out_toks x = take (out_real x) (draft_of cfg (dict_or (p_mirror p') r []) (p_cache p)) @
    replicate (pk cfg - out_real x) (if dict_or (p_mirror p') r [] = [] then 0 else hd (dict_or (p_mirror p') r []))"
proof -
  define p1 where "p1 = sync_tracked r (nat tt) (tokens ! j) p"
  define d where "d = draft_of cfg (dict_or (p_mirror p1) r []) (p_cache p1)"
  obtain toks gt where g: "gate_step cfg r (map_option length (map_of (p_mirror p) r)) (nat tt)
      (row_continues (map_of (p_mirror p) r) (nat tt) (tokens ! j)) d (p_gate p1) = (toks, gt)"
    by fastforce
  have t: "toks = take (length toks) d" using gate_step_prefix[OF g] by simp
  have c: "p_cache p1 = p_cache p" by (simp add: p1_def frame_simps)
  from assms g have "x = \<lparr>out_toks = toks @ replicate (pk cfg - length toks)
        (if dict_or (p_mirror p1) r [] = [] then 0 else hd (dict_or (p_mirror p1) r [])),
      out_width = pk cfg, out_real = length toks\<rparr>" and "p_mirror p' = p_mirror p1"
    by (auto simp: row_step_def Let_def p1_def[symmetric] d_def[symmetric] split: if_splits)
  with t c show ?thesis by (simp add: d_def)
qed

lemma row_step_ok: "proposer_ok cfg p \<Longrightarrow> row_step cfg tokens x p = (ans, p') \<Longrightarrow> proposer_ok cfg p'"
proof -
  assume ok: "proposer_ok cfg p" and st: "row_step cfg tokens x p = (ans, p')"
  obtain r j tt where x: "x = (r, j, tt)" by (cases x) auto
  have c: "p_cache p' = p_cache p" using row_step_frame(1) st x by blast
  have "widths_ok (pk cfg) (p_widths p')"
  proof (cases ans)
    case (Inl e)
    then have "p' = p" using st x by (auto simp: row_step_def Let_def split: if_splits prod.splits)
    then show ?thesis using ok by (simp add: proposer_ok_def)
  next
    case (Inr y)
    then have "p_widths p' = AList.update r (out_width y) (p_widths p)"
      using st x by (auto simp: row_step_def Let_def frame_simps split: if_splits prod.splits)
    moreover have "out_width y \<le> pk cfg" using row_step_answer st x Inr by blast
    ultimately show ?thesis using ok by (simp add: proposer_ok_def widths_ok_update)
  qed
  with ok c show ?thesis by (simp add: proposer_ok_def)
qed

lemma row_steps_ok: "proposer_ok cfg p \<Longrightarrow> row_steps cfg tokens xs p = (ans, p') \<Longrightarrow> proposer_ok cfg p'"
proof (induction xs arbitrary: p ans)
  case Nil
  then show ?case by simp
next
  case (Cons x xs)
  obtain r p1 where st: "row_step cfg tokens x p = (r, p1)" by fastforce
  with Cons show ?case
    by (cases r) (auto split: prod.splits sum.splits dest: row_step_ok)
qed

lemma row_steps_frame:
  "row_steps cfg tokens xs p = (ans, p') \<Longrightarrow> p_cache p' = p_cache p \<and>
   (s \<notin> fst ` set xs \<longrightarrow> map_of (p_mirror p') s = map_of (p_mirror p) s \<and>
     map_of (p_widths p') s = map_of (p_widths p) s)"
proof (induction xs arbitrary: p ans)
  case Nil
  then show ?case by simp
next
  case (Cons x xs)
  obtain r j tt where x: "x = (r, j, tt)" by (cases x) auto
  obtain a p1 where st: "row_step cfg tokens x p = (a, p1)" by fastforce
  note f = row_step_frame[OF st[unfolded x]]
  show ?case
  proof (cases a)
    case (Inl e)
    with Cons.prems st x f show ?thesis by auto
  next
    case (Inr y)
    obtain b p2 where rest: "row_steps cfg tokens xs p1 = (b, p2)" by fastforce
    with Cons.prems st Inr have "p2 = p'" by (auto split: sum.splits)
    with Cons.IH[of p1 b] rest f x show ?thesis by auto
  qed
qed

lemma row_steps_length: "row_steps cfg tokens xs p = (Inr outs, p') \<Longrightarrow> length outs = length xs"
  by (induction xs arbitrary: p outs) (auto split: prod.splits sum.splits)

text \<open>Row \<open>i\<close> of a batch of distinct requests is one \<open>row_step\<close> from a state that has that
  request's own entries as at the start and the same corpus.\<close>

lemma row_steps_nth:
  assumes "row_steps cfg tokens xs p = (Inr outs, p')" and "distinct (map fst xs)" and "i < length xs"
  shows "\<exists>q q'. row_step cfg tokens (xs ! i) q = (Inr (outs ! i), q') \<and> p_cache q = p_cache p \<and>
     map_of (p_mirror q) (fst (xs ! i)) = map_of (p_mirror p) (fst (xs ! i)) \<and>
     map_of (p_mirror p') (fst (xs ! i)) = map_of (p_mirror q') (fst (xs ! i)) \<and>
     map_of (p_widths p') (fst (xs ! i)) = map_of (p_widths q') (fst (xs ! i))"
  using assms
proof (induction xs arbitrary: p outs i)
  case Nil
  then show ?case by simp
next
  case (Cons x xs)
  obtain r j tt where x: "x = (r, j, tt)" by (cases x) auto
  obtain y ys p1 where st: "row_step cfg tokens x p = (Inr y, p1)"
    and rest: "row_steps cfg tokens xs p1 = (Inr ys, p')" and outs: "outs = y # ys"
    using Cons.prems(1) by (auto split: prod.splits sum.splits)
  show ?case
  proof (cases i)
    case 0
    then show ?thesis
      using st outs row_steps_frame[OF rest, of r] Cons.prems(2) x by (intro exI[of _ p] exI[of _ p1]) simp
  next
    case (Suc i')
    then have i': "i' < length xs" using Cons.prems(3) by simp
    then have "fst (xs ! i') \<noteq> r" using Cons.prems(2) x by (metis fst_conv distinct.simps(2) list.simps(9) nth_map nth_mem length_map)
    then have "map_of (p_mirror p1) (fst (xs ! i')) = map_of (p_mirror p) (fst (xs ! i'))" "p_cache p1 = p_cache p"
      using row_step_frame[OF st[unfolded x]] by auto
    moreover have "distinct (map fst xs)" using Cons.prems(2) by simp
    from Cons.IH[OF rest this i'] obtain q q' where
      "row_step cfg tokens (xs ! i') q = (Inr (ys ! i'), q')" "p_cache q = p_cache p1"
      "map_of (p_mirror q) (fst (xs ! i')) = map_of (p_mirror p1) (fst (xs ! i'))"
      "map_of (p_mirror p') (fst (xs ! i')) = map_of (p_mirror q') (fst (xs ! i'))"
      "map_of (p_widths p') (fst (xs ! i')) = map_of (p_widths q') (fst (xs ! i'))" by blast
    ultimately show ?thesis using Suc outs by (intro exI[of _ q] exI[of _ q']) simp
  qed
qed

lemma propose_suffix_only_ok:
  "proposer_ok cfg p \<Longrightarrow> propose_suffix_only cfg ids idx tots toks p = (ans, p') \<Longrightarrow> proposer_ok cfg p'"
proof -
  assume ok: "proposer_ok cfg p" and c: "propose_suffix_only cfg ids idx tots toks p = (ans, p')"
  obtain a q where q: "row_steps cfg toks (zip ids (zip idx tots)) (forget_gone (p_cc cfg) ids p) = (a, q)"
    by fastforce
  have "proposer_ok cfg q" by (rule row_steps_ok[OF forget_gone_ok[OF ok] q])
  moreover have "p_cache p' = p_cache q \<and> p_widths p' = p_widths q \<or> p' = p"
    using c q by (auto simp: propose_suffix_only_def split: if_splits sum.splits)
  ultimately show ?thesis using ok by (auto simp: proposer_ok_def)
qed

lemma propose_suffix_only_rows:
  assumes "propose_suffix_only cfg ids idx tots toks p = (Inr (rows, ws), p')"
  obtains outs q where "row_steps cfg toks (zip ids (zip idx tots)) (forget_gone (p_cc cfg) ids p) = (Inr outs, q)"
    "rows = map (pack_row (pk cfg)) outs" "ws = map out_width outs" "length outs = length ids"
    "p_mirror p' = p_mirror q" "p_widths p' = p_widths q" "length ids \<le> length idx" "length ids \<le> length tots"
  using assms by (auto simp: propose_suffix_only_def split: if_splits prod.splits sum.splits
      dest: row_steps_length)

lemma row_steps_width:
  "row_steps cfg tokens xs p = (Inr outs, p') \<Longrightarrow> x \<in> set outs \<Longrightarrow> out_width x \<le> pk cfg"
proof (induction xs arbitrary: p outs)
  case Nil
  then show ?case by simp
next
  case (Cons y ys)
  obtain r j tt where "y = (r, j, tt)" by (cases y) auto
  with Cons show ?case by (auto split: prod.splits sum.splits dest: row_step_answer)
qed

lemma clear_widths_ok: "proposer_ok cfg p \<Longrightarrow> proposer_ok cfg (clear_widths p)"
  by (auto simp: proposer_ok_def clear_widths_def widths_ok_def)

lemma clear_widths_table: "map_of (p_widths (clear_widths p)) r = map_option (\<lambda>_. 0) (map_of (p_widths p) r)"
  by (simp add: clear_widths_def map_of_map[of "\<lambda>_. 0", simplified])

lemma length_pack_row [simp]: "length (pack_row k x) = k"
  by (simp add: pack_row_def)

lemma propose_suffix_only_nth:
  assumes "propose_suffix_only cfg ids idx tots toks p = (Inr (rows, ws), p')" and "distinct ids"
    and i: "i < length ids"
  obtains x q q' where "row_step cfg toks (ids ! i, idx ! i, tots ! i) q = (Inr x, q')"
    "rows ! i = pack_row (pk cfg) x" "ws ! i = out_width x"
    "map_of (p_mirror q) (ids ! i) = map_of (p_mirror p) (ids ! i)"
    "map_of (p_mirror p') (ids ! i) = map_of (p_mirror q') (ids ! i)"
    "map_of (p_widths p') (ids ! i) = map_of (p_widths q') (ids ! i)"
    "p_cache q = p_cache p'"
proof -
  from propose_suffix_only_rows[OF assms(1)] obtain outs s where
    s: "row_steps cfg toks (zip ids (zip idx tots)) (forget_gone (p_cc cfg) ids p) = (Inr outs, s)"
    "rows = map (pack_row (pk cfg)) outs" "ws = map out_width outs" "length outs = length ids"
    "p_mirror p' = p_mirror s" "p_widths p' = p_widths s" "length ids \<le> length idx" "length ids \<le> length tots" .
  have d: "distinct (map fst (zip ids (zip idx tots)))" using assms(2) by (rule distinct_fst_zip)
  have len: "i < length (zip ids (zip idx tots))" using i s by simp
  have at: "zip ids (zip idx tots) ! i = (ids ! i, idx ! i, tots ! i)" using i s by simp
  have c: "p_cache p' = p_cache s"
    using assms(1) s(1) by (auto simp: propose_suffix_only_def split: if_splits)
  from row_steps_nth[OF s(1) d len] at obtain q q' where
    q: "row_step cfg toks (ids ! i, idx ! i, tots ! i) q = (Inr (outs ! i), q')"
    "p_cache q = p_cache (forget_gone (p_cc cfg) ids p)"
    "map_of (p_mirror q) (ids ! i) = map_of (p_mirror (forget_gone (p_cc cfg) ids p)) (ids ! i)"
    "map_of (p_mirror s) (ids ! i) = map_of (p_mirror q') (ids ! i)"
    "map_of (p_widths s) (ids ! i) = map_of (p_widths q') (ids ! i)" by auto
  show thesis
  proof (rule that[OF q(1)])
    show "rows ! i = pack_row (pk cfg) (outs ! i)" "ws ! i = out_width (outs ! i)" using s i by simp_all
    show "map_of (p_mirror q) (ids ! i) = map_of (p_mirror p) (ids ! i)"
      using q(3) i by (simp add: forget_gone_live)
    show "map_of (p_mirror p') (ids ! i) = map_of (p_mirror q') (ids ! i)"
      "map_of (p_widths p') (ids ! i) = map_of (p_widths q') (ids ! i)" using q s by simp_all
    show "p_cache q = p_cache p'" using q(2) c row_steps_frame[OF s(1)] by simp
  qed
qed

interpretation rust: suffix_proposer "pk cfg" "propose_suffix_only cfg" p_widths clear_widths "proposer_ok cfg"
  for cfg
proof
  fix p p' ids idx tots toks ans rows ws i r w
  show "proposer_ok cfg p \<Longrightarrow> propose_suffix_only cfg ids idx tots toks p = (ans, p') \<Longrightarrow> proposer_ok cfg p'"
    by (rule propose_suffix_only_ok)
  show "proposer_ok cfg p \<Longrightarrow> proposer_ok cfg (clear_widths p)" by (rule clear_widths_ok)
  show "length rows = length ids \<and> length ws = length ids \<and>
      (\<forall>row \<in> set rows. length row = pk cfg) \<and> (\<forall>w \<in> set ws. w \<le> pk cfg)"
    if "propose_suffix_only cfg ids idx tots toks p = (Inr (rows, ws), p')"
  proof -
    from propose_suffix_only_rows[OF that] obtain outs q where
      "row_steps cfg toks (zip ids (zip idx tots)) (forget_gone (p_cc cfg) ids p) = (Inr outs, q)"
      "rows = map (pack_row (pk cfg)) outs" "ws = map out_width outs" "length outs = length ids" .
    with row_steps_width[OF this(1)] show ?thesis by simp
  qed
  show "map_of (p_widths p') (ids ! i) = Some (ws ! i)"
    if "propose_suffix_only cfg ids idx tots toks p = (Inr (rows, ws), p')" "distinct ids" "i < length ids"
  proof -
    note call = that
    obtain x q q' where "row_step cfg toks (ids ! i, idx ! i, tots ! i) q = (Inr x, q')"
      "ws ! i = out_width x" "map_of (p_widths p') (ids ! i) = map_of (p_widths q') (ids ! i)"
      using propose_suffix_only_nth[OF call] by metis
    with row_step_answer[OF this(1)] show ?thesis by simp
  qed
  show "proposer_ok cfg p \<Longrightarrow> map_of (p_widths p) r = Some w \<Longrightarrow> w \<le> pk cfg"
    by (auto simp: proposer_ok_def widths_ok_def dest: map_of_SomeD)
  show "map_of (p_widths (clear_widths p)) r = map_option (\<lambda>_. 0) (map_of (p_widths p) r)"
    by (rule clear_widths_table)
qed

section \<open>Properties\<close>

text \<open>C14: when the device row of a request extends what the proposer tracks of it, a call leaves the
  request's mirror equal to its committed history, whatever else is in the batch, and the row it
  answers starts with a prefix of what the corpus speculates on exactly that history; in uniform
  mode every width is k, otherwise the width is the length of that prefix.\<close>

theorem proposal_continues_history:
  assumes "propose_suffix_only cfg ids idx tots toks p = (Inr (rows, ws), p')"
    and "distinct ids" and "i < length ids"
    and "\<And>t. map_of (p_mirror p) (ids ! i) = Some t \<Longrightarrow> int (length t) \<le> tots ! i \<Longrightarrow>
          t = take (length t) (toks ! (idx ! i))"
  shows "let h = take (nat (tots ! i)) (toks ! (idx ! i)) in
     map_of (p_mirror p') (ids ! i) = Some h \<and>
     (\<exists>w \<le> pk cfg. take w (rows ! i) = take w (fst (speculate (p_cc cfg) (p_cache p') h (pk cfg))) \<and>
        ws ! i = (if p_uniform cfg then pk cfg else w))"
proof -
  obtain x q q' where st: "row_step cfg toks (ids ! i, idx ! i, tots ! i) q = (Inr x, q')"
    and row: "rows ! i = pack_row (pk cfg) x" "ws ! i = out_width x"
    and mq: "map_of (p_mirror q) (ids ! i) = map_of (p_mirror p) (ids ! i)"
    and mp: "map_of (p_mirror p') (ids ! i) = map_of (p_mirror q') (ids ! i)" and c: "p_cache q = p_cache p'"
    using propose_suffix_only_nth[OF assms(1-3)] by metis
  note a = row_step_answer[OF st]
  let ?h = "take (nat (tots ! i)) (toks ! (idx ! i))"
  have m: "map_of (p_mirror p') (ids ! i) = Some ?h"
    unfolding mp using a sync_tracked_exact[of "nat (tots ! i)" "toks ! (idx ! i)" q "ids ! i"]
      assms(4) mq by (simp add: nat_le_iff le_nat_iff)
  have "take (out_real x) (rows ! i) = take (out_real x) (out_toks x)"
    using a row by (auto simp: pack_row_def split: if_splits)
  also have "\<dots> = take (out_real x) (fst (speculate (p_cc cfg) (p_cache p') ?h (pk cfg)))"
  proof -
    have h: "dict_or (p_mirror q') (ids ! i) [] = ?h" using m mp by (simp add: dict_or_def)
    have "take (out_real x) (out_toks x) = take (out_real x) (draft_of cfg ?h (p_cache p'))"
      "out_real x \<le> length (draft_of cfg ?h (p_cache p'))"
      using a unfolding h c by blast+
    moreover from this(2) have "take (out_real x) (draft_of cfg ?h (p_cache p'))
        = take (out_real x) (fst (speculate (p_cc cfg) (p_cache p') ?h (pk cfg)))"
      by (subst draft_of_prefix) (simp add: min_def)
    ultimately show ?thesis by (simp only:)
  qed
  finally show ?thesis using a m row by (auto simp: Let_def intro!: exI[of _ "out_real x"])
qed

definition demo_pcfg :: pcfg where
  "demo_pcfg = \<lparr>pk = 3, p_max_len = 64, p_min_len = 1, p_uniform = False, p_gated = False, p_cc = demo_cache_cfg\<rparr>"

definition demo_proposer :: proposer where
  "demo_proposer = \<lparr>p_cache = cache_new, p_mirror = [(''a'', [1, 2, 3])], p_widths = [(''a'', 1)], p_gate = [],
     p_steps = 0, p_hits = 0, p_hit_tokens = 0, p_ingested = 0, p_resets = 0, p_padded = 0\<rparr>"

lemma proposal_continues_history_witness:
  "case propose_suffix_only demo_pcfg [''a'', ''b''] [0, 1] [4, 2] [[1, 2, 3, 4], [9, 9, 0, 0]] demo_proposer of
     (Inr _, p') \<Rightarrow> map_of (p_mirror p') ''a'' = Some [1, 2, 3, 4] | _ \<Rightarrow> False"
proof -
  let ?call = "propose_suffix_only demo_pcfg [''a'', ''b''] [0, 1] [4, 2] [[1, 2, 3, 4], [9, 9, 0, 0]] demo_proposer"
  have "case fst ?call of Inr _ \<Rightarrow> True | Inl _ \<Rightarrow> False" by code_simp
  then obtain rows ws p' where call: "?call = (Inr (rows, ws), p')"
    by (cases ?call) (auto split: sum.splits)
  have d: "map_of (p_mirror demo_proposer) ''a'' = Some t \<Longrightarrow> t = [1, 2, 3]" for t
    by (auto simp: demo_proposer_def)
  have "map_of (p_mirror p') ''a'' = Some [1, 2, 3, 4]"
    using proposal_continues_history[OF call, of 0] d by (simp add: Let_def) fastforce
  then show ?thesis unfolding call by simp
qed

datatype proposer_op = Call "rid list" "nat list" "int list" "token list list" | Clear

fun proposer_ops :: "pcfg \<Rightarrow> proposer_op list \<Rightarrow> proposer \<Rightarrow> proposer" where
  "proposer_ops cfg [] p = p"
| "proposer_ops cfg (Call ids idx tots toks # ops) p =
     proposer_ops cfg ops (snd (propose_suffix_only cfg ids idx tots toks p))"
| "proposer_ops cfg (Clear # ops) p = proposer_ops cfg ops (clear_widths p)"

lemma proposer_ops_ok: "proposer_ok cfg p \<Longrightarrow> proposer_ok cfg (proposer_ops cfg ops p)"
proof (induction cfg ops p rule: proposer_ops.induct)
  case (2 cfg ids idx tots toks ops p)
  then show ?case
    by (metis prod.collapse proposer_ops.simps(2) rust.inv_call)
qed (simp_all add: rust.inv_clear)

text \<open>From a fresh proposer and through any sequence of calls and \<open>clear_widths\<close>, failing calls
  included, every published width is at most k.\<close>

theorem proposer_widths_bounded:
  assumes "proposer_new k max_len min_len uniform gated cc = Inr (cfg, p0)"
  shows "1 \<le> k \<and> k \<le> 64 \<and> dict_or (p_widths (proposer_ops cfg ops p0)) r 0 \<le> k"
proof -
  from assms have "proposer_ok cfg p0" and k: "pk cfg = k" "1 \<le> k" "k \<le> 64"
    by (auto simp: proposer_new_def proposer_ok_def widths_ok_def cache_ok_new split: if_splits)
  with rust.table_or_bound[OF proposer_ops_ok, of cfg p0 ops r] show ?thesis by simp
qed

lemma proposer_widths_bounded_witness:
  "case proposer_new 3 64 1 False False demo_cache_cfg of Inl _ \<Rightarrow> False
   | Inr (cfg, p0) \<Rightarrow> dict_or (p_widths (proposer_ops cfg [Call [''a''] [0] [2] [[5, 6]], Clear] p0)) ''a'' 0 \<le> 3"
  using proposer_widths_bounded[of 3 64 1 False False demo_cache_cfg _ _ "[Call [''a''] [0] [2] [[5, 6]], Clear]" "''a''"]
  by (auto simp: proposer_new_def)

end
