(* ===== verification/TotalsPipe.thy ===== *)
theory TotalsPipe
  imports Prelude
begin

text \<open>
  The pipelined totals read of the suffix-only mode (\<open>suffix_hybrid/wrap_v2.py\<close>): the install
  gate of \<open>_suffix_only_wrap\<close>, \<open>_totals_now\<close>, \<open>_pipe_enqueue\<close>, \<open>_pipe_absorb\<close>, \<open>_pipe_fail\<close>
  and \<open>_pipe_get\<close> over the record \<open>pipe\<close> (the dict \<open>pipe\<close> of the source). The blocking read
  returns a view of the buffer \<open>totals_cpu\<close>, so what it served changes when the buffer is read
  into again; \<open>served\<close> keeps that apart from a copy. A copy on the side stream is ordered behind
  the main stream's work by its event and takes the totals of the step that enqueued it.
\<close>

section \<open>State\<close>

type_synonym snapshot = "rid list \<times> nat list \<times> int list"

record pipe =
  pp_on :: bool
  pp_early :: bool
  pp_armed :: bool
  pp_pending :: "(rid list \<times> nat list) option"
  pp_lag :: "snapshot option"
  pp_steps :: nat
  pp_block_steps :: nat
  pp_fallback :: bool
  pp_reason :: "pyerr option"
  pp_fails :: "(string, nat) dict"
  staging_cpu :: "int list"
  totals_cpu :: "int list"

datatype served = View nat | Copied "int list"

text \<open>What a served array reads as, given the buffer.\<close>

fun deref :: "int list \<Rightarrow> served \<Rightarrow> int list" where
  "deref buf (View n) = take n buf"
| "deref buf (Copied xs) = xs"

definition take_copy :: "int list \<Rightarrow> served \<Rightarrow> served" where
  "take_copy buf s = Copied (deref buf s)"

section \<open>Installing\<close>

text \<open>The scheduler attribute as \<open>getattr\<close> finds it; only \<open>False\<close> itself is accepted.\<close>

datatype sched_attr = AttrMissing | AttrBool bool | AttrOther

definition pipe_off :: "nat \<Rightarrow> pipe" where
  "pipe_off max_reqs = \<lparr>pp_on = False, pp_early = False, pp_armed = False, pp_pending = None, pp_lag = None,
     pp_steps = 0, pp_block_steps = 0, pp_fallback = False, pp_reason = None, pp_fails = [],
     staging_cpu = replicate max_reqs 0, totals_cpu = replicate max_reqs 0\<rparr>"

definition env_on :: "environ \<Rightarrow> string \<Rightarrow> bool" where
  "env_on e name \<longleftrightarrow> py_strip (env_get e name ''0'') \<noteq> ''0''"

definition pipe_sim_env :: "environ \<Rightarrow> bool" where
  "pipe_sim_env e \<longleftrightarrow> py_strip (env_get e ''SUFFIX_HYBRID_D2H_PIPE_SIM'' ''0'') \<in> {''1'', ''true'', ''yes''}"

definition pipe_install :: "environ \<Rightarrow> sched_attr \<Rightarrow> bool \<Rightarrow> nat \<Rightarrow> pipe res" where
  "pipe_install e sched cuda_pipe max_reqs =
     (let p = pipe_off max_reqs; early = env_on e ''SUFFIX_HYBRID_PIPE_EARLY''
      in if \<not> env_on e ''SUFFIX_HYBRID_D2H_PIPE'' then Inr p
         else if sched \<noteq> AttrBool False then Inl RuntimeError
         else if cuda_pipe \<or> pipe_sim_env e then Inr (p\<lparr>pp_on := True, pp_early := early\<rparr>)
         else Inr p)"

section \<open>One read\<close>

text \<open>The gather \<open>totals_gpu[idx]\<close> and the copy into a buffer of \<open>max_reqs\<close> cells.\<close>

definition gather :: "int list \<Rightarrow> nat list \<Rightarrow> int list res" where
  "gather gpu idx = (if list_all (\<lambda>j. j < length gpu) idx then Inr (map (\<lambda>j. gpu ! j) idx) else Inl IndexError)"

definition copy_into :: "int list \<Rightarrow> int list \<Rightarrow> int list res" where
  "copy_into buf xs = (if length xs \<le> length buf then Inr (write_at buf 0 xs) else Inl RuntimeError)"

definition totals_now :: "int list \<Rightarrow> nat list \<Rightarrow> pipe \<Rightarrow> served res \<times> pipe" where
  "totals_now gpu idx p =
     (case rbind (gather gpu idx) (copy_into (totals_cpu p)) of
        Inl e \<Rightarrow> (Inl e, p)
      | Inr buf \<Rightarrow> (Inr (View (length idx)), p\<lparr>totals_cpu := buf\<rparr>))"

definition pipe_enqueue :: "int list \<Rightarrow> nat list \<Rightarrow> pipe \<Rightarrow> unit res \<times> pipe" where
  "pipe_enqueue gpu idx p =
     (case rbind (gather gpu idx) (copy_into (staging_cpu p)) of
        Inl e \<Rightarrow> (Inl e, p)
      | Inr buf \<Rightarrow> (Inr (), p\<lparr>staging_cpu := buf\<rparr>))"

definition pipe_absorb :: "pipe \<Rightarrow> pipe" where
  "pipe_absorb p = (case pp_pending p of
      None \<Rightarrow> p
    | Some (ids, idx) \<Rightarrow>
        p\<lparr>pp_lag := Some (ids, idx, take (length idx) (staging_cpu p)), pp_pending := None\<rparr>)"

definition err_name :: "pyerr \<Rightarrow> string" where
  "err_name e = (case e of PipeError s \<Rightarrow> s | _ \<Rightarrow> ''I10'')"

definition pipe_fail :: "pyerr \<Rightarrow> pipe \<Rightarrow> pipe" where
  "pipe_fail e p =
     (let p1 = (if pp_fallback p then p else p\<lparr>pp_fallback := True, pp_reason := Some e\<rparr>);
          inv = err_name e
      in p1\<lparr>pp_fails := AList.update inv (Suc (dict_or (pp_fails p1) inv 0)) (pp_fails p1)\<rparr>)"

text \<open>A blocking read; in early mode the result is copied out of the shared buffer.\<close>

definition block_read :: "int list \<Rightarrow> nat list \<Rightarrow> pipe \<Rightarrow> served res \<times> pipe" where
  "block_read gpu idx p =
     (case totals_now gpu idx p of
        (Inl e, p') \<Rightarrow> (Inl e, p')
      | (Inr s, p') \<Rightarrow> (Inr (if pp_early p' then take_copy (totals_cpu p') s else s), p'))"

definition snap_aligned :: "rid list \<Rightarrow> nat list \<Rightarrow> snapshot option \<Rightarrow> bool" where
  "snap_aligned ids idx snap = (case snap of
      None \<Rightarrow> False
    | Some (lids, lidx, _) \<Rightarrow> length lidx = length idx \<and> lids = ids \<and> lidx = idx)"

definition snap_totals :: "snapshot option \<Rightarrow> int list" where
  "snap_totals snap = (case snap of None \<Rightarrow> [] | Some (_, _, t) \<Rightarrow> t)"

text \<open>The \<open>try\<close> body of \<open>_pipe_get\<close> up to the enqueue: what is served and whether it lags.\<close>

definition pipe_serve :: "bool \<Rightarrow> int list \<Rightarrow> rid list \<Rightarrow> nat list \<Rightarrow> pipe \<Rightarrow> (served \<times> bool) res \<times> pipe" where
  "pipe_serve capturing gpu ids idx p =
     (if capturing then (Inl (PipeError ''I3''), p)
      else if \<not> pp_armed p
        then (case block_read gpu idx p of
                (Inl e, p') \<Rightarrow> (Inl e, p')
              | (Inr s, p') \<Rightarrow> (Inr (s, False),
                  p'\<lparr>pp_armed := True, pp_steps := Suc (pp_steps p'), pp_block_steps := Suc (pp_block_steps p')\<rparr>))
      else if pp_pending p = None then (Inl (PipeError ''I1''), p)
      else
        let p1 = pipe_absorb p
        in if snap_aligned ids idx (pp_lag p1)
           then (Inr (Copied (snap_totals (pp_lag p1)), True), p1)
           else (case block_read gpu idx p1 of
                   (Inl e, p2) \<Rightarrow> (Inl e, p2)
                 | (Inr s, p2) \<Rightarrow> (Inr (s, False), p2\<lparr>pp_block_steps := Suc (pp_block_steps p2)\<rparr>)))"

definition pipe_get :: "bool \<Rightarrow> int list \<Rightarrow> rid list \<Rightarrow> nat list \<Rightarrow> pipe \<Rightarrow> (served \<times> bool) res \<times> pipe" where
  "pipe_get capturing gpu ids idx p =
     (let (r, p1) = pipe_serve capturing gpu ids idx p;
          (r', p2) = (case r of
             Inl e \<Rightarrow> (Inl e, p1)
           | Inr sv \<Rightarrow>
               (case pipe_enqueue gpu idx p1 of
                  (Inl e, q) \<Rightarrow> (Inl e, q)
                | (Inr _, q) \<Rightarrow> (Inr sv, q\<lparr>pp_pending := Some (ids, idx), pp_steps := Suc (pp_steps q)\<rparr>)))
      in (case r' of
            Inr sv \<Rightarrow> (Inr sv, p2)
          | Inl e \<Rightarrow>
              (case block_read gpu idx (pipe_fail e (p2\<lparr>pp_pending := None\<rparr>)) of
                 (Inl e', p3) \<Rightarrow> (Inl e', p3)
               | (Inr s, p3) \<Rightarrow> (Inr (s, False), p3\<lparr>pp_block_steps := Suc (pp_block_steps p3)\<rparr>))))"

section \<open>Frames\<close>

lemma gather_length: "gather gpu idx = Inr xs \<Longrightarrow> length xs = length idx"
  by (auto simp: gather_def split: if_splits)

lemma copy_into_take: "copy_into buf xs = Inr b \<Longrightarrow> take (length xs) b = xs \<and> length b = length buf"
  by (auto simp: copy_into_def write_at_def split: if_splits)

lemma totals_now_serves:
  assumes "totals_now gpu idx p = (Inr s, p')"
  shows "gather gpu idx = Inr (deref (totals_cpu p') s)"
proof -
  from assms obtain xs b where g: "gather gpu idx = Inr xs" "copy_into (totals_cpu p) xs = Inr b"
    and s: "s = View (length idx)" "p' = p\<lparr>totals_cpu := b\<rparr>"
    by (auto simp: totals_now_def rbind_eq_Inr split: sum.splits)
  then show ?thesis using copy_into_take[OF g(2)] gather_length[OF g(1)] by simp
qed

text \<open>A read only writes the shared buffer.\<close>

definition same_but_buffer :: "pipe \<Rightarrow> pipe \<Rightarrow> bool" where
  "same_but_buffer p q \<longleftrightarrow> q = p\<lparr>totals_cpu := totals_cpu q\<rparr>"

lemma totals_now_frame: "totals_now gpu idx p = (r, p') \<Longrightarrow> same_but_buffer p p'"
  by (auto simp: totals_now_def same_but_buffer_def split: sum.splits)

lemma block_read_frame: "block_read gpu idx p = (r, p') \<Longrightarrow> same_but_buffer p p'"
  by (auto simp: block_read_def split: prod.splits sum.splits dest: totals_now_frame)

lemma same_but_buffer_fields:
  assumes "same_but_buffer p q"
  shows "pp_on q = pp_on p" "pp_early q = pp_early p" "pp_armed q = pp_armed p" "pp_pending q = pp_pending p"
    "pp_lag q = pp_lag p" "pp_fallback q = pp_fallback p" "staging_cpu q = staging_cpu p"
    "pp_fails q = pp_fails p"
proof -
  from assms have q: "q = p\<lparr>totals_cpu := totals_cpu q\<rparr>" by (simp add: same_but_buffer_def)
  show "pp_on q = pp_on p" "pp_early q = pp_early p" "pp_armed q = pp_armed p" "pp_pending q = pp_pending p"
    "pp_lag q = pp_lag p" "pp_fallback q = pp_fallback p" "staging_cpu q = staging_cpu p"
    "pp_fails q = pp_fails p" by (subst q, simp)+
qed

lemma block_read_fields:
  "block_read gpu idx p = (r, q) \<Longrightarrow>
   pp_armed q = pp_armed p \<and> pp_fallback q = pp_fallback p \<and> pp_early q = pp_early p \<and> pp_on q = pp_on p"
  by (drule block_read_frame) (simp add: same_but_buffer_fields)

lemma block_read_serves:
  assumes "block_read gpu idx p = (Inr s, p')"
  shows "gather gpu idx = Inr (deref (totals_cpu p') s)"
proof -
  from assms obtain s0 where t: "totals_now gpu idx p = (Inr s0, p')"
    and s: "s = (if pp_early p' then take_copy (totals_cpu p') s0 else s0)"
    by (auto simp: block_read_def split: prod.splits sum.splits)
  show ?thesis using totals_now_serves[OF t] s by (simp add: take_copy_def)
qed

lemma block_read_early: "block_read gpu idx p = (Inr s, p') \<Longrightarrow> pp_early p \<Longrightarrow> \<exists>xs. s = Copied xs"
  by (auto simp: block_read_def take_copy_def split: prod.splits sum.splits
      dest!: totals_now_frame same_but_buffer_fields(2))

lemma pipe_absorb_fields [simp]:
  "pp_on (pipe_absorb p) = pp_on p" "pp_early (pipe_absorb p) = pp_early p" "pp_armed (pipe_absorb p) = pp_armed p"
  "pp_fallback (pipe_absorb p) = pp_fallback p" "staging_cpu (pipe_absorb p) = staging_cpu p"
  "totals_cpu (pipe_absorb p) = totals_cpu p" "pp_fails (pipe_absorb p) = pp_fails p"
  by (auto simp: pipe_absorb_def split: option.split)

lemma pipe_fail_fields [simp]:
  "pp_fallback (pipe_fail e p)" "pp_early (pipe_fail e p) = pp_early p" "pp_on (pipe_fail e p) = pp_on p"
  "totals_cpu (pipe_fail e p) = totals_cpu p"
  by (auto simp: pipe_fail_def Let_def)

section \<open>The chain of copies\<close>

text \<open>What the last call through the pipeline left in flight.\<close>

definition pipe_chain :: "snapshot option \<Rightarrow> pipe \<Rightarrow> bool" where
  "pipe_chain prev p \<longleftrightarrow> pp_fallback p \<or>
     (case prev of
        None \<Rightarrow> \<not> pp_armed p
      | Some (ids, idx, gpu) \<Rightarrow> pp_armed p \<and> pp_pending p = Some (ids, idx) \<and>
          gather gpu idx = Inr (take (length idx) (staging_cpu p)))"

lemma pipe_chain_cong:
  "pp_fallback q = pp_fallback p \<Longrightarrow> pp_armed q = pp_armed p \<Longrightarrow> pp_pending q = pp_pending p \<Longrightarrow>
   staging_cpu q = staging_cpu p \<Longrightarrow> pipe_chain prev q = pipe_chain prev p"
  by (simp add: pipe_chain_def split: option.split)

text \<open>Runs of the pipeline: each step is one \<open>_pipe_get\<close> on the totals and batch of that step;
  the ghost re-feed may read through the shared buffer in between. The first argument is the prev
  call's batch and totals.\<close>

inductive pipe_reach :: "snapshot option \<Rightarrow> pipe \<Rightarrow> bool" where
  installed: "pipe_install e sched cuda_pipe max_reqs = Inr p \<Longrightarrow> pipe_reach None p"
| got: "pipe_reach prev p \<Longrightarrow> pipe_get capturing gpu ids idx p = (Inr sv, p') \<Longrightarrow>
    pipe_reach (Some (ids, idx, gpu)) p'"
| read: "pipe_reach prev p \<Longrightarrow> totals_now gpu idx p = (r, p') \<Longrightarrow> pipe_reach prev p'"

inductive_cases pipe_reach_NoneE: "pipe_reach None p"

lemma pipe_enqueue_ok:
  assumes "pipe_enqueue gpu idx p = (Inr u, q)"
  shows "gather gpu idx = Inr (take (length idx) (staging_cpu q))" "q = p\<lparr>staging_cpu := staging_cpu q\<rparr>"
proof -
  from assms obtain xs where g: "gather gpu idx = Inr xs" "copy_into (staging_cpu p) xs = Inr (staging_cpu q)"
    and q: "q = p\<lparr>staging_cpu := staging_cpu q\<rparr>"
    by (auto simp: pipe_enqueue_def rbind_eq_Inr split: sum.splits)
  then show "gather gpu idx = Inr (take (length idx) (staging_cpu q))"
    using copy_into_take[OF g(2)] gather_length[OF g(1)] by simp
  show "q = p\<lparr>staging_cpu := staging_cpu q\<rparr>" by (rule q)
qed

lemma pipe_enqueue_fields:
  "pipe_enqueue gpu idx p = (r, q) \<Longrightarrow>
   pp_armed q = pp_armed p \<and> pp_fallback q = pp_fallback p \<and> totals_cpu q = totals_cpu p \<and> pp_early q = pp_early p"
  by (auto simp: pipe_enqueue_def split: sum.splits)

lemma pipe_serve_early: "pipe_serve capturing gpu ids idx p = (r, p1) \<Longrightarrow> pp_early p1 = pp_early p"
  by (auto simp: pipe_serve_def Let_def split: if_splits prod.splits sum.splits dest!: block_read_fields)

lemma pipe_serve_armed:
  "pipe_serve capturing gpu ids idx p = (Inr sv, p1) \<Longrightarrow> pp_armed p1 \<and> pp_fallback p1 = pp_fallback p"
  by (auto simp: pipe_serve_def Let_def split: if_splits prod.splits sum.splits
      dest!: block_read_fields)

text \<open>A call either served without an error, or disabled the pipeline and read blockingly.\<close>

lemma pipe_get_cases:
  assumes "pipe_get capturing gpu ids idx p = (Inr sv, p')"
  obtains (piped) p1 q where "pipe_serve capturing gpu ids idx p = (Inr sv, p1)"
      "pipe_enqueue gpu idx p1 = (Inr (), q)"
      "p' = q\<lparr>pp_pending := Some (ids, idx), pp_steps := Suc (pp_steps q)\<rparr>"
  | (failed) e q q' s where "block_read gpu idx (pipe_fail e q) = (Inr s, q')" "sv = (s, False)"
      "p' = q'\<lparr>pp_block_steps := Suc (pp_block_steps q')\<rparr>" "pp_early q = pp_early p"
proof -
  obtain r p1 where s: "pipe_serve capturing gpu ids idx p = (r, p1)" by fastforce
  show thesis
  proof (cases r)
    case (Inl e)
    then show thesis using assms s failed pipe_serve_early[OF s]
      by (auto simp: pipe_get_def Let_def split: prod.splits sum.splits)
  next
    case (Inr sv0)
    obtain u q where e: "pipe_enqueue gpu idx p1 = (u, q)" by fastforce
    then show thesis using assms s Inr failed piped pipe_serve_early[OF s] pipe_enqueue_fields[OF e]
      by (cases u) (auto simp: pipe_get_def Let_def split: prod.splits sum.splits)
  qed
qed

lemma pipe_chain_step:
  assumes "pipe_get capturing gpu ids idx p = (Inr sv, p')"
  shows "pipe_chain (Some (ids, idx, gpu)) p'"
  using assms
proof (cases rule: pipe_get_cases)
  case (piped p1 q)
  have "pp_armed q" using pipe_serve_armed[OF piped(1)] pipe_enqueue_fields[OF piped(2)] by simp
  then show ?thesis using piped pipe_enqueue_ok(1)[OF piped(2)] by (simp add: pipe_chain_def)
next
  case (failed e q q' s)
  then have "pp_fallback q'" using same_but_buffer_fields(6)[OF block_read_frame[OF failed(1)]] by simp
  then show ?thesis using failed by (simp add: pipe_chain_def)
qed

lemma pipe_reach_chain: "pipe_reach prev p \<Longrightarrow> pipe_chain prev p"
proof (induction rule: pipe_reach.induct)
  case (installed e sched cuda_pipe max_reqs p)
  then show ?case by (auto simp: pipe_install_def pipe_off_def pipe_chain_def Let_def split: if_splits)
next
  case (got prev p capturing gpu ids idx sv p')
  show ?case using got(2) by (rule pipe_chain_step)
next
  case (read prev p gpu idx r p')
  note f = same_but_buffer_fields[OF totals_now_frame[OF read(2)]]
  show ?case using read(3) pipe_chain_cong[OF f(6) f(3) f(4) f(7)] by simp
qed

section \<open>What is served\<close>

lemma pipe_serve_lag:
  assumes c: "pipe_chain prev p" and f: "\<not> pp_fallback p"
    and s: "pipe_serve capturing gpu ids idx p = (Inr (s, lagged), p1)"
  shows "if lagged then (\<exists>gpu0. prev = Some (ids, idx, gpu0) \<and> gather gpu0 idx = Inr (deref (totals_cpu p1) s))
         else gather gpu idx = Inr (deref (totals_cpu p1) s)"
proof (cases lagged)
  case False
  have "gather gpu idx = Inr (deref (totals_cpu p1) s)"
    using s False
    by (auto simp: pipe_serve_def Let_def split: if_splits prod.splits sum.splits dest!: block_read_serves)
  with False show ?thesis by auto
next
  case True
  from s True have al: "snap_aligned ids idx (pp_lag (pipe_absorb p))" and "pp_armed p"
    and p: "p1 = pipe_absorb p" "s = Copied (snap_totals (pp_lag (pipe_absorb p)))"
    and pend: "pp_pending p \<noteq> None"
    by (auto simp: pipe_serve_def Let_def split: if_splits prod.splits sum.splits)
  from c f \<open>pp_armed p\<close> obtain ids0 idx0 gpu0 where prev: "prev = Some (ids0, idx0, gpu0)"
    "pp_pending p = Some (ids0, idx0)" "gather gpu0 idx0 = Inr (take (length idx0) (staging_cpu p))"
    by (auto simp: pipe_chain_def split: option.splits)
  then have "ids0 = ids" "idx0 = idx" "snap_totals (pp_lag (pipe_absorb p)) = take (length idx) (staging_cpu p)"
    using al by (auto simp: pipe_absorb_def snap_aligned_def snap_totals_def)
  with True prev p show ?thesis by simp
qed

lemma pipe_get_serves:
  assumes r: "pipe_reach prev p" and f: "\<not> pp_fallback p"
    and g: "pipe_get capturing gpu ids idx p = (Inr (s, lagged), p')"
  shows "if lagged then (\<exists>gpu0. prev = Some (ids, idx, gpu0) \<and> gather gpu0 idx = Inr (deref (totals_cpu p') s))
         else gather gpu idx = Inr (deref (totals_cpu p') s)"
  using g
proof (cases rule: pipe_get_cases)
  case (piped p1 q)
  then have "totals_cpu p' = totals_cpu p1" using pipe_enqueue_fields[OF piped(2)] by simp
  with pipe_serve_lag[OF pipe_reach_chain[OF r] f piped(1)] show ?thesis by simp
next
  case (failed e q q' s')
  then show ?thesis using block_read_serves[OF failed(1)] by simp
qed

text \<open>An armed pipeline always has a copy in flight.\<close>

lemma pipe_serve_no_I1:
  assumes "pipe_reach prev p" and "\<not> pp_fallback p" and "pipe_serve capturing gpu ids idx p = (Inl e, p1)"
  shows "e \<noteq> PipeError ''I1''"
proof
  assume e: "e = PipeError ''I1''"
  have "block_read gpu idx q \<noteq> (Inl (PipeError ''I1''), q')" for q q'
    by (auto simp: block_read_def totals_now_def gather_def copy_into_def split: prod.splits sum.splits if_splits)
  with assms(3) e have "pp_armed p" "pp_pending p = None"
    by (auto simp: pipe_serve_def Let_def split: if_splits prod.splits sum.splits)
  with pipe_reach_chain[OF assms(1)] assms(2) show False
    by (auto simp: pipe_chain_def split: option.splits)
qed

lemma gather_copy_total:
  "list_all (\<lambda>j. j < length gpu) idx \<Longrightarrow> length idx \<le> length (totals_cpu p) \<Longrightarrow>
   \<exists>s q. block_read gpu idx p = (Inr s, q)"
  by (simp add: block_read_def totals_now_def gather_def copy_into_def)

lemma pipe_get_total:
  assumes "list_all (\<lambda>j. j < length gpu) idx" and "length idx \<le> length (totals_cpu p)"
  shows "\<exists>s lagged p'. pipe_get capturing gpu ids idx p = (Inr (s, lagged), p')"
proof -
  have buf: "length (totals_cpu q) = length (totals_cpu p)" if "block_read gpu idx p0 = (r, q)"
    "length (totals_cpu p0) = length (totals_cpu p)" for p0 r q
    using that by (auto simp: block_read_def totals_now_def rbind_eq_Inr split: prod.splits sum.splits
        dest!: copy_into_take)
  obtain r p1 where s: "pipe_serve capturing gpu ids idx p = (r, p1)" by fastforce
  have l1: "length (totals_cpu p1) = length (totals_cpu p)"
    using s by (auto simp: pipe_serve_def Let_def split: if_splits prod.splits sum.splits dest: buf)
  obtain u q where e: "pipe_enqueue gpu idx p1 = (u, q)" by fastforce
  then have l2: "length (totals_cpu q) = length (totals_cpu p)"
    using l1 pipe_enqueue_fields[OF e] by simp
  have t: "\<exists>s q'. block_read gpu idx (pipe_fail e' (q0\<lparr>pp_pending := None\<rparr>)) = (Inr s, q')"
    if "length (totals_cpu q0) = length (totals_cpu p)" for e' q0
    using assms that by (intro gather_copy_total) simp_all
  show ?thesis
  proof (cases r)
    case (Inl e')
    from t[OF l1, of e'] s Inl show ?thesis by (auto simp: pipe_get_def Let_def)
  next
    case (Inr sv)
    show ?thesis
    proof (cases u)
      case (Inl e')
      from t[OF l2, of e'] s e Inr Inl show ?thesis by (auto simp: pipe_get_def Let_def)
    next
      case (Inr v)
      with s e \<open>r = Inr sv\<close> show ?thesis by (cases sv) (auto simp: pipe_get_def Let_def)
    qed
  qed
qed

lemma pipe_get_early:
  assumes "pipe_get capturing gpu ids idx p = (Inr (s, lagged), p')" and "pp_early p"
  shows "\<exists>xs. s = Copied xs"
  using assms(1)
proof (cases rule: pipe_get_cases)
  case (piped p1 q)
  then show ?thesis using assms(2)
    by (auto simp: pipe_serve_def Let_def split: if_splits prod.splits sum.splits dest!: block_read_early)
next
  case (failed e q q' s')
  then show ?thesis using assms(2) block_read_early[OF failed(1)] by simp
qed

lemma block_read_in_range:
  "list_all (\<lambda>j. j < length gpu) idx \<Longrightarrow> length idx \<le> length (totals_cpu p) \<Longrightarrow>
   block_read gpu idx p \<noteq> (Inl e, q)"
  by (simp add: block_read_def totals_now_def gather_def copy_into_def)

lemma pipe_serve_up:
  assumes "pipe_reach prev p" and "\<not> pp_fallback p"
    and "list_all (\<lambda>j. j < length gpu) idx" and "length idx \<le> length (totals_cpu p)"
  shows "\<exists>sv p1. pipe_serve False gpu ids idx p = (Inr sv, p1) \<and> staging_cpu p1 = staging_cpu p \<and>
     pp_fallback p1 = pp_fallback p"
proof -
  obtain r p1 where s: "pipe_serve False gpu ids idx p = (r, p1)" by fastforce
  have "pp_armed p \<Longrightarrow> pp_pending p \<noteq> None"
    using pipe_reach_chain[OF assms(1)] assms(2) by (auto simp: pipe_chain_def split: option.splits)
  moreover have "block_read gpu idx q \<noteq> (Inl e, q')" if "totals_cpu q = totals_cpu p" for e q q'
    using block_read_in_range[OF assms(3), of q] assms(4) that by simp
  ultimately have "\<exists>sv. r = Inr sv"
    using s by (auto simp: pipe_serve_def Let_def split: if_splits prod.splits sum.splits)
  moreover have "staging_cpu p1 = staging_cpu p" "pp_fallback p1 = pp_fallback p"
    using s by (auto simp: pipe_serve_def Let_def split: if_splits prod.splits sum.splits
        dest!: block_read_frame simp: same_but_buffer_fields)
  ultimately show ?thesis using s by auto
qed

lemma pipe_get_up:
  assumes "pipe_reach prev p" and "\<not> pp_fallback p" and "list_all (\<lambda>j. j < length gpu) idx"
    and "length idx \<le> length (totals_cpu p)" and "length idx \<le> length (staging_cpu p)"
  shows "\<exists>sv p'. pipe_get False gpu ids idx p = (Inr sv, p') \<and> \<not> pp_fallback p'"
proof -
  from pipe_serve_up[OF assms(1-4), of ids] obtain sv p1 where
    s: "pipe_serve False gpu ids idx p = (Inr sv, p1)" "staging_cpu p1 = staging_cpu p"
    "pp_fallback p1 = pp_fallback p" by blast
  obtain u q where e: "pipe_enqueue gpu idx p1 = (u, q)" by fastforce
  then have "u = Inr ()" using assms(3,5) s(2)
    by (auto simp: pipe_enqueue_def gather_def copy_into_def)
  with e s pipe_enqueue_fields[OF e] assms(2) show ?thesis by (simp add: pipe_get_def Let_def)
qed

section \<open>Properties\<close>

text \<open>C2: in every run of the pipeline, what a call serves is either the totals the device holds in
  this step, or, when it is marked lagged, the totals it held in the step of the previous call, and
  then that call was for the same requests in the same rows.\<close>

theorem pipe_lags_at_most_one_step:
  assumes "pipe_reach prev p" and "\<not> pp_fallback p"
    and "pipe_get capturing gpu ids idx p = (Inr (s, lagged), p')"
  shows "if lagged then (\<exists>gpu0. prev = Some (ids, idx, gpu0) \<and> gather gpu0 idx = Inr (deref (totals_cpu p') s))
         else gather gpu idx = Inr (deref (totals_cpu p') s)"
  using assms by (rule pipe_get_serves)

definition demo_pipe :: pipe where
  "demo_pipe = (pipe_off 4)\<lparr>pp_on := True\<rparr>"

lemma demo_pipe_reach: "pipe_reach None demo_pipe"
proof -
  have "pipe_install [(''SUFFIX_HYBRID_D2H_PIPE'', ''1'')] (AttrBool False) True 4 = Inr demo_pipe"
    by (simp add: pipe_install_def demo_pipe_def pipe_off_def env_on_def env_get_def dict_or_def
        py_strip_def is_blank_def)
  then show ?thesis by (rule pipe_reach.installed)
qed

lemma pipe_lags_at_most_one_step_witness:
  "case pipe_get False [5, 7] [''a'', ''b''] [0, 1] demo_pipe of
     (Inr (s, lagged), p') \<Rightarrow> \<not> lagged \<and> deref (totals_cpu p') s = [5, 7] | _ \<Rightarrow> False"
proof -
  have g: "pipe_get False [5, 7] [''a'', ''b''] [0, 1] demo_pipe = (Inr (View 2, False),
      demo_pipe\<lparr>pp_armed := True, pp_pending := Some ([''a'', ''b''], [0, 1]), pp_steps := 2, pp_block_steps := 1,
        staging_cpu := [5, 7, 0, 0], totals_cpu := [5, 7, 0, 0]\<rparr>)"
    by code_simp
  show ?thesis
    using pipe_lags_at_most_one_step[OF demo_pipe_reach _ g] g
    by (simp add: demo_pipe_def pipe_off_def gather_def)
qed

text \<open>While rows are in range and nothing captures, the pipeline is never disabled: each call
  returns and leaves the fallback unset, so the seed, absorb and enqueue chain holds up.\<close>

theorem pipe_stays_up:
  assumes "pipe_reach prev p" and "\<not> pp_fallback p" and "list_all (\<lambda>j. j < length gpu) idx"
    and "length idx \<le> length (totals_cpu p)" and "length idx \<le> length (staging_cpu p)"
  shows "\<exists>sv p'. pipe_get False gpu ids idx p = (Inr sv, p') \<and> \<not> pp_fallback p'"
  using assms by (rule pipe_get_up)

lemma pipe_stays_up_witness:
  "\<exists>sv p'. pipe_get False [5, 7] [''a''] [1] demo_pipe = (Inr sv, p') \<and> \<not> pp_fallback p'"
  by (rule pipe_stays_up[OF demo_pipe_reach]) (simp_all add: demo_pipe_def pipe_off_def)

text \<open>The pipeline fails closed and never loses a step: with rows in range a call returns from
  any state whatever goes wrong inside, and inside a graph capture it is disabled for good and
  serves this step's totals.\<close>

theorem pipe_fails_closed:
  assumes "list_all (\<lambda>j. j < length gpu) idx" and "length idx \<le> length (totals_cpu p)"
  shows "\<exists>s lagged p'. pipe_get capturing gpu ids idx p = (Inr (s, lagged), p') \<and>
     (capturing \<longrightarrow> pp_fallback p' \<and> \<not> lagged \<and> gather gpu idx = Inr (deref (totals_cpu p') s))"
proof -
  from pipe_get_total[OF assms] obtain s lagged p' where
    g: "pipe_get capturing gpu ids idx p = (Inr (s, lagged), p')" by blast
  show ?thesis
  proof (cases capturing)
    case True
    from g show ?thesis
    proof (cases rule: pipe_get_cases)
      case (piped p1 q)
      then show ?thesis using True by (simp add: pipe_serve_def)
    next
      case (failed e q q' s')
      then show ?thesis using g block_read_fields[OF failed(1)] block_read_serves[OF failed(1)]
        by (intro exI[of _ s] exI[of _ lagged] exI[of _ p']) simp
    qed
  qed (use g in simp)
qed

lemma pipe_fails_closed_witness:
  "\<exists>s lagged p'. pipe_get True [5, 7] [''a''] [1] demo_pipe = (Inr (s, lagged), p') \<and> pp_fallback p'"
  using pipe_fails_closed[of "[5, 7]" "[1]" demo_pipe True "[''a'']"]
  by (auto simp: demo_pipe_def pipe_off_def)

text \<open>In early mode the served totals are a copy: no later read through the shared buffer, such
  as the one of the ghost re-feed, changes what the step consumes.\<close>

theorem early_totals_are_stable:
  assumes "pipe_get capturing gpu ids idx p = (Inr (s, lagged), p')" and "pp_early p"
  shows "deref later_buffer s = deref (totals_cpu p') s"
  using pipe_get_early[OF assms] by auto

lemma early_totals_are_stable_witness:
  "case pipe_get False [5, 7] [''a''] [1] (demo_pipe\<lparr>pp_early := True\<rparr>) of
     (Inr (s, _), p') \<Rightarrow> deref [0, 0, 0, 0] s = deref (totals_cpu p') s | _ \<Rightarrow> False"
proof -
  have "case fst (pipe_get False [5, 7] [''a''] [1] (demo_pipe\<lparr>pp_early := True\<rparr>)) of
      Inr _ \<Rightarrow> True | Inl _ \<Rightarrow> False" by code_simp
  then obtain s l p' where g: "pipe_get False [5, 7] [''a''] [1] (demo_pipe\<lparr>pp_early := True\<rparr>) = (Inr (s, l), p')"
    by (cases "pipe_get False [5, 7] [''a''] [1] (demo_pipe\<lparr>pp_early := True\<rparr>)") (auto split: sum.splits)
  have "deref [0, 0, 0, 0] s = deref (totals_cpu p') s"
    by (rule early_totals_are_stable[OF g]) simp
  then show ?thesis unfolding g by simp
qed

end
