(* ===== verification/SuffixOnly.thy ===== *)
theory SuffixOnly
  imports SuffixProposer TotalsPipe
begin

text \<open>
  The drafter-free mode (\<open>suffix_hybrid/wrap_v2.py\<close>, \<open>_suffix_only_wrap\<close>): one call of its
  \<open>propose\<close> over the attendance ledger \<open>fp\<close>, the totals pipeline of \<open>TotalsPipe\<close>, the dense
  token mirror and the Rust proposer behind the operations \<open>papi\<close>. Statements that raise keep
  the state they reached, and the \<open>except\<close> block works on it. The step trace
  (\<open>SUFFIX_HYBRID_TRACE\<close>), timers and log lines are left out.
\<close>

section \<open>State\<close>

record 'p papi =
  api_call :: "rid list \<Rightarrow> nat list \<Rightarrow> int list \<Rightarrow> token list list \<Rightarrow> 'p \<Rightarrow>
    (token list list \<times> nat list) res \<times> 'p"
  api_table :: "'p \<Rightarrow> (rid, nat) dict"
  api_clear :: "'p \<Rightarrow> 'p"
  api_empty :: "'p \<Rightarrow> bool"

record so_cfg =
  so_k :: nat
  w0_fast :: bool
  dense :: bool

record so_in =
  so_ids :: "rid list"
  so_lut :: "(rid, nat) dict"
  so_totals :: "int list"
  so_rows :: "token list list"
  so_capturing :: bool
  so_skip :: bool

record ledger =
  led_idx :: nat
  led_total :: int
  led_dirty :: bool
  led_head :: "token list"
  led_tail :: token

record so_state =
  seen :: "(rid, ledger) dict"
  so_pipe :: pipe
  tok_mirror :: "token list list"
  fast_steps :: nat
  ghosts_fed :: nat
  ghosts_dropped :: nat
  ghosts_pending :: nat
  drop_reset :: nat
  drop_fp :: nat
  skip_upload :: nat
  so_errors :: nat

text \<open>What a step works on: the state, the proposer and the ghosts popped so far.\<close>

type_synonym 'p so_frame = "so_state \<times> 'p \<times> (rid, ledger) dict"

definition pipe_live :: "so_state \<Rightarrow> bool" where
  "pipe_live st \<longleftrightarrow> pp_on (so_pipe st) \<and> \<not> pp_fallback (so_pipe st)"

text \<open>The host view of the token rows: the live UVA buffer or the dense mirror.\<close>

definition cpu_rows :: "so_cfg \<Rightarrow> so_in \<Rightarrow> so_state \<Rightarrow> token list list" where
  "cpu_rows cfg inp st = (if dense cfg then tok_mirror st else so_rows inp)"

section \<open>Reads\<close>

definition lookup_rows :: "so_in \<Rightarrow> nat list res" where
  "lookup_rows inp =
     rmap (\<lambda>r. case map_of (so_lut inp) r of None \<Rightarrow> Inl KeyError | Some j \<Rightarrow> Inr j) (so_ids inp)"

definition so_pipe_get :: "so_in \<Rightarrow> nat list \<Rightarrow> ('p so_frame, served \<times> bool) stmt" where
  "so_pipe_get inp idx = (\<lambda>(st, rest).
     let (r, q) = pipe_get (so_capturing inp) (so_totals inp) (so_ids inp) idx (so_pipe st)
     in (r, st\<lparr>so_pipe := q\<rparr>, rest))"

definition so_read :: "so_in \<Rightarrow> nat list \<Rightarrow> ('p so_frame, served) stmt" where
  "so_read inp idx = (\<lambda>(st, rest).
     let (r, q) = totals_now (so_totals inp) idx (so_pipe st) in (r, st\<lparr>so_pipe := q\<rparr>, rest))"

fun refresh_rows :: "nat \<Rightarrow> token list list \<Rightarrow> nat list \<Rightarrow> token list list \<Rightarrow> token list list" where
  "refresh_rows m gpu [] mir = mir"
| "refresh_rows m gpu (j # js) mir = refresh_rows m gpu js (mir[j := write_prefix (mir ! j) (take m (gpu ! j))])"

definition dense_refresh :: "so_cfg \<Rightarrow> so_in \<Rightarrow> nat list \<Rightarrow> int list \<Rightarrow> ('p so_frame, unit) stmt" where
  "dense_refresh cfg inp idx tots = (\<lambda>(st, rest).
     let m = (if tots = [] then 0 else Max (set tots))
     in if \<not> dense cfg \<or> m \<le> 0 \<or> idx = [] then (Inr (), st, rest)
        else if \<not> list_all (\<lambda>j. j < length (so_rows inp) \<and> j < length (tok_mirror st)) idx
          then (Inl IndexError, st, rest)
        else (Inr (), st\<lparr>tok_mirror := refresh_rows (nat m) (so_rows inp) idx (tok_mirror st)\<rparr>, rest))"

section \<open>The attendance ledger\<close>

definition ledger_one :: "token list list \<Rightarrow> bool \<Rightarrow> rid \<times> nat \<times> int \<Rightarrow> ('p so_frame, unit) stmt" where
  "ledger_one rows dirty = (\<lambda>(r, j, tot) (st, rest).
     if tot \<le> 0 then (Inr (), st, rest)
     else if \<not> (j < length rows \<and> nat tot \<le> length (rows ! j)) then (Inl IndexError, st, rest)
     else (Inr (), st\<lparr>seen := AList.update r
             \<lparr>led_idx = j, led_total = tot, led_dirty = dirty, led_head = take 4 (rows ! j),
              led_tail = rows ! j ! (nat tot - 1)\<rparr> (seen st)\<rparr>, rest))"

definition ledger_refresh :: "so_cfg \<Rightarrow> so_in \<Rightarrow> nat list \<Rightarrow> int list \<Rightarrow> bool \<Rightarrow> ('p so_frame, unit) stmt" where
  "ledger_refresh cfg inp idx tots dirty = seq_get (\<lambda>s.
     if \<not> (w0_fast cfg \<or> pipe_live (fst s)) then seq_ret ()
     else seq_iter (ledger_one (cpu_rows cfg inp (fst s)) dirty) (zip (so_ids inp) (zip idx tots)))"

text \<open>Whether the row still is the departed request's: the recorded prefix must be intact.\<close>

definition ghost_intact :: "token list \<Rightarrow> ledger \<Rightarrow> int \<Rightarrow> bool" where
  "ghost_intact row rec g_tot \<longleftrightarrow>
     (let t = max (led_total rec) 0
      in 0 < t \<and> t \<le> g_tot \<and> g_tot \<le> int (length row) \<and>
         take (min 4 (nat t)) row = led_head rec \<and> row ! (nat t - 1) = led_tail rec)"

definition ghost_total :: "so_in \<Rightarrow> bool \<Rightarrow> ledger \<Rightarrow> ('p so_frame, int) stmt" where
  "ghost_total inp pipe_dirty rec =
     (if \<not> pipe_dirty then seq_ret (max (led_total rec) 0)
      else seq_bind (so_read inp [led_idx rec]) (\<lambda>v. seq_get (\<lambda>s.
             seq_ret (hd (deref (totals_cpu (so_pipe (fst s))) v @ [0])))))"

definition ghost_settle :: "so_cfg \<Rightarrow> 'p papi \<Rightarrow> so_in \<Rightarrow> rid \<Rightarrow> ledger \<Rightarrow> int \<Rightarrow> ('p so_frame, unit) stmt" where
  "ghost_settle cfg api inp r rec g_tot = (\<lambda>(st, p, popped).
     let rows = cpu_rows cfg inp st
     in if \<not> led_idx rec < length rows then (Inl IndexError, st, p, popped)
        else if ghost_intact (rows ! led_idx rec) rec g_tot
        then (case api_call api [r] [led_idx rec] [g_tot] rows p of
                (Inl e, p') \<Rightarrow> (Inl e, st, p', popped)
              | (Inr _, p') \<Rightarrow> (Inr (), st\<lparr>ghosts_fed := Suc (ghosts_fed st)\<rparr>, p', AList.delete r popped))
        else let reset = led_total rec \<le> 0 \<or> g_tot < led_total rec
             in (Inr (), st\<lparr>ghosts_dropped := Suc (ghosts_dropped st),
                   drop_reset := drop_reset st + (if reset then 1 else 0),
                   drop_fp := drop_fp st + (if reset then 0 else 1)\<rparr>, p, AList.delete r popped))"

definition ghost_one :: "so_cfg \<Rightarrow> 'p papi \<Rightarrow> so_in \<Rightarrow> bool \<Rightarrow> rid \<Rightarrow> ('p so_frame, unit) stmt" where
  "ghost_one cfg api inp pipe_dirty r = (\<lambda>(st, p, popped).
     case map_of (seen st) r of
       None \<Rightarrow> (Inr (), st, p, popped)
     | Some rec \<Rightarrow>
         let s1 = (st\<lparr>seen := AList.delete r (seen st)\<rparr>, p, AList.update r rec popped)
         in if \<not> led_dirty rec \<and> \<not> pipe_dirty then (Inr (), s1)
            else seq_bind (ghost_total inp pipe_dirty rec) (\<lambda>g_tot.
                   seq_bind (dense_refresh cfg inp [led_idx rec] [max g_tot 1]) (\<lambda>_.
                     ghost_settle cfg api inp r rec g_tot)) s1)"

definition ghost_ids :: "so_cfg \<Rightarrow> so_in \<Rightarrow> so_state \<Rightarrow> rid list" where
  "ghost_ids cfg inp st =
     (if w0_fast cfg \<or> pipe_live st then filter (\<lambda>r. r \<notin> set (so_ids inp)) (dict_keys (seen st)) else [])"

section \<open>One step\<close>

definition zeros :: "so_cfg \<Rightarrow> so_in \<Rightarrow> token list list" where
  "zeros cfg inp = replicate (length (so_ids inp)) (replicate (so_k cfg) 0)"

text \<open>The read at the entry of the step (early mode only).\<close>

definition early_read :: "so_in \<Rightarrow> nat list \<Rightarrow> ('p so_frame, served option) stmt" where
  "early_read inp idx = seq_get (\<lambda>s.
     if pipe_live (fst s) \<and> pp_early (so_pipe (fst s))
     then seq_bind (so_pipe_get inp idx) (\<lambda>sv. seq_ret (Some (fst sv)))
     else seq_ret None)"

text \<open>The read after the ghosts, unless the early one still stands.\<close>

definition late_read :: "so_in \<Rightarrow> nat list \<Rightarrow> served option \<Rightarrow> ('p so_frame, served) stmt" where
  "late_read inp idx early = seq_get (\<lambda>s.
     if \<not> pipe_live (fst s) then so_read inp idx
     else if early \<noteq> None \<and> pp_early (so_pipe (fst s)) then seq_ret (the early)
     else seq_bind (so_pipe_get inp idx) (\<lambda>sv. seq_ret (fst sv)))"

definition fast_gate :: "so_cfg \<Rightarrow> 'p papi \<Rightarrow> so_in \<Rightarrow> rid list \<Rightarrow> 'p so_frame \<Rightarrow> bool" where
  "fast_gate cfg api inp ghosts = (\<lambda>(st, p, popped).
     (w0_fast cfg \<or> pipe_live st) \<and> ghosts = [] \<and> api_empty api p \<and>
     list_all (\<lambda>r. map_of (api_table api p) r \<noteq> None) (so_ids inp))"

definition fast_publish :: "so_cfg \<Rightarrow> 'p papi \<Rightarrow> so_in \<Rightarrow> nat list \<Rightarrow> int list \<Rightarrow>
    ('p so_frame, token list list) stmt" where
  "fast_publish cfg api inp idx tots =
     seq_bind (ledger_refresh cfg inp idx tots True) (\<lambda>_ (st, p, popped).
       (Inr (zeros cfg inp), st\<lparr>fast_steps := Suc (fast_steps st)\<rparr>, api_clear api p, popped))"

text \<open>The upload: all-zero widths skip it, a packed array of another shape raises.\<close>

definition upload :: "so_cfg \<Rightarrow> so_in \<Rightarrow> token list list \<Rightarrow> nat list \<Rightarrow> ('p so_frame, token list list) stmt" where
  "upload cfg inp packed ws = (\<lambda>(st, rest).
     let shaped = (length packed = length (so_ids inp) \<and> list_all (\<lambda>row. length row = so_k cfg) packed)
     in if w0_fast cfg \<and> shaped \<and> sum_list ws = 0
        then (Inr (zeros cfg inp), st\<lparr>skip_upload := Suc (skip_upload st)\<rparr>, rest)
        else if shaped then (Inr packed, st, rest) else (Inl RuntimeError, st, rest))"

definition stock_call :: "so_cfg \<Rightarrow> 'p papi \<Rightarrow> so_in \<Rightarrow> nat list \<Rightarrow> int list \<Rightarrow>
    ('p so_frame, token list list \<times> nat list) stmt" where
  "stock_call cfg api inp idx tots = (\<lambda>(st, p, popped).
     case api_call api (so_ids inp) idx tots (cpu_rows cfg inp st) p of
       (Inl e, p') \<Rightarrow> (Inl e, st, p', popped)
     | (Inr out, p') \<Rightarrow> (Inr out, st, p', []))"

definition stock_publish :: "so_cfg \<Rightarrow> 'p papi \<Rightarrow> so_in \<Rightarrow> nat list \<Rightarrow> int list \<Rightarrow>
    ('p so_frame, token list list) stmt" where
  "stock_publish cfg api inp idx tots =
     seq_bind (ledger_refresh cfg inp idx tots False) (\<lambda>_.
       seq_bind (stock_call cfg api inp idx tots) (\<lambda>(packed, ws). upload cfg inp packed ws))"

text \<open>The body of the \<open>try\<close>.\<close>

definition so_publish :: "so_cfg \<Rightarrow> 'p papi \<Rightarrow> so_in \<Rightarrow> nat list \<Rightarrow> rid list \<Rightarrow> served \<Rightarrow>
    ('p so_frame, token list list) stmt" where
  "so_publish cfg api inp idx ghosts sv = seq_get (\<lambda>s.
     let tots = deref (totals_cpu (so_pipe (fst s))) sv
     in seq_bind (dense_refresh cfg inp idx tots) (\<lambda>_. seq_get (\<lambda>s.
          if fast_gate cfg api inp ghosts s then fast_publish cfg api inp idx tots
          else stock_publish cfg api inp idx tots)))"

definition so_body :: "so_cfg \<Rightarrow> 'p papi \<Rightarrow> so_in \<Rightarrow> ('p so_frame, token list list) stmt" where
  "so_body cfg api inp =
     seq_bind (\<lambda>s. (lookup_rows inp, s)) (\<lambda>idx.
       seq_bind (early_read inp idx) (\<lambda>early. seq_get (\<lambda>s.
         let ghosts = ghost_ids cfg inp (fst s)
         in seq_bind (seq_iter (ghost_one cfg api inp (pipe_live (fst s))) ghosts) (\<lambda>_.
              seq_bind (late_read inp idx early) (so_publish cfg api inp idx ghosts)))))"

text \<open>\<open>propose\<close>: an exception restores the popped ghosts, retracts every width and publishes zeros.\<close>

definition so_recover :: "'p papi \<Rightarrow> 'p so_frame \<Rightarrow> so_state \<times> 'p" where
  "so_recover api = (\<lambda>(st, p, popped).
     (st\<lparr>seen := dict_updates (seen st) popped, ghosts_pending := ghosts_pending st + length popped,
         so_errors := Suc (so_errors st)\<rparr>, api_clear api p))"

definition so_propose :: "so_cfg \<Rightarrow> 'p papi \<Rightarrow> so_in \<Rightarrow> so_state \<times> 'p \<Rightarrow> token list list \<times> so_state \<times> 'p" where
  "so_propose cfg api inp = (\<lambda>(st, p).
     if so_skip inp then (zeros cfg inp, st, p)
     else case so_body cfg api inp (st, p, []) of
            (Inr out, (st', p', _)) \<Rightarrow> (out, st', p')
          | (Inl _, s') \<Rightarrow> (zeros cfg inp, so_recover api s'))"

section \<open>What each statement keeps\<close>

text \<open>Statements that only write the ledger, the pipeline or the mirror leave the proposer alone.\<close>

definition on_proposer :: "('p \<Rightarrow> bool) \<Rightarrow> 'p so_frame \<Rightarrow> bool" where
  "on_proposer P s = P (fst (snd s))"

named_theorems so_keeps \<open>statements that keep a predicate of the frame\<close>

lemma so_pipe_get_keeps [so_keeps]: "preserves (on_proposer P) (so_pipe_get inp idx)"
  by (auto simp: preserves_def on_proposer_def so_pipe_get_def split: prod.splits)

lemma so_read_keeps [so_keeps]: "preserves (on_proposer P) (so_read inp idx)"
  by (auto simp: preserves_def on_proposer_def so_read_def split: prod.splits)

lemma dense_refresh_keeps [so_keeps]: "preserves (on_proposer P) (dense_refresh cfg inp idx tots)"
  by (auto simp: preserves_def on_proposer_def dense_refresh_def Let_def split: prod.splits if_splits)

lemma ledger_one_keeps [so_keeps]: "preserves (on_proposer P) (ledger_one rows dirty x)"
  by (auto simp: preserves_def on_proposer_def ledger_one_def split: prod.splits if_splits)

lemma upload_keeps [so_keeps]: "preserves (on_proposer P) (upload cfg inp packed ws)"
  by (auto simp: preserves_def on_proposer_def upload_def Let_def split: prod.splits if_splits)

text \<open>The composed statements keep whatever their parts keep.\<close>

lemma ledger_refresh_keeps:
  "(\<And>rows x. preserves Q (ledger_one rows dirty x)) \<Longrightarrow> preserves Q (ledger_refresh cfg inp idx tots dirty)"
  unfolding ledger_refresh_def by (intro preserves_get preserves_if preserves_iter preserves_ret)

lemma ghost_total_keeps:
  "(\<And>idx. preserves Q (so_read inp idx)) \<Longrightarrow> preserves Q (ghost_total inp d rec)"
  unfolding ghost_total_def by (intro preserves_get preserves_if preserves_bind preserves_ret)

lemma early_read_keeps:
  "(\<And>idx. preserves Q (so_pipe_get inp idx)) \<Longrightarrow> preserves Q (early_read inp idx)"
  unfolding early_read_def by (intro preserves_get preserves_if preserves_bind preserves_ret)

lemma late_read_keeps:
  "(\<And>idx. preserves Q (so_pipe_get inp idx)) \<Longrightarrow> (\<And>idx. preserves Q (so_read inp idx)) \<Longrightarrow>
   preserves Q (late_read inp idx early)"
  unfolding late_read_def by (intro preserves_get preserves_if preserves_bind preserves_ret)

lemma so_publish_keeps:
  assumes "\<And>tots. preserves Q (dense_refresh cfg inp idx tots)"
    and "\<And>tots. preserves Q (fast_publish cfg api inp idx tots)"
    and "\<And>tots. preserves Q (stock_publish cfg api inp idx tots)"
  shows "preserves Q (so_publish cfg api inp idx ghosts sv)"
  unfolding so_publish_def Let_def using assms by (intro preserves_get preserves_if preserves_bind)

lemma so_body_keeps:
  assumes "\<And>d r. preserves Q (ghost_one cfg api inp d r)"
    and "\<And>idx. preserves Q (so_pipe_get inp idx)" "\<And>idx. preserves Q (so_read inp idx)"
    and "\<And>idx ghosts sv. preserves Q (so_publish cfg api inp idx ghosts sv)"
  shows "preserves Q (so_body cfg api inp)"
proof -
  have "preserves Q (\<lambda>s. (lookup_rows inp, s))" by (auto simp: preserves_def)
  then show ?thesis unfolding so_body_def Let_def
    using assms by (intro preserves_bind preserves_get preserves_iter early_read_keeps late_read_keeps)
qed

lemma stock_publish_keeps:
  assumes "\<And>rows x. preserves Q (ledger_one rows False x)"
    and "\<And>tots. preserves Q (stock_call cfg api inp idx tots)"
    and "\<And>packed ws. preserves Q (upload cfg inp packed ws)"
  shows "preserves Q (stock_publish cfg api inp idx tots)"
  unfolding stock_publish_def using assms
  by (intro preserves_bind preserves_prod ledger_refresh_keeps)

lemma fast_publish_keeps:
  assumes "\<And>rows x. preserves Q (ledger_one rows True x)"
    and "\<And>st p popped. Q (st, p, popped) \<Longrightarrow> Q (st\<lparr>fast_steps := Suc (fast_steps st)\<rparr>, api_clear api p, popped)"
  shows "preserves Q (fast_publish cfg api inp idx tots)"
proof -
  have "preserves Q (\<lambda>(st, p, popped).
      (Inr (zeros cfg inp), st\<lparr>fast_steps := Suc (fast_steps st)\<rparr>, api_clear api p, popped))"
    by (rule preservesI) (auto dest: assms(2))
  then show ?thesis unfolding fast_publish_def using assms(1)
    by (intro preserves_bind ledger_refresh_keeps)
qed

text \<open>A popped ghost: from the ledger to the popped ones, then settled.\<close>

lemma ghost_one_keeps:
  assumes pop: "\<And>st p popped rec. Q (st, p, popped) \<Longrightarrow> map_of (seen st) r = Some rec \<Longrightarrow>
      Q (st\<lparr>seen := AList.delete r (seen st)\<rparr>, p, AList.update r rec popped)"
    and read: "\<And>idx. preserves Q (so_read inp idx)"
    and dense: "\<And>idx tots. preserves Q (dense_refresh cfg inp idx tots)"
    and settle: "\<And>rec n. preserves Q (ghost_settle cfg api inp r rec n)"
  shows "preserves Q (ghost_one cfg api inp d r)"
proof (rule preservesI)
  fix s a s'
  assume Q: "Q s" and g: "ghost_one cfg api inp d r s = (a, s')"
  obtain st p popped where s: "s = (st, p, popped)" by (cases s)
  show "Q s'"
  proof (cases "map_of (seen st) r")
    case None
    with Q g s show ?thesis by (simp add: ghost_one_def)
  next
    case (Some rec)
    let ?s1 = "(st\<lparr>seen := AList.delete r (seen st)\<rparr>, p, AList.update r rec popped)"
    have Q1: "Q ?s1" using pop Q Some s by blast
    have "preserves Q (seq_bind (ghost_total inp d rec) (\<lambda>g_tot.
        seq_bind (dense_refresh cfg inp [led_idx rec] [max g_tot 1]) (\<lambda>_.
          ghost_settle cfg api inp r rec g_tot)))"
      using read dense settle by (intro preserves_bind ghost_total_keeps)
    then show ?thesis using Q1 g s Some
      by (auto simp: ghost_one_def Let_def dest: preservesD split: if_splits)
  qed
qed

section \<open>What a step publishes\<close>

lemma upload_out:
  "upload cfg inp packed ws s = (Inr out, s') \<Longrightarrow>
   length out = length (so_ids inp) \<and> (\<forall>row \<in> set out. length row = so_k cfg) \<and>
   (out = packed \<or> out = zeros cfg inp \<and> sum_list ws = 0) \<and> snd s' = snd s"
  by (cases s) (auto simp: upload_def Let_def zeros_def list_all_iff split: if_splits)

text \<open>A body that returns published zeros after \<open>clear_widths\<close>, or the rows of one proposer call.\<close>

lemma so_publish_out:
  assumes "so_publish cfg api inp idx ghosts sv s = (Inr out, s')"
  obtains (fast) p where "out = zeros cfg inp" "fst (snd s') = api_clear api p"
      "list_all (\<lambda>r. map_of (api_table api p) r \<noteq> None) (so_ids inp)"
  | (stock) tots rows packed ws p where "tots = deref (totals_cpu (so_pipe (fst s))) sv"
      "api_call api (so_ids inp) idx tots rows p = (Inr (packed, ws), fst (snd s'))"
      "\<not> dense cfg \<Longrightarrow> rows = so_rows inp" "length out = length (so_ids inp)"
      "\<forall>row \<in> set out. length row = so_k cfg" "out = packed \<or> out = zeros cfg inp \<and> sum_list ws = 0"
      "p = fst (snd s)"
proof -
  let ?tots = "deref (totals_cpu (so_pipe (fst s))) sv"
  from assms obtain s1 where s1: "dense_refresh cfg inp idx ?tots s = (Inr (), s1)"
    and p: "(if fast_gate cfg api inp ghosts s1 then fast_publish cfg api inp idx ?tots s1
             else stock_publish cfg api inp idx ?tots s1) = (Inr out, s')"
    by (auto simp: so_publish_def seq_get_def Let_def seq_bind_Inr split: if_splits)
  have s1p: "fst (snd s1) = fst (snd s)"
    using preservesD[OF dense_refresh_keeps[of "\<lambda>q. q = fst (snd s)"] _ s1] by (simp add: on_proposer_def)
  have ledger: "fst (snd s2) = fst (snd s1)" if "ledger_refresh cfg inp idx ?tots d s1 = (a, s2)" for d a s2
  proof -
    have "preserves (on_proposer (\<lambda>q. q = fst (snd s1))) (ledger_refresh cfg inp idx ?tots d)"
      by (rule ledger_refresh_keeps) (rule so_keeps)
    from preservesD[OF this _ that] show ?thesis by (simp add: on_proposer_def)
  qed
  show thesis
  proof (cases "fast_gate cfg api inp ghosts s1")
    case True
    with p obtain st q popped where l: "ledger_refresh cfg inp idx ?tots True s1 = (Inr (), st, q, popped)"
      and o: "out = zeros cfg inp" "fst (snd s') = api_clear api q"
      by (auto simp: fast_publish_def seq_bind_Inr split: prod.splits)
    from ledger[OF l] have "q = fst (snd s1)" by simp
    with True o fast show thesis by (auto simp: fast_gate_def split: prod.splits)
  next
    case False
    with p obtain s2 packed ws s3 where l: "ledger_refresh cfg inp idx ?tots False s1 = (Inr (), s2)"
      and c: "stock_call cfg api inp idx ?tots s2 = (Inr (packed, ws), s3)"
      and u: "upload cfg inp packed ws s3 = (Inr out, s')"
      by (auto simp: stock_publish_def seq_bind_Inr)
    obtain st q popped where s2: "s2 = (st, q, popped)" by (cases s2)
    from c s2 have "api_call api (so_ids inp) idx ?tots (cpu_rows cfg inp st) q = (Inr (packed, ws), fst (snd s3))"
      by (auto simp: stock_call_def split: prod.splits sum.splits)
    with upload_out[OF u] ledger[OF l] s1p s2 show thesis
      by (intro stock[of ?tots "cpu_rows cfg inp st" q packed ws]) (auto simp: cpu_rows_def)
  qed
qed

lemma so_body_publish:
  assumes "so_body cfg api inp s = (Inr out, s')"
  obtains idx ghosts sv s0 where "lookup_rows inp = Inr idx"
    "so_publish cfg api inp idx ghosts sv s0 = (Inr out, s')"
  using assms by (auto simp: so_body_def seq_bind_Inr seq_get_def Let_def)

lemma so_body_shape:
  assumes "so_body cfg api inp s = (Inr out, s')"
  shows "length out = length (so_ids inp) \<and> (\<forall>row \<in> set out. length row = so_k cfg)"
proof -
  from so_body_publish[OF assms] obtain idx ghosts sv s0 where
    "so_publish cfg api inp idx ghosts sv s0 = (Inr out, s')" .
  then show ?thesis by (cases rule: so_publish_out) (auto simp: zeros_def)
qed

lemma so_propose_shape:
  "length (fst (so_propose cfg api inp s)) = length (so_ids inp) \<and>
   (\<forall>row \<in> set (fst (so_propose cfg api inp s)). length row = so_k cfg)"
  by (cases s) (auto simp: so_propose_def zeros_def split: prod.splits sum.splits dest: so_body_shape)

section \<open>No ghost is lost to an error\<close>

text \<open>Recorded requests, popped ones included, and the ghosts settled so far.\<close>

definition ghost_count :: "'p so_frame \<Rightarrow> nat" where
  "ghost_count = (\<lambda>(st, p, popped). card (dom (map_of (seen st)) \<union> dom (map_of popped))
     + ghosts_fed st + ghosts_dropped st)"

lemma ghost_count_same:
  "seen st' = seen st \<Longrightarrow> ghosts_fed st' = ghosts_fed st \<Longrightarrow> ghosts_dropped st' = ghosts_dropped st \<Longrightarrow>
   ghost_count (st', p', popped) = ghost_count (st, p, popped)"
  by (simp add: ghost_count_def)

lemma card_minus_one: "finite A \<Longrightarrow> finite B \<Longrightarrow> card (A \<union> B) \<le> Suc (card (A \<union> (B - {x})))"
proof -
  assume "finite A" "finite B"
  then have "card (A \<union> B) \<le> card (insert x (A \<union> (B - {x})))" by (intro card_mono) auto
  also have "\<dots> \<le> Suc (card (A \<union> (B - {x})))" by (rule card_insert_le_m1) simp_all
  finally show ?thesis .
qed

lemma ghost_count_settled:
  "ghosts_fed st' + ghosts_dropped st' = Suc (ghosts_fed st + ghosts_dropped st) \<Longrightarrow> seen st' = seen st \<Longrightarrow>
   ghost_count (st, p, popped) \<le> ghost_count (st', p', AList.delete r popped)"
  using card_minus_one[of "dom (map_of (seen st))" "dom (map_of popped)" r]
  by (simp add: ghost_count_def dict_simps finite_dom_map_of)

lemma ghost_count_pop:
  "map_of (seen st) r = Some rec \<Longrightarrow> ghosts_fed st' = ghosts_fed st \<Longrightarrow> ghosts_dropped st' = ghosts_dropped st \<Longrightarrow>
   seen st' = AList.delete r (seen st) \<Longrightarrow>
   ghost_count (st', p', AList.update r rec popped) = ghost_count (st, p, popped)"
proof -
  assume "map_of (seen st) r = Some rec"
  then have "dom (map_of (AList.delete r (seen st))) \<union> dom (map_of (AList.update r rec popped))
      = dom (map_of (seen st)) \<union> dom (map_of popped)"
    by (auto simp: dict_simps)
  moreover assume "ghosts_fed st' = ghosts_fed st" "ghosts_dropped st' = ghosts_dropped st"
    "seen st' = AList.delete r (seen st)"
  ultimately show ?thesis by (simp only: ghost_count_def split_conv)
qed

lemma ghost_count_record:
  "seen st' = AList.update r v (seen st) \<Longrightarrow> ghosts_fed st' = ghosts_fed st \<Longrightarrow>
   ghosts_dropped st' = ghosts_dropped st \<Longrightarrow> ghost_count (st, p, popped) \<le> ghost_count (st', p', popped)"
proof -
  have "finite (dom (map_of (AList.update r v (seen st))) \<union> dom (map_of popped))"
    by (simp add: finite_dom_map_of)
  then have "card (dom (map_of (seen st)) \<union> dom (map_of popped))
      \<le> card (dom (map_of (AList.update r v (seen st))) \<union> dom (map_of popped))"
    by (rule card_mono) (auto simp: dict_simps)
  then show "seen st' = AList.update r v (seen st) \<Longrightarrow> ghosts_fed st' = ghosts_fed st \<Longrightarrow>
     ghosts_dropped st' = ghosts_dropped st \<Longrightarrow> ?thesis"
    by (simp add: ghost_count_def)
qed

definition at_least :: "nat \<Rightarrow> 'p so_frame \<Rightarrow> bool" where
  "at_least n s \<longleftrightarrow> n \<le> ghost_count s"

lemma at_least_reads:
  "preserves (at_least n) (so_pipe_get inp idx)" "preserves (at_least n) (so_read inp idx)"
  "preserves (at_least n) (dense_refresh cfg inp idx tots)"
  by (auto simp: preserves_def at_least_def so_pipe_get_def so_read_def dense_refresh_def Let_def ghost_count_def
      split: prod.splits if_splits)

lemma at_least_ledger: "preserves (at_least n) (ledger_one rows dirty x)"
  by (auto simp: preserves_def at_least_def ledger_one_def split: prod.splits if_splits
      intro: order_trans[OF _ ghost_count_record])

lemma at_least_settle: "preserves (at_least n) (ghost_settle cfg api inp r rec t)"
proof (rule preservesI)
  fix s a s'
  assume s: "at_least n s" and g: "ghost_settle cfg api inp r rec t s = (a, s')"
  obtain st p popped where sf: "s = (st, p, popped)" by (cases s)
  obtain st' p' popped' where sf': "s' = (st', p', popped')" by (cases s')
  from g have "st' = st \<and> popped' = popped \<or>
      ghosts_fed st' + ghosts_dropped st' = Suc (ghosts_fed st + ghosts_dropped st) \<and> seen st' = seen st \<and>
      popped' = AList.delete r popped"
    by (auto simp: sf sf' ghost_settle_def Let_def split: if_splits prod.splits sum.splits)
  then have "ghost_count s \<le> ghost_count s'"
  proof
    assume "st' = st \<and> popped' = popped"
    then show ?thesis by (simp add: sf sf' ghost_count_def)
  next
    assume a: "ghosts_fed st' + ghosts_dropped st' = Suc (ghosts_fed st + ghosts_dropped st) \<and> seen st' = seen st \<and>
      popped' = AList.delete r popped"
    then have pd: "popped' = AList.delete r popped" by simp
    show ?thesis unfolding sf sf' pd by (rule ghost_count_settled) (use a in simp_all)
  qed
  with s show "at_least n s'" by (simp add: at_least_def)
qed

lemma at_least_ghost: "preserves (at_least n) (ghost_one cfg api inp d r)"
proof (rule ghost_one_keeps)
  show "at_least n (st\<lparr>seen := AList.delete r (seen st)\<rparr>, p, AList.update r rec popped)"
    if "at_least n (st, p, popped)" "map_of (seen st) r = Some rec" for st p popped rec
    using that ghost_count_pop[OF that(2), of "st\<lparr>seen := AList.delete r (seen st)\<rparr>" p popped p]
    by (simp add: at_least_def)
qed (rule at_least_reads at_least_settle)+

section \<open>With a proposer that keeps its contract\<close>

context suffix_proposer
begin

lemma so_call_keeps:
  assumes "api_call api = call"
  shows "preserves (on_proposer inv) (ghost_settle cfg api inp r rec n)"
    and "preserves (on_proposer inv) (stock_call cfg api inp idx tots)"
  using assms
  by (auto simp: preserves_def on_proposer_def ghost_settle_def stock_call_def Let_def
      split: prod.splits sum.splits if_splits dest: inv_call)

lemma so_body_inv:
  assumes "api_call api = call" and "api_clear api = clear"
  shows "preserves (on_proposer inv) (so_body cfg api inp)"
proof (rule so_body_keeps)
  show "preserves (on_proposer inv) (ghost_one cfg api inp d r)" for d r
    by (rule ghost_one_keeps) (auto simp: on_proposer_def intro: so_keeps so_call_keeps[OF assms(1)])
  show "preserves (on_proposer inv) (so_publish cfg api inp idx ghosts sv)" for idx ghosts sv
    by (intro so_publish_keeps so_keeps fast_publish_keeps stock_publish_keeps so_call_keeps[OF assms(1)])
      (simp add: on_proposer_def assms(2) inv_clear)
qed (rule so_keeps)+

lemma so_propose_inv:
  assumes "api_call api = call" and "api_clear api = clear" and "inv p"
    and "so_propose cfg api inp (st, p) = (out, st', p')"
  shows "inv p'"
proof (cases "so_skip inp")
  case True
  with assms show ?thesis by (simp add: so_propose_def)
next
  case False
  obtain r st1 p1 popped where b: "so_body cfg api inp (st, p, []) = (r, st1, p1, popped)"
    by (cases "so_body cfg api inp (st, p, [])") auto
  from preservesD[OF so_body_inv[OF assms(1,2)] _ b] assms(3) have "inv p1"
    by (simp add: on_proposer_def)
  then have "inv p1 \<and> inv (api_clear api p1)" using assms(2) inv_clear by simp
  with assms(4) False b show ?thesis
    by (cases r) (auto simp: so_propose_def so_recover_def)
qed

lemma so_propose_error:
  assumes "api_table api = table" and "api_clear api = clear" and "\<not> so_skip inp"
    and "so_body cfg api inp (st, p, []) = (Inl e, s')"
  shows "fst (so_propose cfg api inp (st, p)) = zeros cfg inp \<and>
     dict_or (api_table api (snd (snd (so_propose cfg api inp (st, p))))) r 0 = 0"
  using assms by (cases s') (simp add: so_propose_def so_recover_def clear_table_or)

text \<open>What the scheduler is told matches what is published.\<close>

lemma so_publish_widths:
  assumes api: "api_call api = call" "api_table api = table" "api_clear api = clear"
    and d: "distinct (so_ids inp)" and inv: "inv (fst (snd s))"
    and p: "so_publish cfg api inp idx ghosts sv s = (Inr out, s')"
    and i: "i < length (so_ids inp)" and pos: "0 < dict_or (table (fst (snd s'))) (so_ids inp ! i) 0"
  shows "\<exists>tots rows packed ws q. inv q \<and> call (so_ids inp) idx tots rows q = (Inr (packed, ws), fst (snd s')) \<and>
     out = packed \<and> dict_or (table (fst (snd s'))) (so_ids inp ! i) 0 = ws ! i"
  using p
proof (cases rule: so_publish_out)
  case (fast q)
  then show ?thesis using pos by (simp add: api clear_table_or)
next
  case (stock tots rows packed ws q)
  have c: "call (so_ids inp) idx tots rows q = (Inr (packed, ws), fst (snd s'))"
    using stock(2) api(1) by simp
  have iq: "inv q" using inv stock(7) by simp
  have w: "dict_or (table (fst (snd s'))) (so_ids inp ! i) 0 = ws ! i"
    using call_table[OF iq c d i] by (simp add: dict_or_def)
  have "length ws = length (so_ids inp)" using call_shape[OF iq c] by simp
  then have "ws ! i \<in> set ws" "ws ! i \<noteq> 0" using pos w i by simp_all
  then have "sum_list ws \<noteq> 0" by auto
  with stock(6) c w iq show ?thesis by blast
qed

lemma so_body_published:
  assumes "api_call api = call" and "inv p" and "so_body cfg api inp (st, p, []) = (Inr out, s')"
  obtains idx ghosts sv s0 where "lookup_rows inp = Inr idx" "inv (fst (snd s0))"
    "so_publish cfg api inp idx ghosts sv s0 = (Inr out, s')"
proof -
  have g: "preserves (on_proposer inv) (ghost_one cfg api inp d r)" for d r
    by (rule ghost_one_keeps) (auto simp: on_proposer_def intro: so_keeps so_call_keeps[OF assms(1)])
  from assms(3) obtain idx e s1 ghosts d s2 sv s3 where l: "lookup_rows inp = Inr idx"
    and e: "early_read inp idx (st, p, []) = (Inr e, s1)"
    and gs: "seq_iter (ghost_one cfg api inp d) ghosts s1 = (Inr (), s2)"
    and lr: "late_read inp idx e s2 = (Inr sv, s3)"
    and pb: "so_publish cfg api inp idx ghosts sv s3 = (Inr out, s')"
    unfolding so_body_def seq_bind_Inr seq_get_def Let_def by auto
  have "on_proposer inv s1"
    by (rule preservesD[OF early_read_keeps[OF so_pipe_get_keeps] _ e]) (simp add: on_proposer_def assms(2))
  then have "on_proposer inv s2" by (rule preservesD[OF preserves_iter[OF g] _ gs])
  then have "on_proposer inv s3"
    by (rule preservesD[OF late_read_keeps[OF so_pipe_get_keeps so_read_keeps] _ lr])
  with l pb that show thesis by (simp add: on_proposer_def)
qed

lemma so_propose_widths:
  assumes api: "api_call api = call" "api_table api = table" "api_clear api = clear"
    and "distinct (so_ids inp)" and "inv p" and "\<not> so_skip inp"
    and r: "so_propose cfg api inp (st, p) = (out, st', p')"
    and i: "i < length (so_ids inp)" and pos: "0 < dict_or (table p') (so_ids inp ! i) 0"
  shows "\<exists>idx tots rows ws q. inv q \<and> lookup_rows inp = Inr idx \<and>
     call (so_ids inp) idx tots rows q = (Inr (out, ws), p') \<and> dict_or (table p') (so_ids inp ! i) 0 = ws ! i"
proof -
  obtain a st1 p1 popped where b: "so_body cfg api inp (st, p, []) = (a, st1, p1, popped)"
    by (cases "so_body cfg api inp (st, p, [])") auto
  show ?thesis
  proof (cases a)
    case (Inl e)
    with r b assms(6) have "p' = api_clear api p1" by (simp add: so_propose_def so_recover_def)
    then have "dict_or (table p') (so_ids inp ! i) 0 = 0" by (simp only: api(3) clear_table_or)
    with pos show ?thesis by simp
  next
    case (Inr o')
    with r b assms(6) have o: "o' = out" "p1 = p'" by (auto simp: so_propose_def)
    from so_body_published[OF api(1) assms(5) b[unfolded Inr]] obtain idx ghosts sv s0 where
      l: "lookup_rows inp = Inr idx" and iv: "inv (fst (snd s0))"
      and pb: "so_publish cfg api inp idx ghosts sv s0 = (Inr o', st1, p1, popped)" .
    have "0 < dict_or (table (fst (snd (st1, p1, popped)))) (so_ids inp ! i) 0" using pos o by simp
    from so_publish_widths[OF api assms(4) iv pb i this] show ?thesis using l o by auto
  qed
qed

lemma stock_publish_raise:
  assumes "api_call api = call" and "so_k cfg = k"
  shows "keeps_on_raise (\<lambda>s. at_least n s \<and> on_proposer inv s) (stock_publish cfg api inp idx tots)"
  unfolding stock_publish_def
proof (rule keeps_on_raise_bind)
  show "preserves (\<lambda>s. at_least n s \<and> on_proposer inv s) (ledger_refresh cfg inp idx tots False)"
    by (intro preserves_conj ledger_refresh_keeps at_least_ledger ledger_one_keeps)
  show "keeps_on_raise (\<lambda>s. at_least n s \<and> on_proposer inv s)
      (seq_bind (stock_call cfg api inp idx tots) (\<lambda>(packed, ws). upload cfg inp packed ws))" for u
    unfolding keeps_on_raise_def
  proof (intro allI impI)
    fix s e s'
    assume s: "at_least n s \<and> on_proposer inv s"
      and b: "seq_bind (stock_call cfg api inp idx tots) (\<lambda>(packed, ws). upload cfg inp packed ws) s = (Inl e, s')"
    obtain st p popped where sf: "s = (st, p, popped)" by (cases s)
    obtain a p1 where c: "call (so_ids inp) idx tots (cpu_rows cfg inp st) p = (a, p1)" by fastforce
    have ok: "inv p1" using s inv_call[OF _ c] by (simp add: on_proposer_def sf)
    show "at_least n s' \<and> on_proposer inv s'"
    proof (cases a)
      case (Inl e')
      with b c sf assms(1) have "s' = (st, p1, popped)" by (simp add: seq_bind_def stock_call_def)
      with s ok sf show ?thesis by (simp add: at_least_def on_proposer_def ghost_count_def)
    next
      case (Inr out)
      obtain packed ws where o: "out = (packed, ws)" by (cases out)
      have "length packed = length (so_ids inp) \<and> list_all (\<lambda>row. length row = so_k cfg) packed"
        using call_shape[of p "so_ids inp" idx tots "cpu_rows cfg inp st" packed ws p1] s c Inr o sf assms(2)
        by (simp add: on_proposer_def list_all_iff)
      with b c sf assms(1) Inr o show ?thesis
        by (simp add: seq_bind_def stock_call_def upload_def Let_def split: if_splits)
    qed
  qed
qed

lemma so_body_raise_ghosts:
  assumes api: "api_call api = call" "api_clear api = clear" and k: "so_k cfg = k" and "inv p"
    and b: "so_body cfg api inp (st, p, []) = (Inl e, s')"
  shows "ghost_count (st, p, []) \<le> ghost_count s'"
proof -
  let ?Q = "\<lambda>s. at_least (ghost_count (st, p, [])) s \<and> on_proposer inv s"
  have g: "preserves ?Q (ghost_one cfg api inp d r)" for d r
  proof (rule preserves_conj[OF at_least_ghost])
    show "preserves (on_proposer inv) (ghost_one cfg api inp d r)"
      by (rule ghost_one_keeps) (auto simp: on_proposer_def intro: so_keeps so_call_keeps[OF api(1)])
  qed
  have reads: "preserves ?Q (so_pipe_get inp idx)" "preserves ?Q (so_read inp idx)"
    "preserves ?Q (dense_refresh cfg inp idx tots)" for idx tots
    by (intro preserves_conj at_least_reads so_keeps)+
  have fast: "preserves ?Q (fast_publish cfg api inp idx tots)" for idx tots
  proof (rule fast_publish_keeps)
    show "preserves ?Q (ledger_one rows True x)" for rows x
      by (rule preserves_conj[OF at_least_ledger ledger_one_keeps])
  qed (simp add: at_least_def on_proposer_def ghost_count_def api(2) inv_clear)
  have pub: "keeps_on_raise ?Q (so_publish cfg api inp idx ghosts sv)" for idx ghosts sv
    unfolding so_publish_def Let_def
    by (intro keeps_on_raise_get keeps_on_raise_bind keeps_on_raise_if keeps_on_raise_preserves[OF fast]
        stock_publish_raise[OF api(1) k] reads)
  have lookup: "preserves ?Q (\<lambda>s. (lookup_rows inp, s))" by (auto simp: preserves_def)
  have "keeps_on_raise ?Q (so_body cfg api inp)"
    unfolding so_body_def Let_def
    by (rule keeps_on_raise_bind[OF lookup], rule keeps_on_raise_bind[OF early_read_keeps[OF reads(1)]],
        rule keeps_on_raise_get, rule keeps_on_raise_bind[OF preserves_iter[OF g]],
        rule keeps_on_raise_bind[OF late_read_keeps[OF reads(1,2)]], rule pub)
  moreover have "?Q (st, p, [])" using assms(4) by (simp add: at_least_def on_proposer_def)
  ultimately have "?Q s'" using b unfolding keeps_on_raise_def by blast
  then show ?thesis by (simp add: at_least_def)
qed

end

lemma so_recover_seen:
  "card (dom (map_of (seen (fst (so_recover api (st, p, popped)))))) =
   card (dom (map_of (seen st)) \<union> dom (map_of popped))"
proof -
  have "dom (map_of (dict_updates d kvs)) = dom (map_of d) \<union> fst ` set kvs" for d kvs :: "(rid, ledger) dict"
  proof (induction kvs arbitrary: d)
    case (Cons kv kvs)
    have "dom (map_of (AList.update (fst kv) (snd kv) d)) = insert (fst kv) (dom (map_of d))"
      by (auto simp: dict_simps)
    with Cons show ?case by (cases kv) auto
  qed simp
  then show ?thesis by (simp add: so_recover_def dom_map_of_conv_image_fst)
qed

section \<open>The mode over the Rust proposer\<close>

definition rust_api :: "pcfg \<Rightarrow> proposer papi" where
  "rust_api pc = \<lparr>api_call = propose_suffix_only pc, api_table = p_widths, api_clear = clear_widths,
     api_empty = (\<lambda>p. cached (p_cache p) = 0)\<rparr>"

text \<open>No cached token means no index entry, so \<open>num_index_keys\<close> is 0 as well.\<close>

lemma empty_index:
  assumes "cache_ok cc c" and "0 < cf_n cc" and "cached c = 0"
  shows "index c key = []"
proof (rule ccontr)
  assume "index c key \<noteq> []"
  then obtain i p where e: "(i, p) \<in> set (index c key)" by (cases "index c key") auto
  note d = cache_okD[OF assms(1)]
  have "length (seq_of c i) \<in> set (seq_lens c)" using d(8)[OF e] by (auto simp: seq_lens_def)
  moreover have "sum_list (seq_lens c) = 0" using d(4) assms(3) by simp
  ultimately have "length (seq_of c i) = 0" by (simp only: sum_list_eq_0_iff)
  with d(9)[OF e] assms(2) show False by simp
qed

lemma empty_speculate: "cache_ok cc c \<Longrightarrow> 0 < cf_n cc \<Longrightarrow> cached c = 0 \<Longrightarrow> speculate cc c ctx m = ([], 0, 0)"
  by (simp add: speculate_def Let_def empty_index)

lemma propose_suffix_only_cache:
  "propose_suffix_only cfg ids idx tots toks p = (Inr out, p') \<Longrightarrow> p_cache p' = p_cache (forget_gone (p_cc cfg) ids p)"
  by (auto simp: propose_suffix_only_def split: if_splits prod.splits sum.splits dest: row_steps_frame)

section \<open>What the ghost handling loses\<close>

text \<open>The recorded head has four tokens, the compared one at most as many as the recorded total: a
  departed request recorded with fewer than four tokens is never recognised.\<close>

lemma short_ghost_not_intact:
  "led_total rec < 4 \<Longrightarrow> length (led_head rec) = 4 \<Longrightarrow> \<not> ghost_intact row rec g_tot"
  by (auto simp: ghost_intact_def Let_def dest: arg_cong[of _ _ length])

text \<open>The ledger is written clean before the stock call: when that call raises, the requests stay
  recorded as clean although the proposer did not follow them.\<close>

lemma failed_call_leaves_clean_record:
  assumes "w0_fast cfg" and "so_ids inp = [r]" and "idx = [j]" and "tots = [t]" and "0 < t"
    and "j < length (cpu_rows cfg inp st)" and "nat t \<le> length (cpu_rows cfg inp st ! j)"
    and "api_call api [r] [j] [t] (cpu_rows cfg inp st) p = (Inl e, p)"
  shows "\<exists>st'. stock_publish cfg api inp idx tots (st, p, popped) = (Inl e, st', p, popped) \<and>
     (\<exists>rec. map_of (seen st') r = Some rec \<and> \<not> led_dirty rec \<and> led_total rec = t)"
proof -
  define rec where "rec = \<lparr>led_idx = j, led_total = t, led_dirty = False, led_head = take 4 (cpu_rows cfg inp st ! j),
    led_tail = cpu_rows cfg inp st ! j ! (nat t - 1)\<rparr>"
  define st' where "st' = st\<lparr>seen := AList.update r rec (seen st)\<rparr>"
  have rows: "cpu_rows cfg inp st' = cpu_rows cfg inp st" by (simp add: cpu_rows_def st'_def)
  have "ledger_refresh cfg inp idx tots False (st, p, popped) = (Inr (), st', p, popped)"
    using assms(1-7) by (simp add: ledger_refresh_def seq_get_def seq_bind_def seq_ret_def ledger_one_def rec_def st'_def)
  moreover have "stock_call cfg api inp idx tots (st', p, popped) = (Inl e, st', p, popped)"
    using assms(2-4,8) by (simp add: stock_call_def rows)
  ultimately have "stock_publish cfg api inp idx tots (st, p, popped) = (Inl e, st', p, popped)"
    by (simp add: stock_publish_def seq_bind_def)
  moreover have "map_of (seen st') r = Some rec" "\<not> led_dirty rec" "led_total rec = t"
    by (simp_all add: st'_def rec_def dict_simps)
  ultimately show ?thesis by blast
qed

section \<open>Properties\<close>

definition demo_so_cfg :: so_cfg where
  "demo_so_cfg = \<lparr>so_k = 3, w0_fast = True, dense = False\<rparr>"

definition demo_so_in :: so_in where
  "demo_so_in = \<lparr>so_ids = [''a''], so_lut = [(''a'', 0)], so_totals = [3], so_rows = [[1, 2, 3, 0]],
     so_capturing = False, so_skip = False\<rparr>"

definition demo_so_state :: so_state where
  "demo_so_state = \<lparr>seen = [(''g'', \<lparr>led_idx = 1, led_total = 5, led_dirty = True, led_head = [1, 1, 1, 1], led_tail = 1\<rparr>)],
     so_pipe = pipe_off 4, tok_mirror = [], fast_steps = 0, ghosts_fed = 0, ghosts_dropped = 0,
     ghosts_pending = 0, drop_reset = 0, drop_fp = 0, skip_upload = 0, so_errors = 0\<rparr>"

lemma demo_proposer_ok: "proposer_ok demo_pcfg demo_proposer"
  by (simp add: proposer_ok_def demo_proposer_def cache_ok_new widths_ok_def demo_pcfg_def)

text \<open>Whatever happens inside a step, fast path, stock path or exception, it publishes one row of
  k tokens per request.\<close>

theorem suffix_only_shape:
  "length (fst (so_propose cfg api inp s)) = length (so_ids inp) \<and>
   list_all (\<lambda>row. length row = so_k cfg) (fst (so_propose cfg api inp s))"
  using so_propose_shape[of cfg api inp s] by (simp add: list_all_iff)

text \<open>A step whose body raised publishes zeros and leaves every published width 0, so the
  scheduler verifies no draft of it.\<close>

theorem error_retracts_widths:
  assumes "\<not> so_skip inp" and "so_body cfg (rust_api pc) inp (st, p, []) = (Inl e, s')"
  shows "fst (so_propose cfg (rust_api pc) inp (st, p)) = zeros cfg inp \<and>
     dict_or (p_widths (snd (snd (so_propose cfg (rust_api pc) inp (st, p))))) r 0 = 0"
  using rust.so_propose_error[of "rust_api pc" inp cfg st p e s' r] assms by (simp add: rust_api_def)

lemma error_retracts_widths_witness:
  "dict_or (p_widths (snd (snd (so_propose demo_so_cfg (rust_api demo_pcfg) (demo_so_in\<lparr>so_lut := []\<rparr>)
     (demo_so_state, demo_proposer))))) ''a'' 0 = 0"
proof -
  let ?inp = "demo_so_in\<lparr>so_lut := []\<rparr>"
  have "so_body demo_so_cfg (rust_api demo_pcfg) ?inp (demo_so_state, demo_proposer, [])
      = (Inl KeyError, demo_so_state, demo_proposer, [])"
    by (simp add: so_body_def seq_bind_def lookup_rows_def demo_so_in_def)
  from error_retracts_widths[OF _ this] show ?thesis by (simp add: demo_so_in_def)
qed

text \<open>C11: a positive width the scheduler reads after a step always has its drafts: the published rows
  are then the rows of a successful proposer call made in this step for this batch, and the width
  is the one that call answered.\<close>

theorem published_widths_have_drafts:
  assumes "proposer_ok pc p" and "distinct (so_ids inp)" and "\<not> so_skip inp"
    and "so_propose cfg (rust_api pc) inp (st, p) = (out, st', p')"
    and "i < length (so_ids inp)" and "0 < dict_or (p_widths p') (so_ids inp ! i) 0"
  shows "\<exists>idx tots rows ws q. proposer_ok pc q \<and> lookup_rows inp = Inr idx \<and>
     propose_suffix_only pc (so_ids inp) idx tots rows q = (Inr (out, ws), p') \<and>
     dict_or (p_widths p') (so_ids inp ! i) 0 = ws ! i"
  using rust.so_propose_widths[of "rust_api pc" pc inp p cfg st out st' p' i] assms
  by (simp add: rust_api_def)

text \<open>An exception loses no departed request: after it, the ledger records at least as many
  requests as before, counting those settled by a re-feed or an explicit drop in the step.\<close>

theorem ghosts_survive_errors:
  assumes "proposer_ok pc p" and "so_k cfg = pk pc"
    and "so_body cfg (rust_api pc) inp (st, p, []) = (Inl e, s')"
  shows "card (dom (map_of (seen st))) + ghosts_fed st + ghosts_dropped st \<le>
     (let st' = fst (so_recover (rust_api pc) s')
      in card (dom (map_of (seen st'))) + ghosts_fed st' + ghosts_dropped st')"
proof -
  obtain st1 p1 popped where s': "s' = (st1, p1, popped)" by (cases s')
  have "ghost_count (st, p, []) \<le> ghost_count s'"
    by (rule rust.so_body_raise_ghosts[of "rust_api pc" pc cfg p inp st e s'])
      (use assms in \<open>simp_all add: rust_api_def\<close>)
  with so_recover_seen[of "rust_api pc" st1 p1 popped] show ?thesis
    by (simp add: ghost_count_def s' Let_def so_recover_def)
qed

lemma published_widths_have_drafts_witness:
  "let (out, st', p') = so_propose demo_so_cfg (rust_api demo_pcfg) demo_so_in (demo_so_state\<lparr>seen := []\<rparr>,
       demo_proposer\<lparr>p_cache := the (cache_add demo_cache_cfg [2, 3, 7, 8] cache_new)\<rparr>)
   in 0 < dict_or (p_widths p') ''a'' 0 \<and> (\<exists>tots rows ws q.
       propose_suffix_only demo_pcfg [''a''] [0] tots rows q = (Inr (out, ws), p'))"
proof -
  let ?p = "demo_proposer\<lparr>p_cache := the (cache_add demo_cache_cfg [2, 3, 7, 8] cache_new)\<rparr>"
  obtain out st' p' where r: "so_propose demo_so_cfg (rust_api demo_pcfg) demo_so_in (demo_so_state\<lparr>seen := []\<rparr>, ?p) = (out, st', p')"
    by (metis surj_pair)
  have "0 < dict_or (p_widths (snd (snd (so_propose demo_so_cfg (rust_api demo_pcfg) demo_so_in (demo_so_state\<lparr>seen := []\<rparr>, ?p))))) ''a'' 0"
    by code_simp
  then have w0: "0 < dict_or (p_widths p') ''a'' 0" unfolding r by simp
  then have w: "0 < dict_or (p_widths p') (so_ids demo_so_in ! 0) 0" by (simp add: demo_so_in_def)
  have ok: "proposer_ok demo_pcfg ?p"
    using cache_add_total_ok[OF cache_ok_new, of demo_cache_cfg "[2, 3, 7, 8]"]
    by (auto simp: proposer_ok_def demo_proposer_def widths_ok_def demo_pcfg_def)
  have "lookup_rows demo_so_in = Inr [0]" by (simp add: lookup_rows_def demo_so_in_def)
  with published_widths_have_drafts[OF ok _ _ r _ w]
  have "\<exists>tots rows ws q. propose_suffix_only demo_pcfg [''a''] [0] tots rows q = (Inr (out, ws), p')"
    by (auto simp: demo_so_in_def)
  with w0 show ?thesis unfolding r by (simp add: Let_def)
qed

lemma ghosts_survive_errors_witness:
  "case so_body demo_so_cfg (rust_api demo_pcfg) (demo_so_in\<lparr>so_totals := []\<rparr>) (demo_so_state, demo_proposer, []) of
     (Inl e, s') \<Rightarrow> (let st' = fst (so_recover (rust_api demo_pcfg) s')
        in 1 \<le> card (dom (map_of (seen st'))) + ghosts_fed st' + ghosts_dropped st') | _ \<Rightarrow> False"
proof -
  let ?inp = "demo_so_in\<lparr>so_totals := []\<rparr>"
  let ?b = "so_body demo_so_cfg (rust_api demo_pcfg) ?inp (demo_so_state, demo_proposer, [])"
  have "case fst ?b of Inl _ \<Rightarrow> True | Inr _ \<Rightarrow> False" by code_simp
  then obtain e s' where b: "?b = (Inl e, s')" by (cases ?b) (auto split: sum.splits)
  have "so_k demo_so_cfg = pk demo_pcfg" by (simp add: demo_so_cfg_def demo_pcfg_def)
  from ghosts_survive_errors[OF demo_proposer_ok this b] show ?thesis
    unfolding b by (simp add: demo_so_state_def Let_def)
qed

text \<open>With \<open>SUFFIX_HYBRID_UNIFORM_K\<close> the fast path is not the stock path: a stock call answers
  width k for every request, where the fast path retracts the width to 0.\<close>

theorem uniform_fast_path_differs:
  assumes "propose_suffix_only pc ids idx tots rows p = (Inr (packed, ws), p')"
    and "distinct ids" and "p_uniform pc" and "i < length ids"
  shows "map_of (p_widths p') (ids ! i) = Some (pk pc) \<and> dict_or (p_widths (clear_widths p)) (ids ! i) 0 = 0"
proof -
  obtain x q q' where st: "row_step pc rows (ids ! i, idx ! i, tots ! i) q = (Inr x, q')"
    and w: "map_of (p_widths p') (ids ! i) = map_of (p_widths q') (ids ! i)"
    using propose_suffix_only_nth[OF assms(1,2,4)] by metis
  with row_step_answer[OF st] assms(3) show ?thesis by (simp add: rust.clear_table_or)
qed

lemma uniform_fast_path_differs_witness:
  "case propose_suffix_only (demo_pcfg\<lparr>p_uniform := True\<rparr>) [''a''] [0] [4] [[1, 2, 3, 4]] demo_proposer of
     (Inr _, p') \<Rightarrow> map_of (p_widths p') ''a'' = Some 3 | _ \<Rightarrow> False"
proof -
  let ?c = "propose_suffix_only (demo_pcfg\<lparr>p_uniform := True\<rparr>) [''a''] [0] [4] [[1, 2, 3, 4]] demo_proposer"
  have "case fst ?c of Inr _ \<Rightarrow> True | Inl _ \<Rightarrow> False" by code_simp
  then obtain packed ws p' where c: "?c = (Inr (packed, ws), p')" by (cases ?c) (auto split: sum.splits)
  from uniform_fast_path_differs[OF c, of 0] show ?thesis
    unfolding c by (simp add: demo_pcfg_def)
qed
text \<open>Re-feeding one ghost calls the proposer for it alone, which forgets every live request (its
  mirror is ingested as if it had finished).\<close>

theorem refeed_forgets_live:
  assumes "ghost_settle cfg (rust_api pc) inp r rec g_tot (st, p, popped) = (Inr (), st', p', popped')"
    and "ghosts_fed st' = Suc (ghosts_fed st)" and "s \<noteq> r"
  shows "map_of (p_mirror p') s = None"
proof -
  from assms(1,2) obtain rows ws where
    "propose_suffix_only pc [r] [led_idx rec] [g_tot] (cpu_rows cfg inp st) p = (Inr (rows, ws), p')"
    by (auto simp: ghost_settle_def rust_api_def Let_def split: if_splits prod.splits sum.splits)
  from propose_suffix_only_rows[OF this] obtain outs q where
    q: "row_steps pc (cpu_rows cfg inp st) (zip [r] (zip [led_idx rec] [g_tot])) (forget_gone (p_cc pc) [r] p) = (Inr outs, q)"
    and m: "p_mirror p' = p_mirror q" by metis
  have "map_of (p_mirror q) s = map_of (p_mirror (forget_gone (p_cc pc) [r] p)) s"
    using row_steps_frame[OF q, of s] assms(3) by simp
  with m assms(3) show ?thesis by (simp add: forget_gone_none)
qed

definition demo_ghost :: ledger where
  "demo_ghost = \<lparr>led_idx = 1, led_total = 5, led_dirty = True, led_head = [1, 1, 1, 1], led_tail = 1\<rparr>"

lemma refeed_forgets_live_witness:
  "case ghost_settle demo_so_cfg (rust_api demo_pcfg) (demo_so_in\<lparr>so_rows := [[1, 2, 3, 0, 0], [1, 1, 1, 1, 1]]\<rparr>)
      ''g'' demo_ghost 5 (demo_so_state, demo_proposer, []) of
     (_, _, p', _) \<Rightarrow> map_of (p_mirror p') ''a'' = None \<and> map_of (p_mirror demo_proposer) ''a'' = Some [1, 2, 3]"
proof -
  let ?g = "ghost_settle demo_so_cfg (rust_api demo_pcfg) (demo_so_in\<lparr>so_rows := [[1, 2, 3, 0, 0], [1, 1, 1, 1, 1]]\<rparr>)
      ''g'' demo_ghost 5 (demo_so_state, demo_proposer, [])"
  obtain a st' p' popped' where g: "?g = (a, st', p', popped')" by (cases ?g) auto
  have "fst ?g = Inr () \<and> ghosts_fed (fst (snd ?g)) = 1" by code_simp
  then have "a = Inr () \<and> ghosts_fed st' = 1" unfolding g by (simp only: fst_conv snd_conv)
  then have "a = Inr ()" "ghosts_fed st' = Suc (ghosts_fed demo_so_state)"
    by (simp_all add: demo_so_state_def)
  with refeed_forgets_live[OF g[unfolded \<open>a = Inr ()\<close>], of "''a''"] show ?thesis
    unfolding g by (simp add: demo_proposer_def)
qed

end
