(* ===== verification/AsyncSpec.thy ===== *)
theory AsyncSpec
  imports SuffixOnly
begin

text \<open>
  Drafting under asynchronous scheduling (\<open>suffix_hybrid/async_spec.py\<close>): the device resolve of a
  lag-1 candidate against the history, the class \<open>AsyncSuffixDrafter\<close> (\<open>propose\<close>, \<open>_absorb\<close>,
  \<open>_step\<close>, \<open>_lookup_and_resolve\<close>, \<open>_degrade\<close>, \<open>trim\<close>) and the decision of \<open>install\<close>. The two
  pinned buffers are \<open>as_snap\<close> and the copies into them take the values of the step that enqueues
  them. The native drafter's rows are an input. The Rust proposer is the operation record
  \<open>papi\<close>.
\<close>

section \<open>The device resolve\<close>

definition clamp :: "int \<Rightarrow> int \<Rightarrow> int \<Rightarrow> int" where
  "clamp x lo hi = min (max x lo) hi"

text \<open>One row of \<open>resolve\<close>: candidate, anchor, candidate length, current total and history.\<close>

definition row_aligned :: "nat \<Rightarrow> token list \<Rightarrow> int \<Rightarrow> int \<Rightarrow> token list \<Rightarrow> bool" where
  "row_aligned lc cand p tot row \<longleftrightarrow>
     list_all (\<lambda>i. row ! nat (clamp (p + int i) 0 (int (length row) - 1)) = cand ! i \<or> tot - p \<le> int i) [0..<lc]
     \<and> 1 \<le> tot - p"

definition real_at :: "nat \<Rightarrow> token list \<Rightarrow> int \<Rightarrow> int \<Rightarrow> int \<Rightarrow> token list \<Rightarrow> nat \<Rightarrow> bool" where
  "real_at lc cand p clen tot row j \<longleftrightarrow> row_aligned lc cand p tot row \<and> tot - p + int j < clen"

definition resolve_row :: "nat \<Rightarrow> nat \<Rightarrow> token list \<Rightarrow> int \<Rightarrow> int \<Rightarrow> int \<Rightarrow> token list \<Rightarrow> token list \<times> bool list" where
  "resolve_row lc k cand p clen tot row =
     (map (\<lambda>j. if real_at lc cand p clen tot row j
               then cand ! nat (clamp (tot - p + int j) 0 (int lc - 1)) else 0) [0..<k],
      map (real_at lc cand p clen tot row) [0..<k])"

section \<open>State\<close>

record async_cfg =
  as_k :: nat
  as_owner :: bool
  as_probabilistic :: bool
  as_hyb_min :: nat
  as_hybrid :: bool

definition as_lc :: "async_cfg \<Rightarrow> nat" where
  "as_lc c = 2 * as_k c + 1"

record async_st =
  as_snap :: "int list \<times> int list"
  as_real_total :: int
  as_pending :: "(nat \<times> rid list \<times> nat list) option"
  as_widths :: "(rid, nat) dict"
  as_step :: nat
  st_steps :: nat
  st_rows :: nat
  st_cand_rows :: nat
  st_sched :: nat
  st_real :: int
  st_trimmed :: nat
  st_degraded :: nat

record async_in =
  ai_ids :: "rid list"
  ai_idx :: "nat list"
  ai_totals :: "int list"
  ai_rows :: "token list list"
  ai_temperature :: "rat list"
  ai_native :: "token list list"
  ai_dummy :: bool

definition slot_get :: "nat \<Rightarrow> 'a \<times> 'a \<Rightarrow> 'a" where
  "slot_get s b = (if s = 0 then fst b else snd b)"

definition slot_set :: "nat \<Rightarrow> 'a \<Rightarrow> 'a \<times> 'a \<Rightarrow> 'a \<times> 'a" where
  "slot_set s x b = (if s = 0 then (x, snd b) else (fst b, x))"

definition async_new :: "nat \<Rightarrow> async_st" where
  "async_new rows = \<lparr>as_snap = (replicate (Suc rows) 0, replicate (Suc rows) 0), as_real_total = 0,
     as_pending = None, as_widths = [], as_step = 0, st_steps = 0, st_rows = 0, st_cand_rows = 0,
     st_sched = 0, st_real = 0, st_trimmed = 0, st_degraded = 0\<rparr>"

section \<open>One step\<close>

text \<open>\<open>_absorb\<close>: the rows of this batch that the previous snapshot holds at the same index, with
  their totals there.\<close>

definition absorb_snap :: "async_in \<Rightarrow> async_st \<Rightarrow> (nat \<times> int) list \<times> async_st" where
  "absorb_snap inp st = (case as_pending st of
      None \<Rightarrow> ([], st)
    | Some (s, pids, pidx) \<Rightarrow>
        let snap = slot_get s (as_snap st);
            pos = dict_updates [] (zip pids [0..<length pids]);
            pick = (\<lambda>i. case map_of pos (ai_ids inp ! i) of
                      None \<Rightarrow> None
                    | Some j \<Rightarrow> if pidx ! j = ai_idx inp ! i \<and> 0 < snap ! j then Some (i, snap ! j) else None)
        in (List.map_filter pick [0..<length (ai_ids inp)],
            st\<lparr>as_pending := None, st_real := (if snap = [] then 0 else last snap)\<rparr>))"

text \<open>The snapshot of this step's totals into its slot, behind the lag counter in the last cell.\<close>

definition take_snap :: "nat \<Rightarrow> async_in \<Rightarrow> async_st \<Rightarrow> async_st res" where
  "take_snap s inp st =
     (if \<not> list_all (\<lambda>j. j < length (ai_totals inp) \<and> j < length (ai_rows inp)) (ai_idx inp) then Inl IndexError
      else let snap = slot_get s (as_snap st); tots = map (\<lambda>j. ai_totals inp ! j) (ai_idx inp)
           in if length snap \<le> length tots then Inl RuntimeError
              else Inr (st\<lparr>as_snap := slot_set s ((write_at snap 0 tots)[length snap - 1 := as_real_total st]) (as_snap st),
                          as_pending := Some (s, ai_ids inp, ai_idx inp)\<rparr>))"

text \<open>The candidate of batch position \<open>i\<close>, its anchor and length; zeros where nothing was absorbed.\<close>

definition pack_of :: "nat \<Rightarrow> (nat \<times> int) list \<Rightarrow> token list list \<Rightarrow> nat list \<Rightarrow> nat \<Rightarrow> token list \<times> int \<times> int" where
  "pack_of lc sel packed clen i =
     (case map_of (zip (map fst sel) (zip (map snd sel) (zip packed clen))) i of
        None \<Rightarrow> (replicate lc 0, 0, 0)
      | Some (p, cand, n) \<Rightarrow> (cand, p, int n))"

definition host_width :: "nat \<Rightarrow> nat \<Rightarrow> nat" where
  "host_width k n = min (n - 1) k"

definition async_publish :: "async_cfg \<Rightarrow> async_in \<Rightarrow> (token list \<times> bool list) list \<Rightarrow> token list list res" where
  "async_publish c inp res =
     (if \<not> as_hybrid c then Inr (map fst res)
      else if as_probabilistic c \<and> \<not> list_all (\<lambda>j. j < length (ai_temperature inp)) (ai_idx inp) then Inl IndexError
      else Inr (map (\<lambda>i. let (drafts, real) = res ! i;
                             use = (as_hyb_min c \<le> length (filter id real)
                                    \<and> (as_probabilistic c \<longrightarrow> ai_temperature inp ! (ai_idx inp ! i) = 0))
                         in if use then drafts else ai_native inp ! i) [0..<length res]))"

definition lookup_resolve :: "async_cfg \<Rightarrow> 'p papi \<Rightarrow> nat \<Rightarrow> async_in \<Rightarrow> (nat \<times> int) list \<Rightarrow>
    async_st \<times> 'p \<Rightarrow> token list list res \<times> async_st \<times> 'p" where
  "lookup_resolve c api s inp sel = (\<lambda>(st, p).
     case take_snap s inp st of
       Inl e \<Rightarrow> (Inl e, st, p)
     | Inr st1 \<Rightarrow>
         let sel_ids = map (\<lambda>(i, _). ai_ids inp ! i) sel; sel_idx = map (\<lambda>(i, _). ai_idx inp ! i) sel
         in (case api_call api sel_ids sel_idx (map snd sel) (ai_rows inp) p of
               (Inl e, p') \<Rightarrow> (Inl e, st1, p')
             | (Inr (packed, clen), p') \<Rightarrow>
                 let w = map (host_width (as_k c)) clen;
                     res = map (\<lambda>i. let (cand, pa, n) = pack_of (as_lc c) sel packed clen i; j = ai_idx inp ! i
                                    in resolve_row (as_lc c) (as_k c) cand pa n (ai_totals inp ! j) (ai_rows inp ! j))
                             [0..<length (ai_ids inp)];
                     st2 = st1\<lparr>as_widths := dict_updates [] (filter (\<lambda>(_, x). 0 < x) (zip sel_ids w)),
                               as_real_total := as_real_total st1 + int (sum_list (map (\<lambda>(_, real). length (filter id real)) res)),
                               st_steps := Suc (st_steps st1), st_rows := st_rows st1 + length (ai_ids inp),
                               st_sched := st_sched st1 + sum_list w\<rparr>;
                     st3 = st2\<lparr>st_cand_rows := st_cand_rows st2 + length (as_widths st2)\<rparr>
                 in (async_publish c inp res, st3, p')))"

definition async_step :: "async_cfg \<Rightarrow> 'p papi \<Rightarrow> async_in \<Rightarrow> async_st \<times> 'p \<Rightarrow> token list list res \<times> async_st \<times> 'p" where
  "async_step c api inp = (\<lambda>(st, p).
     let s = as_step st mod 2; (sel, st1) = absorb_snap inp (st\<lparr>as_step := Suc (as_step st)\<rparr>)
     in lookup_resolve c api s inp sel (st1, p))"

definition async_degrade :: "async_st \<Rightarrow> async_st" where
  "async_degrade st = st\<lparr>as_widths := [], as_pending := None, st_degraded := Suc (st_degraded st)\<rparr>"

text \<open>\<open>propose\<close>: what the rank hands to the broadcast (or returns, without a group).\<close>

definition async_fallback :: "async_cfg \<Rightarrow> async_in \<Rightarrow> token list list" where
  "async_fallback c inp = (if as_hybrid c then ai_native inp
     else replicate (length (ai_ids inp)) (replicate (as_k c) 0))"

definition async_propose :: "async_cfg \<Rightarrow> 'p papi \<Rightarrow> async_in \<Rightarrow> async_st \<times> 'p \<Rightarrow> token list list \<times> async_st \<times> 'p" where
  "async_propose c api inp s =
     (if ai_dummy inp then (async_fallback c inp, s)
      else if \<not> as_owner c then (ai_native inp, s)
      else case async_step c api inp s of
             (Inr out, s') \<Rightarrow> (out, s')
           | (Inl _, st, p) \<Rightarrow> (async_fallback c inp, async_degrade st, p))"

section \<open>Trimming the next scheduler output\<close>

record sched_out =
  so_spec :: "(rid, token list) dict"
  so_num :: "(rid, int) dict"
  so_total :: int
  so_structured :: bool

text \<open>The loop over the spec rows: the new rows, the new counts and what was cut.\<close>

fun trim_rows :: "(rid, nat) dict \<Rightarrow> (rid \<times> token list) list \<Rightarrow>
    (rid, token list) dict \<times> (rid, int) dict \<times> nat \<Rightarrow> ((rid, token list) dict \<times> (rid, int) dict \<times> nat) res" where
  "trim_rows ws [] acc = Inr acc"
| "trim_rows ws ((r, toks) # rest) (spec, num, ncut) =
     (let w = min (dict_or ws r 0) (length toks); spec' = (if w = 0 then spec else AList.update r (take w toks) spec)
      in if w < length toks
         then (case map_of num r of
                 None \<Rightarrow> Inl KeyError
               | Some n \<Rightarrow> trim_rows ws rest (spec', AList.update r (n - int (length toks - w)) num,
                             ncut + (length toks - w)))
         else trim_rows ws rest (spec', num, ncut))"

definition trim :: "async_st \<Rightarrow> sched_out \<Rightarrow> (sched_out \<times> async_st) res" where
  "trim st out =
     (if so_spec out = [] \<or> so_structured out then Inr (out, st)
      else rbind (trim_rows (as_widths st) (so_spec out) ([], so_num out, 0)) (\<lambda>(spec, num, ncut).
             if ncut = 0 then Inr (out, st)
             else Inr (out\<lparr>so_spec := spec, so_num := num, so_total := so_total out - int ncut\<rparr>,
                       st\<lparr>st_trimmed := st_trimmed st + ncut\<rparr>)))"

section \<open>Installing\<close>

definition async_install :: "environ \<Rightarrow> nat \<Rightarrow> int \<Rightarrow> int \<Rightarrow> bool \<Rightarrow> nat \<Rightarrow> (async_cfg \<times> bool) option res" where
  "async_install e k pp tp probabilistic rank_in_group =
     (let suffix_only = env_is e ''SUFFIX_HYBRID_SUFFIX_ONLY'' ''1''
      in if suffix_only \<and> probabilistic then Inr None
         else if \<not> (1 \<le> 2 * k + 1 \<and> 2 * k + 1 \<le> 64) then Inr None
         else if pp \<noteq> 1 then Inr None
         else case env_int e ''SUFFIX_HYBRID_ASYNC_HYB_MIN'' ''0'' of
                None \<Rightarrow> Inl ValueError
              | Some hm \<Rightarrow>
                  let replay = (suffix_only \<or> tp = 1 \<or> py_strip (env_get e ''SUFFIX_HYBRID_TP_MODE'' ''broadcast'') = ''replay'');
                      hyb = (if hm = 0 then k else nat (max 1 (min (int k) hm)));
                      do_trim = (suffix_only \<and> py_strip (env_get e ''SUFFIX_HYBRID_ASYNC_TRIM'' ''1'') \<noteq> ''0'')
                  in Inr (Some (\<lparr>as_k = k, as_owner = (replay \<or> rank_in_group = 0), as_probabilistic = probabilistic,
                                 as_hyb_min = hyb, as_hybrid = (\<not> suffix_only)\<rparr>, do_trim)))"

section \<open>The resolve, row by row\<close>

lemma clamp_id: "lo \<le> x \<Longrightarrow> x \<le> hi \<Longrightarrow> clamp x lo hi = x"
  by (simp add: clamp_def)

text \<open>Where the history has grown past the anchor, the row is aligned exactly when the history after
  the anchor starts like the candidate.\<close>

lemma row_aligned_iff:
  assumes "0 \<le> p" and "tot \<le> int (length row)" and "length cand = lc"
  shows "row_aligned lc cand p tot row \<longleftrightarrow>
    1 \<le> tot - p \<and> take (min (nat (tot - p)) lc) (drop (nat p) row) = take (min (nat (tot - p)) lc) cand"
proof (cases "1 \<le> tot - p")
  case False
  then show ?thesis by (simp add: row_aligned_def)
next
  case True
  define m where "m = min (nat (tot - p)) lc"
  have pos: "nat (clamp (p + int i) 0 (int (length row) - 1)) = nat p + i" if "i < m" for i
  proof -
    have "int i < tot - p" using that by (simp add: m_def zless_nat_eq_int_zless)
    then have "p + int i \<le> int (length row) - 1" using assms(2) by linarith
    then have "clamp (p + int i) 0 (int (length row) - 1) = p + int i" using assms(1) by (simp add: clamp_id)
    then show ?thesis using assms(1) by (simp add: nat_add_distrib)
  qed
  have len: "m \<le> length (drop (nat p) row)" using assms(1,2) True by (simp add: m_def)
  have "row_aligned lc cand p tot row \<longleftrightarrow> (\<forall>i < m. row ! (nat p + i) = cand ! i)"
  proof
    assume a: "row_aligned lc cand p tot row"
    show "\<forall>i < m. row ! (nat p + i) = cand ! i"
    proof (intro allI impI)
      fix i assume i: "i < m"
      then have "\<not> tot - p \<le> int i" "i < lc" by (auto simp: m_def)
      with a have "row ! nat (clamp (p + int i) 0 (int (length row) - 1)) = cand ! i"
        by (auto simp: row_aligned_def list_all_iff)
      then show "row ! (nat p + i) = cand ! i" unfolding pos[OF i] .
    qed
  next
    assume h: "\<forall>i < m. row ! (nat p + i) = cand ! i"
    have "row ! nat (clamp (p + int i) 0 (int (length row) - 1)) = cand ! i \<or> tot - p \<le> int i" if "i < lc" for i
      using h pos[of i] that by (cases "i < m") (auto simp: m_def)
    then show "row_aligned lc cand p tot row" using True by (simp add: row_aligned_def list_all_iff)
  qed
  also have "\<dots> \<longleftrightarrow> take m (drop (nat p) row) = take m cand"
  proof -
    have "m \<le> length cand" using assms(3) by (simp add: m_def)
    then show ?thesis using len by (auto simp: list_eq_iff_nth_eq)
  qed
  finally show ?thesis using True by (simp add: m_def)
qed

lemma resolve_row_rows:
  assumes "0 \<le> p" and "tot \<le> int (length row)" and "length cand = lc" and "clen \<le> lc"
    and al: "row_aligned lc cand p tot row"
  shows "resolve_row lc k cand p (int clen) tot row =
     (let d = take k (drop (nat (tot - p)) (take clen cand))
      in (d @ replicate (k - length d) 0, map (\<lambda>j. j < length d) [0..<k]))"
proof -
  define q where "q = nat (tot - p)"
  have q: "tot - p = int q" "1 \<le> q" using al by (auto simp: q_def row_aligned_def)
  define d where "d = take k (drop q (take clen cand))"
  have ld: "length d = min k (clen - q)" using assms(3,4) by (simp add: d_def)
  have real: "real_at lc cand p (int clen) tot row j \<longleftrightarrow> j < clen - q" for j
    using al by (simp add: real_at_def q) linarith
  have val: "cand ! nat (clamp (tot - p + int j) 0 (int lc - 1)) = d ! j" if "j < k" "j < clen - q" for j
  proof -
    have "clamp (tot - p + int j) 0 (int lc - 1) = int (q + j)"
      using that assms(4) by (simp add: q clamp_def)
    then have "nat (clamp (tot - p + int j) 0 (int lc - 1)) = q + j" by (simp only: nat_int)
    then show ?thesis using that assms(3,4) by (simp add: d_def)
  qed
  have "map (\<lambda>j. if real_at lc cand p (int clen) tot row j
        then cand ! nat (clamp (tot - p + int j) 0 (int lc - 1)) else 0) [0..<k] = d @ replicate (k - length d) 0"
    by (rule nth_equalityI) (auto simp: real val ld nth_append)
  moreover have "map (real_at lc cand p (int clen) tot row) [0..<k] = map (\<lambda>j. j < length d) [0..<k]"
    by (auto simp: real ld)
  ultimately show ?thesis by (simp add: resolve_row_def d_def[symmetric] q_def[symmetric] Let_def)
qed

lemma resolve_row_unaligned:
  "\<not> row_aligned lc cand p tot row \<Longrightarrow>
   resolve_row lc k cand p clen tot row = (replicate k 0, replicate k False)"
proof -
  assume "\<not> row_aligned lc cand p tot row"
  then have "real_at lc cand p clen tot row = (\<lambda>_. False)" by (auto simp: real_at_def)
  then show ?thesis by (simp add: resolve_row_def map_replicate_const)
qed

text \<open>A real draft lies within the width the host computed for the row.\<close>

lemma real_within_width:
  "real_at lc cand p (int clen) tot row j \<Longrightarrow> j < k \<Longrightarrow> j < host_width k clen"
  by (auto simp: real_at_def row_aligned_def host_width_def)

section \<open>Trimming\<close>

text \<open>What the loop makes of one request: its spec row and its token count.\<close>

definition trim_at :: "(rid, nat) dict \<Rightarrow> rid \<Rightarrow> token list option \<Rightarrow> token list option \<times> int option \<Rightarrow>
    token list option \<times> int option" where
  "trim_at ws r x old = (case x of
      None \<Rightarrow> old
    | Some toks \<Rightarrow> let w = min (dict_or ws r 0) (length toks)
        in (if w = 0 then None else Some (take w toks), map_option (\<lambda>n. n - int (length toks - w)) (snd old)))"

definition cut_of :: "(rid, nat) dict \<Rightarrow> rid \<times> token list \<Rightarrow> nat" where
  "cut_of ws = (\<lambda>(r, toks). length toks - min (dict_or ws r 0) (length toks))"

lemma trim_rows_step:
  assumes "trim_rows ws ((r, toks) # xs) (spec, num, c) = Inr out" and "map_of spec r = None"
  obtains spec1 num1 where "trim_rows ws xs (spec1, num1, c + cut_of ws (r, toks)) = Inr out"
    "(map_of spec1 r, map_of num1 r) = trim_at ws r (Some toks) (map_of spec r, map_of num r)"
    "\<And>r'. r' \<noteq> r \<Longrightarrow> map_of spec1 r' = map_of spec r' \<and> map_of num1 r' = map_of num r'"
proof -
  define w where "w = min (dict_or ws r 0) (length toks)"
  define spec1 where "spec1 = (if w = 0 then spec else AList.update r (take w toks) spec)"
  have s1: "map_of spec1 r = (if w = 0 then None else Some (take w toks))"
    "\<And>r'. r' \<noteq> r \<Longrightarrow> map_of spec1 r' = map_of spec r'"
    using assms(2) by (auto simp: spec1_def dict_simps)
  have cut: "cut_of ws (r, toks) = length toks - w" by (simp add: cut_of_def w_def)
  show thesis
  proof (cases "w < length toks")
    case True
    with assms(1) obtain n where n: "map_of num r = Some n"
      and "trim_rows ws xs (spec1, AList.update r (n - int (length toks - w)) num, c + (length toks - w)) = Inr out"
      by (auto simp: Let_def w_def[symmetric] spec1_def[symmetric] split: option.splits)
    with s1 n cut show thesis
      by (intro that[of spec1 "AList.update r (n - int (length toks - w)) num"])
        (simp_all add: dict_simps trim_at_def Let_def w_def[symmetric])
  next
    case False
    with assms(1) have "trim_rows ws xs (spec1, num, c) = Inr out"
      by (simp add: Let_def w_def[symmetric] spec1_def[symmetric])
    with False s1 cut show thesis
      by (intro that[of spec1 num]) (simp_all add: trim_at_def Let_def w_def[symmetric] option.map_ident)
  qed
qed

lemma trim_rows_sound:
  "trim_rows ws xs (spec, num, c) = Inr (spec', num', c') \<Longrightarrow> distinct (map fst xs) \<Longrightarrow>
   (\<And>r. r \<in> set (map fst xs) \<Longrightarrow> map_of spec r = None) \<Longrightarrow>
   c' = c + sum_list (map (cut_of ws) xs) \<and>
   (\<forall>r. (map_of spec' r, map_of num' r) = trim_at ws r (map_of xs r) (map_of spec r, map_of num r))"
proof (induction xs arbitrary: spec num c)
  case Nil
  then show ?case by (simp add: trim_at_def)
next
  case (Cons x xs)
  obtain r toks where x: "x = (r, toks)" by (cases x)
  have new: "r \<notin> set (map fst xs)" "distinct (map fst xs)" using Cons.prems(2) x by simp_all
  have m: "map_of xs r = None" using new by (simp add: map_of_eq_None_iff)
  have "map_of spec r = None" using Cons.prems(3)[of r] x by simp
  from trim_rows_step[OF Cons.prems(1)[unfolded x] this] obtain spec1 num1 where
    rest: "trim_rows ws xs (spec1, num1, c + cut_of ws (r, toks)) = Inr (spec', num', c')"
    and here: "(map_of spec1 r, map_of num1 r) = trim_at ws r (Some toks) (map_of spec r, map_of num r)"
    and other: "\<And>r'. r' \<noteq> r \<Longrightarrow> map_of spec1 r' = map_of spec r' \<and> map_of num1 r' = map_of num r'" by metis
  have f: "map_of spec1 r' = None" if "r' \<in> set (map fst xs)" for r'
    using other[of r'] Cons.prems(3)[of r'] that new x by auto
  note ih = Cons.IH[OF rest new(2) f]
  have "(map_of spec' r', map_of num' r') = trim_at ws r' (map_of (x # xs) r') (map_of spec r', map_of num r')" for r'
  proof (cases "r' = r")
    case True
    with ih m here x show ?thesis by (simp add: trim_at_def)
  next
    case False
    with ih other[OF False] x show ?thesis by simp
  qed
  with ih x show ?case by simp
qed

section \<open>The lag-1 snapshot\<close>

text \<open>Runs of a drafter; the first argument is the input of the last real step.\<close>

inductive async_reach :: "async_cfg \<Rightarrow> 'p papi \<Rightarrow> async_in option \<Rightarrow> async_st \<Rightarrow> 'p \<Rightarrow> bool"
  for c :: async_cfg and api :: "'p papi" where
  new: "async_reach c api None (async_new rows) p"
| step: "async_reach c api prev st p \<Longrightarrow> length (ai_idx inp) = length (ai_ids inp) \<Longrightarrow>
    async_propose c api inp (st, p) = (out, st', p') \<Longrightarrow>
    async_reach c api (if ai_dummy inp then prev else Some inp) st' p'"

definition snap_of :: "async_in option \<Rightarrow> async_st \<Rightarrow> bool" where
  "snap_of prev st \<longleftrightarrow> (case as_pending st of
      None \<Rightarrow> True
    | Some (s, ids, idx) \<Rightarrow> s < 2 \<and> s \<noteq> as_step st mod 2 \<and>
        (case prev of None \<Rightarrow> False | Some inp \<Rightarrow> ids = ai_ids inp \<and> idx = ai_idx inp \<and> length idx = length ids \<and>
           (\<forall>j < length idx. slot_get s (as_snap st) ! j = ai_totals inp ! (idx ! j))))"

lemma take_snap_of:
  assumes "take_snap s inp st = Inr st1" and "length (ai_idx inp) = length (ai_ids inp)"
    and "s < 2" and "s \<noteq> as_step st mod 2"
  shows "snap_of (Some inp) st1 \<and> as_step st1 = as_step st"
proof -
  let ?snap = "slot_get s (as_snap st)" and ?tots = "map (\<lambda>j. ai_totals inp ! j) (ai_idx inp)"
  from assms(1) have len: "length ?tots < length ?snap"
    and st1: "st1 = st\<lparr>as_snap := slot_set s ((write_at ?snap 0 ?tots)[length ?snap - 1 := as_real_total st]) (as_snap st),
                          as_pending := Some (s, ai_ids inp, ai_idx inp)\<rparr>"
    by (auto simp: take_snap_def Let_def split: if_splits)
  have "slot_get s (slot_set s x b) = x" for x and b :: "int list \<times> int list"
    by (simp add: slot_get_def slot_set_def)
  moreover have "(write_at ?snap 0 ?tots)[length ?snap - 1 := as_real_total st] ! j = ai_totals inp ! (ai_idx inp ! j)"
    if "j < length (ai_idx inp)" for j
  proof -
    have "j \<noteq> length ?snap - 1" "j < length ?snap" using that len by auto
    moreover have "write_at ?snap 0 ?tots ! j = ?tots ! j"
      using nth_write_at[of 0 ?tots ?snap j] that len by simp
    ultimately show ?thesis using that by simp
  qed
  ultimately show ?thesis using assms(2-4) st1 by (simp add: snap_of_def)
qed

lemma lookup_resolve_pending:
  assumes "lookup_resolve c api s inp sel (st, p) = (Inr out, st', p')"
  obtains st1 where "take_snap s inp st = Inr st1" "as_pending st' = as_pending st1" "as_snap st' = as_snap st1"
    "as_step st' = as_step st1"
  using assms by (auto simp: lookup_resolve_def Let_def split: sum.splits prod.splits)

lemma snap_of_cong:
  "as_pending st' = as_pending st \<Longrightarrow> as_snap st' = as_snap st \<Longrightarrow> as_step st' = as_step st \<Longrightarrow>
   snap_of prev st' = snap_of prev st"
  by (simp add: snap_of_def split: option.split)

lemma absorb_snap_fields:
  "as_step (snd (absorb_snap inp st)) = as_step st" "as_snap (snd (absorb_snap inp st)) = as_snap st"
  by (auto simp: absorb_snap_def Let_def split: option.split)

lemma async_reach_snap: "async_reach c api prev st p \<Longrightarrow> snap_of prev st \<and> (as_owner c \<or> as_pending st = None)"
proof (induction rule: async_reach.induct)
  case (new rows p)
  then show ?case by (simp add: snap_of_def async_new_def)
next
  case (step prev st p inp out st' p')
  show ?case
  proof (cases "ai_dummy inp \<or> \<not> as_owner c")
    case True
    with step show ?thesis by (auto simp: async_propose_def snap_of_def split: option.splits if_splits)
  next
    case False
    obtain r st2 p2 where a: "async_step c api inp (st, p) = (r, st2, p2)" by (metis surj_pair)
    show ?thesis
    proof (cases r)
      case (Inl e)
      with False step.hyps(3) a show ?thesis
        by (auto simp: async_propose_def async_degrade_def snap_of_def)
    next
      case (Inr o')
      obtain sel st1 where ab: "absorb_snap inp (st\<lparr>as_step := Suc (as_step st)\<rparr>) = (sel, st1)" by fastforce
      with a Inr have "lookup_resolve c api (as_step st mod 2) inp sel (st1, p) = (Inr o', st2, p2)"
        by (simp add: async_step_def Let_def)
      then obtain st3 where t: "take_snap (as_step st mod 2) inp st1 = Inr st3" "as_pending st2 = as_pending st3"
        "as_snap st2 = as_snap st3" "as_step st2 = as_step st3" by (rule lookup_resolve_pending)
      have "as_step st1 = Suc (as_step st)" using absorb_snap_fields(1)[of inp "st\<lparr>as_step := Suc (as_step st)\<rparr>"] ab by simp
      then have "as_step st mod 2 \<noteq> as_step st1 mod 2" by presburger
      with take_snap_of[OF t(1) step.hyps(2)] snap_of_cong[OF t(2-4)] have "snap_of (Some inp) st2" by simp
      with False step.hyps(3) a Inr show ?thesis by (auto simp: async_propose_def)
    qed
  qed
qed

lemma absorb_snap_sound:
  assumes "snap_of prev st" and "(i, t) \<in> set (fst (absorb_snap inp st))"
  shows "\<exists>inp0 j. prev = Some inp0 \<and> j < length (ai_ids inp0) \<and> ai_ids inp0 ! j = ai_ids inp ! i \<and>
     ai_idx inp0 ! j = ai_idx inp ! i \<and> t = ai_totals inp0 ! (ai_idx inp ! i) \<and> 0 < t \<and> i < length (ai_ids inp)"
proof -
  from assms(2) obtain s pids pidx where p: "as_pending st = Some (s, pids, pidx)"
    by (auto simp: absorb_snap_def split: option.splits)
  define snap where "snap = slot_get s (as_snap st)"
  from assms(2) p obtain j where j: "map_of (dict_updates [] (zip pids [0..<length pids])) (ai_ids inp ! i) = Some j"
    and t: "pidx ! j = ai_idx inp ! i" "t = snap ! j" "0 < t" "i < length (ai_ids inp)"
    by (auto simp: absorb_snap_def Let_def map_filter_def snap_def split: option.splits if_splits)
  from map_of_updates_mem[OF j] have "j < length pids" "pids ! j = ai_ids inp ! i"
    by (auto simp: set_zip)
  with assms(1) p t show ?thesis by (auto simp: snap_of_def snap_def split: option.splits)
qed

section \<open>Properties\<close>

text \<open>C21: the device resolve is exact. If the row has grown past the anchor and what it grew by agrees
  with the candidate, the drafts are the next candidate tokens after it, up to k, filler 0 after
  them, and precisely those positions are flagged real; otherwise every position is filler.\<close>

theorem resolve_exact:
  assumes "0 \<le> p" and "tot \<le> int (length row)" and "length cand = lc" and "clen \<le> lc"
  shows "resolve_row lc k cand p (int clen) tot row =
     (if 1 \<le> tot - p \<and> take (min (nat (tot - p)) lc) (drop (nat p) row) = take (min (nat (tot - p)) lc) cand
      then let d = take k (drop (nat (tot - p)) (take clen cand))
           in (d @ replicate (k - length d) 0, map (\<lambda>j. j < length d) [0..<k])
      else (replicate k 0, replicate k False))"
  using resolve_row_rows[OF assms] resolve_row_unaligned[of lc cand p tot row] row_aligned_iff[OF assms(1-3)]
  by (auto split: if_split)

lemma resolve_exact_witness:
  "resolve_row 5 2 [4, 5, 6, 7, 0] 2 4 4 [1, 2, 4, 5, 0, 0] = ([6, 7], [True, True])"
  using resolve_exact[of 2 4 "[1, 2, 4, 5, 0, 0]" "[4, 5, 6, 7, 0]" 5 4 2]
  by (simp add: upt_rec)

text \<open>Trimming to the host widths never cuts a real draft: whatever the device resolves, every
  position it flags real lies below the width the host computed from the candidate's length.\<close>

theorem trim_keeps_real_drafts:
  assumes "snd (resolve_row lc k cand p (int clen) tot row) ! j" and "j < k"
  shows "j < host_width k clen"
  using assms real_within_width[of lc cand p clen tot row j k] by (simp add: resolve_row_def)

lemma trim_keeps_real_drafts_witness: "(1 :: nat) < host_width 2 4"
  using trim_keeps_real_drafts[of 5 2 "[4, 5, 6, 7, 0]" 2 4 4 "[1, 2, 4, 5, 0, 0]" 1]
    resolve_exact_witness by simp

text \<open>A trimmed scheduler output keeps every request's non-draft tokens: per request, the
  scheduled count falls by exactly the draft tokens removed, the kept drafts are the first ones up
  to the host width, the total falls by what was removed, and requests without drafts stay.\<close>

theorem trim_conserves_tokens:
  assumes "trim st out = Inr (out', st')" and "distinct (map fst (so_spec out))"
    and "out' \<noteq> out"
  shows "so_total out' = so_total out - int (sum_list (map (cut_of (as_widths st)) (so_spec out))) \<and>
     (map_of (so_spec out') r, map_of (so_num out') r) =
       trim_at (as_widths st) r (map_of (so_spec out) r) (None, map_of (so_num out) r)"
proof -
  from assms(1,3) obtain spec num nc where
    t: "trim_rows (as_widths st) (so_spec out) ([], so_num out, 0) = Inr (spec, num, nc)"
    and o: "out' = out\<lparr>so_spec := spec, so_num := num, so_total := so_total out - int nc\<rparr>"
    by (auto simp: trim_def rbind_eq_Inr split: if_splits)
  from trim_rows_sound[OF t assms(2)] o show ?thesis by simp
qed

lemma trim_conserves_tokens_witness:
  "case trim ((async_new 2)\<lparr>as_widths := [(''a'', 1)]\<rparr>)
      \<lparr>so_spec = [(''a'', [7, 8]), (''b'', [9])], so_num = [(''a'', 3), (''b'', 2)], so_total = 5, so_structured = False\<rparr> of
     Inr (out', _) \<Rightarrow> so_total out' = 3 \<and> map_of (so_num out') ''a'' = Some 2 | _ \<Rightarrow> False"
proof -
  let ?st = "(async_new 2)\<lparr>as_widths := [(''a'', 1)]\<rparr>"
  let ?o = "\<lparr>so_spec = [(''a'', [7, 8]), (''b'', [9])], so_num = [(''a'', 3), (''b'', 2)], so_total = 5,
     so_structured = False\<rparr>"
  have "case trim ?st ?o of Inr (o', _) \<Rightarrow> so_total o' \<noteq> 5 | Inl _ \<Rightarrow> False" by code_simp
  then obtain o' st' where t: "trim ?st ?o = Inr (o', st')" and "so_total o' \<noteq> 5"
    by (cases "trim ?st ?o") auto
  then have "o' \<noteq> ?o" by auto
  with trim_conserves_tokens[OF t, of "''a''"] show ?thesis
    unfolding t by (simp add: cut_of_def trim_at_def dict_or_def async_new_def)
qed

text \<open>C22: in every run, what a step looks up is one step old and never mixed up: the candidate anchor
  of a row is the total the device held at the previous real step for the same request in the same
  row, read from the buffer that this step does not write.\<close>

theorem lookup_is_one_step_old:
  assumes "async_reach c api prev st p" and "(i, t) \<in> set (fst (absorb_snap inp st))"
  shows "(\<exists>inp0 j. prev = Some inp0 \<and> j < length (ai_ids inp0) \<and> ai_ids inp0 ! j = ai_ids inp ! i \<and>
       ai_idx inp0 ! j = ai_idx inp ! i \<and> t = ai_totals inp0 ! (ai_idx inp ! i) \<and> 0 < t) \<and>
     (case as_pending st of Some (s, _) \<Rightarrow> s \<noteq> as_step st mod 2 | None \<Rightarrow> True)"
  using absorb_snap_sound[OF async_reach_snap[OF assms(1), THEN conjunct1] assms(2)]
    async_reach_snap[OF assms(1)] by (auto simp: snap_of_def split: option.splits)

definition demo_async_cfg :: async_cfg where
  "demo_async_cfg = \<lparr>as_k = 2, as_owner = True, as_probabilistic = False, as_hyb_min = 2, as_hybrid = False\<rparr>"

definition demo_async_in :: async_in where
  "demo_async_in = \<lparr>ai_ids = [''a''], ai_idx = [0], ai_totals = [3], ai_rows = [[1, 2, 3, 4]],
     ai_temperature = [0], ai_native = [], ai_dummy = False\<rparr>"

definition demo_async_api :: "unit papi" where
  "demo_async_api = \<lparr>api_call = \<lambda>ids idx tots rows p. (Inr (map (\<lambda>_. [4, 5, 6, 7, 8]) ids, map (\<lambda>_. 5) ids), p),
     api_table = \<lambda>p. [], api_clear = id, api_empty = \<lambda>p. True\<rparr>"

lemma lookup_is_one_step_old_witness:
  "let (out, st, p) = async_propose demo_async_cfg demo_async_api demo_async_in (async_new 2, ())
   in fst (absorb_snap demo_async_in st) = [(0, 3)] \<and> ai_totals demo_async_in ! 0 = 3"
proof -
  obtain out st p where s: "async_propose demo_async_cfg demo_async_api demo_async_in (async_new 2, ()) = (out, st, p)"
    by (metis surj_pair)
  have "async_reach demo_async_cfg demo_async_api (Some demo_async_in) st p"
    using async_reach.step[OF async_reach.new _ s] by (simp add: demo_async_in_def)
  moreover have "fst (absorb_snap demo_async_in (fst (snd
      (async_propose demo_async_cfg demo_async_api demo_async_in (async_new 2, ()))))) = [(0, 3)]"
    by code_simp
  then have "fst (absorb_snap demo_async_in st) = [(0, 3)]" by (simp add: s)
  ultimately show ?thesis
    using lookup_is_one_step_old[of demo_async_cfg demo_async_api "Some demo_async_in" st p 0 3 demo_async_in]
    unfolding s by (auto simp: demo_async_in_def)
qed

end
