(* ===== verification/BandText.thy ===== *)
theory BandText
  imports Prelude "HOL-Library.Log_Nat" "HOL-Library.Char_ord" "HOL-Library.List_Lexorder" "HOL-Library.Product_Lexorder"
begin

text \<open>
  The text side of the size-routed all-reduce (\<open>suffix_hybrid/nccl_split.py\<close>): sizes
  (\<open>parse_size\<close>, \<open>fmt_size\<close>), communicator specs (\<open>spec_env\<close>) and byte bands (\<open>parse_bands\<close>,
  \<open>bands_str\<close>). Strings are ASCII. \<open>float(s)\<close> is a rational rounded to 53 bits; its exponent range is
  bounded above only, as too small a number is 0 after \<open>int\<close> anyway. Python's tuple order on
  bands is the lexicographic order of the library.
\<close>

section \<open>String operations\<close>

definition upper_char :: "char \<Rightarrow> char" where
  "upper_char c = (let n = of_char c :: nat in if 97 \<le> n \<and> n \<le> 122 then char_of (n - 32) else c)"

definition py_upper :: "string \<Rightarrow> string" where
  "py_upper s = map upper_char s"

definition remove_last :: "char \<Rightarrow> string \<Rightarrow> string" where
  "remove_last c s = (if s \<noteq> [] \<and> last s = c then butlast s else s)"

text \<open>\<open>s.partition(c)\<close>: before, whether the separator is there, after.\<close>

definition py_partition :: "char \<Rightarrow> string \<Rightarrow> string \<times> bool \<times> string" where
  "py_partition c s = (takeWhile (\<lambda>x. x \<noteq> c) s, c \<in> set s, drop 1 (dropWhile (\<lambda>x. x \<noteq> c) s))"

fun py_split :: "char \<Rightarrow> string \<Rightarrow> string list" where
  "py_split c [] = [[]]"
| "py_split c (x # xs) = (if x = c then [] # py_split c xs
     else (case py_split c xs of [] \<Rightarrow> [[x]] | y # ys \<Rightarrow> (x # y) # ys))"

fun py_join :: "string \<Rightarrow> string list \<Rightarrow> string" where
  "py_join sep [] = []"
| "py_join sep [x] = x"
| "py_join sep (x # y # xs) = x @ sep @ py_join sep (y # xs)"

section \<open>Decimal numbers\<close>

definition digit_char :: "nat \<Rightarrow> char" where
  "digit_char d = char_of (48 + d)"

fun dec_nat :: "nat \<Rightarrow> string" where
  "dec_nat n = (if n < 10 then [digit_char n] else dec_nat (n div 10) @ [digit_char (n mod 10)])"

declare dec_nat.simps [simp del]

definition dec_int :: "int \<Rightarrow> string" where
  "dec_int n = (if n < 0 then CHR ''-'' # dec_nat (nat (- n)) else dec_nat (nat n))"

text \<open>Digits from the left, single underscores between digits skipped: value, how many, the rest.\<close>

fun scan_digits :: "int \<Rightarrow> nat \<Rightarrow> string \<Rightarrow> int \<times> nat \<times> string" where
  "scan_digits v n [] = (v, n, [])"
| "scan_digits v n (c # cs) =
     (case digit_val c of
        Some d \<Rightarrow> scan_digits (10 * v + d) (Suc n) cs
      | None \<Rightarrow> if c = CHR ''_'' \<and> 0 < n
                then (case cs of [] \<Rightarrow> (v, n, c # cs)
                      | c' # cs' \<Rightarrow> (case digit_val c' of None \<Rightarrow> (v, n, c # cs)
                                       | Some d \<Rightarrow> scan_digits (10 * v + d) (Suc n) cs'))
                else (v, n, c # cs))"

definition pow10 :: "int \<Rightarrow> rat" where
  "pow10 e = (if 0 \<le> e then 10 ^ nat e else 1 / 10 ^ nat (- e))"

definition pow2 :: "int \<Rightarrow> rat" where
  "pow2 e = (if 0 \<le> e then 2 ^ nat e else 1 / 2 ^ nat (- e))"

definition half_even :: "rat \<Rightarrow> int" where
  "half_even x = (let f = \<lfloor>x\<rfloor>; d = x - of_int f
     in if d < 1 / 2 then f else if 1 / 2 < d then f + 1 else if even f then f else f + 1)"

text \<open>The nearest number with 53 significant bits, ties to even.\<close>

definition binary64 :: "rat \<Rightarrow> rat" where
  "binary64 x = (if x = 0 then 0
     else let (p, q) = quotient_of x;
              e = bitlen \<bar>p\<bar> - bitlen q - 53;
              e' = (if \<bar>x\<bar> * pow2 (- e) < 2 ^ 53 then e else e + 1)
          in of_int (half_even (x * pow2 (- e'))) * pow2 e')"

definition exponent_of :: "string \<Rightarrow> int option" where
  "exponent_of s = (case s of
      [] \<Rightarrow> Some 0
    | c # cs \<Rightarrow> if c = CHR ''E'' \<or> c = CHR ''e''
        then (let (neg, ds) = (case cs of d # ds \<Rightarrow> if d = CHR ''-'' then (True, ds) else if d = CHR ''+'' then (False, ds)
                                             else (False, cs) | [] \<Rightarrow> (False, []));
                  (v, n, rest) = scan_digits 0 0 ds
              in if 0 < n \<and> rest = [] then Some (if neg then - v else v) else None)
        else None)"

definition float_magnitude :: "string \<Rightarrow> rat option" where
  "float_magnitude s =
     (let (v, n, rest) = scan_digits 0 0 s;
          (v', m, rest') = (case rest of
              [] \<Rightarrow> (v, 0, [])
            | c # cs \<Rightarrow> if c \<noteq> CHR ''.'' then (v, 0, rest)
                else (let (w, m, r) = scan_digits 0 0 cs in (v * 10 ^ m + w, m, r)))
      in if n + m = 0 then None
         else map_option (\<lambda>e. of_int v' * pow10 (e - int m)) (exponent_of rest'))"

text \<open>\<open>float(s)\<close> where it is finite; the errors of an infinity or a NaN are those \<open>int\<close> raises.\<close>

definition py_float :: "string \<Rightarrow> rat res" where
  "py_float s =
     (let t = py_upper (py_strip s);
          (neg, b) = (case t of c # cs \<Rightarrow> if c = CHR ''-'' then (True, cs) else if c = CHR ''+'' then (False, cs)
                                 else (False, t) | [] \<Rightarrow> (False, t))
      in if b = ''INF'' \<or> b = ''INFINITY'' then Inl OtherError
         else case float_magnitude b of
                None \<Rightarrow> Inl ValueError
              | Some x \<Rightarrow> let y = binary64 x
                          in if 2 ^ 1024 \<le> y then Inl OtherError else Inr (if neg then - y else y))"

definition trunc :: "rat \<Rightarrow> int" where
  "trunc x = (if x < 0 then - \<lfloor>- x\<rfloor> else \<lfloor>x\<rfloor>)"

section \<open>Sizes\<close>

definition INF_SIZE :: int where
  "INF_SIZE = 2 ^ 62"

definition unit_of :: "string \<Rightarrow> string" where
  "unit_of s = (if s \<noteq> [] \<and> last s \<in> {CHR ''K'', CHR ''M'', CHR ''G''} then [last s] else [])"

definition unit_bytes :: "string \<Rightarrow> int" where
  "unit_bytes u = (if u = ''K'' then 2 ^ 10 else if u = ''M'' then 2 ^ 20 else if u = ''G'' then 2 ^ 30 else 1)"

definition parse_size :: "string \<Rightarrow> int res" where
  "parse_size s0 =
     (let s = remove_last (CHR ''I'') (remove_last (CHR ''B'') (py_upper (py_strip s0)))
      in if s = ''INF'' then Inr INF_SIZE
         else let u = unit_of s
              in rbind (py_float (take (length s - length u) s)) (\<lambda>x. Inr (trunc (x * of_int (unit_bytes u)))))"

definition fmt_size :: "int \<Rightarrow> string" where
  "fmt_size n = (if INF_SIZE \<le> n then ''inf''
     else if n \<noteq> 0 \<and> n mod 2 ^ 30 = 0 then dec_int (n div 2 ^ 30) @ ''G''
     else if n \<noteq> 0 \<and> n mod 2 ^ 20 = 0 then dec_int (n div 2 ^ 20) @ ''M''
     else if n \<noteq> 0 \<and> n mod 2 ^ 10 = 0 then dec_int (n div 2 ^ 10) @ ''K''
     else dec_int n)"

section \<open>Specs and bands\<close>

definition HAR_SPECS :: "string list" where
  "HAR_SPECS = [''har'', ''har1'', ''har2'']"

definition spec_env :: "string \<Rightarrow> environ res" where
  "spec_env spec =
     (if spec = ''default'' \<or> spec \<in> set HAR_SPECS then Inr []
      else let (algo, _, proto) = py_partition (CHR ''/'') spec
           in if py_strip algo = [] then Inl ValueError
              else Inr ((''NCCL_ALGO'', py_strip algo) #
                        (if py_strip proto \<noteq> [] then [(''NCCL_PROTO'', py_strip proto)] else [])))"

type_synonym band = "int \<times> int \<times> string"

text \<open>One item of the list; \<open>tuple\<close> evaluation parses the lower end first.\<close>

definition parse_band :: "string \<Rightarrow> band res" where
  "parse_band item =
     (let (rng, _, spec) = py_partition (CHR '':'') item; (lo, dash, hi) = py_partition (CHR ''-'') rng
      in if \<not> dash \<or> py_strip spec = [] then Inl ValueError
         else rbind (parse_size lo) (\<lambda>a. rbind (parse_size hi) (\<lambda>b.
                if b \<le> a then Inl ValueError
                else rbind (spec_env (py_strip spec)) (\<lambda>_. Inr (a, b, py_strip spec)))))"

definition overlapping :: "band list \<Rightarrow> bool" where
  "overlapping bs \<longleftrightarrow> list_ex (\<lambda>(a, b). fst b < fst (snd a)) (zip bs (drop 1 bs))"

definition parse_bands :: "string \<Rightarrow> band list res" where
  "parse_bands s =
     rbind (rmap parse_band (filter (\<lambda>t. t \<noteq> []) (map py_strip (py_split (CHR '','') s)))) (\<lambda>bs.
       let bs' = sort bs in if overlapping bs' then Inl ValueError else Inr bs')"

definition band_str :: "band \<Rightarrow> string" where
  "band_str = (\<lambda>(lo, hi, spec). fmt_size lo @ ''-'' @ fmt_size hi @ '':'' @ spec)"

definition bands_str :: "band list \<Rightarrow> string" where
  "bands_str bs = py_join '','' (map band_str bs)"

section \<open>Digits and sizes read back\<close>

lemma digit_char_facts:
  assumes "d < 10"
  shows "digit_val (digit_char d) = Some (int d)" "\<not> is_blank (digit_char d)"
    "upper_char (digit_char d) = digit_char d"
    "digit_char d \<notin> {CHR ''-'', CHR ''+'', CHR ''.'', CHR '':'', CHR '','', CHR ''I'', CHR ''B'', CHR ''K'', CHR ''M'', CHR ''G'', CHR ''i''}"
proof -
  have "\<forall>d \<in> set [0..<10]. digit_val (digit_char d) = Some (int d) \<and> \<not> is_blank (digit_char d) \<and>
    upper_char (digit_char d) = digit_char d \<and>
    digit_char d \<notin> {CHR ''-'', CHR ''+'', CHR ''.'', CHR '':'', CHR '','', CHR ''I'', CHR ''B'', CHR ''K'', CHR ''M'', CHR ''G'', CHR ''i''}"
    by code_simp
  with assms show "digit_val (digit_char d) = Some (int d)" "\<not> is_blank (digit_char d)"
    "upper_char (digit_char d) = digit_char d"
    "digit_char d \<notin> {CHR ''-'', CHR ''+'', CHR ''.'', CHR '':'', CHR '','', CHR ''I'', CHR ''B'', CHR ''K'', CHR ''M'', CHR ''G'', CHR ''i''}"
    by auto
qed

definition digit_list :: "nat list \<Rightarrow> bool" where
  "digit_list ds \<longleftrightarrow> ds \<noteq> [] \<and> list_all (\<lambda>d. d < 10) ds"

definition value10 :: "int \<Rightarrow> nat list \<Rightarrow> int" where
  "value10 = foldl (\<lambda>a d. 10 * a + int d)"

lemma dec_nat_digits: "\<exists>ds. dec_nat n = map digit_char ds \<and> digit_list ds \<and> value10 0 ds = int n"
proof (induction n rule: dec_nat.induct)
  case (1 n)
  show ?case
  proof (cases "n < 10")
    case True
    then show ?thesis by (intro exI[of _ "[n]"]) (simp add: dec_nat.simps digit_list_def value10_def)
  next
    case False
    from 1[OF False] obtain ds where ds: "dec_nat (n div 10) = map digit_char ds" "digit_list ds"
      "value10 0 ds = int (n div 10)" by blast
    have "10 * int (n div 10) + int (n mod 10) = int n" by presburger
    with ds False show ?thesis
      by (intro exI[of _ "ds @ [n mod 10]"]) (simp add: dec_nat.simps[of n] digit_list_def value10_def)
  qed
qed

definition stops :: "string \<Rightarrow> bool" where
  "stops s \<longleftrightarrow> (case s of [] \<Rightarrow> True | c # _ \<Rightarrow> digit_val c = None \<and> c \<noteq> CHR ''_'')"

lemma scan_digits_stop: "stops s \<Longrightarrow> scan_digits v n s = (v, n, s)"
  by (cases s) (auto simp: stops_def)

lemma scan_digits_map:
  "list_all (\<lambda>d. d < 10) ds \<Longrightarrow> stops rest \<Longrightarrow>
   scan_digits v n (map digit_char ds @ rest) = (value10 v ds, n + length ds, rest)"
  by (induction ds arbitrary: v n) (auto simp: scan_digits_stop value10_def digit_char_facts)

lemma half_even_int [simp]: "half_even (of_int n) = n"
  by (simp add: half_even_def)

lemma pow2_neg: "e \<le> 0 \<Longrightarrow> pow2 (- e) = of_int (2 ^ nat (- e)) \<and> pow2 e * of_int (2 ^ nat (- e)) = 1"
  by (cases "e = 0") (simp_all add: pow2_def)

lemma bitlen_one [simp]: "bitlen 1 = 1"
  by (subst compute_bitlen) simp

lemma binary64_int:
  assumes "0 \<le> n" and "n < 2 ^ 53"
  shows "binary64 (of_int n) = of_int n"
proof (cases "n = 0")
  case True
  then show ?thesis by (simp add: binary64_def)
next
  case False
  define e where "e = bitlen \<bar>n\<bar> - bitlen 1 - 53"
  define e' where "e' = (if \<bar>of_int n :: rat\<bar> * pow2 (- e) < 2 ^ 53 then e else e + 1)"
  have "bitlen n \<le> 53" using assms by (simp add: bitlen_le_iff_power)
  with assms(1) have "e < 0" by (simp add: e_def)
  then have "e' \<le> 0" by (simp add: e'_def)
  note p = pow2_neg[OF this]
  have "(of_int n :: rat) * pow2 (- e') = of_int (n * 2 ^ nat (- e'))" using p by simp
  then have "half_even (of_int n * pow2 (- e')) = n * 2 ^ nat (- e')" by (simp only: half_even_int)
  then have "of_int (half_even (of_int n * pow2 (- e'))) * pow2 e' = of_int n * (pow2 e' * of_int (2 ^ nat (- e')))"
    by (simp only: of_int_mult mult.assoc mult.commute mult.left_commute)
  also have "\<dots> = of_int n" using p by simp
  finally have val: "of_int (half_even (of_int n * pow2 (- e'))) * pow2 e' = (of_int n :: rat)" .
  have "binary64 (of_int n) = of_int (half_even (of_int n * pow2 (- e'))) * pow2 e'"
    unfolding e'_def e_def binary64_def quotient_of_int using False by (simp add: Let_def del: bitlen_one)
  with val show ?thesis by simp
qed

lemma py_strip_id:
  assumes "s \<noteq> []" and "\<not> is_blank (hd s)" and "\<not> is_blank (last s)"
  shows "py_strip s = s"
proof -
  have "dropWhile is_blank s = s" using assms(1,2) by (cases s) auto
  moreover have "dropWhile is_blank (rev s) = rev s"
    using assms(1,3) by (metis dropWhile.simps(1) dropWhile_eq_self_iff hd_rev)
  ultimately show ?thesis by (simp add: py_strip_def)
qed

lemma py_strip_digits: "digit_list ds \<Longrightarrow> py_strip (map digit_char ds) = map digit_char ds"
  by (rule py_strip_id) (auto simp: digit_list_def list_all_iff hd_map last_map digit_char_facts(2))

lemma py_upper_digits: "list_all (\<lambda>d. d < 10) ds \<Longrightarrow> py_upper (map digit_char ds) = map digit_char ds"
  by (simp add: py_upper_def list_all_iff digit_char_facts(3))

lemma py_float_digits:
  assumes "digit_list ds" and "0 \<le> value10 0 ds" and "value10 0 ds < 2 ^ 53"
  shows "py_float (map digit_char ds) = Inr (of_int (value10 0 ds))"
proof -
  obtain d ds' where ds: "ds = d # ds'" "d < 10" using assms(1) by (cases ds) (auto simp: digit_list_def)
  have all: "list_all (\<lambda>d. d < 10) ds" using assms(1) by (simp add: digit_list_def)
  have mag: "float_magnitude (map digit_char ds) = Some (of_int (value10 0 ds))"
    using scan_digits_map[OF all, of "[]" 0 0] ds
    by (simp add: float_magnitude_def stops_def exponent_of_def pow10_def)
  have hd: "digit_char d \<noteq> CHR ''-''" "digit_char d \<noteq> CHR ''+''" "digit_char d \<noteq> CHR ''I''"
    using digit_char_facts(4)[OF ds(2)] by auto
  have "(of_int (value10 0 ds) :: rat) < of_int (2 ^ 53)" using assms(3) by (simp only: of_int_less_iff)
  then have "\<not> 2 ^ 1024 \<le> (of_int (value10 0 ds) :: rat)" by simp
  with mag hd binary64_int[OF assms(2,3)] py_strip_digits[OF assms(1)] py_upper_digits[OF all] ds
  show ?thesis by (simp add: py_float_def)
qed

lemma trunc_int [simp]: "trunc (of_int n) = n"
proof -
  have "\<lfloor>- (of_int n :: rat)\<rfloor> = - n" by (metis floor_of_int of_int_minus)
  then show ?thesis by (simp add: trunc_def)
qed

lemma last_not_removed: "s \<noteq> [] \<Longrightarrow> last s \<noteq> c \<Longrightarrow> remove_last c s = s"
  by (simp add: remove_last_def)

lemma parse_size_digits:
  assumes ds: "digit_list ds" and v: "0 \<le> value10 0 ds" "value10 0 ds < 2 ^ 53"
    and u: "u \<in> {[], ''K'', ''M'', ''G''}"
  shows "parse_size (map digit_char ds @ u) = Inr (value10 0 ds * unit_bytes u)"
proof -
  let ?s = "map digit_char ds @ u"
  have ne: "ds \<noteq> []" and all: "list_all (\<lambda>d. d < 10) ds" using ds by (simp_all add: digit_list_def)
  have h: "hd ds < 10" and l: "last ds < 10" using ne all by (auto simp: list_all_iff)
  note fh = digit_char_facts[OF h] and fl = digit_char_facts[OF l]
  have hd: "hd ?s = digit_char (hd ds)" using ne by (simp add: hd_map hd_append)
  have last: "last ?s = (if u = [] then digit_char (last ds) else last u)"
    using ne by (simp add: last_map last_append)
  have "\<not> is_blank (hd ?s)" using hd fh(2) by simp
  moreover have "\<not> is_blank (last ?s)" using last fl(2) u by (auto simp: is_blank_def)
  ultimately have strip: "py_strip ?s = ?s" using ne by (intro py_strip_id) auto
  have "py_upper u = u" using u by (auto simp: py_upper_def upper_char_def Let_def)
  then have up: "py_upper ?s = ?s" using py_upper_digits[OF all] by (simp add: py_upper_def)
  have "last ?s \<notin> {CHR ''B'', CHR ''I''}" using last fl(4) u by auto
  then have rem: "remove_last (CHR ''I'') (remove_last (CHR ''B'') ?s) = ?s"
    using ne by (simp add: last_not_removed)
  have ninf: "?s \<noteq> ''INF''"
  proof
    assume "?s = ''INF''"
    with hd have "digit_char (hd ds) = CHR ''I''" by simp
    with fh(4) show False by simp
  qed
  have unit: "unit_of ?s = u"
  proof (cases "u = []")
    case True
    with last fl(4) ne show ?thesis by (auto simp: unit_of_def)
  next
    case False
    with last u ne show ?thesis by (auto simp: unit_of_def)
  qed
  have fin: "rbind (py_float (take (length ?s - length u) ?s)) (\<lambda>x. Inr (trunc (x * of_int (unit_bytes u))))
      = Inr (value10 0 ds * unit_bytes u)"
    using py_float_digits[OF ds v] by (simp add: of_int_mult[symmetric] del: of_int_mult)
  show ?thesis unfolding parse_size_def Let_def strip up rem unit using ninf fin by simp
qed

definition size_ok :: "int \<Rightarrow> bool" where
  "size_ok n \<longleftrightarrow> n = INF_SIZE \<or> (0 \<le> n \<and> n < 2 ^ 53)"

lemma fmt_size_cases:
  assumes "size_ok n" and "n \<noteq> INF_SIZE"
  obtains ds u where "digit_list ds" "0 \<le> value10 0 ds" "value10 0 ds < 2 ^ 53" "u \<in> {[], ''K'', ''M'', ''G''}"
    "fmt_size n = map digit_char ds @ u" "value10 0 ds * unit_bytes u = n"
proof -
  have n: "0 \<le> n" "n < 2 ^ 53" using assms by (auto simp: size_ok_def)
  note result = that
  have dec: thesis if mn: "u \<in> {[], ''K'', ''M'', ''G''}" "n = m * unit_bytes u" "0 \<le> m" "m \<le> n"
    "fmt_size n = dec_int m @ u" for m u
  proof -
    obtain ds where "dec_nat (nat m) = map digit_char ds" "digit_list ds" "value10 0 ds = m"
      using dec_nat_digits[of "nat m"] mn(3) by auto
    with mn n show thesis by (intro result[of ds u]) (auto simp: dec_int_def)
  qed
  have quot: "n = n div 2 ^ k * 2 ^ k \<and> 0 \<le> n div 2 ^ k \<and> n div 2 ^ k \<le> n" if "n mod 2 ^ k = 0" for k :: nat
  proof -
    have "n div 2 ^ k * 2 ^ k = n" using that by (metis add.right_neutral div_mult_mod_eq)
    moreover have "0 \<le> n div 2 ^ k" using n by (simp add: pos_imp_zdiv_nonneg_iff)
    moreover have "n div 2 ^ k \<le> n" using zdiv_mono2[of n 1 "2 ^ k"] n by simp
    ultimately show ?thesis by simp
  qed
  have small: "\<not> INF_SIZE \<le> n" using n by (simp add: INF_SIZE_def)
  consider (G) "n \<noteq> 0" "n mod 2 ^ 30 = 0" | (M) "n \<noteq> 0" "n mod 2 ^ 30 \<noteq> 0" "n mod 2 ^ 20 = 0"
    | (K) "n \<noteq> 0" "n mod 2 ^ 30 \<noteq> 0" "n mod 2 ^ 20 \<noteq> 0" "n mod 2 ^ 10 = 0"
    | (B) "n = 0 \<or> n mod 2 ^ 30 \<noteq> 0 \<and> n mod 2 ^ 20 \<noteq> 0 \<and> n mod 2 ^ 10 \<noteq> 0" by blast
  then show thesis
  proof cases
    case G
    with quot[of 30] small show thesis by (intro dec[of "''G''" "n div 2 ^ 30"]) (simp_all add: fmt_size_def unit_bytes_def)
  next
    case M
    with quot[of 20] small show thesis by (intro dec[of "''M''" "n div 2 ^ 20"]) (simp_all add: fmt_size_def unit_bytes_def)
  next
    case K
    with quot[of 10] small show thesis by (intro dec[of "''K''" "n div 2 ^ 10"]) (simp_all add: fmt_size_def unit_bytes_def)
  next
    case B
    with small n show thesis by (intro dec[of "[]" n]) (auto simp: fmt_size_def unit_bytes_def)
  qed
qed

lemma parse_inf: "parse_size ''inf'' = Inr INF_SIZE"
  by code_simp

lemma parse_fmt_size: "size_ok n \<Longrightarrow> parse_size (fmt_size n) = Inr n"
proof (cases "n = INF_SIZE")
  case True
  then show ?thesis by (simp add: fmt_size_def parse_inf)
next
  case False
  assume "size_ok n"
  then show ?thesis using False by (rule fmt_size_cases) (simp add: parse_size_digits)
qed

section \<open>Bands read back\<close>

lemma fmt_size_chars:
  assumes "size_ok n"
  shows "fmt_size n \<noteq> []" "\<not> is_blank (hd (fmt_size n))" "CHR ''-'' \<notin> set (fmt_size n)"
    "CHR '':'' \<notin> set (fmt_size n)" "CHR '','' \<notin> set (fmt_size n)"
proof -
  have "fmt_size n \<noteq> [] \<and> \<not> is_blank (hd (fmt_size n)) \<and> CHR ''-'' \<notin> set (fmt_size n) \<and>
      CHR '':'' \<notin> set (fmt_size n) \<and> CHR '','' \<notin> set (fmt_size n)"
  proof (cases "n = INF_SIZE")
    case True
    then show ?thesis by (simp add: fmt_size_def is_blank_def)
  next
    case False
    with assms obtain ds u where ds: "digit_list ds" and u: "u \<in> {[], ''K'', ''M'', ''G''}"
      and f: "fmt_size n = map digit_char ds @ u" by (rule fmt_size_cases)
    have small: "d < 10" if "d \<in> set ds" for d
      using ds that by (auto simp: digit_list_def list_all_iff)
    have ne: "ds \<noteq> []" using ds by (simp add: digit_list_def)
    have no: "c \<notin> set (map digit_char ds @ u)" if c: "c \<in> {CHR ''-'', CHR '':'', CHR '',''}" for c
    proof
      assume "c \<in> set (map digit_char ds @ u)"
      then consider d where "d \<in> set ds" "c = digit_char d" | "c \<in> set u" by auto
      then show False
      proof cases
        case 1
        with digit_char_facts(4)[OF small[OF 1(1)]] c show False by simp
      next
        case 2
        with u c show False by auto
      qed
    qed
    have hd: "\<not> is_blank (hd (fmt_size n))" using f ne digit_char_facts(2)[OF small[of "hd ds"]] by (simp add: hd_map hd_append)
    show ?thesis unfolding f using ne hd[unfolded f] no by (simp only:) simp
  qed
  then show "fmt_size n \<noteq> []" "\<not> is_blank (hd (fmt_size n))" "CHR ''-'' \<notin> set (fmt_size n)"
    "CHR '':'' \<notin> set (fmt_size n)" "CHR '','' \<notin> set (fmt_size n)" by auto
qed

lemma py_partition_append: "c \<notin> set a \<Longrightarrow> py_partition c (a @ c # b) = (a, True, b)"
  by (induction a) (auto simp: py_partition_def)

lemma py_split_no_sep: "c \<notin> set x \<Longrightarrow> py_split c x = [x]"
  by (induction x) auto

lemma py_split_append: "c \<notin> set x \<Longrightarrow> py_split c (x @ c # s) = x # py_split c s"
  by (induction x) auto

lemma py_split_join: "xs \<noteq> [] \<Longrightarrow> list_all (\<lambda>x. c \<notin> set x) xs \<Longrightarrow> py_split c (py_join [c] xs) = xs"
  by (induction "[c]" xs rule: py_join.induct) (auto simp: py_split_no_sep py_split_append)

lemma rmap_inverse: "list_all (\<lambda>x. f (g x) = Inr x) xs \<Longrightarrow> rmap f (map g xs) = Inr xs"
  by (induction xs) auto

definition band_ok :: "band \<Rightarrow> bool" where
  "band_ok = (\<lambda>(lo, hi, spec). size_ok lo \<and> size_ok hi \<and> lo < hi \<and> spec \<noteq> [] \<and> \<not> is_blank (hd spec)
     \<and> \<not> is_blank (last spec) \<and> CHR '','' \<notin> set spec \<and> (case spec_env spec of Inl _ \<Rightarrow> False | Inr _ \<Rightarrow> True))"

definition disjoint_bands :: "band list \<Rightarrow> bool" where
  "disjoint_bands = sorted_wrt (\<lambda>a b. fst (snd a) \<le> fst b)"

lemma parse_band_str: "band_ok b \<Longrightarrow> parse_band (band_str b) = Inr b"
proof -
  assume ok: "band_ok b"
  obtain lo hi spec where b: "b = (lo, hi, spec)" by (cases b)
  note ok' = ok[unfolded b band_ok_def, simplified]
  note lo = fmt_size_chars[of lo] and hi = fmt_size_chars[of hi]
  have "py_partition (CHR '':'') (band_str b) = (fmt_size lo @ CHR ''-'' # fmt_size hi, True, spec)"
    using py_partition_append[of "CHR '':''" "fmt_size lo @ CHR ''-'' # fmt_size hi" spec] lo(4) hi(4) ok'
    by (simp add: band_str_def b)
  moreover have "py_partition (CHR ''-'') (fmt_size lo @ CHR ''-'' # fmt_size hi) = (fmt_size lo, True, fmt_size hi)"
    using py_partition_append lo(3) ok' by simp
  moreover obtain env where "spec_env spec = Inr env" using ok' by (cases "spec_env spec") auto
  ultimately show ?thesis
    using ok' py_strip_id[of spec] b by (simp add: parse_band_def parse_fmt_size)
qed

lemma band_str_text:
  assumes "band_ok b"
  shows "band_str b \<noteq> []" "py_strip (band_str b) = band_str b" "CHR '','' \<notin> set (band_str b)"
proof -
  obtain lo hi spec where b: "b = (lo, hi, spec)" by (cases b)
  note ok = assms[unfolded b band_ok_def, simplified]
  note lo = fmt_size_chars[of lo] and hi = fmt_size_chars[of hi]
  show ne: "band_str b \<noteq> []" by (simp add: band_str_def b)
  have "hd (band_str b) = hd (fmt_size lo)" "last (band_str b) = last spec"
    using lo(1) ok by (simp_all add: band_str_def b hd_append)
  with lo(2) ok ne show "py_strip (band_str b) = band_str b" by (intro py_strip_id) auto
  show "CHR '','' \<notin> set (band_str b)" using lo(5) hi(5) ok by (simp add: band_str_def b)
qed

lemma disjoint_sorted: "list_all band_ok bs \<Longrightarrow> disjoint_bands bs \<Longrightarrow> sorted bs"
proof (induction bs)
  case (Cons b bs)
  have "b \<le> c" if "c \<in> set bs" for c
  proof -
    obtain lo hi spec where b: "b = (lo, hi, spec)" by (cases b)
    have "fst (snd b) \<le> fst c" using Cons.prems(2) that by (simp add: disjoint_bands_def)
    moreover have "fst b < fst (snd b)" using Cons.prems(1) b by (simp add: band_ok_def)
    ultimately show ?thesis by (cases c) (simp add: b)
  qed
  with Cons show ?case by (simp add: disjoint_bands_def)
qed simp

lemma not_overlapping_iff: "\<not> overlapping bs \<longleftrightarrow> successively (\<lambda>a b. fst (snd a) \<le> fst b) bs"
  by (induction bs rule: induct_list012) (auto simp: overlapping_def not_less)

lemma disjoint_of_successive:
  assumes "\<And>b. b \<in> set bs \<Longrightarrow> fst b \<le> fst (snd b)"
  shows "disjoint_bands bs \<longleftrightarrow> \<not> overlapping bs"
proof
  assume "disjoint_bands bs"
  then show "\<not> overlapping bs" by (simp add: not_overlapping_iff disjoint_bands_def successively_if_sorted_wrt)
next
  assume "\<not> overlapping bs"
  then have "successively (\<lambda>a b. fst (snd a) \<le> fst b) bs" by (simp add: not_overlapping_iff)
  with assms show "disjoint_bands bs"
  proof (induction bs rule: induct_list012)
    case (3 a b bs)
    then have d: "disjoint_bands (b # bs)" and ab: "fst (snd a) \<le> fst b" by auto
    have "fst (snd a) \<le> fst c" if "c \<in> set bs" for c
    proof -
      have "fst (snd b) \<le> fst c" using d that by (simp add: disjoint_bands_def)
      with ab "3.prems"(1)[of b] show ?thesis by simp
    qed
    with d ab show ?case by (simp add: disjoint_bands_def)
  qed (simp_all add: disjoint_bands_def)
qed

lemma parse_band_valid:
  assumes "parse_band t = Inr b"
  shows "fst b < fst (snd b)" and "\<not> isl (spec_env (snd (snd b)))"
  using assms by (auto simp: parse_band_def rbind_eq_Inr split: prod.splits if_splits)

lemma rmap_all: "rmap f xs = Inr ys \<Longrightarrow> y \<in> set ys \<Longrightarrow> \<exists>x \<in> set xs. f x = Inr y"
  by (induction xs arbitrary: ys) (auto simp: rbind_eq_Inr)

lemma parse_printed_bands:
  assumes "list_all band_ok bs" and "disjoint_bands bs"
  shows "parse_bands (bands_str bs) = Inr bs"
proof (cases "bs = []")
  case True
  then show ?thesis by (simp add: parse_bands_def bands_str_def py_strip_def overlapping_def)
next
  case False
  have texts: "band_str b \<noteq> [] \<and> py_strip (band_str b) = band_str b \<and> CHR '','' \<notin> set (band_str b)"
    if "b \<in> set bs" for b
    using band_str_text[of b] assms(1) that by (simp add: list_all_iff)
  then have "py_split (CHR '','') (bands_str bs) = map band_str bs"
    using py_split_join[of "map band_str bs" "CHR '',''"] False by (simp add: bands_str_def list_all_iff)
  moreover have "filter (\<lambda>t. t \<noteq> []) (map py_strip (map band_str bs)) = map band_str bs"
  proof -
    have "map py_strip (map band_str bs) = map band_str bs" using texts by simp
    then show ?thesis using texts by (simp add: filter_id_conv)
  qed
  moreover have "rmap parse_band (map band_str bs) = Inr bs"
    using assms(1) by (intro rmap_inverse) (auto simp: list_all_iff parse_band_str)
  moreover have "\<not> overlapping bs"
    using assms by (subst disjoint_of_successive[symmetric]) (auto simp: list_all_iff band_ok_def)
  ultimately show ?thesis using sorted_sort_id[OF disjoint_sorted[OF assms]]
    by (simp add: parse_bands_def Let_def)
qed

section \<open>Properties\<close>

text \<open>Whatever text the band variable holds, a list that parses has no empty band, no two bands of
  it share a byte count, in the order of the list, and every spec is one a communicator can be
  built for.\<close>

theorem parse_bands_disjoint:
  assumes "parse_bands s = Inr bs"
  shows "disjoint_bands bs \<and> list_all (\<lambda>(lo, hi, spec). lo < hi \<and> \<not> isl (spec_env spec)) bs"
proof -
  from assms obtain ts where ts: "rmap parse_band (filter (\<lambda>t. t \<noteq> []) (map py_strip (py_split (CHR '','') s))) = Inr ts"
    and bs: "bs = sort ts" and no: "\<not> overlapping bs"
    by (auto simp: parse_bands_def rbind_eq_Inr Let_def split: if_splits)
  have valid: "fst b < fst (snd b) \<and> \<not> isl (spec_env (snd (snd b)))" if "b \<in> set bs" for b
  proof -
    obtain t where "parse_band t = Inr b" using rmap_all[OF ts, of b] \<open>b \<in> set bs\<close> bs by auto
    from parse_band_valid[OF this] show ?thesis by simp
  qed
  then have "disjoint_bands bs" using disjoint_of_successive[of bs] no by (meson less_imp_le)
  with valid show ?thesis by (auto simp: list_all_iff)
qed

definition demo_bands :: "band list" where
  "demo_bands = [(0, 393216, ''default''), (393216, INF_SIZE, ''allreduce:ring/LL'')]"

lemma demo_bands_ok: "list_all band_ok demo_bands" "disjoint_bands demo_bands"
proof -
  have "spec_env ''default'' = Inr []"
    "spec_env ''allreduce:ring/LL'' = Inr [(''NCCL_ALGO'', ''allreduce:ring''), (''NCCL_PROTO'', ''LL'')]"
    by code_simp+
  then show "list_all band_ok demo_bands"
    by (simp add: demo_bands_def band_ok_def size_ok_def INF_SIZE_def is_blank_def)
  show "disjoint_bands demo_bands" by (simp add: demo_bands_def disjoint_bands_def)
qed

lemma demo_bands_str: "bands_str demo_bands = ''0-384K:default,384K-inf:allreduce:ring/LL''"
  by code_simp

lemma parse_bands_disjoint_witness:
  "disjoint_bands demo_bands \<and> list_all (\<lambda>(lo, hi, spec). lo < hi \<and> \<not> isl (spec_env spec)) demo_bands"
  by (rule parse_bands_disjoint[OF parse_printed_bands[OF demo_bands_ok]])

text \<open>C26: the text the development reports for a band list reads back as that list: for ordered,
  disjoint bands with sizes below 2^53 or unbounded and well-formed specs, parsing what
  \<open>bands_str\<close> prints gives the bands back.\<close>

theorem bands_round_trip:
  assumes "list_all band_ok bs" and "disjoint_bands bs"
  shows "parse_bands (bands_str bs) = Inr bs"
  using assms by (rule parse_printed_bands)

lemma bands_round_trip_witness:
  "parse_bands ''0-384K:default,384K-inf:allreduce:ring/LL'' = Inr demo_bands"
  using bands_round_trip[OF demo_bands_ok] by (simp add: demo_bands_str)

end
