(* ===== verification/NcclSplit.thy ===== *)
theory NcclSplit
  imports BandText
begin

text \<open>
  The size-routed all-reduce (\<open>suffix_hybrid/nccl_split.py\<close>): the choice of a communicator per
  message size (\<open>make_pick\<close>), the collective measurement of the candidates (\<open>autotune\<close>) as every
  rank runs it, the bands derived from the table (\<open>build_bands\<close>), the environment around a
  communicator's construction (\<open>make_comm\<close>), the configuration and \<open>setup\<close>. Communicators are
  values of a type parameter; building and timing one are arguments.
\<close>

section \<open>Measured times\<close>

text \<open>Microseconds, or \<open>math.inf\<close>.\<close>

datatype us = Us rat | Inf

instantiation us :: linorder
begin

definition less_eq_us :: "us \<Rightarrow> us \<Rightarrow> bool" where
  "less_eq_us a b = (case b of Inf \<Rightarrow> True | Us y \<Rightarrow> (case a of Inf \<Rightarrow> False | Us x \<Rightarrow> x \<le> y))"

definition less_us :: "us \<Rightarrow> us \<Rightarrow> bool" where
  "less_us a b = (case a of Inf \<Rightarrow> False | Us x \<Rightarrow> (case b of Inf \<Rightarrow> True | Us y \<Rightarrow> x < y))"

instance
  by standard (auto simp: less_eq_us_def less_us_def split: us.splits)

end

lemma us_order [simp]:
  "a \<le> Inf" "\<not> Inf \<le> Us y" "Us x \<le> Us y \<longleftrightarrow> x \<le> y" "\<not> Inf < a" "Us x < Inf" "Us x < Us y \<longleftrightarrow> x < y"
  by (auto simp: less_eq_us_def less_us_def split: us.splits)

definition us_scale :: "rat \<Rightarrow> us \<Rightarrow> us" where
  "us_scale r t = (case t of Inf \<Rightarrow> Inf | Us x \<Rightarrow> Us (r * x))"

type_synonym timing = "(string, us list) dict"

section \<open>Routing a message\<close>

datatype dtype = BF16 | F16 | F32 | OtherType string

record tensor =
  t_numel :: int
  t_esize :: int
  t_dtype :: dtype
  t_contiguous :: bool

datatype pick_note = BandNote int int | FallNote dtype bool int

record 'c pick_cfg =
  pk_routes :: "(int \<times> int \<times> 'c) list"
  pk_qar :: "'c option"
  pk_qar_lo :: int
  pk_qar_hi :: int
  pk_log :: bool

definition nbytes_of :: "tensor \<Rightarrow> int" where
  "nbytes_of x = t_numel x * t_esize x"

definition note_once :: "bool \<Rightarrow> pick_note \<Rightarrow> pick_note list \<Rightarrow> pick_note list" where
  "note_once logs key seen = (if logs \<and> key \<notin> set seen then seen @ [key] else seen)"

text \<open>\<open>supports\<close> is the method of a communicator that has one; \<open>seen\<close> are the keys logged so far.\<close>

definition pick :: "('c \<Rightarrow> (tensor \<Rightarrow> bool) option) \<Rightarrow> 'c pick_cfg \<Rightarrow> tensor \<Rightarrow> 'c \<Rightarrow> pick_note list \<Rightarrow> 'c \<times> pick_note list" where
  "pick supports cfg x dflt seen =
     (let n = nbytes_of x; routed =
        (case find (\<lambda>(lo, hi, _). lo \<le> n \<and> n < hi) (pk_routes cfg) of
           None \<Rightarrow> (dflt, seen)
         | Some (lo, hi, comm) \<Rightarrow>
             if (case supports comm of None \<Rightarrow> True | Some ok \<Rightarrow> ok x)
             then (comm, note_once (pk_log cfg) (BandNote lo hi) seen)
             else (dflt, note_once (pk_log cfg) (FallNote (t_dtype x) (t_contiguous x) (t_numel x mod 8)) seen))
      in case pk_qar cfg of
           Some q \<Rightarrow> if pk_qar_lo cfg \<le> n \<and> n < pk_qar_hi cfg \<and> t_dtype x \<in> {BF16, F16} then (q, seen) else routed
         | None \<Rightarrow> routed)"

section \<open>Measuring the candidates\<close>

definition TOKENS :: "int list" where
  "TOKENS = [1, 6, 12, 24, 48, 96, 192, 384, 1024, 2048, 4096, 8192]"

definition CANDIDATES :: "string list" where
  "CANDIDATES = [''default'', ''allreduce:ring/Simple'', ''allreduce:ring/LL128'', ''allreduce:ring/LL'',
     ''allreduce:tree/Simple'', ''allreduce:tree/LL128'', ''allreduce:tree/LL'']"

definition autotune_sizes :: "int option \<Rightarrow> int \<Rightarrow> int list" where
  "autotune_sizes hidden max_bytes =
     sort (remdups (filter (\<lambda>n. n \<le> max_bytes)
       (map (\<lambda>k. 2 ^ k) [14..<63] @
        (case hidden of None \<Rightarrow> [] | Some h \<Rightarrow> if h = 0 then [] else map (\<lambda>t. t * h * 2) TOKENS))))"

text \<open>What one rank meets locally: whether it can build a candidate, what it measures
  (\<^const>\<open>None\<close> for an exception), and the time since the start at its n-th agreement.\<close>

record rank_io =
  io_init :: "string \<Rightarrow> bool"
  io_meas :: "string \<Rightarrow> int \<Rightarrow> rat option"
  io_clock :: "nat \<Rightarrow> rat"

datatype tune_call = Make string | Measure string int | Agree nat

datatype tune_err = InitHere | InitElsewhere | MeasHere int | MeasElsewhere int

record tune_st =
  ts_sent :: "us list list"
  ts_calls :: "tune_call list"
  ts_table :: timing
  ts_comms :: "string list"
  ts_errors :: "(string, tune_err) dict"

text \<open>\<open>agree\<close>: the rank contributes its values and reads the group's answer; \<open>rep n\<close> is the answer to
  the n-th agreement, the same for every rank.\<close>

definition agree :: "(nat \<Rightarrow> us list) \<Rightarrow> us list \<Rightarrow> tune_st \<Rightarrow> us list \<times> tune_st" where
  "agree rep vals st = (rep (length (ts_sent st)),
     st\<lparr>ts_sent := ts_sent st @ [vals], ts_calls := ts_calls st @ [Agree (length vals)]\<rparr>)"

definition err_default :: "string \<Rightarrow> tune_err \<Rightarrow> (string, tune_err) dict \<Rightarrow> (string, tune_err) dict" where
  "err_default spec e es = (case map_of es spec of None \<Rightarrow> AList.update spec e es | Some _ \<Rightarrow> es)"

definition clock_now :: "rank_io \<Rightarrow> tune_st \<Rightarrow> us" where
  "clock_now io st = Us (io_clock io (length (ts_sent st)))"

definition tune_init1 :: "rank_io \<Rightarrow> (nat \<Rightarrow> us list) \<Rightarrow> us \<Rightarrow> string \<Rightarrow> tune_st \<Rightarrow> tune_st" where
  "tune_init1 io rep budget spec st =
     (if spec = ''default'' then st
      else let (r, st1) = agree rep [clock_now io st] st
           in if budget < r ! 0 then st1
              else let ok = io_init io spec;
                       st2 = st1\<lparr>ts_calls := ts_calls st1 @ [Make spec],
                                ts_errors := (if ok then ts_errors st1 else AList.update spec InitHere (ts_errors st1))\<rparr>;
                       (r2, st3) = agree rep [Us (if ok then 0 else 1)] st2
                   in if r2 ! 0 \<noteq> Us 0 then st3\<lparr>ts_errors := err_default spec InitElsewhere (ts_errors st3)\<rparr>
                      else st3\<lparr>ts_comms := ts_comms st3 @ [spec]\<rparr>)"

text \<open>One cell: the new state, the specs still alive and whether the budget is used up.\<close>

definition tune_cell :: "rank_io \<Rightarrow> (nat \<Rightarrow> us list) \<Rightarrow> us \<Rightarrow> nat \<Rightarrow> nat \<Rightarrow> int \<Rightarrow> string \<Rightarrow>
    string list \<times> tune_st \<Rightarrow> bool \<times> string list \<times> tune_st" where
  "tune_cell io rep budget nsizes i nbytes spec = (\<lambda>(live, st).
     let m = io_meas io spec nbytes; (t, bad) = (case m of Some t \<Rightarrow> (Us t, Us 0) | None \<Rightarrow> (Inf, Us 1));
         st1 = st\<lparr>ts_calls := ts_calls st @ [Measure spec nbytes],
                 ts_errors := (if m = None then AList.update spec (MeasHere nbytes) (ts_errors st) else ts_errors st)\<rparr>;
         (r, st2) = agree rep [t, bad, clock_now io st1] st1;
         (live', st3) =
           (if r ! 1 \<noteq> Us 0 \<and> spec \<noteq> ''default''
            then (remove1 spec live, st2\<lparr>ts_errors := err_default spec (MeasElsewhere nbytes) (ts_errors st2),
                                        ts_table := AList.update spec (replicate nsizes Inf) (ts_table st2)\<rparr>)
            else if r ! 1 = Us 0
            then (live, st2\<lparr>ts_table := AList.update spec ((dict_or (ts_table st2) spec [])[i := r ! 0]) (ts_table st2)\<rparr>)
            else (live, st2))
     in (budget < r ! 2, live', st3))"

fun tune_row :: "rank_io \<Rightarrow> (nat \<Rightarrow> us list) \<Rightarrow> us \<Rightarrow> nat \<Rightarrow> nat \<Rightarrow> int \<Rightarrow> string list \<Rightarrow>
    string list \<times> tune_st \<Rightarrow> bool \<times> string list \<times> tune_st" where
  "tune_row io rep budget nsizes i nbytes [] (live, st) = (False, live, st)"
| "tune_row io rep budget nsizes i nbytes (spec # specs) (live, st) =
     (let (stop, live', st') = tune_cell io rep budget nsizes i nbytes spec (live, st)
      in if stop then (True, live', st') else tune_row io rep budget nsizes i nbytes specs (live', st'))"

definition cell_at :: "timing \<Rightarrow> string \<Rightarrow> nat \<Rightarrow> us" where
  "cell_at tab spec i = dict_or tab spec [] ! i"

definition prune_live :: "rat \<Rightarrow> timing \<Rightarrow> nat \<Rightarrow> string list \<Rightarrow> string list" where
  "prune_live prune tab i live =
     (let best = Min (set (map (\<lambda>c. cell_at tab c i) live))
      in filter (\<lambda>c. c = ''default'' \<or> cell_at tab c i \<le> us_scale prune best) live)"

text \<open>All sizes; \<open>min\<close> of no live candidate raises.\<close>

fun tune_sizes :: "rank_io \<Rightarrow> (nat \<Rightarrow> us list) \<Rightarrow> us \<Rightarrow> rat \<Rightarrow> nat \<Rightarrow> nat \<Rightarrow> int list \<Rightarrow> string list \<times> tune_st \<Rightarrow>
    unit res \<times> tune_st" where
  "tune_sizes io rep budget prune nsizes i [] (live, st) = (Inr (), st)"
| "tune_sizes io rep budget prune nsizes i (nbytes # rest) (live, st) =
     (let (stop, live', st') = tune_row io rep budget nsizes i nbytes live (live, st)
      in if stop then (Inr (), st')
         else if live' = [] then (Inl ValueError, st')
         else tune_sizes io rep budget prune nsizes (Suc i) rest (prune_live prune (ts_table st') i live', st'))"

definition tune_start :: "string list \<Rightarrow> nat \<Rightarrow> tune_st" where
  "tune_start candidates nsizes = \<lparr>ts_sent = [], ts_calls = [],
     ts_table = dict_updates [] (map (\<lambda>c. (c, replicate nsizes Inf)) candidates),
     ts_comms = [''default''], ts_errors = []\<rparr>"

definition autotune :: "rank_io \<Rightarrow> (nat \<Rightarrow> us list) \<Rightarrow> rat \<Rightarrow> rat \<Rightarrow> string list \<Rightarrow> int list \<Rightarrow> unit res \<times> tune_st" where
  "autotune io rep budget prune candidates sizes =
     (let st = fold (tune_init1 io rep (Us budget)) candidates (tune_start candidates (length sizes));
          live = filter (\<lambda>c. c \<in> set (ts_comms st)) candidates
      in tune_sizes io rep (Us budget) prune (length sizes) 0 sizes (live, st))"

section \<open>Bands from the table\<close>

function isqrt :: "int \<Rightarrow> int" where
  "isqrt n = (if n \<le> 0 then 0 else let r = 2 * isqrt (n div 4) in if (r + 1) * (r + 1) \<le> n then r + 1 else r)"
  by auto
termination by (relation "measure nat") auto

declare isqrt.simps [simp del]

text \<open>\<open>round(math.sqrt(n) / 1024)\<close>, ties to even, with the exact root (the binary64 root of the source
  can fall on the other side of a tie only above 2^52).\<close>

definition root_kib :: "int \<Rightarrow> int" where
  "root_kib n = (let q = isqrt n div 1024; half = (1024 * q + 512) * (1024 * q + 512)
     in if n < half then q else if half < n then q + 1 else if even q then q else q + 1)"

definition cross :: "int \<Rightarrow> int \<Rightarrow> int" where
  "cross a b = min b (max (a + 1) (root_kib (a * b) * 1024))"

definition row_at :: "us list \<Rightarrow> nat \<Rightarrow> us res" where
  "row_at row i = (if i < length row then Inr (row ! i) else Inl IndexError)"

definition winner :: "timing \<Rightarrow> rat \<Rightarrow> nat \<Rightarrow> string res" where
  "winner tab margin i =
     (case map_of tab ''default'' of
        None \<Rightarrow> Inl KeyError
      | Some base_row \<Rightarrow> rbind (row_at base_row i) (\<lambda>base.
          if base = Inf then Inr ''default''
          else rbind (rmap (\<lambda>(c, row). rbind (row_at row i) (\<lambda>t. Inr (t, c)))
                       (filter (\<lambda>(c, _). c \<noteq> ''default'') tab)) (\<lambda>ts.
                 let (t, c) = (if ts = [] then (Inf, ''default'') else Min (set ts))
                 in Inr (if t < us_scale (1 - margin) base then c else ''default''))))"

fun bands_loop :: "(int \<times> string) list \<Rightarrow> int \<Rightarrow> band list" where
  "bands_loop [] lo = []"
| "bands_loop [(s, w)] lo = [(lo, INF_SIZE, w)]"
| "bands_loop ((s, w) # (s', w') # rest) lo =
     (if w' = w then bands_loop ((s', w') # rest) lo
      else (lo, cross s s', w) # bands_loop ((s', w') # rest) (cross s s'))"

definition build_bands :: "int list \<Rightarrow> timing \<Rightarrow> rat \<Rightarrow> band list res" where
  "build_bands sizes tab margin =
     rbind (rmap (winner tab margin) [0..<length sizes]) (\<lambda>ws. Inr (bands_loop (zip sizes ws) 0))"

definition band_at :: "band list \<Rightarrow> int \<Rightarrow> string option" where
  "band_at bs n = map_option (\<lambda>(_, _, spec). spec) (find (\<lambda>(lo, hi, _). lo \<le> n \<and> n < hi) bs)"

section \<open>The environment of a construction\<close>

text \<open>\<open>make_comm\<close>: the body runs with the spec's variables set, which are put back afterwards whether it
  raises or not.\<close>

definition restore_env :: "(string \<times> string option) list \<Rightarrow> environ \<Rightarrow> environ" where
  "restore_env saved e = fold (\<lambda>(k, v) e. case v of None \<Rightarrow> AList.delete k e | Some x \<Rightarrow> AList.update k x e) saved e"

definition with_env :: "environ \<Rightarrow> (environ \<Rightarrow> 'c res) \<Rightarrow> environ \<Rightarrow> 'c res \<times> environ" where
  "with_env vars body e =
     (let saved = map (\<lambda>(k, _). (k, map_of e k)) vars; e' = dict_updates e vars
      in (body e', restore_env saved e'))"

definition make_comm :: "(environ \<Rightarrow> string \<Rightarrow> 'c res) \<Rightarrow> (environ \<Rightarrow> 'c res) \<Rightarrow> ('c \<Rightarrow> bool) \<Rightarrow> string \<Rightarrow> environ \<Rightarrow> 'c res \<times> environ" where
  "make_comm host_ar pynccl disabled spec e =
     (if spec \<in> set HAR_SPECS then (host_ar e spec, e)
      else case spec_env spec of
             Inl err \<Rightarrow> (Inl err, e)
           | Inr vars \<Rightarrow> let (r, e') = with_env vars pynccl e
                         in (rbind r (\<lambda>c. if disabled c then Inl RuntimeError else Inr c), e'))"

section \<open>Configuration and setup\<close>

definition env_str :: "environ \<Rightarrow> string \<Rightarrow> string \<Rightarrow> string" where
  "env_str e name d = py_strip (env_get e name d)"

definition need_int :: "string \<Rightarrow> int res" where
  "need_int s = (case py_int s of None \<Rightarrow> Inl ValueError | Some n \<Rightarrow> Inr n)"

definition to_lower :: "string \<Rightarrow> string" where
  "to_lower s = map (\<lambda>c. let n = of_char c :: nat in if 65 \<le> n \<and> n \<le> 90 then char_of (n + 32) else c) s"

definition config :: "environ \<Rightarrow> (band list \<times> bool \<times> string) res" where
  "config e =
     (let small = env_str e ''SUFFIX_NCCL_SMALL_ALGO'' []; txt = env_str e ''SUFFIX_NCCL_BANDS'' [];
          proto = env_str e ''SUFFIX_NCCL_SMALL_PROTO'' []
      in if small \<noteq> [] \<and> txt \<noteq> [] then Inl DriftError
         else rbind (if small \<noteq> []
                     then rbind (need_int (env_str e ''SUFFIX_NCCL_SMALL_MIN_BYTES'' ''262144'')) (\<lambda>lo.
                          rbind (need_int (env_str e ''SUFFIX_NCCL_SMALL_BYTES'' ''2097152'')) (\<lambda>hi.
                            let spec = small @ (if proto \<noteq> [] then CHR ''/'' # proto else [])
                            in rbind (spec_env spec) (\<lambda>_. Inr [(lo, hi + 1, spec)])))
                     else if txt \<noteq> [] then parse_bands txt else Inr []) (\<lambda>bands.
           let tuned = (env_str e ''SUFFIX_NCCL_AUTOTUNE'' [] = ''1''); q = to_lower (env_str e ''SUFFIX_NCCL_QAR'' []);
               qar = (if q \<in> {[], ''0'', ''off''} then [] else q)
           in if qar \<notin> {[], ''int8'', ''fp8''} then Inl DriftError
              else if (bands \<noteq> [] \<or> tuned) \<and> (env_get e ''NCCL_ALGO'' [] \<noteq> [] \<or> env_get e ''NCCL_PROTO'' [] \<noteq> [])
              then Inl DriftError
              else Inr (bands, tuned, qar)))"

record 'c group =
  g_world :: int
  g_default :: "'c option"
  g_disabled :: bool
  g_name :: string
  g_rank :: nat

record 'c routed =
  r_pick :: "'c pick_cfg option"
  r_hag :: "'c option"

definition uniq :: "string list \<Rightarrow> string list" where
  "uniq xs = dict_keys (dict_updates [] (map (\<lambda>x. (x, ())) xs))"

definition hidden_of :: "environ \<Rightarrow> int option \<Rightarrow> int option res" where
  "hidden_of e model =
     (let v = env_str e ''SUFFIX_NCCL_AUTOTUNE_HIDDEN'' []
      in if v \<noteq> [] then rbind (need_int v) (\<lambda>h. Inr (Some h)) else Inr model)"

text \<open>\<open>_autotune_group\<close>; \<open>tune sizes candidates budget iters\<close> is the measurement on the group.\<close>

definition autotune_group ::
    "environ \<Rightarrow> int option \<Rightarrow> (int list \<Rightarrow> string list \<Rightarrow> rat \<Rightarrow> int \<Rightarrow> (timing \<times> (string, 'c) dict) res) \<Rightarrow>
     (band list \<times> (string, 'c) dict) res" where
  "autotune_group e model tune =
     rbind (hidden_of e model) (\<lambda>hidden.
     rbind (parse_size (env_str e ''SUFFIX_NCCL_AUTOTUNE_MAX_BYTES'' ''128M'')) (\<lambda>mx.
       let sizes = autotune_sizes hidden mx;
           cands = py_split (CHR '','') (env_str e ''SUFFIX_NCCL_AUTOTUNE_CANDIDATES'' (py_join '','' CANDIDATES));
           cands' = ''default'' # filter (\<lambda>c. c \<noteq> [] \<and> c \<noteq> ''default'') (uniq (map py_strip cands))
       in rbind (py_float (env_str e ''SUFFIX_NCCL_AUTOTUNE_BUDGET_S'' ''20'')) (\<lambda>budget.
          rbind (need_int (env_str e ''SUFFIX_NCCL_AUTOTUNE_ITERS'' ''7'')) (\<lambda>iters.
          rbind (tune sizes cands' budget iters) (\<lambda>(tab, comms).
          rbind (py_float (env_str e ''SUFFIX_NCCL_AUTOTUNE_MARGIN'' ''0.05'')) (\<lambda>margin.
          rbind (build_bands sizes tab margin) (\<lambda>bands.
            Inr (bands, filter (\<lambda>(s, _). s = ''default'' \<or> s \<in> set (map (\<lambda>(_, _, s). s) bands)) comms))))))))"

definition build_routes :: "(string, 'c) dict \<Rightarrow> band list \<Rightarrow> (int \<times> int \<times> 'c) list res" where
  "build_routes comms bands =
     rmap (\<lambda>(lo, hi, s). case map_of comms s of None \<Rightarrow> Inl KeyError | Some c \<Rightarrow> Inr (lo, hi, c))
       (filter (\<lambda>(_, _, s). s \<noteq> ''default'') bands)"

fun make_all :: "(string \<Rightarrow> 'c res) \<Rightarrow> string list \<Rightarrow> (string, 'c) dict \<Rightarrow> (string, 'c) dict res" where
  "make_all mk [] comms = Inr comms"
| "make_all mk (s # ss) comms = rbind (mk s) (\<lambda>c. make_all mk ss (AList.update s c comms))"

definition is_tp :: "'c group \<Rightarrow> bool" where
  "is_tp g \<longleftrightarrow> takeWhile (\<lambda>c. c \<noteq> CHR '':'') (g_name g) = ''tp''"

definition band_specs :: "band list \<Rightarrow> string list" where
  "band_specs bands = sort (remdups (filter (\<lambda>s. s \<noteq> ''default'') (map (\<lambda>(_, _, s). s) bands)))"

definition no_har :: "band list \<Rightarrow> band list" where
  "no_har bands = map (\<lambda>(lo, hi, s). (lo, hi, if s \<in> set HAR_SPECS then ''default'' else s)) bands"

definition comm_setup :: "environ \<Rightarrow> 'c group \<Rightarrow> int option \<Rightarrow>
    (int list \<Rightarrow> string list \<Rightarrow> rat \<Rightarrow> int \<Rightarrow> (timing \<times> (string, 'c) dict) res) \<Rightarrow> (string \<Rightarrow> 'c res) \<Rightarrow> ('c \<Rightarrow> string \<Rightarrow> 'c res) \<Rightarrow>
    band list \<Rightarrow> bool \<Rightarrow> string \<Rightarrow> 'c routed res" where
  "comm_setup e g model tune mk make_qar bands tuning qar =
     (case g_default g of
        None \<Rightarrow> Inr \<lparr>r_pick = None, r_hag = None\<rparr>
      | Some dflt \<Rightarrow>
          if g_world g \<le> 1 \<or> g_disabled g then Inr \<lparr>r_pick = None, r_hag = None\<rparr>
          else let tp = is_tp g;
                   (bands1, comms1, tuned) =
                     (if tuning \<and> tp
                      then (case autotune_group e model tune of Inl _ \<Rightarrow> (bands, [(''default'', dflt)], False)
                              | Inr (b, c) \<Rightarrow> (b, c, True))
                      else (bands, [(''default'', dflt)], False));
                   bands2 = (if tp then bands1 else no_har bands1)
               in rbind (if tuned then Inr comms1 else make_all mk (band_specs bands2) comms1) (\<lambda>comms.
                  rbind (build_routes comms bands2) (\<lambda>routes.
                  rbind (if qar \<noteq> [] \<and> tp
                         then rbind (make_qar dflt qar) (\<lambda>q.
                              rbind (parse_size (env_str e ''SUFFIX_NCCL_QAR_MIN_BYTES'' ''4M'')) (\<lambda>lo.
                              rbind (parse_size (env_str e ''SUFFIX_NCCL_QAR_MAX_BYTES'' ''inf'')) (\<lambda>hi. Inr (Some q, lo, hi))))
                         else Inr (None, 0, INF_SIZE)) (\<lambda>(q, lo, hi).
                  rbind (if tp \<and> env_str e ''SUFFIX_HAR_ALLGATHER'' [] = ''1''
                         then (case find (\<lambda>(s, _). s \<in> set HAR_SPECS) comms of
                                 Some (_, c) \<Rightarrow> Inr (Some c)
                               | None \<Rightarrow> rbind (mk ''har'') (\<lambda>c. Inr (Some c)))
                         else Inr None) (\<lambda>hag.
                    Inr \<lparr>r_pick = (if routes \<noteq> [] \<or> q \<noteq> None
                                   then Some \<lparr>pk_routes = routes, pk_qar = q, pk_qar_lo = lo, pk_qar_hi = hi, pk_log = (g_rank g = 0)\<rparr>
                                   else None),
                         r_hag = hag\<rparr>)))))"

section \<open>Bands and winners\<close>

lemma cross_between: "a < b \<Longrightarrow> a < cross a b \<and> cross a b \<le> b"
  by (auto simp: cross_def)

text \<open>\<open>bands_loop\<close> on increasing sizes below the unbounded end.\<close>

definition sizes_ok :: "int list \<Rightarrow> bool" where
  "sizes_ok sizes \<longleftrightarrow> sorted_wrt (<) sizes \<and> list_all (\<lambda>s. 0 \<le> s \<and> s < INF_SIZE) sizes"

lemma band_at_Nil [simp]: "band_at [] n = None"
  by (simp add: band_at_def)

lemma band_at_Cons [simp]:
  "band_at ((lo, hi, w) # bs) n = (if lo \<le> n \<and> n < hi then Some w else band_at bs n)"
  by (simp add: band_at_def)

lemma bands_loop_first:
  "sizes_ok (map fst xs) \<Longrightarrow> xs \<noteq> [] \<Longrightarrow> lo \<le> n \<Longrightarrow> n \<le> fst (hd xs) \<Longrightarrow>
   band_at (bands_loop xs lo) n = Some (snd (hd xs))"
proof (induction xs lo rule: bands_loop.induct)
  case (3 s w s' w' rest lo)
  have "s < s'" "sizes_ok (map fst ((s', w') # rest))" using "3.prems"(1) by (auto simp: sizes_ok_def)
  then show ?case using 3 cross_between[of s s'] by (cases "w' = w") auto
qed (auto simp: sizes_ok_def)

lemma bands_loop_at:
  "sizes_ok (map fst xs) \<Longrightarrow> lo \<le> fst (hd xs) \<Longrightarrow> i < length xs \<Longrightarrow>
   band_at (bands_loop xs lo) (fst (xs ! i)) = Some (snd (xs ! i))"
proof (induction xs lo arbitrary: i rule: bands_loop.induct)
  case (3 s w s' w' rest lo)
  have ss: "s < s'" and ok: "sizes_ok (map fst ((s', w') # rest))" using "3.prems"(1) by (auto simp: sizes_ok_def)
  show ?case
  proof (cases i)
    case 0
    with "3.prems" bands_loop_first[of "(s, w) # (s', w') # rest" lo s] show ?thesis by simp
  next
    case (Suc j)
    have ge: "s' \<le> fst (((s', w') # rest) ! j)"
      using ok "3.prems"(3) Suc by (cases j) (auto simp: sizes_ok_def intro!: less_imp_le dest: bspec[OF _ nth_mem])
    with 3 Suc ok ss cross_between[OF ss] show ?thesis by (cases "w' = w") auto
  qed
qed (auto simp: sizes_ok_def)

lemma bands_loop_covers:
  "sizes_ok (map fst xs) \<Longrightarrow> xs \<noteq> [] \<Longrightarrow> lo \<le> fst (hd xs) \<Longrightarrow> lo \<le> n \<Longrightarrow> n < INF_SIZE \<Longrightarrow>
   band_at (bands_loop xs lo) n \<noteq> None"
proof (induction xs lo rule: bands_loop.induct)
  case (3 s w s' w' rest lo)
  have ss: "s < s'" and ok: "sizes_ok (map fst ((s', w') # rest))" using "3.prems"(1) by (auto simp: sizes_ok_def)
  with 3 cross_between[OF ss] show ?case by (cases "w' = w") auto
qed auto

lemma bands_loop_specs: "b \<in> set (bands_loop xs lo) \<Longrightarrow> snd (snd b) \<in> set (map snd xs)"
  by (induction xs lo rule: bands_loop.induct) (auto split: if_splits)

lemma rmap_nth: "rmap f xs = Inr ys \<Longrightarrow> i < length xs \<Longrightarrow> f (xs ! i) = Inr (ys ! i)"
  by (induction xs arbitrary: ys i) (auto simp: rbind_eq_Inr nth_Cons split: nat.splits)

lemma build_bandsD:
  assumes "build_bands sizes tab margin = Inr bs"
  obtains ws where "length ws = length sizes" "\<And>i. i < length sizes \<Longrightarrow> winner tab margin i = Inr (ws ! i)"
    "bs = bands_loop (zip sizes ws) 0"
proof -
  from assms obtain ws where ws: "rmap (winner tab margin) [0..<length sizes] = Inr ws"
    and bs: "bs = bands_loop (zip sizes ws) 0" by (auto simp: build_bands_def rbind_eq_Inr)
  have "length ws = length sizes" using rmap_length[OF ws] by simp
  moreover have "winner tab margin i = Inr (ws ! i)" if "i < length sizes" for i
    using rmap_nth[OF ws, of i] that by simp
  ultimately show thesis using that bs by blast
qed

text \<open>A candidate beats the default at a size when its time is below the margin.\<close>

definition beats :: "timing \<Rightarrow> rat \<Rightarrow> nat \<Rightarrow> string \<Rightarrow> bool" where
  "beats tab margin i c \<longleftrightarrow> c \<noteq> ''default'' \<and> c \<in> set (dict_keys tab) \<and> cell_at tab ''default'' i \<noteq> Inf \<and>
     cell_at tab c i < us_scale (1 - margin) (cell_at tab ''default'' i)"

lemma candidate_times:
  assumes "dict_ok tab" and "rmap (\<lambda>(c, row). rbind (row_at row i) (\<lambda>t. Inr (t, c))) xs = Inr ts"
    and "\<And>x. x \<in> set xs \<Longrightarrow> x \<in> set tab"
  shows "ts = map (\<lambda>(c, _). (cell_at tab c i, c)) xs"
  using assms(2,3)
proof (induction xs arbitrary: ts)
  case (Cons x xs)
  obtain c row where x: "x = (c, row)" by (cases x)
  have "cell_at tab c i = row ! i"
    using assms(1) Cons.prems(2)[of x] x by (simp add: cell_at_def dict_or_def dict_ok_def)
  with Cons x show ?case by (auto simp: rbind_eq_Inr row_at_def split: if_splits)
qed simp

lemma winner_spec:
  assumes w: "winner tab margin i = Inr w" and ok: "dict_ok tab"
  shows "if w = ''default'' then \<forall>c. \<not> beats tab margin i c
     else beats tab margin i w \<and> (\<forall>c \<in> set (dict_keys tab) - {''default''}. cell_at tab w i \<le> cell_at tab c i)"
proof -
  from w obtain row where row: "map_of tab ''default'' = Some row" "i < length row"
    by (auto simp: winner_def rbind_eq_Inr row_at_def split: option.splits if_splits)
  have base: "cell_at tab ''default'' i = row ! i" using row by (simp add: cell_at_def dict_or_def)
  show ?thesis
  proof (cases "row ! i = Inf")
    case True
    with w row have "w = ''default''" by (simp add: winner_def row_at_def)
    with True base show ?thesis by (simp add: beats_def)
  next
    case False
    let ?xs = "filter (\<lambda>(c, _). c \<noteq> ''default'') tab"
    let ?f = "\<lambda>(c, row). rbind (row_at row i) (\<lambda>t. Inr (t, c))"
    from w row False obtain ts where ts: "rmap ?f ?xs = Inr ts"
      and w': "Inr w = (let (t, c) = (if ts = [] then (Inf, ''default'') else Min (set ts))
                 in Inr (if t < us_scale (1 - margin) (row ! i) then c else ''default'') :: string res)"
      by (auto simp: winner_def row_at_def rbind_eq_Inr)
    have ts_eq: "ts = map (\<lambda>(c, _). (cell_at tab c i, c)) ?xs" by (rule candidate_times[OF ok ts]) simp
    have keys: "c \<in> set (dict_keys tab) \<and> c \<noteq> ''default'' \<longleftrightarrow> (cell_at tab c i, c) \<in> set ts" for c
      unfolding ts_eq by (force simp: image_iff)
    show ?thesis
    proof (cases "ts = []")
      case True
      with w' have "w = ''default''" by (auto split: if_splits)
      moreover have "\<not> beats tab margin i c" for c using keys[of c] True by (auto simp: beats_def)
      ultimately show ?thesis by simp
    next
      case ne: False
      obtain t c where tc: "Min (set ts) = (t, c)" by fastforce
      have mem: "(t, c) \<in> set ts" using Min_in[of "set ts"] ne tc by simp
      then have t: "t = cell_at tab c i" and c: "c \<noteq> ''default''" unfolding ts_eq by auto
      have least: "cell_at tab c i \<le> cell_at tab d i" if "(cell_at tab d i, d) \<in> set ts" for d
      proof -
        have "Min (set ts) \<le> (cell_at tab d i, d)" using that by simp
        then show ?thesis unfolding tc t by (auto simp: less_eq_prod_def intro: less_imp_le)
      qed
      show ?thesis
      proof (cases "t < us_scale (1 - margin) (row ! i)")
        case True
        with w' ne tc have "w = c" by simp
        with True t c keys[of c] mem least base False show ?thesis
          by (auto simp: beats_def keys[symmetric])
      next
        case no: False
        with w' ne tc have "w = ''default''" by simp
        moreover have "\<not> beats tab margin i d" for d
        proof
          assume b: "beats tab margin i d"
          then have "(cell_at tab d i, d) \<in> set ts" using keys[of d] by (simp add: beats_def)
          from least[OF this] b no t base show False by (auto simp: beats_def)
        qed
        ultimately show ?thesis by simp
      qed
    qed
  qed
qed

section \<open>One rank and the group\<close>

text \<open>What two ranks share: the calls they made, the number of agreements, table and communicators.\<close>

definition same_view :: "tune_st \<Rightarrow> tune_st \<Rightarrow> bool" where
  "same_view a b \<longleftrightarrow> length (ts_sent a) = length (ts_sent b) \<and> ts_calls a = ts_calls b \<and>
     ts_table a = ts_table b \<and> ts_comms a = ts_comms b"

lemma same_view_init1: "same_view a b \<Longrightarrow> same_view (tune_init1 io rep bud s a) (tune_init1 io' rep bud s b)"
  by (simp add: same_view_def tune_init1_def agree_def Let_def)

lemma same_view_inits:
  "same_view a b \<Longrightarrow> same_view (fold (tune_init1 io rep bud) ss a) (fold (tune_init1 io' rep bud) ss b)"
  by (induction ss arbitrary: a b) (simp_all add: same_view_init1)

lemma same_view_cell:
  assumes "same_view a b"
    and "tune_cell io rep bud m i n s (live, a) = (stop, l1, a')"
    and "tune_cell io' rep bud m i n s (live, b) = (stop', l2, b')"
  shows "stop' = stop \<and> l2 = l1 \<and> same_view a' b'"
  using assms by (auto simp: tune_cell_def same_view_def agree_def Let_def split: if_splits prod.splits option.splits)

lemma same_view_row:
  "same_view a b \<Longrightarrow> tune_row io rep bud m i n ss (live, a) = (stop, l1, a') \<Longrightarrow>
   tune_row io' rep bud m i n ss (live, b) = (stop', l2, b') \<Longrightarrow> stop' = stop \<and> l2 = l1 \<and> same_view a' b'"
proof (induction ss arbitrary: live a b)
  case (Cons s ss)
  obtain st la a1 where ca: "tune_cell io rep bud m i n s (live, a) = (st, la, a1)" by (metis prod_cases3)
  obtain st2 lb b1 where cb: "tune_cell io' rep bud m i n s (live, b) = (st2, lb, b1)" by (metis prod_cases3)
  from same_view_cell[OF Cons.prems(1) ca cb] Cons.prems(2,3) ca cb Cons.IH show ?case
    by (auto simp: Let_def split: if_splits)
qed simp

lemma same_view_sizes:
  "same_view a b \<Longrightarrow> tune_sizes io rep bud pr m i ns (live, a) = (r, a') \<Longrightarrow>
   tune_sizes io' rep bud pr m i ns (live, b) = (r', b') \<Longrightarrow> r' = r \<and> same_view a' b'"
proof (induction ns arbitrary: i live a b)
  case (Cons n ns)
  obtain st la a1 where ca: "tune_row io rep bud m i n live (live, a) = (st, la, a1)" by (metis prod_cases3)
  obtain st2 lb b1 where cb: "tune_row io' rep bud m i n live (live, b) = (st2, lb, b1)" by (metis prod_cases3)
  have tab: "same_view a1 b1 \<Longrightarrow> ts_table b1 = ts_table a1" by (simp add: same_view_def)
  from same_view_row[OF Cons.prems(1) ca cb] Cons.prems(2,3) ca cb Cons.IH tab show ?case
    by (auto simp: Let_def split: if_splits)
qed simp

lemma autotune_same_view:
  assumes "autotune io rep budget prune cs sizes = (r, st)"
    and "autotune io' rep budget prune cs sizes = (r', st')"
  shows "r' = r \<and> same_view st st'"
proof -
  let ?a = "fold (tune_init1 io rep (Us budget)) cs (tune_start cs (length sizes))"
  let ?b = "fold (tune_init1 io' rep (Us budget)) cs (tune_start cs (length sizes))"
  have v: "same_view ?a ?b" by (rule same_view_inits) (simp add: same_view_def)
  then have c: "ts_comms ?b = ts_comms ?a" by (simp add: same_view_def)
  let ?live = "filter (\<lambda>c. c \<in> set (ts_comms ?a)) cs"
  from assms(1) have s1: "tune_sizes io rep (Us budget) prune (length sizes) 0 sizes (?live, ?a) = (r, st)"
    by (simp add: autotune_def Let_def)
  from assms(2) have s2: "tune_sizes io' rep (Us budget) prune (length sizes) 0 sizes (?live, ?b) = (r', st')"
    by (simp add: autotune_def Let_def c)
  from same_view_sizes[OF v s1 s2] show ?thesis .
qed

text \<open>The answers are maxima: none lies below what this rank sent.\<close>

definition max_of_sent :: "(nat \<Rightarrow> us list) \<Rightarrow> us list list \<Rightarrow> bool" where
  "max_of_sent rep sent \<longleftrightarrow> (\<forall>n < length sent. list_all2 (\<le>) (sent ! n) (rep n))"

lemma max_of_sent_append: "max_of_sent rep (xs @ ys) \<Longrightarrow> max_of_sent rep xs"
  by (auto simp: max_of_sent_def nth_append split: if_splits)

lemma max_of_sent_at: "max_of_sent rep (xs @ v # ys) \<Longrightarrow> list_all2 (\<le>) v (rep (length xs))"
  by (auto simp: max_of_sent_def dest: spec[of _ "length xs"])

lemma tune_cell_sent:
  "tune_cell io rep bud m i n s (live, st) = (stop, live', st') \<Longrightarrow> \<exists>v. ts_sent st' = ts_sent st @ [v]"
  by (auto simp: tune_cell_def agree_def Let_def split: if_splits prod.splits option.splits)

lemma tune_row_sent:
  "tune_row io rep bud m i n ss (live, st) = (stop, live', st') \<Longrightarrow> \<exists>vs. ts_sent st' = ts_sent st @ vs"
proof (induction ss arbitrary: live st)
  case (Cons s ss)
  obtain b l st1 where c: "tune_cell io rep bud m i n s (live, st) = (b, l, st1)" by (metis prod_cases3)
  with tune_cell_sent[OF this] Cons show ?case by (fastforce simp: Let_def split: if_splits)
qed simp

lemma tune_sizes_sent:
  "tune_sizes io rep bud pr m i ns (live, st) = (r, st') \<Longrightarrow> \<exists>vs. ts_sent st' = ts_sent st @ vs"
proof (induction ns arbitrary: i live st)
  case (Cons n ns)
  obtain b l st1 where c: "tune_row io rep bud m i n live (live, st) = (b, l, st1)" by (metis prod_cases3)
  with tune_row_sent[OF this] Cons show ?case by (fastforce simp: Let_def split: if_splits)
qed simp

text \<open>A candidate this rank failed to measure is out of the running with a row of infinities.\<close>

definition failed_out :: "rank_io \<Rightarrow> nat \<Rightarrow> string list \<Rightarrow> tune_st \<Rightarrow> bool" where
  "failed_out io m live st \<longleftrightarrow> distinct live \<and> dict_ok (ts_table st) \<and>
     (\<forall>s n. Measure s n \<in> set (ts_calls st) \<and> io_meas io s n = None \<and> s \<noteq> ''default'' \<longrightarrow>
        s \<notin> set live \<and> map_of (ts_table st) s = Some (replicate m Inf))"

lemma failed_out_cell:
  assumes inv: "failed_out io m live st" and s: "s \<in> set live"
    and c: "tune_cell io rep bud m i n s (live, st) = (stop, live', st')" and mx: "max_of_sent rep (ts_sent st')"
  shows "failed_out io m live' st' \<and> set live - {s} \<subseteq> set live'"
proof -
  define r where "r = rep (length (ts_sent st))"
  from tune_cell_sent[OF c] obtain v where v: "ts_sent st' = ts_sent st @ [v]" by blast
  have "list_all2 (\<le>) v r" using max_of_sent_at[of rep "ts_sent st" v "[]"] mx v by (simp add: r_def)
  moreover have "v = (case io_meas io s n of Some t \<Rightarrow> [Us t, Us 0, clock_now io st] | None \<Rightarrow> [Inf, Us 1, clock_now io st])"
    using c v by (auto simp: tune_cell_def agree_def Let_def clock_now_def split: if_splits prod.splits option.splits)
  ultimately have bad: "io_meas io s n = None \<Longrightarrow> r ! 1 \<noteq> Us 0"
    by (auto simp: list_all2_conv_all_nth dest!: spec[of _ 1])
  have old: "Measure s k \<in> set (ts_calls st) \<Longrightarrow> io_meas io s k = None \<Longrightarrow> s = ''default''" for k
    using inv s unfolding failed_out_def by metis
  from c have calls: "ts_calls st' = ts_calls st @ [Measure s n, Agree 3]"
    and out: "(live', ts_table st') =
      (if r ! 1 \<noteq> Us 0 \<and> s \<noteq> ''default'' then (remove1 s live, AList.update s (replicate m Inf) (ts_table st))
       else if r ! 1 = Us 0 then (live, AList.update s ((dict_or (ts_table st) s [])[i := r ! 0]) (ts_table st))
       else (live, ts_table st))"
    by (auto simp: tune_cell_def agree_def Let_def r_def split: if_splits prod.splits option.splits)
  have d: "distinct live" using inv by (simp add: failed_out_def)
  show ?thesis
    using inv out calls bad old d
    by (cases "r ! 1 \<noteq> Us 0 \<and> s \<noteq> ''default''"; cases "r ! 1 = Us 0")
      (auto simp: failed_out_def dict_simps)
qed

lemma failed_out_row:
  "failed_out io m live st \<Longrightarrow> set ss \<subseteq> set live \<Longrightarrow> distinct ss \<Longrightarrow>
   tune_row io rep bud m i n ss (live, st) = (stop, live', st') \<Longrightarrow> max_of_sent rep (ts_sent st') \<Longrightarrow>
   failed_out io m live' st'"
proof (induction ss arbitrary: live st)
  case (Cons s ss)
  obtain b l st1 where c: "tune_cell io rep bud m i n s (live, st) = (b, l, st1)" by (metis prod_cases3)
  have "\<exists>vs. ts_sent st' = ts_sent st1 @ vs"
    using Cons.prems(4) c tune_row_sent by (fastforce simp: Let_def split: if_splits)
  then have mx: "max_of_sent rep (ts_sent st1)" using Cons.prems(5) max_of_sent_append by metis
  have s: "s \<in> set live" using Cons.prems(2) by simp
  from failed_out_cell[OF Cons.prems(1) s c mx] have f: "failed_out io m l st1" and sub: "set live - {s} \<subseteq> set l"
    by simp_all
  show ?case
  proof (cases b)
    case True
    with Cons.prems(4) c f show ?thesis by simp
  next
    case False
    have "set ss \<subseteq> set l" "distinct ss" using sub Cons.prems(2,3) by auto
    moreover have "tune_row io rep bud m i n ss (l, st1) = (stop, live', st')" using Cons.prems(4) c False by simp
    ultimately show ?thesis using Cons.IH[OF f] Cons.prems(5) by blast
  qed
qed simp

lemma failed_out_prune: "failed_out io m live st \<Longrightarrow> failed_out io m (prune_live pr tab i live) st"
  by (auto simp: failed_out_def prune_live_def Let_def)

lemma failed_out_sizes:
  "failed_out io m live st \<Longrightarrow> tune_sizes io rep bud pr m i ns (live, st) = (r, st') \<Longrightarrow>
   max_of_sent rep (ts_sent st') \<Longrightarrow> \<exists>live'. failed_out io m live' st'"
proof (induction ns arbitrary: i live st)
  case (Cons n ns)
  obtain b l st1 where c: "tune_row io rep bud m i n live (live, st) = (b, l, st1)" by (metis prod_cases3)
  have "\<exists>vs. ts_sent st' = ts_sent st1 @ vs"
    using Cons.prems(2) c tune_sizes_sent by (fastforce simp: Let_def split: if_splits)
  then have mx: "max_of_sent rep (ts_sent st1)" using Cons.prems(3) max_of_sent_append by metis
  have "distinct live" using Cons.prems(1) by (simp add: failed_out_def)
  then have f: "failed_out io m l st1" using failed_out_row[OF Cons.prems(1) subset_refl _ c mx] by blast
  show ?case
  proof (cases "b \<or> l = []")
    case True
    with Cons.prems(2) c f show ?thesis by (auto split: if_splits)
  next
    case False
    with Cons.prems(2) c have "tune_sizes io rep bud pr m (Suc i) ns (prune_live pr (ts_table st1) i l, st1) = (r, st')"
      by simp
    from Cons.IH[OF failed_out_prune[OF f] this Cons.prems(3)] show ?thesis .
  qed
qed auto

definition no_measure :: "tune_st \<Rightarrow> bool" where
  "no_measure st \<longleftrightarrow> dict_ok (ts_table st) \<and> (\<forall>s n. Measure s n \<notin> set (ts_calls st))"

lemma no_measure_inits: "no_measure st \<Longrightarrow> no_measure (fold (tune_init1 io rep bud) ss st)"
proof (induction ss arbitrary: st)
  case (Cons s ss)
  have "no_measure (tune_init1 io rep bud s st)"
    using Cons.prems by (auto simp: no_measure_def tune_init1_def agree_def Let_def)
  with Cons.IH show ?case by simp
qed simp

lemma autotune_failed_out:
  assumes "autotune io rep budget prune cs sizes = (r, st)" and "distinct cs" and "max_of_sent rep (ts_sent st)"
  shows "\<exists>live. failed_out io (length sizes) live st"
proof -
  let ?a = "fold (tune_init1 io rep (Us budget)) cs (tune_start cs (length sizes))"
  let ?live = "filter (\<lambda>c. c \<in> set (ts_comms ?a)) cs"
  have "no_measure ?a" by (rule no_measure_inits) (simp add: no_measure_def tune_start_def)
  then have f: "failed_out io (length sizes) ?live ?a" using assms(2) by (auto simp: no_measure_def failed_out_def)
  have "tune_sizes io rep (Us budget) prune (length sizes) 0 sizes (?live, ?a) = (r, st)"
    using assms(1) by (simp add: autotune_def Let_def)
  from failed_out_sizes[OF f this assms(3)] show ?thesis .
qed

lemma infinite_row_not_chosen:
  assumes "build_bands sizes tab margin = Inr bs" and "map_of tab s = Some (replicate (length sizes) Inf)"
    and "s \<noteq> ''default''" and "dict_ok tab"
  shows "s \<notin> set (map (\<lambda>(_, _, s). s) bs)"
proof
  assume "s \<in> set (map (\<lambda>(_, _, s). s) bs)"
  from assms(1) obtain ws where ws: "length ws = length sizes"
    "\<And>i. i < length sizes \<Longrightarrow> winner tab margin i = Inr (ws ! i)" "bs = bands_loop (zip sizes ws) 0"
    by (rule build_bandsD) blast
  have "s \<in> set ws"
    using \<open>s \<in> _\<close> bands_loop_specs[of _ "zip sizes ws" 0] ws(1,3) by fastforce
  then obtain i where i: "i < length sizes" "ws ! i = s" using ws(1) by (auto simp: in_set_conv_nth)
  have "beats tab margin i s" using winner_spec[OF ws(2)[OF i(1)] assms(4)] i(2) assms(3) by simp
  moreover have "cell_at tab s i = Inf" using assms(2) i(1) by (simp add: cell_at_def dict_or_def)
  ultimately show False by (simp add: beats_def)
qed

section \<open>Routes outside the tensor-parallel group\<close>

lemma map_of_restore:
  "distinct (map fst saved) \<Longrightarrow>
   map_of (restore_env saved e) k = (case map_of saved k of None \<Rightarrow> map_of e k | Some v \<Rightarrow> v)"
proof (induction saved arbitrary: e)
  case (Cons kv saved)
  obtain k' v where kv: "kv = (k', v)" by (cases kv)
  with Cons.prems have new: "map_of saved k' = None" by (simp add: map_of_eq_None_iff)
  have "restore_env (kv # saved) e =
      restore_env saved (case v of None \<Rightarrow> AList.delete k' e | Some x \<Rightarrow> AList.update k' x e)"
    by (simp add: restore_env_def kv)
  with Cons kv new show ?case by (cases v) (auto simp: dict_simps split: option.splits)
qed (simp add: restore_env_def)

lemma spec_env_keys: "spec_env spec = Inr vars \<Longrightarrow> distinct (map fst vars)"
  by (auto simp: spec_env_def split: if_splits prod.splits)

text \<open>Whatever a construction does, every variable has its value back afterwards.\<close>

lemma make_comm_keeps_env: "map_of (snd (make_comm host_ar pynccl disabled spec e)) k = map_of e k"
proof (cases "spec \<in> set HAR_SPECS \<or> isl (spec_env spec)")
  case True
  then show ?thesis by (auto simp: make_comm_def split: sum.split)
next
  case False
  then obtain vars where vars: "spec_env spec = Inr vars" by (cases "spec_env spec") auto
  let ?saved = "map (\<lambda>(k, _). (k, map_of e k)) vars"
  have d: "distinct (map fst ?saved)" using spec_env_keys[OF vars] by (simp add: case_prod_unfold comp_def)
  have r: "snd (make_comm host_ar pynccl disabled spec e) = restore_env ?saved (dict_updates e vars)"
    using False vars by (simp add: make_comm_def with_env_def Let_def split: prod.split)
  have "map_of ?saved k = (if k \<in> fst ` set vars then Some (map_of e k) else None)"
    by (induction vars) auto
  moreover have "k \<notin> fst ` set vars \<Longrightarrow> map_of (dict_updates e vars) k = map_of e k"
    by (rule map_of_updates_other)
  ultimately show ?thesis unfolding r map_of_restore[OF d] by simp
qed

lemma make_all_mem:
  "make_all mk ss comms = Inr comms' \<Longrightarrow> map_of comms' s = Some c \<Longrightarrow>
   map_of comms s = Some c \<or> (s \<in> set ss \<and> mk s = Inr c)"
  by (induction ss arbitrary: comms) (fastforce simp: rbind_eq_Inr dict_simps split: if_splits)+

lemma no_har_specs: "(lo, hi, s) \<in> set (no_har bands) \<Longrightarrow> s \<notin> set HAR_SPECS"
  by (auto simp: no_har_def HAR_SPECS_def split: if_splits)

lemma routes_from_specs:
  assumes "build_routes comms bands = Inr routes" and "(lo, hi, c) \<in> set routes"
  shows "\<exists>s. (lo, hi, s) \<in> set bands \<and> s \<noteq> ''default'' \<and> map_of comms s = Some c"
  using rmap_all[OF assms(1)[unfolded build_routes_def] assms(2)] by (auto split: option.splits)

section \<open>Properties\<close>

text \<open>Every measured size is sent where the table says. The bands built from a table route each
  measured size to the default when no candidate beats it by more than the margin, and otherwise to
  a candidate that does and that no other candidate undercuts; and every size has a band.\<close>

theorem measured_size_gets_winner:
  assumes "build_bands sizes tab margin = Inr bs" and "sizes_ok sizes" and "dict_ok tab" and "i < length sizes"
  shows "(\<exists>w. band_at bs (sizes ! i) = Some w \<and>
       (if w = ''default'' then \<forall>c. \<not> beats tab margin i c
        else beats tab margin i w \<and> (\<forall>c \<in> set (dict_keys tab) - {''default''}. cell_at tab w i \<le> cell_at tab c i))) \<and>
     (\<forall>n. 0 \<le> n \<and> n < INF_SIZE \<longrightarrow> band_at bs n \<noteq> None)"
proof -
  from assms(1) obtain ws where len: "length ws = length sizes"
    and ws: "\<And>i. i < length sizes \<Longrightarrow> winner tab margin i = Inr (ws ! i)"
    and bs: "bs = bands_loop (zip sizes ws) 0" by (rule build_bandsD) blast
  have ok: "sizes_ok (map fst (zip sizes ws))" using assms(2) len by simp
  have ne: "zip sizes ws \<noteq> []" using assms(4) len by auto
  have "fst (hd (zip sizes ws)) \<in> set sizes" using ne by (metis in_set_zipE list.set_sel(1) prod.collapse)
  then have lo: "0 \<le> fst (hd (zip sizes ws))" using assms(2) by (auto simp: sizes_ok_def list_all_iff)
  have "band_at bs (sizes ! i) = Some (ws ! i)" using bands_loop_at[OF ok lo, of i] assms(4) len bs by simp
  with winner_spec[OF ws[OF assms(4)] assms(3)] bands_loop_covers[OF ok ne lo] bs show ?thesis by auto
qed

definition demo_table :: timing where
  "demo_table = [(''default'', [Us 10, Us 40]), (''har'', [Us 12, Us 20]), (''har2'', [Inf, Us 30])]"

lemma demo_build: "build_bands [16384, 65536] demo_table (1 / 20) = Inr [(0, 32768, ''default''), (32768, INF_SIZE, ''har'')]"
  by code_simp

lemma measured_size_gets_winner_witness:
  "beats demo_table (1 / 20) 1 ''har'' \<and> band_at [(0, 32768, ''default''), (32768, INF_SIZE, ''har'')] 40000 \<noteq> None"
proof -
  have "sizes_ok [16384, 65536]" by (simp add: sizes_ok_def INF_SIZE_def)
  moreover have "dict_ok demo_table" by (simp add: demo_table_def dict_ok_def)
  ultimately show ?thesis
    using measured_size_gets_winner[OF demo_build, of 1] by (auto simp: INF_SIZE_def split: if_splits)
qed

text \<open>C20: all ranks of the group issue the same sequence of constructions, measurements and agreements,
  end the same way and hold the same table and the same communicators, whatever each of them
  meets locally: exceptions, times and clocks differ, but no decision reads them.\<close>

theorem autotune_same_on_all_ranks:
  assumes "autotune io rep budget prune cs sizes = (r, st)"
    and "autotune io' rep budget prune cs sizes = (r', st')"
  shows "r' = r \<and> ts_calls st' = ts_calls st \<and> ts_table st' = ts_table st \<and> ts_comms st' = ts_comms st"
  using autotune_same_view[OF assms] by (simp add: same_view_def)

definition demo_rank :: "bool \<Rightarrow> rank_io" where
  "demo_rank ok = \<lparr>io_init = \<lambda>_. True, io_meas = \<lambda>s n. if ok \<or> s = ''default'' then Some 5 else None, io_clock = \<lambda>_. 0\<rparr>"

definition demo_rep :: "nat \<Rightarrow> us list" where
  "demo_rep n = (if n = 0 then [Us 0] else if n = 1 then [Us 0] else if n = 2 then [Us 5, Us 0, Us 0] else [Inf, Us 1, Us 0])"

lemma autotune_same_on_all_ranks_witness:
  "ts_table (snd (autotune (demo_rank True) demo_rep 20 4 [''default'', ''har''] [16384])) =
   ts_table (snd (autotune (demo_rank False) demo_rep 20 4 [''default'', ''har''] [16384]))"
proof -
  obtain r st where a: "autotune (demo_rank True) demo_rep 20 4 [''default'', ''har''] [16384] = (r, st)" by fastforce
  obtain r' st' where b: "autotune (demo_rank False) demo_rep 20 4 [''default'', ''har''] [16384] = (r', st')" by fastforce
  from autotune_same_on_all_ranks[OF a b] show ?thesis by (simp add: a b)
qed

text \<open>A candidate that raised on any rank during its measurement is chosen by no rank at any size,
  as long as the answers are the maxima of what the ranks sent.\<close>

theorem failed_candidate_never_chosen:
  assumes "autotune io rep budget prune cs sizes = (r, st)" and "autotune io' rep budget prune cs sizes = (r', st')"
    and "distinct cs" and "max_of_sent rep (ts_sent st')"
    and "Measure s n \<in> set (ts_calls st')" and "io_meas io' s n = None" and "s \<noteq> ''default''"
    and "build_bands sizes (ts_table st) margin = Inr bs"
  shows "s \<notin> set (map (\<lambda>(_, _, s). s) bs)"
proof -
  from autotune_failed_out[OF assms(2-4)] assms(5-7)
  have "map_of (ts_table st') s = Some (replicate (length sizes) Inf)" "dict_ok (ts_table st')"
    by (auto simp: failed_out_def)
  moreover have "ts_table st' = ts_table st" using autotune_same_view[OF assms(1,2)] by (simp add: same_view_def)
  ultimately show ?thesis using infinite_row_not_chosen[OF assms(8) _ assms(7)] by simp
qed

lemma failed_candidate_never_chosen_witness:
  "case build_bands [16384] (ts_table (snd (autotune (demo_rank True) demo_rep 20 4 [''default'', ''har''] [16384]))) (1 / 20) of
     Inr bs \<Rightarrow> ''har'' \<notin> set (map (\<lambda>(_, _, s). s) bs) | Inl _ \<Rightarrow> False"
proof -
  obtain r st where a: "autotune (demo_rank True) demo_rep 20 4 [''default'', ''har''] [16384] = (r, st)" by fastforce
  obtain r' st' where b: "autotune (demo_rank False) demo_rep 20 4 [''default'', ''har''] [16384] = (r', st')" by fastforce
  have "snd (autotune (demo_rank False) demo_rep 20 4 [''default'', ''har''] [16384]) =
      \<lparr>ts_sent = [[Us 0], [Us 0], [Us 5, Us 0, Us 0], [Inf, Us 1, Us 0]],
       ts_calls = [Agree 1, Make ''har'', Agree 1, Measure ''default'' 16384, Agree 3, Measure ''har'' 16384, Agree 3],
       ts_table = [(''default'', [Us 5]), (''har'', [Inf])], ts_comms = [''default'', ''har''],
       ts_errors = [(''har'', MeasHere 16384)]\<rparr>" by code_simp
  then have st': "st' = \<lparr>ts_sent = [[Us 0], [Us 0], [Us 5, Us 0, Us 0], [Inf, Us 1, Us 0]],
       ts_calls = [Agree 1, Make ''har'', Agree 1, Measure ''default'' 16384, Agree 3, Measure ''har'' 16384, Agree 3],
       ts_table = [(''default'', [Us 5]), (''har'', [Inf])], ts_comms = [''default'', ''har''],
       ts_errors = [(''har'', MeasHere 16384)]\<rparr>" using b by simp
  have mx: "max_of_sent demo_rep (ts_sent st')"
    unfolding st' by (simp add: max_of_sent_def demo_rep_def All_less_Suc numeral_eq_Suc)
  have "ts_table (snd (autotune (demo_rank True) demo_rep 20 4 [''default'', ''har''] [16384])) = [(''default'', [Us 5]), (''har'', [Inf])]"
    by code_simp
  then have tab: "ts_table st = [(''default'', [Us 5]), (''har'', [Inf])]" using a by simp
  have bb: "build_bands [16384] [(''default'', [Us 5]), (''har'', [Inf])] (1 / 20) = Inr [(0, INF_SIZE, ''default'')]"
    by code_simp
  from failed_candidate_never_chosen[OF a b _ mx, of "''har''" 16384 "1 / 20"] bb tab
  show ?thesis unfolding a by (simp add: st' demo_rank_def)
qed

text \<open>Only a tensor-parallel group uses the host all-reduce, which owns one shared buffer per node:
  on any other group no route leads to a communicator built for a host spec, and neither the host
  all-gather nor the quantised all-reduce is set.\<close>

theorem host_reduce_only_on_tp:
  assumes "comm_setup e g model tune mk make_qar bands tuning qar = Inr r" and "\<not> is_tp g"
  shows "r_hag r = None \<and> (case r_pick r of None \<Rightarrow> True | Some p \<Rightarrow> pk_qar p = None \<and>
     (\<forall>(lo, hi, c) \<in> set (pk_routes p). \<exists>s. s \<notin> set HAR_SPECS \<and> mk s = Inr c \<and> (lo, hi, s) \<in> set bands))"
proof (cases "g_default g = None \<or> g_world g \<le> 1 \<or> g_disabled g")
  case True
  with assms(1) show ?thesis by (auto simp: comm_setup_def split: option.splits)
next
  case False
  then obtain dflt where d: "g_default g = Some dflt" by auto
  with False assms obtain comms routes where
    c: "make_all mk (band_specs (no_har bands)) [(''default'', dflt)] = Inr comms"
    and ro: "build_routes comms (no_har bands) = Inr routes" and hag: "r_hag r = None"
    and p: "r_pick r = (if routes \<noteq> [] then Some \<lparr>pk_routes = routes, pk_qar = None, pk_qar_lo = 0,
        pk_qar_hi = INF_SIZE, pk_log = (g_rank g = 0)\<rparr> else None)"
    by (auto simp: comm_setup_def rbind_eq_Inr Let_def)
  have "\<exists>s. s \<notin> set HAR_SPECS \<and> mk s = Inr k \<and> (lo, hi, s) \<in> set bands" if "(lo, hi, k) \<in> set routes" for lo hi k
  proof -
    from routes_from_specs[OF ro that] obtain s where s: "(lo, hi, s) \<in> set (no_har bands)" "s \<noteq> ''default''"
      "map_of comms s = Some k" by blast
    from make_all_mem[OF c s(3)] s(2) have "mk s = Inr k" by simp
    moreover have "(lo, hi, s) \<in> set bands" using s(1,2) by (auto simp: no_har_def split: if_splits)
    ultimately show ?thesis using no_har_specs[OF s(1)] by blast
  qed
  with hag p show ?thesis by auto
qed

lemma host_reduce_only_on_tp_witness:
  "\<exists>s. s \<notin> set HAR_SPECS \<and> s = ''ring'' \<and> (1024 :: int, 4096 :: int, s) \<in> {(0, 1024, ''har''), (1024, 4096, ''ring'')}"
proof -
  let ?g = "\<lparr>g_world = 2, g_default = Some ''default'', g_disabled = False, g_name = ''ep:0'', g_rank = 1\<rparr>"
  have s: "comm_setup [] ?g None (\<lambda>_ _ _ _. Inl OtherError) (\<lambda>s. Inr s) (\<lambda>_ s. Inr s)
      [(0, 1024, ''har''), (1024, 4096, ''ring'')] True ''int8'' =
    Inr \<lparr>r_pick = Some \<lparr>pk_routes = [(1024, 4096, ''ring'')], pk_qar = None, pk_qar_lo = 0,
      pk_qar_hi = INF_SIZE, pk_log = False\<rparr>, r_hag = None\<rparr>" by code_simp
  have "\<not> is_tp ?g" by code_simp
  from host_reduce_only_on_tp[OF s this] show ?thesis by simp
qed

end
