(* ===== verification/Capture.thy ===== *)
theory Capture
  imports Prelude "HOL-Library.Word"
begin

text \<open>
  Capture of the drafter's inputs (\<open>suffix_hybrid/mtp_tune/capture.py\<close>): the pinned ring \<open>Arena\<close>,
  the staging slots, the class \<open>Store\<close> (\<open>enqueue\<close>, \<open>enqueue_drafts\<close>, \<open>flush\<close>, \<open>absorb\<close>, \<open>depart\<close>,
  \<open>_append\<close>, \<open>_emit\<close>, \<open>materialize\<close>, \<open>alive_windows\<close>) and the wrapper \<open>wrap_propose\<close>. A hidden row is a value of the
  type parameter \<open>'h\<close>. A device copy takes effect where it is issued; \<open>event.query()\<close> is an
  argument. The loop of \<open>_append\<close> is a \<open>partial_function\<close>: \<^const>\<open>None\<close> means it never ends.
\<close>

section \<open>The ring\<close>

record 'h arena =
  a_cap :: nat
  a_written :: nat
  a_h :: "'h list"
  a_tok :: "int list"
  a_pos :: "int list"
  a_d1 :: "int list"

definition reserve :: "nat \<Rightarrow> 'h arena \<Rightarrow> nat option \<times> 'h arena" where
  "reserve n a =
     (if a_cap a < n then (None, a)
      else let s = a_written a mod a_cap a;
               start = (if a_cap a < s + n then a_written a + (a_cap a - s) else a_written a)
           in (Some start, a\<lparr>a_written := start + n,
                 a_d1 := write_at (a_d1 a) (start mod a_cap a) (replicate n (- 1))\<rparr>))"

definition alive :: "'h arena \<Rightarrow> nat \<Rightarrow> bool" where
  "alive a c \<longleftrightarrow> a_written a \<le> c + a_cap a"

section \<open>State\<close>

record cap_cfg =
  cp_k :: nat
  cp_window :: nat
  cp_rate :: rat
  cp_ctx :: int
  cp_min_rows :: nat
  cp_max_rows :: nat
  cp_heldout :: int
  cp_cuda :: bool

definition cp_L :: "cap_cfg \<Rightarrow> nat" where
  "cp_L c = cp_window c + cp_k c + 1"

definition cp_min :: "cap_cfg \<Rightarrow> nat" where
  "cp_min c = max (cp_min_rows c) (cp_k c + 3)"

text \<open>An entry of a step: request, batch index, offset in the slot, rows, prompt length.\<close>

type_synonym entry = "rid \<times> nat \<times> nat \<times> nat \<times> int"

record 'h slot =
  s_h :: "'h list"
  s_tok :: "int list"
  s_pos :: "int list"
  s_rej_d :: "int list"
  s_rej :: "int list"
  s_d1_d :: "int list"
  s_d1 :: "int list"
  s_ev :: "nat option"
  s_entries :: "entry list"
  s_start :: nat
  s_total :: nat

record creq =
  q_rows :: "nat list"
  q_next :: "int option"
  q_plen :: int

record window =
  w_rows :: "nat list"
  w_plen :: int
  w_rid :: rid

record 'h cap =
  c_arena :: "'h arena"
  c_reqs :: "(rid, creq) dict"
  c_train :: "window list"
  c_held :: "window list"
  c_inflight :: "'h slot list"
  c_free :: "'h slot list"
  c_events :: nat
  n_rows :: nat
  n_over :: nat
  n_dropped :: nat
  n_gaps :: nat
  n_evicted :: nat
  n_held :: nat
  n_train :: nat

record 'h cbatch =
  cb_ids :: "rid list"
  cb_num :: nat
  cb_qsl :: "nat list"
  cb_comp :: "int list"
  cb_plen :: "int list"
  cb_hidden :: "'h list"
  cb_tok :: "int list"
  cb_pos :: "int list"
  cb_rej :: "int list"

definition slot_new :: "cap_cfg \<Rightarrow> 'h \<Rightarrow> 'h slot" where
  "slot_new c h = (let n = cp_max_rows c in
     \<lparr>s_h = replicate n h, s_tok = replicate n 0, s_pos = replicate n 0, s_rej_d = replicate n 0, s_rej = replicate n 0,
      s_d1_d = replicate n (- 1), s_d1 = replicate n (- 1), s_ev = None, s_entries = [], s_start = 0, s_total = 0\<rparr>)"

definition store_new :: "cap_cfg \<Rightarrow> nat \<Rightarrow> 'h \<Rightarrow> 'h cap" where
  "store_new c cap h =
     \<lparr>c_arena = \<lparr>a_cap = cap, a_written = 0, a_h = replicate cap h, a_tok = replicate cap 0, a_pos = replicate cap 0,
        a_d1 = replicate cap (- 1)\<rparr>,
      c_reqs = [], c_train = [], c_held = [], c_inflight = [], c_free = replicate 2 (slot_new c h), c_events = 0,
      n_rows = 0, n_over = 0, n_dropped = 0, n_gaps = 0, n_evicted = 0, n_held = 0, n_train = 0\<rparr>"

section \<open>Which requests\<close>

text \<open>\<open>zlib.crc32\<close>, bit by bit.\<close>

unbundle bit_operations_syntax

definition crc_bit :: "32 word \<Rightarrow> 32 word" where
  "crc_bit w = (if bit w 0 then drop_bit 1 w XOR 0xEDB88320 else drop_bit 1 w)"

definition crc_byte :: "32 word \<Rightarrow> char \<Rightarrow> 32 word" where
  "crc_byte w ch = (crc_bit ^^ 8) (w XOR of_char ch)"

definition crc32 :: "string \<Rightarrow> int" where
  "crc32 s = uint (NOT (foldl crc_byte 0xFFFFFFFF s))"

definition selected :: "cap_cfg \<Rightarrow> rid \<Rightarrow> bool" where
  "selected c r \<longleftrightarrow> of_int (crc32 r mod 10000) < cp_rate c * 10000"

definition heldout :: "cap_cfg \<Rightarrow> rid \<Rightarrow> bool" where
  "heldout c r \<longleftrightarrow> crc32 (CHR ''h'' # r) mod 100 < cp_heldout c"

section \<open>Staging a step\<close>

definition item_at :: "'a list \<Rightarrow> nat \<Rightarrow> 'a res" where
  "item_at xs i = (if i < length xs then Inr (xs ! i) else Inl IndexError)"

text \<open>The entries of a step, in batch order, with the rows that did not fit the staging buffer.\<close>

fun gather_entries :: "cap_cfg \<Rightarrow> 'h cbatch \<Rightarrow> (nat \<times> rid) list \<Rightarrow> entry list \<Rightarrow> nat \<Rightarrow> nat \<Rightarrow> (entry list \<times> nat \<times> nat) res" where
  "gather_entries c b [] es ntot over = Inr (es, ntot, over)"
| "gather_entries c b ((i, r) # rest) es ntot over =
     (if \<not> selected c r then gather_entries c b rest es ntot over
      else rbind (item_at (cb_qsl b) i) (\<lambda>qs. rbind (item_at (cb_qsl b) (Suc i)) (\<lambda>qe.
           rbind (item_at (cb_plen b) i) (\<lambda>plen. rbind (item_at (cb_comp b) i) (\<lambda>comp.
             let skip = max 0 (min (int qe - int qs) (plen - cp_ctx c - comp)); rows = int qe - int qs - skip
             in if rows \<le> 0 then gather_entries c b rest es ntot over
                else if int (cp_max_rows c) < int ntot + rows then gather_entries c b rest es ntot (over + nat rows)
                else gather_entries c b rest (es @ [(r, i, ntot, nat rows, plen)]) (ntot + nat rows) over)))))"

text \<open>The batch rows of an entry: the last \<open>rows\<close> query rows of its request.\<close>

definition src_rows :: "'h cbatch \<Rightarrow> entry \<Rightarrow> nat list" where
  "src_rows b = (\<lambda>(_, i, _, rows, _). let qe = cb_qsl b ! Suc i in [qe - rows..<qe])"

definition index_select :: "'a list \<Rightarrow> nat list \<Rightarrow> 'a list res" where
  "index_select xs idx = rmap (item_at xs) idx"

definition stage_slot :: "'h cbatch \<Rightarrow> entry list \<Rightarrow> nat \<Rightarrow> nat \<Rightarrow> 'h slot \<Rightarrow> 'h slot res" where
  "stage_slot b es start ntot s =
     (let idx = concat (map (src_rows b) es)
      in rbind (index_select (cb_hidden b) idx) (\<lambda>h. rbind (index_select (cb_tok b) idx) (\<lambda>tok.
         rbind (index_select (cb_pos b) idx) (\<lambda>pos. rbind (index_select (cb_rej b) (map (\<lambda>(_, i, _). i) es)) (\<lambda>rej.
           Inr (s\<lparr>s_entries := es, s_start := start, s_total := ntot, s_h := write_at (s_h s) 0 h,
                  s_tok := write_at (s_tok s) 0 tok, s_pos := write_at (s_pos s) 0 pos,
                  s_rej_d := write_at (s_rej_d s) 0 rej,
                  s_d1_d := write_at (s_d1_d s) 0 (replicate (length es) (- 1))\<rparr>))))))"

text \<open>Returns whether a slot was staged; it is then the last one in flight.\<close>

definition cap_enqueue :: "cap_cfg \<Rightarrow> 'h cbatch \<Rightarrow> 'h cap \<Rightarrow> bool res \<times> 'h cap" where
  "cap_enqueue c b st =
     (case gather_entries c b (enumerate 0 (take (cb_num b) (cb_ids b))) [] 0 0 of
        Inl e \<Rightarrow> (Inl e, st)
      | Inr (es, ntot, over) \<Rightarrow>
          let st1 = st\<lparr>n_over := n_over st + over\<rparr>
          in if es = [] then (Inr False, st1)
             else if c_free st1 = [] then (Inr False, st1\<lparr>n_dropped := Suc (n_dropped st1)\<rparr>)
             else (case reserve ntot (c_arena st1) of
                     (None, _) \<Rightarrow> (Inr False, st1)
                   | (Some start, a) \<Rightarrow>
                       let st2 = st1\<lparr>c_arena := a, c_free := butlast (c_free st1)\<rparr>
                       in (case stage_slot b es start ntot (last (c_free st1)) of
                             Inl e \<Rightarrow> (Inl e, st2)
                           | Inr s \<Rightarrow> (Inr True, st2\<lparr>c_inflight := c_inflight st2 @ [s], n_rows := n_rows st2 + ntot\<rparr>))))"

definition map_last :: "('a \<Rightarrow> 'a) \<Rightarrow> 'a list \<Rightarrow> 'a list" where
  "map_last f xs = (if xs = [] then [] else butlast xs @ [f (last xs)])"

text \<open>\<open>drafts\<close> is the inner call's result when it is a matrix.\<close>

definition enqueue_drafts :: "int list list option \<Rightarrow> 'h cap \<Rightarrow> unit res \<times> 'h cap" where
  "enqueue_drafts drafts st =
     (case drafts of
        None \<Rightarrow> (Inr (), st)
      | Some rows \<Rightarrow>
          (case rmap (\<lambda>(_, i, _). rbind (item_at rows i) (\<lambda>row. item_at row 0)) (s_entries (last (c_inflight st))) of
             Inl e \<Rightarrow> (Inl e, st)
           | Inr d \<Rightarrow> (Inr (), st\<lparr>c_inflight := map_last (\<lambda>s. s\<lparr>s_d1_d := write_at (s_d1_d s) 0 d\<rparr>) (c_inflight st)\<rparr>)))"

definition flush_slot :: "cap_cfg \<Rightarrow> nat \<Rightarrow> 'h slot \<Rightarrow> 'h slot" where
  "flush_slot c ev s = (let m = length (s_entries s) in
     s\<lparr>s_rej := write_at (s_rej s) 0 (take m (s_rej_d s)), s_d1 := write_at (s_d1 s) 0 (take m (s_d1_d s)),
       s_ev := (if cp_cuda c then Some ev else s_ev s)\<rparr>)"

definition flush_arena :: "'h slot \<Rightarrow> 'h arena \<Rightarrow> 'h arena" where
  "flush_arena s a = (let i = s_start s mod a_cap a; t = s_total s in
     a\<lparr>a_h := write_at (a_h a) i (take t (s_h s)), a_tok := write_at (a_tok a) i (take t (s_tok s)),
       a_pos := write_at (a_pos a) i (take t (s_pos s))\<rparr>)"

definition flush :: "cap_cfg \<Rightarrow> 'h cap \<Rightarrow> 'h cap" where
  "flush c st = st\<lparr>c_arena := flush_arena (last (c_inflight st)) (c_arena st),
     c_inflight := map_last (flush_slot c (c_events st)) (c_inflight st), c_events := Suc (c_events st)\<rparr>"

section \<open>Windows\<close>

definition evict_dead :: "'h arena \<Rightarrow> window list \<Rightarrow> window list" where
  "evict_dead a = dropWhile (\<lambda>w. \<not> alive a (hd (w_rows w)))"

definition emit :: "cap_cfg \<Rightarrow> rid \<Rightarrow> nat list \<Rightarrow> int \<Rightarrow> bool \<Rightarrow> 'h cap \<Rightarrow> 'h cap" where
  "emit c r rows plen final st =
     (if length rows < (if final then cp_min c else cp_L c) then st
      else let w = \<lparr>w_rows = rows, w_plen = plen, w_rid = r\<rparr>
           in if heldout c r
              then (let q = evict_dead (c_arena st) (c_held st @ [w])
                    in st\<lparr>c_held := q, n_held := Suc (n_held st),
                          n_evicted := n_evicted st + (Suc (length (c_held st)) - length q)\<rparr>)
              else (let q = evict_dead (c_arena st) (c_train st @ [w])
                    in st\<lparr>c_train := q, n_train := Suc (n_train st),
                          n_evicted := n_evicted st + (Suc (length (c_train st)) - length q)\<rparr>))"

partial_function (option) emit_full :: "cap_cfg \<Rightarrow> rid \<Rightarrow> int \<Rightarrow> nat list \<Rightarrow> 'h cap \<Rightarrow> (nat list \<times> 'h cap) option" where
  "emit_full c r plen rows st =
     (if length rows < cp_L c then Some (rows, st)
      else emit_full c r plen (drop (cp_L c - (cp_k c + 1)) rows) (emit c r (take (cp_L c) rows) plen False st))"

declare emit_full.simps [code]

definition append_rows :: "cap_cfg \<Rightarrow> rid \<Rightarrow> int \<Rightarrow> nat \<Rightarrow> nat \<Rightarrow> 'h cap \<Rightarrow> 'h cap option" where
  "append_rows c r plen c0 n st =
     (let first = a_pos (c_arena st) ! (c0 mod a_cap (c_arena st));
          fresh = \<lparr>q_rows = [], q_next = None, q_plen = plen\<rparr>;
          (q, st1) = (case map_of (c_reqs st) r of
              None \<Rightarrow> (fresh, st)
            | Some q \<Rightarrow> if q_next q = Some first then (q, st)
                else (fresh, emit c r (q_rows q) (q_plen q) True (st\<lparr>n_gaps := Suc (n_gaps st)\<rparr>)))
      in (case emit_full c r (q_plen q) (q_rows q @ [c0..<c0 + n]) st1 of
            None \<Rightarrow> None
          | Some (rows, st2) \<Rightarrow>
              Some (st2\<lparr>c_reqs := AList.update r \<lparr>q_rows = rows, q_next = Some (first + int n), q_plen = q_plen q\<rparr> (c_reqs st2)\<rparr>)))"

fun absorb_entries :: "cap_cfg \<Rightarrow> 'h slot \<Rightarrow> nat \<Rightarrow> entry list \<Rightarrow> 'h cap \<Rightarrow> 'h cap option" where
  "absorb_entries c s j [] st = Some st"
| "absorb_entries c s j ((r, _, off, rows, plen) # es) st =
     (let valid = nat (max 0 (int rows - s_rej s ! j)); c0 = s_start s + off
      in if valid = 0 then absorb_entries c s (Suc j) es st
         else let a = c_arena st;
                  st1 = (if 0 \<le> s_d1 s ! j
                         then st\<lparr>c_arena := a\<lparr>a_d1 := (a_d1 a)[(c0 + valid - 1) mod a_cap a := s_d1 s ! j]\<rparr>\<rparr> else st)
              in (case append_rows c r plen c0 valid st1 of None \<Rightarrow> None | Some st2 \<Rightarrow> absorb_entries c s (Suc j) es st2))"

text \<open>\<open>absorb\<close>: completed slots in order; \<open>ready\<close> answers \<open>event.query()\<close>.\<close>

fun absorb_slots :: "cap_cfg \<Rightarrow> (nat \<Rightarrow> bool) \<Rightarrow> 'h slot list \<Rightarrow> 'h cap \<Rightarrow> 'h cap option" where
  "absorb_slots c ready [] st = Some (st\<lparr>c_inflight := []\<rparr>)"
| "absorb_slots c ready (s # ss) st =
     (if (case s_ev s of Some e \<Rightarrow> \<not> ready e | None \<Rightarrow> False) then Some (st\<lparr>c_inflight := s # ss\<rparr>)
      else (case (if alive (c_arena st) (s_start s) then absorb_entries c s 0 (s_entries s) st else Some st) of
              None \<Rightarrow> None
            | Some st' \<Rightarrow> absorb_slots c ready ss (st'\<lparr>c_free := c_free st' @ [s\<lparr>s_ev := None\<rparr>]\<rparr>)))"

definition absorb :: "cap_cfg \<Rightarrow> (nat \<Rightarrow> bool) \<Rightarrow> 'h cap \<Rightarrow> 'h cap option" where
  "absorb c ready st = absorb_slots c ready (c_inflight st) st"

definition depart :: "cap_cfg \<Rightarrow> rid list \<Rightarrow> 'h cap \<Rightarrow> 'h cap" where
  "depart c ids st =
     (let live = set ids \<union> (\<Union>s \<in> set (c_inflight st). fst ` set (s_entries s))
      in fold (\<lambda>r st. case map_of (c_reqs st) r of
                None \<Rightarrow> st
              | Some q \<Rightarrow> emit c r (q_rows q) (q_plen q) True (st\<lparr>c_reqs := AList.delete r (c_reqs st)\<rparr>))
           (filter (\<lambda>r. r \<notin> live) (dict_keys (c_reqs st))) st)"

section \<open>Reading windows\<close>

record 'h sample =
  sm_h :: "'h list"
  sm_tok :: "int list"
  sm_pos :: "int list"
  sm_d1 :: "int list"
  sm_anchor :: "bool list"
  sm_rid :: rid

definition materialize :: "'h cap \<Rightarrow> window \<Rightarrow> 'h sample option" where
  "materialize st w =
     (let a = c_arena st; idx = map (\<lambda>c. c mod a_cap a) (w_rows w); pos = map (\<lambda>i. a_pos a ! i) idx
      in if \<not> alive a (hd (w_rows w)) then None
         else Some \<lparr>sm_h = map (\<lambda>i. a_h a ! i) idx, sm_tok = map (\<lambda>i. a_tok a ! i) idx, sm_pos = pos,
                    sm_d1 = map (\<lambda>i. a_d1 a ! i) idx, sm_anchor = map (\<lambda>p. w_plen w - 1 \<le> p) pos, sm_rid = w_rid w\<rparr>)"

definition alive_windows :: "bool \<Rightarrow> 'h cap \<Rightarrow> window list" where
  "alive_windows hold st = filter (\<lambda>w. alive (c_arena st) (hd (w_rows w))) (if hold then c_held st else c_train st)"

section \<open>The wrapper\<close>

text \<open>\<open>skip\<close> is a dummy, profiling or capturing call; \<open>inner\<close> the native result.\<close>

definition cap_propose :: "cap_cfg \<Rightarrow> (nat \<Rightarrow> bool) \<Rightarrow> bool \<Rightarrow> 'h cbatch \<Rightarrow> int list list option res \<Rightarrow> bool \<times> 'h cap \<Rightarrow>
    (int list list option res \<times> bool \<times> 'h cap) option" where
  "cap_propose c ready skip b inner = (\<lambda>(on, st).
     (case (if on \<and> \<not> skip
            then (case absorb c ready st of
                    None \<Rightarrow> None
                  | Some st1 \<Rightarrow> (case cap_enqueue c b (depart c (take (cb_num b) (cb_ids b)) st1) of
                      (Inl _, st2) \<Rightarrow> Some (False, False, st2)
                    | (Inr slot, st2) \<Rightarrow> Some (True, slot, st2)))
            else Some (on, False, st)) of
        None \<Rightarrow> None
      | Some (on1, slot, st2) \<Rightarrow>
          (case inner of
             Inl e \<Rightarrow> Some (Inl e, on1, st2)
           | Inr out \<Rightarrow>
               if slot
               then (case enqueue_drafts out st2 of
                       (Inl _, st3) \<Rightarrow> Some (Inr out, False, st3)
                     | (Inr _, st3) \<Rightarrow> Some (Inr out, on1, flush c st3))
               else Some (Inr out, on1, st2))))"

section \<open>Runs of captured rows\<close>

text \<open>The accepted rows of the steps so far by their ring counter: request, token, position, hidden row.\<close>

type_synonym 'h glog = "nat \<rightharpoonup> rid \<times> int \<times> int \<times> 'h"

definition accepted_rows :: "'h cbatch \<Rightarrow> entry \<Rightarrow> nat" where
  "accepted_rows b = (\<lambda>(_, i, _, rows, _). nat (max 0 (int rows - cb_rej b ! i)))"

definition log_step :: "'h cbatch \<Rightarrow> entry list \<Rightarrow> nat \<Rightarrow> 'h glog \<Rightarrow> 'h glog" where
  "log_step b es start G c =
     (if c < start then G c
      else (case find (\<lambda>e. let off = fst (snd (snd e)) in start + off \<le> c \<and> c < start + off + accepted_rows b e) es of
              None \<Rightarrow> None
            | Some e \<Rightarrow> let n = src_rows b e ! (c - start - fst (snd (snd e)))
                        in Some (fst e, cb_tok b ! n, cb_pos b ! n, cb_hidden b ! n)))"

definition run :: "'h glog \<Rightarrow> rid \<Rightarrow> nat list \<Rightarrow> int \<Rightarrow> bool" where
  "run G r rows p \<longleftrightarrow> sorted_wrt (<) rows \<and> (\<forall>j < length rows. \<exists>t h. G (rows ! j) = Some (r, t, p + int j, h))"

lemma run_Nil [simp]: "run G r [] p"
  by (simp add: run_def)

lemma run_take: "run G r rows p \<Longrightarrow> run G r (take n rows) p"
  by (simp add: run_def sorted_wrt_take)

lemma run_drop: "run G r rows p \<Longrightarrow> run G r (drop n rows) (p + int (min n (length rows)))"
proof (cases "n \<le> length rows")
  case True
  assume a: "run G r rows p"
  have "\<exists>t h. G (drop n rows ! j) = Some (r, t, p + int n + int j, h)" if "j < length rows - n" for j
  proof -
    have "n + j < length rows" using that by simp
    with a obtain t h where "G (rows ! (n + j)) = Some (r, t, p + int (n + j), h)" unfolding run_def by blast
    with True show ?thesis by (auto simp: add.assoc)
  qed
  with a True show ?thesis by (simp add: run_def sorted_wrt_drop)
qed simp

lemma run_append:
  assumes "run G r rows p" and "\<And>c. c \<in> set rows \<Longrightarrow> c < c0"
    and "\<And>m. m < n \<Longrightarrow> \<exists>t h. G (c0 + m) = Some (r, t, p + int (length rows) + int m, h)"
  shows "run G r (rows @ [c0..<c0 + n]) p"
proof -
  have "sorted_wrt (<) (rows @ [c0..<c0 + n])"
    using assms(1) by (auto simp: run_def sorted_wrt_append dest!: assms(2))
  moreover have "\<exists>t h. G ((rows @ [c0..<c0 + n]) ! j) = Some (r, t, p + int j, h)"
    if "j < length (rows @ [c0..<c0 + n])" for j
  proof (cases "j < length rows")
    case True
    with assms(1) show ?thesis by (auto simp: run_def nth_append)
  next
    case False
    with that assms(3)[of "j - length rows"] show ?thesis by (simp add: nth_append of_nat_diff)
  qed
  ultimately show ?thesis by (simp add: run_def)
qed

lemma run_mono: "run G r rows p \<Longrightarrow> G \<subseteq>\<^sub>m G' \<Longrightarrow> run G' r rows p"
  unfolding run_def map_le_def by (metis domI)

lemma run_hd_least: "run G r rows p \<Longrightarrow> c \<in> set rows \<Longrightarrow> hd rows \<le> c"
  by (cases rows) (auto simp: run_def)

section \<open>The invariant\<close>

definition arena_ok :: "'h glog \<Rightarrow> 'h arena \<Rightarrow> bool" where
  "arena_ok G a \<longleftrightarrow> length (a_h a) = a_cap a \<and> length (a_tok a) = a_cap a \<and> length (a_pos a) = a_cap a \<and>
     (\<forall>c r t p h. G c = Some (r, t, p, h) \<longrightarrow> c < a_written a \<and>
        (alive a c \<longrightarrow> a_tok a ! (c mod a_cap a) = t \<and> a_pos a ! (c mod a_cap a) = p \<and> a_h a ! (c mod a_cap a) = h))"

definition reqs_ok :: "'h glog \<Rightarrow> nat \<Rightarrow> 'h cap \<Rightarrow> bool" where
  "reqs_ok G n st \<longleftrightarrow> (\<forall>r q. map_of (c_reqs st) r = Some q \<longrightarrow>
     (\<forall>c \<in> set (q_rows q). c < n) \<and> (\<exists>p. run G r (q_rows q) p \<and> q_next q = Some (p + int (length (q_rows q)))))"

definition window_ok :: "cap_cfg \<Rightarrow> 'h glog \<Rightarrow> bool \<Rightarrow> window \<Rightarrow> bool" where
  "window_ok c G hold w \<longleftrightarrow> w_rows w \<noteq> [] \<and> heldout c (w_rid w) = hold \<and> (\<exists>p. run G (w_rid w) (w_rows w) p)"

definition windows_ok :: "cap_cfg \<Rightarrow> 'h glog \<Rightarrow> 'h cap \<Rightarrow> bool" where
  "windows_ok c G st \<longleftrightarrow> list_all (window_ok c G True) (c_held st) \<and> list_all (window_ok c G False) (c_train st)"

definition core_ok :: "cap_cfg \<Rightarrow> 'h glog \<Rightarrow> nat \<Rightarrow> 'h cap \<Rightarrow> bool" where
  "core_ok c G n st \<longleftrightarrow> arena_ok G (c_arena st) \<and> reqs_ok G n st \<and> windows_ok c G st"

text \<open>The fields that emitting and joining rows leave alone.\<close>

definition same_ring :: "'h cap \<Rightarrow> 'h cap \<Rightarrow> bool" where
  "same_ring st st' \<longleftrightarrow> a_cap (c_arena st') = a_cap (c_arena st) \<and> a_written (c_arena st') = a_written (c_arena st) \<and>
     a_pos (c_arena st') = a_pos (c_arena st) \<and> c_inflight st' = c_inflight st \<and> c_events st' = c_events st"

lemma same_ring_refl [simp]: "same_ring st st"
  by (simp add: same_ring_def)

lemma same_ring_trans: "same_ring a b \<Longrightarrow> same_ring b c \<Longrightarrow> same_ring a c"
  by (simp add: same_ring_def)

lemma cp_min_pos: "0 < cp_min c" "0 < cp_L c"
  by (simp_all add: cp_min_def cp_L_def)

lemma emit_fields [simp]:
  "c_arena (emit c r rows plen final st) = c_arena st" "c_reqs (emit c r rows plen final st) = c_reqs st"
  "c_inflight (emit c r rows plen final st) = c_inflight st" "c_events (emit c r rows plen final st) = c_events st"
  "c_free (emit c r rows plen final st) = c_free st"
  by (simp_all add: emit_def Let_def)

lemma evict_dead_ok: "list_all P ws \<Longrightarrow> list_all P (evict_dead a ws)"
  by (auto simp: evict_dead_def list_all_iff dest: set_dropWhileD)

lemma emit_ok:
  assumes "core_ok c G n st" and "run G r rows p"
  shows "core_ok c G n (emit c r rows plen final st)"
proof (cases "length rows < (if final then cp_min c else cp_L c)")
  case True
  with assms(1) show ?thesis by (simp add: emit_def)
next
  case False
  then have "rows \<noteq> []" using cp_min_pos[of c] by (auto split: if_splits)
  with assms(2) have "window_ok c G (heldout c r) \<lparr>w_rows = rows, w_plen = plen, w_rid = r\<rparr>"
    by (auto simp: window_ok_def)
  with assms(1) False show ?thesis
    by (auto simp: core_ok_def windows_ok_def reqs_ok_def emit_def Let_def intro!: evict_dead_ok)
qed

lemma emit_full_ok:
  assumes "0 < cp_window c" and "core_ok c G n st" and "run G r rows p"
  obtains rows' p' st' where "emit_full c r plen rows st = Some (rows', st')" "core_ok c G n st'" "run G r rows' p'"
    "p' + int (length rows') = p + int (length rows)" "set rows' \<subseteq> set rows" "same_ring st st'" "c_reqs st' = c_reqs st"
proof -
  have "\<exists>rows' p' st'. emit_full c r plen rows st = Some (rows', st') \<and> core_ok c G n st' \<and> run G r rows' p' \<and>
    p' + int (length rows') = p + int (length rows) \<and> set rows' \<subseteq> set rows \<and> same_ring st st' \<and> c_reqs st' = c_reqs st"
    using assms(2,3)
  proof (induction "length rows" arbitrary: rows p st rule: less_induct)
    case less
    show ?case
    proof (cases "length rows < cp_L c")
      case True
      with less.prems show ?thesis by (subst emit_full.simps) auto
    next
      case False
      let ?rows = "drop (cp_L c - (cp_k c + 1)) rows" and ?st = "emit c r (take (cp_L c) rows) plen False st"
      have d: "cp_L c - (cp_k c + 1) = cp_window c" by (simp add: cp_L_def)
      have lt: "length ?rows < length rows" using False assms(1) d by (simp add: cp_L_def)
      note st = emit_ok[OF less.prems(1) run_take[OF less.prems(2), of "cp_L c"]]
      note rn = run_drop[OF less.prems(2), of "cp_L c - (cp_k c + 1)"]
      from less.hyps[OF lt st rn] obtain rows' p' st' where
        ih: "emit_full c r plen ?rows ?st = Some (rows', st')" "core_ok c G n st'" "run G r rows' p'"
        "p' + int (length rows') = p + int (min (cp_L c - (cp_k c + 1)) (length rows)) + int (length ?rows)"
        "set rows' \<subseteq> set ?rows" "same_ring ?st st'" "c_reqs st' = c_reqs ?st" by blast
      have "p' + int (length rows') = p + int (length rows)" using ih(4) False by (simp add: cp_L_def)
      moreover have "set rows' \<subseteq> set rows" using ih(5) set_drop_subset by fastforce
      moreover have "same_ring st st'" using ih(6) by (simp add: same_ring_def)
      moreover have "emit_full c r plen rows st = Some (rows', st')"
        using False ih(1) by (subst emit_full.simps) simp
      ultimately show ?thesis using ih(2,3,7) by auto
    qed
  qed
  with that show thesis by blast
qed

lemma core_ok_mono: "core_ok c G n st \<Longrightarrow> n \<le> n' \<Longrightarrow> core_ok c G n' st"
  unfolding core_ok_def reqs_ok_def by (meson order_less_le_trans)

lemma core_ok_cong:
  "core_ok c G n st \<Longrightarrow> a_cap (c_arena st') = a_cap (c_arena st) \<Longrightarrow> a_written (c_arena st') = a_written (c_arena st) \<Longrightarrow>
   a_h (c_arena st') = a_h (c_arena st) \<Longrightarrow> a_tok (c_arena st') = a_tok (c_arena st) \<Longrightarrow>
   a_pos (c_arena st') = a_pos (c_arena st) \<Longrightarrow> c_reqs st' = c_reqs st \<Longrightarrow> c_held st' = c_held st \<Longrightarrow>
   c_train st' = c_train st \<Longrightarrow> core_ok c G n st'"
  by (simp add: core_ok_def arena_ok_def reqs_ok_def windows_ok_def alive_def)

lemma append_rows_ok:
  assumes w: "0 < cp_window c" and ok: "core_ok c G n st" and n: "n \<le> c0" and m: "0 < m"
    and al: "alive (c_arena st) c0" and rows: "\<And>j. j < m \<Longrightarrow> \<exists>t h. G (c0 + j) = Some (r, t, p0 + int j, h)"
  obtains st' where "append_rows c r plen c0 m st = Some st'" "core_ok c G (c0 + m) st'" "same_ring st st'"
proof -
  define first where "first = a_pos (c_arena st) ! (c0 mod a_cap (c_arena st))"
  obtain t h where "G c0 = Some (r, t, p0, h)" using rows[OF m] by auto
  with ok al have first: "first = p0" by (auto simp: core_ok_def arena_ok_def first_def)
  define fresh where "fresh = \<lparr>q_rows = [], q_next = None, q_plen = plen\<rparr>"
  define qs where "qs = (case map_of (c_reqs st) r of
      None \<Rightarrow> (fresh, st)
    | Some q \<Rightarrow> if q_next q = Some first then (q, st)
        else (fresh, emit c r (q_rows q) (q_plen q) True (st\<lparr>n_gaps := Suc (n_gaps st)\<rparr>)))"
  obtain q st1 where q: "qs = (q, st1)" by fastforce
  have old: "(\<forall>c \<in> set (q_rows q'). c < c0) \<and> (\<exists>p. run G r (q_rows q') p \<and> q_next q' = Some (p + int (length (q_rows q'))))"
    if "map_of (c_reqs st) r = Some q'" for q'
    using ok that n by (auto simp: core_ok_def reqs_ok_def dest: order_less_le_trans)
  have st1: "core_ok c G n st1 \<and> same_ring st st1"
  proof (cases "map_of (c_reqs st) r")
    case None
    with ok q show ?thesis by (simp add: qs_def)
  next
    case (Some q')
    have "core_ok c G n (st\<lparr>n_gaps := Suc (n_gaps st)\<rparr>)" using ok by (rule core_ok_cong) simp_all
    with old[OF Some] emit_ok have "core_ok c G n (emit c r (q_rows q') (q_plen q') True (st\<lparr>n_gaps := Suc (n_gaps st)\<rparr>))"
      by blast
    with Some q ok show ?thesis by (auto simp: qs_def same_ring_def split: if_splits)
  qed
  have "\<exists>p. run G r (q_rows q) p \<and> (\<forall>c \<in> set (q_rows q). c < c0) \<and> p + int (length (q_rows q)) = p0"
  proof (cases "map_of (c_reqs st) r")
    case None
    with q show ?thesis by (auto simp: qs_def fresh_def)
  next
    case (Some q')
    with q old[OF Some] first show ?thesis by (auto simp: qs_def fresh_def split: if_splits)
  qed
  then obtain p where p: "run G r (q_rows q) p" "\<And>c. c \<in> set (q_rows q) \<Longrightarrow> c < c0"
    "p + int (length (q_rows q)) = p0" by blast
  have "run G r (q_rows q @ [c0..<c0 + m]) p" by (rule run_append[OF p(1,2)]) (use rows p(3) in auto)
  with w st1 obtain rows' p' st2 where e: "emit_full c r (q_plen q) (q_rows q @ [c0..<c0 + m]) st1 = Some (rows', st2)"
    "core_ok c G n st2" "run G r rows' p'" "p' + int (length rows') = p + int (length (q_rows q @ [c0..<c0 + m]))"
    "set rows' \<subseteq> set (q_rows q @ [c0..<c0 + m])" "same_ring st1 st2" by (rule_tac emit_full_ok[OF w]) auto
  define st' where "st' = st2\<lparr>c_reqs := AList.update r \<lparr>q_rows = rows', q_next = Some (first + int m), q_plen = q_plen q\<rparr> (c_reqs st2)\<rparr>"
  have "append_rows c r plen c0 m st = Some st'"
    using e(1) q by (simp add: append_rows_def Let_def first_def[symmetric] fresh_def[symmetric] qs_def[symmetric] st'_def)
  moreover have "core_ok c G (c0 + m) st'"
  proof -
    have "\<forall>c \<in> set rows'. c < c0 + m" using e(5) p(2) by (fastforce dest: subsetD)
    moreover have "first + int m = p' + int (length rows')" using e(4) p(3) first by simp
    moreover have "core_ok c G (c0 + m) st2" using e(2) n by (rule core_ok_mono[OF _ le_trans]) simp
    ultimately show ?thesis using e(3) unfolding st'_def core_ok_def reqs_ok_def windows_ok_def
      by (auto simp: dict_simps)
  qed
  moreover have "same_ring st st'" using st1 e(6) by (simp add: same_ring_def st'_def)
  ultimately show thesis by (rule that)
qed

text \<open>A staged slot whose accepted rows are in the log, its entries one after the other.\<close>

fun entries_ok :: "'h glog \<Rightarrow> 'h slot \<Rightarrow> nat \<Rightarrow> nat \<Rightarrow> entry list \<Rightarrow> bool" where
  "entries_ok G s j off [] \<longleftrightarrow> off \<le> s_total s"
| "entries_ok G s j off ((r, _, o1, rows, _) # es) \<longleftrightarrow> o1 = off \<and> 0 \<le> s_rej s ! j \<and>
     (\<exists>p. \<forall>m < nat (max 0 (int rows - s_rej s ! j)). \<exists>t h. G (s_start s + off + m) = Some (r, t, p + int m, h)) \<and>
     entries_ok G s (Suc j) (off + rows) es"

lemma absorb_entries_ok:
  assumes "0 < cp_window c"
  shows "core_ok c G n st \<Longrightarrow> n \<le> s_start s + off \<Longrightarrow> alive (c_arena st) (s_start s) \<Longrightarrow> entries_ok G s j off es \<Longrightarrow>
    \<exists>st'. absorb_entries c s j es st = Some st' \<and> core_ok c G (s_start s + s_total s) st' \<and> same_ring st st'"
proof (induction es arbitrary: j off n st)
  case Nil
  have "core_ok c G (s_start s + s_total s) st" using Nil by (intro core_ok_mono[OF Nil.prems(1)]) simp
  then show ?case by simp
next
  case (Cons e es)
  obtain r i o1 rows plen where e: "e = (r, i, o1, rows, plen)" by (cases e)
  define valid where "valid = nat (max 0 (int rows - s_rej s ! j))"
  from Cons.prems(4) e have o1: "o1 = off" and rej: "0 \<le> s_rej s ! j" and rest: "entries_ok G s (Suc j) (off + rows) es" by auto
  from Cons.prems(4) e obtain p where p: "\<And>m. m < valid \<Longrightarrow> \<exists>t h. G (s_start s + off + m) = Some (r, t, p + int m, h)"
    by (auto simp: valid_def)
  show ?case
  proof (cases "valid = 0")
    case True
    with Cons.IH[OF Cons.prems(1) _ Cons.prems(3) rest] Cons.prems(2) e show ?thesis by (simp add: valid_def[symmetric])
  next
    case False
    define st1 where "st1 = (if 0 \<le> s_d1 s ! j
        then st\<lparr>c_arena := (c_arena st)\<lparr>a_d1 := (a_d1 (c_arena st))[(s_start s + o1 + valid - 1) mod a_cap (c_arena st) := s_d1 s ! j]\<rparr>\<rparr>
        else st)"
    have ring: "same_ring st st1" by (simp add: st1_def same_ring_def)
    have ok1: "core_ok c G n st1" using Cons.prems(1) by (rule core_ok_cong) (simp_all add: st1_def)
    have al: "alive (c_arena st1) (s_start s + off)"
      using Cons.prems(3) ring by (simp add: alive_def same_ring_def)
    have pos: "0 < valid" using False by simp
    obtain st2 where st2: "append_rows c r plen (s_start s + off) valid st1 = Some st2"
      "core_ok c G (s_start s + off + valid) st2" "same_ring st1 st2"
      by (rule append_rows_ok[OF assms ok1 Cons.prems(2) pos al p])
    have le: "s_start s + off + valid \<le> s_start s + (off + rows)" using rej by (simp add: valid_def)
    have "alive (c_arena st2) (s_start s)" using Cons.prems(3) ring st2(3) by (simp add: alive_def same_ring_def)
    from Cons.IH[OF st2(2) le this rest] obtain st' where "absorb_entries c s (Suc j) es st2 = Some st'"
      "core_ok c G (s_start s + s_total s) st'" "same_ring st2 st'" by blast
    moreover have "absorb_entries c s j (e # es) st = absorb_entries c s (Suc j) es st2"
      using e False st2(1)[unfolded st1_def] o1 by (cases "0 \<le> s_d1 s ! j") (simp_all add: valid_def[symmetric] Let_def)
    ultimately show ?thesis using same_ring_trans[OF ring same_ring_trans[OF st2(3)]] by auto
  qed
qed

fun slots_ok :: "'h glog \<Rightarrow> nat \<Rightarrow> nat \<Rightarrow> 'h slot list \<Rightarrow> bool" where
  "slots_ok G n m [] \<longleftrightarrow> n \<le> m"
| "slots_ok G n m (s # ss) \<longleftrightarrow> n \<le> s_start s \<and> entries_ok G s 0 0 (s_entries s) \<and>
     slots_ok G (s_start s + s_total s) m ss"

definition cap_ok :: "cap_cfg \<Rightarrow> 'h glog \<Rightarrow> bool \<Rightarrow> 'h cap \<Rightarrow> bool" where
  "cap_ok c G on st \<longleftrightarrow> arena_ok G (c_arena st) \<and> windows_ok c G st \<and>
     (on \<longrightarrow> (\<exists>n. core_ok c G n st \<and> slots_ok G n (a_written (c_arena st)) (c_inflight st)))"

lemma absorb_slots_ok:
  assumes "0 < cp_window c"
  shows "core_ok c G n st \<Longrightarrow> slots_ok G n (a_written (c_arena st)) ss \<Longrightarrow>
    \<exists>st' n'. absorb_slots c ready ss st = Some st' \<and> core_ok c G n' st' \<and>
      slots_ok G n' (a_written (c_arena st)) (c_inflight st') \<and> a_written (c_arena st') = a_written (c_arena st) \<and>
      c_events st' = c_events st"
proof (induction ss arbitrary: n st)
  case Nil
  have "core_ok c G n (st\<lparr>c_inflight := []\<rparr>)" using Nil.prems(1) by (rule core_ok_cong) simp_all
  with Nil.prems(2) show ?case by auto
next
  case (Cons s ss)
  show ?case
  proof (cases "case s_ev s of Some e \<Rightarrow> \<not> ready e | None \<Rightarrow> False")
    case True
    have "core_ok c G n (st\<lparr>c_inflight := s # ss\<rparr>)" using Cons.prems(1) by (rule core_ok_cong) simp_all
    with True Cons.prems(2) show ?thesis by auto
  next
    case False
    define nxt where "nxt = (if alive (c_arena st) (s_start s) then absorb_entries c s 0 (s_entries s) st else Some st)"
    from Cons.prems(2) have le: "n \<le> s_start s" and en: "entries_ok G s 0 0 (s_entries s)"
      and rest: "slots_ok G (s_start s + s_total s) (a_written (c_arena st)) ss" by simp_all
    have "\<exists>st'. nxt = Some st' \<and> core_ok c G (s_start s + s_total s) st' \<and> same_ring st st'"
    proof (cases "alive (c_arena st) (s_start s)")
      case True
      with absorb_entries_ok[OF assms Cons.prems(1) _ True en] le show ?thesis by (simp add: nxt_def)
    next
      case dead: False
      have "core_ok c G (s_start s + s_total s) st" by (rule core_ok_mono[OF Cons.prems(1)]) (use le in simp)
      with dead show ?thesis by (simp add: nxt_def)
    qed
    then obtain st1 where st1: "nxt = Some st1" "core_ok c G (s_start s + s_total s) st1" "same_ring st st1" by blast
    let ?st2 = "st1\<lparr>c_free := c_free st1 @ [s\<lparr>s_ev := None\<rparr>]\<rparr>"
    have "core_ok c G (s_start s + s_total s) ?st2" using st1(2) by (rule core_ok_cong) simp_all
    moreover have "slots_ok G (s_start s + s_total s) (a_written (c_arena ?st2)) ss"
      using rest st1(3) by (simp add: same_ring_def)
    ultimately obtain st' n' where "absorb_slots c ready ss ?st2 = Some st'" "core_ok c G n' st'"
      "slots_ok G n' (a_written (c_arena ?st2)) (c_inflight st')" "a_written (c_arena st') = a_written (c_arena ?st2)"
      "c_events st' = c_events ?st2" using Cons.IH by blast
    with False st1 show ?thesis by (auto simp: nxt_def[symmetric] same_ring_def)
  qed
qed

lemma depart_ok:
  assumes "core_ok c G n st"
  shows "core_ok c G n (depart c ids st) \<and> same_ring st (depart c ids st)"
proof -
  let ?f = "\<lambda>r st. case map_of (c_reqs st) r of None \<Rightarrow> st
      | Some q \<Rightarrow> emit c r (q_rows q) (q_plen q) True (st\<lparr>c_reqs := AList.delete r (c_reqs st)\<rparr>)"
  have step: "core_ok c G n (?f r s) \<and> same_ring s (?f r s)" if ok: "core_ok c G n s" for r s
  proof (cases "map_of (c_reqs s) r")
    case None
    with that show ?thesis by simp
  next
    case (Some q)
    have "core_ok c G n (s\<lparr>c_reqs := AList.delete r (c_reqs s)\<rparr>)"
      using that by (auto simp: core_ok_def reqs_ok_def windows_ok_def dict_simps)
    moreover obtain p where "run G r (q_rows q) p" using ok Some unfolding core_ok_def reqs_ok_def by blast
    ultimately show ?thesis using Some by (auto intro!: emit_ok simp: same_ring_def)
  qed
  have "core_ok c G n (fold ?f rs s) \<and> same_ring s (fold ?f rs s)" if "core_ok c G n s" for rs s
    using that
  proof (induction rs arbitrary: s)
    case (Cons r rs)
    from step[OF Cons.prems, of r] Cons.IH[of "?f r s"] show ?case using same_ring_trans by auto
  qed simp
  with assms show ?thesis unfolding depart_def Let_def by blast
qed

section \<open>Staging keeps the invariant\<close>


definition batch_ok :: "'h cbatch \<Rightarrow> bool" where
  "batch_ok b \<longleftrightarrow>
     (\<forall>i. Suc i < length (cb_qsl b) \<longrightarrow>
        (\<forall>n. cb_qsl b ! i \<le> n \<and> Suc n < cb_qsl b ! Suc i \<longrightarrow> cb_pos b ! Suc n = cb_pos b ! n + 1)) \<and>
     list_all (\<lambda>x. 0 \<le> x) (cb_rej b)"

definition entry_fits :: "'h cbatch \<Rightarrow> entry \<Rightarrow> bool" where
  "entry_fits b = (\<lambda>(_, i, _, rows, _). 0 < rows \<and> Suc i < length (cb_qsl b) \<and> cb_qsl b ! i + rows \<le> cb_qsl b ! Suc i)"

fun offs_ok :: "'h cbatch \<Rightarrow> nat \<Rightarrow> entry list \<Rightarrow> nat \<Rightarrow> bool" where
  "offs_ok b n [] m \<longleftrightarrow> n = m"
| "offs_ok b n (e # es) m \<longleftrightarrow> fst (snd (snd e)) = n \<and> entry_fits b e \<and> offs_ok b (n + fst (snd (snd (snd e)))) es m"

lemma offs_ok_snoc:
  "offs_ok b n es m \<Longrightarrow> entry_fits b (r, i, m, rows, plen) \<Longrightarrow> offs_ok b n (es @ [(r, i, m, rows, plen)]) (m + rows)"
  by (induction es arbitrary: n) auto

lemma gather_entries_ok:
  "gather_entries c b irs es n over = Inr (es', n', over') \<Longrightarrow> offs_ok b 0 es n \<Longrightarrow> n \<le> cp_max_rows c \<Longrightarrow>
   offs_ok b 0 es' n' \<and> n' \<le> cp_max_rows c"
proof (induction irs arbitrary: es n over)
  case (Cons ir irs)
  obtain i r where ir: "ir = (i, r)" by (cases ir)
  show ?case
  proof (cases "selected c r")
    case False
    with Cons ir show ?thesis by simp
  next
    case True
    with Cons.prems(1) ir obtain qs qe plen comp where
      i: "Suc i < length (cb_qsl b)" "qs = cb_qsl b ! i" "qe = cb_qsl b ! Suc i"
      and step: "(let skip = max 0 (min (int qe - int qs) (plen - cp_ctx c - comp)); rows = int qe - int qs - skip
          in if rows \<le> 0 then gather_entries c b irs es n over
             else if int (cp_max_rows c) < int n + rows then gather_entries c b irs es n (over + nat rows)
             else gather_entries c b irs (es @ [(r, i, n, nat rows, plen)]) (n + nat rows) over) = Inr (es', n', over')"
      by (auto simp: rbind_eq_Inr item_at_def split: if_splits)
    define rows where "rows = int qe - int qs - max 0 (min (int qe - int qs) (plen - cp_ctx c - comp))"
    from step have step': "(if rows \<le> 0 then gather_entries c b irs es n over
             else if int (cp_max_rows c) < int n + rows then gather_entries c b irs es n (over + nat rows)
             else gather_entries c b irs (es @ [(r, i, n, nat rows, plen)]) (n + nat rows) over) = Inr (es', n', over')"
      unfolding rows_def Let_def .
    have "entry_fits b (r, i, n, nat rows, plen)" if "0 < rows"
    proof -
      have "int qs + rows \<le> int qe" by (simp add: rows_def)
      then have "qs + nat rows \<le> qe" using that by linarith
      with that i show ?thesis by (simp add: entry_fits_def)
    qed
    from offs_ok_snoc[OF Cons.prems(2) this] show ?thesis
      using step' Cons.IH Cons.prems(2,3) by (auto split: if_splits)
  qed
qed simp

lemma index_select_map: "index_select xs idx = Inr ys \<Longrightarrow> ys = map ((!) xs) idx"
  unfolding index_select_def by (induction idx arbitrary: ys) (auto simp: rbind_eq_Inr item_at_def split: if_splits)

lemma length_src_rows: "entry_fits b e \<Longrightarrow> length (src_rows b e) = fst (snd (snd (snd e)))"
  by (auto simp: src_rows_def entry_fits_def Let_def split: prod.splits)

lemma offs_concat:
  "offs_ok b n es m \<Longrightarrow> length (concat (map (src_rows b) es)) = m - n \<and> n \<le> m"
proof (induction es arbitrary: n)
  case (Cons e es)
  then have "offs_ok b (n + fst (snd (snd (snd e)))) es m" "length (src_rows b e) = fst (snd (snd (snd e)))"
    using length_src_rows[of b e] by simp_all
  with Cons.IH[of "n + fst (snd (snd (snd e)))"] show ?case by (simp del: length_concat)
qed simp

lemma offs_nth:
  "offs_ok b n es m \<Longrightarrow> e \<in> set es \<Longrightarrow> k < fst (snd (snd (snd e))) \<Longrightarrow>
   n \<le> fst (snd (snd e)) \<and> fst (snd (snd e)) + fst (snd (snd (snd e))) \<le> m \<and>
   concat (map (src_rows b) es) ! (fst (snd (snd e)) - n + k) = src_rows b e ! k"
proof (induction es arbitrary: n)
  case (Cons x es)
  let ?rows = "fst (snd (snd (snd x)))"
  have x: "fst (snd (snd x)) = n" "length (src_rows b x) = ?rows" and rest: "offs_ok b (n + ?rows) es m"
    using Cons.prems(1) length_src_rows[of b x] by auto
  show ?case
  proof (cases "e = x")
    case True
    with x Cons.prems(3) offs_concat[OF rest] show ?thesis by (simp add: nth_append)
  next
    case False
    with Cons.prems(2) have "e \<in> set es" by simp
    note ih = Cons.IH[OF rest this Cons.prems(3)]
    then have eq: "fst (snd (snd e)) - n + k = length (src_rows b x) + (fst (snd (snd e)) - (n + ?rows) + k)"
      using x(2) by simp
    have "concat (map (src_rows b) (x # es)) ! (fst (snd (snd e)) - n + k) =
        concat (map (src_rows b) es) ! (fst (snd (snd e)) - (n + ?rows) + k)"
      unfolding eq by (simp add: nth_append_length_plus)
    also have "\<dots> = src_rows b e ! k" using ih by blast
    finally show ?thesis using ih by (meson add_leD1)
  qed
qed simp

lemma find_entry:
  "offs_ok b n es m \<Longrightarrow> list_all (\<lambda>e. accepted_rows b e \<le> fst (snd (snd (snd e)))) es \<Longrightarrow> e \<in> set es \<Longrightarrow>
   k < accepted_rows b e \<Longrightarrow>
   find (\<lambda>e. let off = fst (snd (snd e)) in start + off \<le> start + fst (snd (snd e0)) + k \<and>
       start + fst (snd (snd e0)) + k < start + off + accepted_rows b e) es = Some e"
  if "e0 = e" for e0 :: entry
proof (induction es arbitrary: n)
  case (Cons x es)
  show ?case
  proof (cases "e = x")
    case True
    with Cons.prems that show ?thesis by simp
  next
    case False
    with Cons.prems(3) have e: "e \<in> set es" by simp
    have rest: "offs_ok b (n + fst (snd (snd (snd x)))) es m" using Cons.prems(1) by simp
    have "k < fst (snd (snd (snd e)))" using Cons.prems(2,4) e by (auto simp: list_all_iff)
    from offs_nth[OF rest e this] Cons.prems(1,2) have "fst (snd (snd x)) + accepted_rows b x \<le> fst (snd (snd e))" by auto
    then show ?thesis using Cons.IH[OF rest _ e Cons.prems(4)] Cons.prems(2) that by (simp add: Let_def)
  qed
qed simp

lemma reserve_spec:
  assumes "reserve n a = (Some start, a')" and "0 < n"
  shows "a_written a \<le> start \<and> start mod a_cap a + n \<le> a_cap a \<and> a_written a' = start + n \<and> a_cap a' = a_cap a \<and>
    a_h a' = a_h a \<and> a_tok a' = a_tok a \<and> a_pos a' = a_pos a"
proof -
  let ?s = "a_written a mod a_cap a"
  from assms have fit: "n \<le> a_cap a" and start: "start = (if a_cap a < ?s + n then a_written a + (a_cap a - ?s) else a_written a)"
    and a': "a' = a\<lparr>a_written := start + n, a_d1 := write_at (a_d1 a) (start mod a_cap a) (replicate n (- 1))\<rparr>"
    by (auto simp: reserve_def Let_def split: if_splits)
  have pos: "0 < a_cap a" using fit assms(2) by simp
  have "start mod a_cap a + n \<le> a_cap a"
  proof (cases "a_cap a < ?s + n")
    case True
    have "?s < a_cap a" using pos by simp
    then have "a_written a + (a_cap a - ?s) = a_cap a * (a_written a div a_cap a) + a_cap a"
      using mult_div_mod_eq[of "a_cap a" "a_written a"] by linarith
    then have "start mod a_cap a = 0" using True start by simp
    with fit show ?thesis by simp
  next
    case False
    with start show ?thesis by simp
  qed
  with start a' show ?thesis by simp
qed

text \<open>The ring slot of a row written with the last reservation, and of any older live row.\<close>

lemma ring_index_new:
  assumes "start mod cap + n \<le> (cap :: nat)" and "m < n"
  shows "(start + m) mod cap = start mod cap + m"
proof -
  have "start mod cap + m < cap" using assms by simp
  then show ?thesis by (metis mod_add_left_eq mod_less)
qed

lemma ring_index_old:
  assumes fit: "start mod cap + n \<le> (cap :: nat)" and c: "c < start" "start + n \<le> c + cap" and i: "i < cap"
    and hit: "start mod cap \<le> i" "i < start mod cap + n"
  shows "c mod cap \<noteq> i"
proof
  assume e: "c mod cap = i"
  define m where "m = i - start mod cap"
  have m: "m < n" "(start + m) mod cap = i" using hit fit ring_index_new[OF fit, of m] by (auto simp: m_def)
  have "c < start + m" "start + m - c < cap" using c m(1) by auto
  moreover have "cap dvd (start + m - c)" using e m(2) \<open>c < start + m\<close> by (metis less_imp_le mod_eq_dvd_iff_nat)
  ultimately show False by (metis less_not_refl nat_dvd_not_less zero_less_diff)
qed

lemma nth_write_zero: "i < length ys \<Longrightarrow> write_at xs 0 ys ! i = ys ! i"
  by (simp add: write_at_def nth_append)

lemma take_write_zero: "length ys = n \<Longrightarrow> take n (write_at xs 0 ys) = ys"
  by (simp add: write_at_def)

text \<open>What a staged slot holds.\<close>

definition staged :: "'h cbatch \<Rightarrow> 'h slot \<Rightarrow> bool" where
  "staged b s \<longleftrightarrow> (let idx = concat (map (src_rows b) (s_entries s)) in
     offs_ok b 0 (s_entries s) (s_total s) \<and> length idx = s_total s \<and>
     take (s_total s) (s_h s) = map ((!) (cb_hidden b)) idx \<and> take (s_total s) (s_tok s) = map ((!) (cb_tok b)) idx \<and>
     take (s_total s) (s_pos s) = map ((!) (cb_pos b)) idx \<and>
     list_all (\<lambda>(_, i, _). i < length (cb_rej b)) (s_entries s) \<and>
     take (length (s_entries s)) (s_rej_d s) = map (\<lambda>(_, i, _). cb_rej b ! i) (s_entries s))"

lemma rmap_item_at: "rmap (item_at xs) is = Inr ys \<Longrightarrow> list_all (\<lambda>i. i < length xs) is"
  by (induction "is" arbitrary: ys) (auto simp: rbind_eq_Inr item_at_def split: if_splits)

lemma stage_slot_staged:
  assumes "stage_slot b es start ntot s0 = Inr s" and "offs_ok b 0 es ntot"
  shows "staged b s \<and> s_start s = start \<and> s_entries s = es \<and> s_total s = ntot"
proof -
  let ?idx = "concat (map (src_rows b) es)"
  from assms(1) obtain h tok pos rej where sel: "index_select (cb_hidden b) ?idx = Inr h" "index_select (cb_tok b) ?idx = Inr tok"
    "index_select (cb_pos b) ?idx = Inr pos" "index_select (cb_rej b) (map (\<lambda>(_, i, _). i) es) = Inr rej"
    and s: "s = s0\<lparr>s_entries := es, s_start := start, s_total := ntot, s_h := write_at (s_h s0) 0 h,
                  s_tok := write_at (s_tok s0) 0 tok, s_pos := write_at (s_pos s0) 0 pos,
                  s_rej_d := write_at (s_rej_d s0) 0 rej, s_d1_d := write_at (s_d1_d s0) 0 (replicate (length es) (- 1))\<rparr>"
    by (auto simp: stage_slot_def Let_def rbind_eq_Inr)
  have len: "length ?idx = ntot" using offs_concat[OF assms(2)] by simp
  have rej: "rej = map (\<lambda>(_, i, _). cb_rej b ! i) es" using index_select_map[OF sel(4)] by (simp add: case_prod_unfold)
  have "list_all (\<lambda>(_, i, _). i < length (cb_rej b)) es"
    using rmap_item_at[OF sel(4)[unfolded index_select_def]] by (auto simp: list_all_iff)
  with index_select_map[OF sel(1)] index_select_map[OF sel(2)] index_select_map[OF sel(3)] rej len assms(2) s
  show ?thesis by (simp add: staged_def take_write_zero del: length_concat)
qed

lemma enqueue_staged:
  assumes "cap_enqueue c b st = (Inr True, st')"
  obtains s where "c_inflight st' = c_inflight st @ [s]" "staged b s" "s_entries s \<noteq> []"
    "reserve (s_total s) (c_arena st) = (Some (s_start s), c_arena st')" "0 < s_total s"
    "c_reqs st' = c_reqs st" "c_held st' = c_held st" "c_train st' = c_train st" "c_events st' = c_events st"
proof -
  from assms obtain es ntot over start a s where g: "gather_entries c b (enumerate 0 (take (cb_num b) (cb_ids b))) [] 0 0 = Inr (es, ntot, over)"
    and ne: "es \<noteq> []" and re: "reserve ntot (c_arena st) = (Some start, a)"
    and sl: "stage_slot b es start ntot (last (c_free st)) = Inr s"
    and st': "st' = (st\<lparr>n_over := n_over st + over, c_arena := a, c_free := butlast (c_free st),
       c_inflight := c_inflight st @ [s], n_rows := n_rows st + ntot\<rparr>)"
    by (auto simp: cap_enqueue_def Let_def split: sum.splits prod.splits if_splits option.splits)
  have o: "offs_ok b 0 es ntot" using gather_entries_ok[OF g] by simp
  have "0 < ntot"
  proof (cases es)
    case (Cons e es')
    with o have "entry_fits b e" "fst (snd (snd (snd e))) \<le> ntot" using offs_concat[of b _ es' ntot] by auto
    then show ?thesis by (auto simp: entry_fits_def split: prod.splits)
  qed (use ne in simp)
  with stage_slot_staged[OF sl o] ne re st' show thesis by (intro that[of s]) auto
qed

lemma enqueue_other:
  assumes "cap_enqueue c b st = (r, st')" and "r \<noteq> Inr True"
  shows "c_inflight st' = c_inflight st \<and> c_reqs st' = c_reqs st \<and> c_held st' = c_held st \<and> c_train st' = c_train st \<and>
    c_events st' = c_events st \<and> (r = Inr False \<longrightarrow> c_arena st' = c_arena st) \<and>
    (c_arena st' = c_arena st \<or> (\<exists>n start. 0 < n \<and> reserve n (c_arena st) = (Some start, c_arena st')))"
proof -
  consider (gather) e where "gather_entries c b (enumerate 0 (take (cb_num b) (cb_ids b))) [] 0 0 = Inl e"
    | (ok) es ntot over where "gather_entries c b (enumerate 0 (take (cb_num b) (cb_ids b))) [] 0 0 = Inr (es, ntot, over)"
    by (metis sum.exhaust surj_pair)
  then show ?thesis
  proof cases
    case gather
    with assms show ?thesis by (auto simp: cap_enqueue_def)
  next
    case ok
    have o: "offs_ok b 0 es ntot" using gather_entries_ok[OF ok] by simp
    have "0 < ntot" if "es \<noteq> []"
    proof (cases es)
      case (Cons e es')
      with o have "entry_fits b e" "fst (snd (snd (snd e))) \<le> ntot" using offs_concat[of b _ es' ntot] by auto
      then show ?thesis by (auto simp: entry_fits_def split: prod.splits)
    qed (use that in simp)
    with assms ok show ?thesis
      by (auto simp: cap_enqueue_def Let_def split: sum.splits prod.splits if_splits option.splits)
  qed
qed

lemma accepted_le_rows:
  assumes "batch_ok b" and "staged b s" and "e \<in> set (s_entries s)"
  shows "accepted_rows b e \<le> fst (snd (snd (snd e)))"
proof -
  obtain r i o1 rows plen where e: "e = (r, i, o1, rows, plen)" by (cases e)
  have "i < length (cb_rej b)" using assms(2,3) e by (auto simp: staged_def Let_def list_all_iff)
  then have "0 \<le> cb_rej b ! i" using assms(1) by (simp add: batch_ok_def list_all_length)
  with e show ?thesis by (simp add: accepted_rows_def)
qed

lemma log_step_new:
  assumes "batch_ok b" and "staged b s" and "e \<in> set (s_entries s)" and "k < accepted_rows b e"
  shows "log_step b (s_entries s) start G (start + fst (snd (snd e)) + k) =
     (let n = src_rows b e ! k in Some (fst e, cb_tok b ! n, cb_pos b ! n, cb_hidden b ! n))"
proof -
  have "offs_ok b 0 (s_entries s) (s_total s)" using assms(2) by (simp add: staged_def Let_def)
  moreover have "list_all (\<lambda>e. accepted_rows b e \<le> fst (snd (snd (snd e)))) (s_entries s)"
    using accepted_le_rows[OF assms(1,2)] by (simp add: list_all_iff)
  ultimately show ?thesis using find_entry[of e e b 0 "s_entries s" "s_total s" k start] assms(3,4)
    by (simp add: log_step_def Let_def)
qed

lemma log_step_cases:
  assumes "log_step b es start G c = Some x" and "start \<le> c"
  obtains e k where "e \<in> set es" "k < accepted_rows b e" "c = start + fst (snd (snd e)) + k"
proof -
  from assms obtain e where "find (\<lambda>e. let off = fst (snd (snd e)) in start + off \<le> c \<and> c < start + off + accepted_rows b e) es = Some e"
    by (auto simp: log_step_def split: option.splits if_splits)
  then have "e \<in> set es" "start + fst (snd (snd e)) \<le> c" "c < start + fst (snd (snd e)) + accepted_rows b e"
    by (auto simp: find_Some_iff Let_def)
  then show thesis by (intro that[of e "c - (start + fst (snd (snd e)))"]) auto
qed

lemma src_rows_nth:
  assumes "e = (r, i, o1, rows, plen)" and "entry_fits b e" and "k < rows"
  shows "src_rows b e ! k = cb_qsl b ! Suc i - rows + k"
proof -
  have "cb_qsl b ! Suc i - rows + k < cb_qsl b ! Suc i" using assms by (auto simp: entry_fits_def)
  then have "[cb_qsl b ! Suc i - rows..<cb_qsl b ! Suc i] ! k = cb_qsl b ! Suc i - rows + k" by (rule nth_upt)
  then show ?thesis unfolding assms(1) src_rows_def Let_def by (simp only: prod.case)
qed

lemma batch_positions:
  assumes "batch_ok b" and e: "e = (r, i, o1, rows, plen)" and fit: "entry_fits b e"
  shows "k < rows \<Longrightarrow> cb_pos b ! (cb_qsl b ! Suc i - rows + k) = cb_pos b ! (cb_qsl b ! Suc i - rows) + int k"
proof (induction k)
  case (Suc k)
  let ?n = "cb_qsl b ! Suc i - rows + k"
  have "Suc i < length (cb_qsl b)" "cb_qsl b ! i \<le> ?n" "Suc ?n < cb_qsl b ! Suc i"
    using fit Suc.prems by (auto simp: entry_fits_def e)
  then have "cb_pos b ! Suc ?n = cb_pos b ! ?n + 1" using assms(1) by (simp add: batch_ok_def)
  with Suc show ?case by simp
qed simp

lemma flush_arena_ok:
  assumes ok: "arena_ok G a0" and re: "reserve (s_total s) a0 = (Some (s_start s), a1)" "0 < s_total s"
    and st: "staged b s" and b: "batch_ok b"
  shows "arena_ok (log_step b (s_entries s) (s_start s) G) (flush_arena s a1) \<and> G \<subseteq>\<^sub>m log_step b (s_entries s) (s_start s) G"
proof -
  let ?G = "log_step b (s_entries s) (s_start s) G" and ?i = "s_start s mod a_cap a0" and ?t = "s_total s"
  let ?idx = "concat (map (src_rows b) (s_entries s))"
  note rs = reserve_spec[OF re]
  have len: "length (take ?t (s_h s)) = ?t" "length (take ?t (s_tok s)) = ?t" "length (take ?t (s_pos s)) = ?t"
    "length ?idx = ?t" using st by (simp_all add: staged_def Let_def del: length_take length_concat)
  have lens: "length (a_h a0) = a_cap a0" "length (a_tok a0) = a_cap a0" "length (a_pos a0) = a_cap a0"
    using ok by (simp_all add: arena_ok_def)
  have a: "a_h (flush_arena s a1) = write_at (a_h a0) ?i (take ?t (s_h s))"
    "a_tok (flush_arena s a1) = write_at (a_tok a0) ?i (take ?t (s_tok s))"
    "a_pos (flush_arena s a1) = write_at (a_pos a0) ?i (take ?t (s_pos s))"
    "a_cap (flush_arena s a1) = a_cap a0" "a_written (flush_arena s a1) = s_start s + ?t"
    using rs by (simp_all add: flush_arena_def Let_def)
  have fit: "?i + ?t \<le> a_cap a0" using rs by simp
  have old: "c < s_start s" if "c \<in> dom G" for c
    using ok rs that by (fastforce simp: arena_ok_def)
  have sub: "G \<subseteq>\<^sub>m ?G" using old by (auto simp: map_le_def log_step_def)
  have val: "c < s_start s + ?t \<and> (alive (flush_arena s a1) c \<longrightarrow> write_at (a_tok a0) ?i (take ?t (s_tok s)) ! (c mod a_cap a0) = t \<and>
      write_at (a_pos a0) ?i (take ?t (s_pos s)) ! (c mod a_cap a0) = p \<and>
      write_at (a_h a0) ?i (take ?t (s_h s)) ! (c mod a_cap a0) = h)" if g: "?G c = Some (r, t, p, h)" for c r t p h
  proof (cases "c < s_start s")
    case True
    then have "G c = Some (r, t, p, h)" using g by (simp add: log_step_def)
    with ok have vals: "alive a0 c \<longrightarrow> a_tok a0 ! (c mod a_cap a0) = t \<and> a_pos a0 ! (c mod a_cap a0) = p \<and> a_h a0 ! (c mod a_cap a0) = h"
      by (simp add: arena_ok_def)
    have "a_tok a0 ! (c mod a_cap a0) = t \<and> a_pos a0 ! (c mod a_cap a0) = p \<and> a_h a0 ! (c mod a_cap a0) = h \<and>
        \<not> (?i \<le> c mod a_cap a0 \<and> c mod a_cap a0 < ?i + ?t)" if al: "alive (flush_arena s a1) c"
    proof -
      have le: "s_start s + ?t \<le> c + a_cap a0" using al a by (simp add: alive_def)
      then have "alive a0 c" using rs by (simp add: alive_def)
      moreover have "\<not> (?i \<le> c mod a_cap a0 \<and> c mod a_cap a0 < ?i + ?t)"
        using ring_index_old[OF fit True le] fit re(2) by (metis mod_less_divisor less_le_trans trans_less_add2)
      ultimately show ?thesis using vals by blast
    qed
    moreover have "c mod a_cap a0 < a_cap a0" using fit re(2) by simp
    then have "write_at buf ?i vs ! (c mod a_cap a0) = buf ! (c mod a_cap a0)"
      if "length buf = a_cap a0" "length vs = ?t" "\<not> (?i \<le> c mod a_cap a0 \<and> c mod a_cap a0 < ?i + ?t)" for buf vs :: "'z list"
      using nth_write_at[of ?i vs buf "c mod a_cap a0"] fit that by simp
    note miss = this
    ultimately show ?thesis using True miss[OF lens(2) len(2)] miss[OF lens(3) len(3)] miss[OF lens(1) len(1)] by auto
  next
    case False
    then have le: "s_start s \<le> c" by simp
    obtain e k where e: "e \<in> set (s_entries s)" "k < accepted_rows b e" "c = s_start s + fst (snd (snd e)) + k"
      by (rule log_step_cases[OF g le])
    let ?o = "fst (snd (snd e))" and ?n = "src_rows b e ! k"
    have k: "k < fst (snd (snd (snd e)))" using e(2) accepted_le_rows[OF b st e(1)] by simp
    from offs_nth[of b 0 "s_entries s" ?t e k] st e(1) k
    have ix: "?idx ! (?o + k) = ?n" and lt: "?o + k < ?t" by (auto simp: staged_def Let_def)
    have "Some (r, t, p, h) = Some (fst e, cb_tok b ! ?n, cb_pos b ! ?n, cb_hidden b ! ?n)"
      using g log_step_new[OF b st e(1,2), of "s_start s" G] e(3) by (simp add: Let_def)
    moreover have "c mod a_cap a0 = ?i + (?o + k)" using ring_index_new[OF fit lt] e(3) by (simp add: add.assoc)
    moreover have "take ?t (s_tok s) ! (?o + k) = cb_tok b ! ?n" "take ?t (s_pos s) ! (?o + k) = cb_pos b ! ?n"
      "take ?t (s_h s) ! (?o + k) = cb_hidden b ! ?n"
      using st ix lt len(4) by (simp_all add: staged_def Let_def del: nth_take take_map)
    moreover have "write_at buf ?i vs ! (?i + (?o + k)) = vs ! (?o + k)"
      if "length buf = a_cap a0" "length vs = ?t" for buf vs :: "'z list"
      using nth_write_at[of ?i vs buf "?i + (?o + k)"] fit lt that by simp
    note hit = this
    ultimately show ?thesis using hit[OF lens(2) len(2)] hit[OF lens(3) len(3)] hit[OF lens(1) len(1)] lt e(3) by simp
  qed
  then show ?thesis using sub a len lens fit unfolding arena_ok_def
    by (auto simp: length_write_at)
qed

lemma entries_ok_intro:
  assumes "\<And>j r i o1 rows plen. j < length es \<Longrightarrow> es ! j = (r, i, o1, rows, plen) \<Longrightarrow> 0 \<le> s_rej s ! (j0 + j) \<and>
      (\<exists>p. \<forall>m < nat (max 0 (int rows - s_rej s ! (j0 + j))). \<exists>t h. G (s_start s + o1 + m) = Some (r, t, p + int m, h))"
    and "offs_ok b n es m" and "m \<le> s_total s"
  shows "entries_ok G s j0 n es"
  using assms
proof (induction es arbitrary: j0 n)
  case (Cons e es)
  obtain r i o1 rows plen where e: "e = (r, i, o1, rows, plen)" by (cases e)
  have "entries_ok G s (Suc j0) (n + rows) es"
  proof (rule Cons.IH)
    show "0 \<le> s_rej s ! (Suc j0 + j) \<and>
        (\<exists>p. \<forall>m < nat (max 0 (int rows - s_rej s ! (Suc j0 + j))). \<exists>t h. G (s_start s + o1 + m) = Some (r, t, p + int m, h))"
      if "j < length es" "es ! j = (r, i, o1, rows, plen)" for j r i o1 rows plen
      using Cons.prems(1)[of "Suc j" r i o1 rows plen] that by simp
    show "offs_ok b (n + rows) es m" using Cons.prems(2) e by simp
  qed (use Cons.prems in simp)
  with Cons.prems(1)[of 0 r i o1 rows plen] Cons.prems(2) e show ?case by simp
qed simp

lemma entries_new:
  assumes st: "staged b s" and b: "batch_ok b" and s': "s_start s' = s_start s" "s_total s' = s_total s"
    and rej: "\<And>j. j < length (s_entries s) \<Longrightarrow> s_rej s' ! j = cb_rej b ! fst (snd (s_entries s ! j))"
  shows "entries_ok (log_step b (s_entries s) (s_start s) G) s' 0 0 (s_entries s)"
proof (rule entries_ok_intro[where b = b and m = "s_total s"])
  show "offs_ok b 0 (s_entries s) (s_total s)" using st by (simp add: staged_def Let_def)
  show "s_total s \<le> s_total s'" using s' by simp
  fix j r i o1 rows plen
  assume j: "j < length (s_entries s)" and e: "s_entries s ! j = (r, i, o1, rows, plen)"
  let ?e = "(r, i, o1, rows, plen)" and ?G = "log_step b (s_entries s) (s_start s) G"
  have mem: "?e \<in> set (s_entries s)" using j e by (metis nth_mem)
  have re: "s_rej s' ! (0 + j) = cb_rej b ! i" using rej[OF j] e by simp
  have "i < length (cb_rej b)" using st mem by (auto simp: staged_def Let_def list_all_iff)
  then have nn: "0 \<le> cb_rej b ! i" using b by (simp add: batch_ok_def list_all_length)
  have fit: "entry_fits b ?e" using st mem
  proof -
    have "offs_ok b n es m \<Longrightarrow> x \<in> set es \<Longrightarrow> entry_fits b x" for n es m x
      by (induction es arbitrary: n) auto
    then show ?thesis using st mem unfolding staged_def Let_def by blast
  qed
  have acc: "nat (max 0 (int rows - s_rej s' ! (0 + j))) = accepted_rows b ?e" using re by (simp add: accepted_rows_def)
  have "\<exists>t h. ?G (s_start s + o1 + m) = Some (r, t, cb_pos b ! (cb_qsl b ! Suc i - rows) + int m, h)"
    if m: "m < accepted_rows b ?e" for m
  proof -
    have lt: "m < rows" using m accepted_le_rows[OF b st mem] by simp
    have src: "src_rows b ?e ! m = cb_qsl b ! Suc i - rows + m" by (rule src_rows_nth[OF refl fit lt])
    have "cb_pos b ! (cb_qsl b ! Suc i - rows + m) = cb_pos b ! (cb_qsl b ! Suc i - rows) + int m"
      by (rule batch_positions[OF b refl fit lt])
    with log_step_new[OF b st mem m, of "s_start s" G] src show ?thesis by (simp add: Let_def)
  qed
  with re nn s' acc show "0 \<le> s_rej s' ! (0 + j) \<and>
      (\<exists>p. \<forall>m < nat (max 0 (int rows - s_rej s' ! (0 + j))). \<exists>t h. ?G (s_start s' + o1 + m) = Some (r, t, p + int m, h))"
    by auto
qed

lemma slots_ok_mono_log: "slots_ok G n m ss \<Longrightarrow> G \<subseteq>\<^sub>m G' \<Longrightarrow> slots_ok G' n m ss"
proof (induction ss arbitrary: n)
  case (Cons s ss)
  have "entries_ok G s j off es \<Longrightarrow> entries_ok G' s j off es" for j off es
  proof (induction es arbitrary: j off)
    case (Cons e es)
    obtain r i o1 rows plen where e: "e = (r, i, o1, rows, plen)" by (cases e)
    from Cons.prems e obtain p where "\<And>m. m < nat (max 0 (int rows - s_rej s ! j)) \<Longrightarrow>
        \<exists>t h. G (s_start s + off + m) = Some (r, t, p + int m, h)" by auto
    then have "\<And>m. m < nat (max 0 (int rows - s_rej s ! j)) \<Longrightarrow> \<exists>t h. G' (s_start s + off + m) = Some (r, t, p + int m, h)"
      using \<open>G \<subseteq>\<^sub>m G'\<close> unfolding map_le_def by (metis domI)
    with Cons e show ?case by auto
  qed simp
  with Cons show ?case by auto
qed simp

lemma slots_ok_snoc:
  "slots_ok G n m ss \<Longrightarrow> m \<le> s_start s \<Longrightarrow> entries_ok G s 0 0 (s_entries s) \<Longrightarrow> s_start s + s_total s \<le> m' \<Longrightarrow>
   slots_ok G n m' (ss @ [s])"
  by (induction ss arbitrary: n) auto

lemma reqs_ok_mono_log:
  assumes "reqs_ok G n st" and "G \<subseteq>\<^sub>m G'"
  shows "reqs_ok G' n st"
  unfolding reqs_ok_def using assms(1)[unfolded reqs_ok_def] run_mono[OF _ assms(2)] by meson

lemma windows_ok_mono_log:
  assumes "windows_ok c G st" and "G \<subseteq>\<^sub>m G'"
  shows "windows_ok c G' st"
  using assms(1) run_mono[OF _ assms(2)] by (fastforce simp: windows_ok_def window_ok_def list_all_iff)

lemma arena_ok_reserved:
  assumes "arena_ok G a" and "reserve n a = (Some start, a')" and "0 < n"
  shows "arena_ok G a'"
  using assms(1) reserve_spec[OF assms(2,3)] by (fastforce simp: arena_ok_def alive_def)

section \<open>Runs of the wrapper\<close>

text \<open>The log grows by a step exactly when the step flushed a slot.\<close>

definition next_log :: "'h cbatch \<Rightarrow> 'h cap \<Rightarrow> 'h cap \<Rightarrow> 'h glog \<Rightarrow> 'h glog" where
  "next_log b st st' G = (if c_events st' = c_events st then G
     else log_step b (s_entries (last (c_inflight st'))) (s_start (last (c_inflight st'))) G)"

inductive cap_reach :: "cap_cfg \<Rightarrow> 'h glog \<Rightarrow> bool \<Rightarrow> 'h cap \<Rightarrow> bool" for c :: cap_cfg where
  new: "cap_reach c Map.empty True (store_new c cap h)"
| step: "cap_reach c G on st \<Longrightarrow> batch_ok b \<Longrightarrow>
    cap_propose c ready skip b (Inr out) (on, st) = Some (out', on', st') \<Longrightarrow> cap_reach c (next_log b st st' G) on' st'"

lemma cap_ok_off: "cap_ok c G on st \<Longrightarrow> cap_ok c G False st"
  by (simp add: cap_ok_def)

lemma flush_ok:
  assumes core: "core_ok c G n st" and sl: "slots_ok G n (a_written (c_arena st)) (c_inflight st)"
    and en: "cap_enqueue c b st = (Inr True, st2)" and dr: "enqueue_drafts out st2 = (Inr u, st3)" and b: "batch_ok b"
  shows "cap_ok c (next_log b st (flush c st3) G) on (flush c st3) \<and> c_events (flush c st3) = Suc (c_events st)"
proof -
  from enqueue_staged[OF en] obtain s where s: "c_inflight st2 = c_inflight st @ [s]" "staged b s"
    "reserve (s_total s) (c_arena st) = (Some (s_start s), c_arena st2)" "0 < s_total s"
    "c_reqs st2 = c_reqs st" "c_held st2 = c_held st" "c_train st2 = c_train st" "c_events st2 = c_events st" by metis
  have "\<exists>d. st3 = st2\<lparr>c_inflight := c_inflight st @ [s\<lparr>s_d1_d := d\<rparr>]\<rparr>"
  proof (cases out)
    case None
    with dr s(1) have "st3 = st2\<lparr>c_inflight := c_inflight st @ [s\<lparr>s_d1_d := s_d1_d s\<rparr>]\<rparr>" by (simp add: enqueue_drafts_def)
    then show ?thesis by blast
  next
    case (Some rows)
    with dr s(1) show ?thesis by (auto simp: enqueue_drafts_def map_last_def split: sum.splits)
  qed
  then obtain d where st3: "st3 = st2\<lparr>c_inflight := c_inflight st @ [s\<lparr>s_d1_d := d\<rparr>]\<rparr>" by blast
  define s' where "s' = flush_slot c (c_events st) (s\<lparr>s_d1_d := d\<rparr>)"
  have fl: "c_inflight (flush c st3) = c_inflight st @ [s']" "c_arena (flush c st3) = flush_arena s (c_arena st2)"
    "c_reqs (flush c st3) = c_reqs st" "c_held (flush c st3) = c_held st" "c_train (flush c st3) = c_train st"
    "c_events (flush c st3) = Suc (c_events st)"
    using s st3 by (simp_all add: flush_def map_last_def s'_def flush_arena_def Let_def)
  have s': "s_entries s' = s_entries s" "s_start s' = s_start s" "s_total s' = s_total s"
    by (simp_all add: s'_def flush_slot_def Let_def)
  let ?G = "log_step b (s_entries s) (s_start s) G"
  have G: "next_log b st (flush c st3) G = ?G" using fl s' by (simp add: next_log_def)
  have ar: "arena_ok G (c_arena st)" and rq: "reqs_ok G n st" and wi: "windows_ok c G st"
    using core by (simp_all add: core_ok_def)
  from flush_arena_ok[OF ar s(3,4,2) b] have ar': "arena_ok ?G (c_arena (flush c st3))" and sub: "G \<subseteq>\<^sub>m ?G"
    by (simp_all add: fl(2))
  have re: "s_rej s' ! j = cb_rej b ! fst (snd (s_entries s ! j))" if "j < length (s_entries s)" for j
  proof -
    have "take (length (s_entries s)) (s_rej_d s) = map (\<lambda>(_, i, _). cb_rej b ! i) (s_entries s)"
      using s(2) by (simp add: staged_def Let_def)
    then show ?thesis using that
      by (simp add: s'_def flush_slot_def Let_def nth_write_zero case_prod_unfold del: nth_take take_map)
  qed
  have "entries_ok ?G s' 0 0 (s_entries s')" using entries_new[OF s(2) b s'(2,3) re] s'(1) by simp
  moreover have "slots_ok ?G n (a_written (c_arena st)) (c_inflight st)" by (rule slots_ok_mono_log[OF sl sub])
  moreover have "a_written (c_arena st) \<le> s_start s'" "a_written (c_arena (flush c st3)) = s_start s' + s_total s'"
    using reserve_spec[OF s(3,4)] s' fl(2) by (simp_all add: flush_arena_def Let_def)
  ultimately have "slots_ok ?G n (a_written (c_arena (flush c st3))) (c_inflight (flush c st3))"
    using fl(1) slots_ok_snoc[of ?G n _ "c_inflight st" s'] by simp
  moreover have "core_ok c ?G n (flush c st3)"
    using ar' reqs_ok_mono_log[OF rq sub] windows_ok_mono_log[OF wi sub] fl
    by (simp add: core_ok_def reqs_ok_def windows_ok_def)
  ultimately show ?thesis unfolding G cap_ok_def using fl(6) by (auto simp: core_ok_def)
qed

lemma cap_step_ok:
  assumes w: "0 < cp_window c" and ok: "cap_ok c G on st" and b: "batch_ok b"
  obtains on' st' where "cap_propose c ready skip b (Inr out) (on, st) = Some (Inr out, on', st')"
    "cap_ok c (next_log b st st' G) on' st'"
proof (cases "on \<and> \<not> skip")
  case False
  with ok show thesis by (intro that[of on st]) (auto simp: cap_propose_def next_log_def)
next
  case True
  with ok obtain n where n: "core_ok c G n st" "slots_ok G n (a_written (c_arena st)) (c_inflight st)"
    by (auto simp: cap_ok_def)
  from absorb_slots_ok[OF w n] obtain st1 n1 where a: "absorb c ready st = Some st1" "core_ok c G n1 st1"
    "slots_ok G n1 (a_written (c_arena st)) (c_inflight st1)" "a_written (c_arena st1) = a_written (c_arena st)"
    "c_events st1 = c_events st" unfolding absorb_def by blast
  define st2 where "st2 = depart c (take (cb_num b) (cb_ids b)) st1"
  have d: "core_ok c G n1 st2" "same_ring st1 st2" using depart_ok[OF a(2)] by (simp_all add: st2_def)
  have sl: "slots_ok G n1 (a_written (c_arena st2)) (c_inflight st2)" and ev: "c_events st2 = c_events st"
    using d(2) a by (simp_all add: same_ring_def)
  obtain r st3 where e: "cap_enqueue c b st2 = (r, st3)" by fastforce
  show thesis
  proof (cases r)
    case (Inl x)
    note other = enqueue_other[OF e] Inl
    have "arena_ok G (c_arena st3)" using other d(1) arena_ok_reserved[of G "c_arena st2"] by (auto simp: core_ok_def)
    moreover have "windows_ok c G st3" using other d(1) by (simp add: core_ok_def windows_ok_def)
    ultimately have "cap_ok c (next_log b st st3 G) False st3" using other ev by (simp add: cap_ok_def next_log_def)
    with True a(1) e Inl show thesis by (intro that[of False st3]) (simp_all add: cap_propose_def st2_def)
  next
    case (Inr flag)
    show thesis
    proof (cases flag)
      case False
      note other = enqueue_other[OF e] False Inr
      have "core_ok c G n1 st3" using d(1) by (rule core_ok_cong) (use other in auto)
      with sl other have "cap_ok c (next_log b st st3 G) True st3"
        using ev by (auto simp: cap_ok_def next_log_def core_ok_def)
      with True a(1) e Inr False show thesis by (intro that[of True st3]) (simp_all add: cap_propose_def st2_def)
    next
      case st: True
      with e Inr have en: "cap_enqueue c b st2 = (Inr True, st3)" by simp
      obtain u st4 where dr: "enqueue_drafts out st3 = (u, st4)" by fastforce
      show thesis
      proof (cases u)
        case (Inl x)
        with dr have "st4 = st3" by (auto simp: enqueue_drafts_def split: option.splits sum.splits)
        moreover obtain s where "c_inflight st3 = c_inflight st2 @ [s]" "staged b s" "s_entries s \<noteq> []"
          "reserve (s_total s) (c_arena st2) = (Some (s_start s), c_arena st3)" "0 < s_total s" "c_reqs st3 = c_reqs st2"
          "c_held st3 = c_held st2" "c_train st3 = c_train st2" "c_events st3 = c_events st2" by (rule enqueue_staged[OF en])
        ultimately have "cap_ok c (next_log b st st4 G) False st4"
          using d(1) arena_ok_reserved[of G "c_arena st2"] ev by (auto simp: cap_ok_def next_log_def core_ok_def windows_ok_def)
        with True a(1) en Inl dr show thesis by (intro that[of False st4]) (simp_all add: cap_propose_def st2_def)
      next
        case (Inr v)
        with dr have "enqueue_drafts out st3 = (Inr v, st4)" by simp
        note fl = flush_ok[OF d(1) sl en this b]
        have "next_log b st2 (flush c st4) G = next_log b st (flush c st4) G" using ev by (simp add: next_log_def)
        with fl have "cap_ok c (next_log b st (flush c st4) G) True (flush c st4)" by metis
        with True a(1) en Inr dr show thesis by (intro that[of True "flush c st4"]) (simp_all add: cap_propose_def st2_def)
      qed
    qed
  qed
qed

lemma cap_new_ok: "cap_ok c Map.empty True (store_new c cap h)"
  by (auto simp: cap_ok_def core_ok_def arena_ok_def windows_ok_def reqs_ok_def store_new_def intro!: exI[of _ 0])

lemma cap_reach_ok: "cap_reach c G on st \<Longrightarrow> 0 < cp_window c \<Longrightarrow> cap_ok c G on st"
proof (induction rule: cap_reach.induct)
  case (new cap h)
  then show ?case by (rule_tac cap_new_ok)
next
  case (step G on st b ready skip out out' on' st')
  obtain on1 st1 where "cap_propose c ready skip b (Inr out) (on, st) = Some (Inr out, on1, st1)"
    "cap_ok c (next_log b st st1 G) on1 st1" by (rule cap_step_ok[OF step.prems step.IH[OF step.prems] step.hyps(2)])
  with step.hyps(3) show ?case by simp
qed

text \<open>With an empty window the loop of \<open>_append\<close> keeps the rows it has and never ends.\<close>

lemma empty_window_never_returns:
  assumes "cp_window c = 0" and "cp_L c \<le> length rows"
  shows "emit_full c r plen rows st = None"
proof (rule ccontr)
  assume "emit_full c r plen rows st \<noteq> None"
  then obtain y where "emit_full c r plen rows st = Some y" by blast
  then have "\<not> (cp_window c = 0 \<and> cp_L c \<le> length rows)"
  proof (rule emit_full.raw_induct[rotated])
    fix f :: "cap_cfg \<Rightarrow> rid \<Rightarrow> int \<Rightarrow> nat list \<Rightarrow> 'a cap \<Rightarrow> (nat list \<times> 'a cap) option" and c r plen rows st y
    assume ih: "\<And>c r plen rows st y. f c r plen rows st = Some y \<Longrightarrow> \<not> (cp_window c = 0 \<and> cp_L c \<le> length rows)"
      and y: "(if length rows < cp_L c then Some (rows, st)
        else f c r plen (drop (cp_L c - (cp_k c + 1)) rows) (emit c r (take (cp_L c) rows) plen False st)) = Some y"
    show "\<not> (cp_window c = 0 \<and> cp_L c \<le> length rows)"
    proof
      assume z: "cp_window c = 0 \<and> cp_L c \<le> length rows"
      then have "drop (cp_L c - (cp_k c + 1)) rows = rows" by (simp add: cp_L_def)
      with y z ih show False by (metis not_le)
    qed
  qed
  with assms show False by simp
qed

section \<open>A run\<close>

definition demo_cap_cfg :: cap_cfg where
  "demo_cap_cfg = \<lparr>cp_k = 0, cp_window = 1, cp_rate = 1, cp_ctx = 64, cp_min_rows = 2, cp_max_rows = 4,
     cp_heldout = 0, cp_cuda = False\<rparr>"

definition demo_batch :: "nat \<Rightarrow> nat cbatch" where
  "demo_batch n = \<lparr>cb_ids = [[]], cb_num = n, cb_qsl = [0, 2], cb_comp = [0], cb_plen = [0], cb_hidden = [70, 71],
     cb_tok = [5, 6], cb_pos = [0, 1], cb_rej = [0]\<rparr>"

definition demo_window :: window where
  "demo_window = \<lparr>w_rows = [0, 1], w_plen = 0, w_rid = []\<rparr>"

definition demo_first :: "(int list list option res \<times> bool \<times> nat cap) option" where
  "demo_first = cap_propose demo_cap_cfg (\<lambda>_. True) False (demo_batch 1) (Inr None) (True, store_new demo_cap_cfg 8 0)"

definition demo_second :: "(int list list option res \<times> bool \<times> nat cap) option" where
  "demo_second = (case demo_first of None \<Rightarrow> None
     | Some (_, on, st) \<Rightarrow> cap_propose demo_cap_cfg (\<lambda>_. True) False (demo_batch 0) (Inr None) (on, st))"

lemma demo_second_facts:
  "case demo_second of None \<Rightarrow> False
   | Some (_, on, st) \<Rightarrow> c_train st = [demo_window] \<and> map_option sm_tok (materialize st demo_window) = Some [5, 6]"
  by code_simp

lemma demo_batch_ok: "batch_ok (demo_batch n)"
  by (auto simp: batch_ok_def demo_batch_def nth_Cons split: nat.splits)

lemma demo_reach:
  obtains G on and st :: "nat cap" where "cap_reach demo_cap_cfg G on st" "c_train st = [demo_window]"
    "map_option sm_tok (materialize st demo_window) = Some [5, 6]"
proof -
  obtain r2 on2 st2 where two: "demo_second = Some (r2, on2, st2)"
    using demo_second_facts by (cases demo_second) auto
  then obtain r1 on1 st1 where one: "demo_first = Some (r1, on1, st1)" by (cases demo_first) (auto simp: demo_second_def)
  have "cap_reach demo_cap_cfg (next_log (demo_batch 1) (store_new demo_cap_cfg 8 0) st1 Map.empty) on1 st1"
    by (rule cap_reach.step[OF cap_reach.new demo_batch_ok one[unfolded demo_first_def]])
  moreover have "cap_propose demo_cap_cfg (\<lambda>_. True) False (demo_batch 0) (Inr None) (on1, st1) = Some (r2, on2, st2)"
    using two[unfolded demo_second_def one] by simp
  ultimately have "cap_reach demo_cap_cfg (next_log (demo_batch 0) st1 st2
      (next_log (demo_batch 1) (store_new demo_cap_cfg 8 0) st1 Map.empty)) on2 st2"
    using cap_reach.step demo_batch_ok by metis
  then show thesis by (rule that) (use demo_second_facts[unfolded two] in simp_all)
qed

section \<open>Properties\<close>

text \<open>C4: what training and evaluation read is what serving captured. In every run, a window that can
  still be read consists of rows of one request at consecutive positions, each accepted (not
  rejected by the verification) and unchanged since its step: hidden row, token and position are
  those of the batch.\<close>

theorem window_rows_are_captured:
  assumes "cap_reach c G on st" and "0 < cp_window c" and "w \<in> set (c_train st @ c_held st)"
    and "materialize st w = Some d"
  shows "\<exists>p. sm_pos d = map (\<lambda>j. p + int j) [0..<length (w_rows w)] \<and>
     (\<forall>j < length (w_rows w). G (w_rows w ! j) = Some (sm_rid d, sm_tok d ! j, sm_pos d ! j, sm_h d ! j))"
proof -
  from cap_reach_ok[OF assms(1,2)] have ok: "arena_ok G (c_arena st)" "windows_ok c G st" by (simp_all add: cap_ok_def)
  then have "\<exists>b. window_ok c G b w" using assms(3) by (auto simp: windows_ok_def list_all_iff)
  then obtain p where p: "run G (w_rid w) (w_rows w) p" by (auto simp: window_ok_def)
  have al: "alive (c_arena st) (hd (w_rows w))" using assms(4) by (auto simp: materialize_def Let_def split: if_splits)
  have row: "\<exists>t h. G (w_rows w ! j) = Some (w_rid w, t, p + int j, h) \<and>
      a_tok (c_arena st) ! (w_rows w ! j mod a_cap (c_arena st)) = t \<and>
      a_pos (c_arena st) ! (w_rows w ! j mod a_cap (c_arena st)) = p + int j \<and>
      a_h (c_arena st) ! (w_rows w ! j mod a_cap (c_arena st)) = h" if j: "j < length (w_rows w)" for j
  proof -
    from p j obtain t h where g: "G (w_rows w ! j) = Some (w_rid w, t, p + int j, h)" unfolding run_def by blast
    have "hd (w_rows w) \<le> w_rows w ! j" using run_hd_least[OF p] j by simp
    then have "alive (c_arena st) (w_rows w ! j)" using al by (simp add: alive_def)
    with ok(1) g show ?thesis by (auto simp: arena_ok_def)
  qed
  have d: "sm_pos d = map (\<lambda>c. a_pos (c_arena st) ! (c mod a_cap (c_arena st))) (w_rows w)"
    "sm_tok d = map (\<lambda>c. a_tok (c_arena st) ! (c mod a_cap (c_arena st))) (w_rows w)"
    "sm_h d = map (\<lambda>c. a_h (c_arena st) ! (c mod a_cap (c_arena st))) (w_rows w)" "sm_rid d = w_rid w"
    using assms(4) by (auto simp: materialize_def Let_def comp_def split: if_splits)
  have "sm_pos d = map (\<lambda>j. p + int j) [0..<length (w_rows w)]"
  proof (rule nth_equalityI)
    fix j assume "j < length (sm_pos d)"
    then have "j < length (w_rows w)" by (simp add: d(1))
    moreover from row[OF this] have "a_pos (c_arena st) ! (w_rows w ! j mod a_cap (c_arena st)) = p + int j" by blast
    ultimately show "sm_pos d ! j = map (\<lambda>j. p + int j) [0..<length (w_rows w)] ! j" by (simp add: d(1))
  qed (simp add: d(1))
  moreover have "G (w_rows w ! j) = Some (sm_rid d, sm_tok d ! j, sm_pos d ! j, sm_h d ! j)" if "j < length (w_rows w)" for j
    using row[OF that] that by (auto simp: d)
  ultimately show ?thesis by blast
qed

lemma window_rows_are_captured_witness:
  "\<exists>G on (st :: nat cap) d p. cap_reach demo_cap_cfg G on st \<and> materialize st demo_window = Some d \<and> sm_tok d = [5, 6] \<and>
     sm_pos d = [p, p + 1] \<and> G 0 = Some ([], 5, p, sm_h d ! 0)"
proof -
  obtain G on and st :: "nat cap" where r: "cap_reach demo_cap_cfg G on st" "c_train st = [demo_window]"
    "map_option sm_tok (materialize st demo_window) = Some [5, 6]" by (rule demo_reach)
  then obtain d where d: "materialize st demo_window = Some d" "sm_tok d = [5, 6]" by auto
  have rid: "sm_rid d = []" using d(1) by (auto simp: materialize_def Let_def demo_window_def split: if_splits)
  have "0 < cp_window demo_cap_cfg" "demo_window \<in> set (c_train st @ c_held st)" using r(2) by (simp_all add: demo_cap_cfg_def)
  from window_rows_are_captured[OF r(1) this d(1)] obtain p where
    p: "sm_pos d = map (\<lambda>j. p + int j) [0..<length (w_rows demo_window)]"
    "\<forall>j < length (w_rows demo_window). G (w_rows demo_window ! j) = Some (sm_rid d, sm_tok d ! j, sm_pos d ! j, sm_h d ! j)"
    by blast
  from p(1) have pos: "sm_pos d = [p, p + 1]" by (simp add: demo_window_def upt_rec)
  with p(2)[rule_format, of 0] rid d(2) have "G 0 = Some ([], 5, p, sm_h d ! 0)" by (simp add: demo_window_def)
  with r(1) d pos show ?thesis by blast
qed

text \<open>The gate never judges on data the adapter was trained on: in every run a request's windows all
  go to one side, held out or for training, decided by its id alone.\<close>

theorem heldout_never_trained:
  assumes "cap_reach c G on st" and "0 < cp_window c"
  shows "w_rid ` set (c_held st) \<inter> w_rid ` set (c_train st) = {}"
  using cap_reach_ok[OF assms] by (fastforce simp: cap_ok_def windows_ok_def window_ok_def list_all_iff)

lemma heldout_never_trained_witness:
  "\<exists>(st :: nat cap) G on. cap_reach demo_cap_cfg G on st \<and> c_train st = [demo_window] \<and> [] \<notin> w_rid ` set (c_held st)"
proof -
  obtain G on and st :: "nat cap" where r: "cap_reach demo_cap_cfg G on st" "c_train st = [demo_window]" by (rule demo_reach)
  have "[] \<notin> w_rid ` set (c_held st)"
    using heldout_never_trained[OF r(1)] r(2) by (auto simp: demo_cap_cfg_def demo_window_def)
  with r(1,2) show ?thesis by blast
qed

text \<open>Capture never stands in the way of serving: with a positive window, in every run a wrapped
  call returns, and what it returns is the native call's result.\<close>

theorem capture_returns_native:
  assumes "cap_reach c G on st" and "0 < cp_window c" and "batch_ok b"
  shows "\<exists>on' st'. cap_propose c ready skip b (Inr out) (on, st) = Some (Inr out, on', st')"
  using cap_step_ok[OF assms(2) cap_reach_ok[OF assms(1,2)] assms(3)] by metis

lemma capture_returns_native_witness:
  "\<exists>on st. cap_propose demo_cap_cfg (\<lambda>_. True) False (demo_batch 1) (Inr None) (True, store_new demo_cap_cfg 8 0) =
     Some (Inr None, on, st)"
  using capture_returns_native[OF cap_reach.new _ demo_batch_ok, of demo_cap_cfg "\<lambda>_. True" False 1 None 8 0]
  by (simp add: demo_cap_cfg_def)

end
