(* ===== verification/IdleTune.thy ===== *)
theory IdleTune
  imports Capture BandText
begin

text \<open>
  Idle-time tuning of the draft head (\<open>suffix_hybrid/mtp_tune/\<close>): the promotion gate
  (\<open>gate.py\<close>: \<open>Stats\<close>, \<open>Gate\<close>), the counters of the trainer (\<open>train.py\<close>: \<open>micro_step\<close>, \<open>adapt\<close>), the
  worker side (\<open>scheduler.py\<close>: \<open>Tuner.plan\<close>, \<open>_batch\<close>, \<open>step\<close>, \<open>_step\<close>, \<open>worker_step\<close>), the engine side
  (\<open>EngineIdle.run\<close>) and the configuration (\<open>__init__.py\<close>). Adapters are values of a type
  parameter; replays, gradients, times and free memory are inputs. Each rank lists the collectives
  it enters. Times and rates are rationals.
\<close>

section \<open>The promotion gate\<close>

text \<open>\<open>chain_replay\<close>: per depth, window and column whether the draft is right; the anchors with labels for
  all depths; the depth-1 predictions.\<close>

record chain_out =
  rp_correct :: "bool list list list"
  rp_full :: "bool list list"
  rp_pred1 :: "int list list"

record bucket =
  b_n :: nat
  b_acc :: nat
  b_d1 :: nat
  b_ph :: nat
  b_pn :: nat

type_synonym stats = "(string, bucket) dict"

definition leading_correct :: "chain_out \<Rightarrow> nat \<Rightarrow> nat \<Rightarrow> nat" where
  "leading_correct rep i t = length (takeWhile (\<lambda>d. d ! i ! t) (rp_correct rep))"

definition anchors :: "chain_out \<Rightarrow> nat \<Rightarrow> nat list" where
  "anchors rep i = filter (\<lambda>t. rp_full rep ! i ! t) [0..<length (rp_full rep ! i)]"

definition bucket_add :: "chain_out \<Rightarrow> int list list option \<Rightarrow> nat \<Rightarrow> bucket \<Rightarrow> bucket" where
  "bucket_add rep served i b =
     (let ts = anchors rep i;
          b1 = b\<lparr>b_n := b_n b + length ts, b_acc := b_acc b + sum_list (map (leading_correct rep i) ts),
                 b_d1 := b_d1 b + length (filter (\<lambda>t. rp_correct rep ! 0 ! i ! t) ts)\<rparr>
      in case served of
           None \<Rightarrow> b1
         | Some d1 \<Rightarrow> let m = filter (\<lambda>t. 0 \<le> d1 ! i ! t) ts
             in b1\<lparr>b_ph := b_ph b1 + length (filter (\<lambda>t. rp_pred1 rep ! i ! t = d1 ! i ! t) m), b_pn := b_pn b1 + length m\<rparr>)"

definition stats_add :: "chain_out \<Rightarrow> string list \<Rightarrow> int list list option \<Rightarrow> stats \<Rightarrow> stats" where
  "stats_add rep tags served st =
     fold (\<lambda>(i, tag) st. AList.update tag (bucket_add rep served i (dict_or st tag \<lparr>b_n = 0, b_acc = 0, b_d1 = 0, b_ph = 0, b_pn = 0\<rparr>)) st)
       (enumerate 0 tags) st"

definition stats_total :: "stats \<Rightarrow> nat \<times> rat" where
  "stats_total st = (let n = sum_list (map (b_n \<circ> snd) st); acc = sum_list (map (b_acc \<circ> snd) st)
     in (n, of_nat acc / of_nat (max n 1)))"

record gate =
  gt_margin :: rat
  gt_min :: nat
  gt_live :: stats
  gt_cand :: stats
  gt_promotions :: nat

definition gate_reset :: "gate \<Rightarrow> gate" where
  "gate_reset g = g\<lparr>gt_live := [], gt_cand := []\<rparr>"

definition gate_feed :: "chain_out \<Rightarrow> chain_out \<Rightarrow> string list \<Rightarrow> int list list option \<Rightarrow> gate \<Rightarrow> gate" where
  "gate_feed live cand tags served g =
     g\<lparr>gt_live := stats_add live tags served (gt_live g), gt_cand := stats_add cand tags None (gt_cand g)\<rparr>"

definition gate_decide :: "gate \<Rightarrow> bool" where
  "gate_decide g = (let (n, live) = stats_total (gt_live g); (_, cand) = stats_total (gt_cand g)
     in gt_min g \<le> n \<and> gt_margin g \<le> cand - live)"

section \<open>Configuration\<close>

record tune_cfg =
  tc_rate :: rat
  tc_window :: int
  tc_ctx :: int
  tc_mem_gib :: rat
  tc_max_rows :: int
  tc_heldout_pct :: int
  tc_rank :: int
  tc_alpha :: rat
  tc_targets :: "string list"
  tc_lr :: rat
  tc_accum :: int
  tc_step_ms :: rat
  tc_max_windows :: int
  tc_eval_every :: int
  tc_eval_windows :: int
  tc_min_eval :: int
  tc_min_train :: int
  tc_margin :: rat
  tc_min_anchors :: int
  tc_min_free_gib :: rat
  tc_idle_grace_ms :: rat
  tc_shadow :: bool
  tc_rollback :: string
  tc_log_s :: rat
  tc_lang :: bool
  tc_rpc_timeout_s :: rat

definition default_targets :: "string list" where
  "default_targets = [''*fc_embedding'', ''*fc_hidden'', ''*self_attn.qkv_proj'', ''*self_attn.o_proj'',
     ''*shared_expert.gate_up_proj'', ''*shared_expert.down_proj'']"

definition env_i :: "environ \<Rightarrow> string \<Rightarrow> int \<Rightarrow> int res" where
  "env_i e name d = (case map_of e (''SUFFIX_MTP_TUNE_'' @ name) of None \<Rightarrow> Inr d
     | Some v \<Rightarrow> (case py_int v of None \<Rightarrow> Inl ValueError | Some n \<Rightarrow> Inr n))"

definition env_f :: "environ \<Rightarrow> string \<Rightarrow> rat \<Rightarrow> rat res" where
  "env_f e name d = (case map_of e (''SUFFIX_MTP_TUNE_'' @ name) of None \<Rightarrow> Inr d | Some v \<Rightarrow> py_float v)"

definition env_targets :: "environ \<Rightarrow> string list" where
  "env_targets e = (let t = py_strip (env_get e ''SUFFIX_MTP_TUNE_TARGETS'' []);
       xs = filter (\<lambda>x. x \<noteq> []) (map py_strip (py_split (CHR '','') t))
     in if xs = [] then default_targets else xs)"

definition from_env :: "environ \<Rightarrow> tune_cfg res" where
  "from_env e =
     rbind (env_f e ''RATE'' (1 / 4)) (\<lambda>rate. rbind (env_i e ''WINDOW'' 256) (\<lambda>window. rbind (env_i e ''CTX'' 64) (\<lambda>ctx.
     rbind (env_f e ''MEM_GIB'' 4) (\<lambda>mem. rbind (env_i e ''MAX_ROWS'' 2048) (\<lambda>rows. rbind (env_i e ''HELDOUT_PCT'' 20) (\<lambda>held.
     rbind (env_i e ''RANK'' 16) (\<lambda>rank. rbind (env_f e ''ALPHA'' 32) (\<lambda>alpha. rbind (env_f e ''LR'' (binary64 (1 / 10000))) (\<lambda>lr.
     rbind (env_i e ''ACCUM'' 4) (\<lambda>accum. rbind (env_f e ''STEP_MS'' 50) (\<lambda>ms.
     rbind (env_i e ''MAX_WINDOWS'' 4) (\<lambda>mw. rbind (env_i e ''EVAL_EVERY'' 50) (\<lambda>ee.
     rbind (env_i e ''EVAL_WINDOWS'' 64) (\<lambda>ew. rbind (env_i e ''MIN_EVAL_WINDOWS'' 8) (\<lambda>me.
     rbind (env_i e ''MIN_TRAIN_WINDOWS'' 8) (\<lambda>mt. rbind (env_f e ''MARGIN'' (binary64 (1 / 20))) (\<lambda>mg.
     rbind (env_i e ''MIN_ANCHORS'' 2000) (\<lambda>ma. rbind (env_f e ''MIN_FREE_GIB'' 2) (\<lambda>free.
     rbind (env_f e ''IDLE_GRACE_MS'' 200) (\<lambda>gr. rbind (env_f e ''LOG_S'' 60) (\<lambda>logs.
     rbind (env_f e ''RPC_TIMEOUT_S'' 30) (\<lambda>rpc.
       Inr \<lparr>tc_rate = rate, tc_window = window, tc_ctx = ctx, tc_mem_gib = mem, tc_max_rows = rows, tc_heldout_pct = held,
            tc_rank = rank, tc_alpha = alpha, tc_targets = env_targets e, tc_lr = lr, tc_accum = accum, tc_step_ms = ms,
            tc_max_windows = mw, tc_eval_every = ee, tc_eval_windows = ew, tc_min_eval = me, tc_min_train = mt,
            tc_margin = mg, tc_min_anchors = ma, tc_min_free_gib = free, tc_idle_grace_ms = gr,
            tc_shadow = (env_get e ''SUFFIX_MTP_TUNE_SHADOW'' [] = ''1''),
            tc_rollback = env_get e ''SUFFIX_MTP_TUNE_ROLLBACK_FILE'' ''/tmp/suffix_mtp_tune.rollback'',
            tc_log_s = logs, tc_lang = (env_get e ''SUFFIX_MTP_TUNE_LANG'' ''1'' = ''1''),
            tc_rpc_timeout_s = rpc\<rparr>))))))))))))))))))))))"

section \<open>The tuner of a rank\<close>

record trainer =
  tr_micro :: int
  tr_steps :: int
  tr_wpm :: int
  tr_ms :: "rat option"

record ('a, 'h) tuner =
  tu_rank0 :: bool
  tu_disabled :: bool
  tu_rolled :: bool
  tu_live :: 'a
  tu_cand :: 'a
  tu_gate :: gate
  tu_trainer :: trainer
  tu_queue :: "window list"
  tu_eval_at :: int
  tu_train :: nat
  tu_eval :: nat
  tu_skip :: nat
  tu_ms_max :: rat

datatype 'h plan = PNone | PRollback | PTrain "'h sample list" | PEval "'h sample list" bool

definition tail_of :: "'x list \<Rightarrow> int \<Rightarrow> 'x list" where
  "tail_of xs n = py_from xs (- n)"

text \<open>\<open>_batch\<close>: the windows of the records that are still in the ring; no batch when none is.\<close>

definition make_batch :: "'h cap \<Rightarrow> ('h sample list \<Rightarrow> 'h plan) \<Rightarrow> window list \<Rightarrow> 'h plan" where
  "make_batch store mkp recs = (let ws = List.map_filter (materialize store) recs in if ws = [] then PNone else mkp ws)"

text \<open>\<open>plan\<close> on rank 0. \<open>sample\<close> is \<open>random.sample\<close>; the recursion depth is Python's limit.\<close>

fun plan_next :: "nat \<Rightarrow> tune_cfg \<Rightarrow> bool \<Rightarrow> (window list \<Rightarrow> nat \<Rightarrow> window list) \<Rightarrow> 'h cap \<Rightarrow> ('a, 'h) tuner \<Rightarrow>
    'h plan res \<times> ('a, 'h) tuner" where
  "plan_next 0 c rollback sample store t = (Inl OtherError, t)"
| "plan_next (Suc fuel) c rollback sample store t =
     (if tc_rollback c \<noteq> [] \<and> \<not> tu_rolled t \<and> rollback then (Inr PRollback, t)
      else if tu_queue t \<noteq> []
      then (let n = nat (tr_wpm (tu_trainer t)); recs = take n (tu_queue t); rest = drop (length recs) (tu_queue t)
            in (Inr (make_batch store (\<lambda>ws. PEval ws (rest = [])) recs), t\<lparr>tu_queue := rest\<rparr>))
      else (let held = alive_windows True store
            in if tc_eval_every c \<le> tr_steps (tu_trainer t) - tu_eval_at t \<and> tc_min_eval c \<le> int (length held)
               then plan_next fuel c rollback sample store
                      (t\<lparr>tu_queue := tail_of held (tc_eval_windows c), tu_eval_at := tr_steps (tu_trainer t),
                        tu_gate := gate_reset (tu_gate t)\<rparr>)
               else (let train = alive_windows False store
                     in if tc_min_train c \<le> int (length train)
                        then (Inr (make_batch store PTrain (sample train (nat (min (tr_wpm (tu_trainer t)) (int (length train)))))), t)
                        else (Inr PNone, t))))"

definition plan :: "tune_cfg \<Rightarrow> bool \<Rightarrow> (window list \<Rightarrow> nat \<Rightarrow> window list) \<Rightarrow> 'h cap \<Rightarrow> ('a, 'h) tuner \<Rightarrow>
    'h plan res \<times> ('a, 'h) tuner" where
  "plan = plan_next 1000"

definition train_micro :: "tune_cfg \<Rightarrow> trainer \<Rightarrow> trainer" where
  "train_micro c t = (let m = tr_micro t + 1
     in t\<lparr>tr_micro := m, tr_steps := (if m mod tc_accum c = 0 then tr_steps t + 1 else tr_steps t)\<rparr>)"

definition train_adapt :: "tune_cfg \<Rightarrow> rat \<Rightarrow> nat \<Rightarrow> trainer \<Rightarrow> trainer" where
  "train_adapt c ms n t =
     (let per = ms / of_nat (max n 1); w = (case tr_ms t of None \<Rightarrow> per | Some x \<Rightarrow> 4 / 5 * x + 1 / 5 * per)
      in t\<lparr>tr_ms := Some w, tr_wpm := max 1 (min (tc_max_windows c) \<lfloor>tc_step_ms c / w\<rfloor>)\<rparr>)"

text \<open>What a rank meets in a step: an injected fault, its free memory, the update and time of a training
  micro-step, the replays of an evaluation, and whether the operation raises.\<close>

record 'a step_io =
  io_fault :: bool
  io_mem :: bool
  io_update :: "'a \<Rightarrow> 'a"
  io_ms :: rat
  io_live :: chain_out
  io_cand :: chain_out
  io_d1 :: "int list list"
  io_tags :: "string list"
  io_raise :: bool

text \<open>The collectives a rank enters, in order.\<close>

datatype coll = BcastPlan | ReduceMem | RunOp | BcastPromote

definition tune_op :: "tune_cfg \<Rightarrow> 'a step_io \<Rightarrow> 'h plan \<Rightarrow> ('a, 'h) tuner \<Rightarrow> ('a, 'h) tuner" where
  "tune_op c io p t =
     (case p of
        PTrain ws \<Rightarrow> t\<lparr>tu_cand := io_update io (tu_cand t), tu_train := Suc (tu_train t),
          tu_trainer := train_adapt c (io_ms io) (length ws) (train_micro c (tu_trainer t))\<rparr>
      | PEval ws _ \<Rightarrow> t\<lparr>tu_gate := gate_feed (io_live io) (io_cand io) (io_tags io) (Some (io_d1 io)) (tu_gate t),
          tu_eval := Suc (tu_eval t)\<rparr>
      | _ \<Rightarrow> t)"

text \<open>\<open>_step\<close> after the plan is known. \<open>mem\<close> is the reduced flag (every rank has memory), \<open>promote\<close> what
  rank 0 broadcasts at the end of an evaluation; \<open>zero\<close> is the adapter of zeros.\<close>

definition promote_flag :: "tune_cfg \<Rightarrow> ('a, 'h) tuner \<Rightarrow> bool" where
  "promote_flag c t \<longleftrightarrow> gate_decide (tu_gate t) \<and> \<not> tu_rolled t \<and> \<not> tc_shadow c"

definition do_promote :: "('a, 'h) tuner \<Rightarrow> ('a, 'h) tuner" where
  "do_promote t = t\<lparr>tu_live := tu_cand t, tu_gate := (tu_gate t)\<lparr>gt_promotions := Suc (gt_promotions (tu_gate t))\<rparr>\<rparr>"

definition run_plan :: "tune_cfg \<Rightarrow> 'a \<Rightarrow> 'a step_io \<Rightarrow> bool \<Rightarrow> bool \<Rightarrow> 'h plan \<Rightarrow> ('a, 'h) tuner \<Rightarrow>
    bool res \<times> coll list \<times> ('a, 'h) tuner" where
  "run_plan c zero io mem promote p t =
     (case p of
        PNone \<Rightarrow> (Inr False, [], t)
      | PRollback \<Rightarrow> (Inr True, [], t\<lparr>tu_live := zero, tu_rolled := True\<rparr>)
      | _ \<Rightarrow>
          if \<not> mem then (Inr False, [ReduceMem], t\<lparr>tu_skip := Suc (tu_skip t)\<rparr>)
          else if io_raise io then (Inl OtherError, [ReduceMem], t)
          else let t' = tune_op c io p t
               in (case p of
                     PEval _ True \<Rightarrow> (Inr True, [ReduceMem, RunOp, BcastPromote], if promote then do_promote t' else t')
                   | _ \<Rightarrow> (Inr True, [ReduceMem, RunOp], t')))"

text \<open>\<open>_step\<close>: rank 0 plans, every other rank receives \<open>bcast\<close>.\<close>

definition tuner_step :: "tune_cfg \<Rightarrow> 'a \<Rightarrow> 'a step_io \<Rightarrow> 'h plan res \<times> ('a, 'h) tuner \<Rightarrow> 'h plan \<Rightarrow> bool \<Rightarrow> bool \<Rightarrow>
    ('a, 'h) tuner \<Rightarrow> bool res \<times> coll list \<times> ('a, 'h) tuner" where
  "tuner_step c zero io planned bcast mem promote t =
     (if io_fault io then (Inl RuntimeError, [], t)
      else if tu_rank0 t
      then (case planned of
              (Inl e, t') \<Rightarrow> (Inl e, [], t')
            | (Inr p, t') \<Rightarrow> let (r, tr, t'') = run_plan c zero io mem promote p t' in (r, BcastPlan # tr, t''))
      else let (r, tr, t'') = run_plan c zero io mem promote bcast t in (r, BcastPlan # tr, t''))"

datatype step_answer = Worked bool | Disabled

definition guarded_step :: "tune_cfg \<Rightarrow> 'a \<Rightarrow> 'a step_io \<Rightarrow> 'h plan res \<times> ('a, 'h) tuner \<Rightarrow> 'h plan \<Rightarrow> bool \<Rightarrow> bool \<Rightarrow>
    ('a, 'h) tuner \<Rightarrow> step_answer \<times> coll list \<times> ('a, 'h) tuner" where
  "guarded_step c zero io planned bcast mem promote t =
     (if tu_disabled t then (Disabled, [], t)
      else (case tuner_step c zero io planned bcast mem promote t of
              (Inl _, tr, t') \<Rightarrow> (Disabled, tr, t'\<lparr>tu_disabled := True\<rparr>)
            | (Inr w, tr, t') \<Rightarrow> (Worked w, tr, if w then t'\<lparr>tu_ms_max := max (tu_ms_max t') (io_ms io)\<rparr> else t')))"

section \<open>One call on every worker\<close>

text \<open>\<open>worker_step\<close> of the whole group; a rank without an installed tuner is \<^const>\<open>None\<close>. Rank 0's plan and
  promotion flag, and the memory of all ranks, are what the collectives deliver.\<close>

definition live_tuner :: "('a, 'h) tuner option \<Rightarrow> bool" where
  "live_tuner r \<longleftrightarrow> (case r of None \<Rightarrow> False | Some t \<Rightarrow> \<not> tu_disabled t)"

definition vote_out :: "('a, 'h) tuner option \<Rightarrow> ('a, 'h) tuner option" where
  "vote_out r = map_option (\<lambda>t. t\<lparr>tu_disabled := True\<rparr>) r"

definition group_plan :: "tune_cfg \<Rightarrow> bool \<Rightarrow> (window list \<Rightarrow> nat \<Rightarrow> window list) \<Rightarrow> 'h cap \<Rightarrow> ('a, 'h) tuner \<Rightarrow> 'h plan" where
  "group_plan c rollback sample store t = (case fst (plan c rollback sample store t) of Inl _ \<Rightarrow> PNone | Inr p \<Rightarrow> p)"

definition group_promote :: "tune_cfg \<Rightarrow> 'a step_io \<Rightarrow> 'h plan \<Rightarrow> ('a, 'h) tuner \<Rightarrow> bool" where
  "group_promote c io p t = promote_flag c (tune_op c io p t)"

definition worker_round :: "tune_cfg \<Rightarrow> 'a \<Rightarrow> bool \<Rightarrow> (window list \<Rightarrow> nat \<Rightarrow> window list) \<Rightarrow> 'h cap \<Rightarrow> 'a step_io list \<Rightarrow>
    ('a, 'h) tuner option list \<Rightarrow> (step_answer \<times> coll list \<times> ('a, 'h) tuner option) list" where
  "worker_round c zero rollback sample store ios ranks =
     (if \<not> list_all live_tuner ranks then map (\<lambda>r. (Disabled, [], vote_out r)) ranks
      else (case hd ranks of
              None \<Rightarrow> []
            | Some t0 \<Rightarrow>
                let p = group_plan c rollback sample store t0; mem = list_all io_mem ios;
                    promote = group_promote c (hd ios) p (snd (plan c rollback sample store t0))
                in map (\<lambda>(io, r). case r of
                      None \<Rightarrow> (Disabled, [], None)
                    | Some t \<Rightarrow> let (a, tr, t') = guarded_step c zero io (plan c rollback sample store t) p mem promote t
                                in (a, tr, Some t')) (zip ios ranks)))"

text \<open>The call returns on every worker only if all ranks enter the same collectives.\<close>

definition round_completes :: "(step_answer \<times> coll list \<times> ('a, 'h) tuner option) list \<Rightarrow> bool" where
  "round_completes out \<longleftrightarrow> (\<forall>x \<in> set out. \<forall>y \<in> set out. fst (snd x) = fst (snd y))"

section \<open>The engine side\<close>

text \<open>One pass of the idle loop: what the engine sees before the call, how long the call took, its
  answer, and whether input had arrived when it returned.\<close>

record tick =
  tk_empty :: bool
  tk_work :: bool
  tk_running :: bool
  tk_dt :: rat
  tk_answer :: "step_answer option"
  tk_arrived :: bool

record engine_idle =
  ei_on :: bool
  ei_busy :: rat
  ei_max_added :: rat
  ei_rpcs :: nat

definition idle_now :: "tick \<Rightarrow> bool" where
  "idle_now k \<longleftrightarrow> tk_empty k \<and> \<not> tk_work k \<and> tk_running k"

fun idle_loop :: "tick list \<Rightarrow> engine_idle \<Rightarrow> engine_idle" where
  "idle_loop [] e = e"
| "idle_loop (k # ks) e =
     (if \<not> (ei_on e \<and> idle_now k) then e
      else let e1 = e\<lparr>ei_busy := ei_busy e + tk_dt k, ei_rpcs := Suc (ei_rpcs e),
                      ei_max_added := (if tk_arrived k then max (ei_max_added e) (tk_dt k * 1000) else ei_max_added e)\<rparr>
           in if tk_answer k = Some (Worked True) then idle_loop ks e1
              else if tk_answer k = Some Disabled then e1\<lparr>ei_on := False\<rparr> else e1)"

text \<open>\<open>run\<close>: \<open>now\<close> is what the engine sees on entry, \<open>input\<close> whether the grace period delivered a request, which is
  then handled instead.\<close>

definition idle_run :: "tick \<Rightarrow> bool \<Rightarrow> tick list \<Rightarrow> engine_idle \<Rightarrow> bool \<times> engine_idle" where
  "idle_run now input ks e =
     (if \<not> ei_on e \<or> \<not> idle_now now then (False, e) else if input then (True, e) else (False, idle_loop ks e))"

section \<open>Sums over the buckets\<close>

definition no_bucket :: bucket where
  "no_bucket = \<lparr>b_n = 0, b_acc = 0, b_d1 = 0, b_ph = 0, b_pn = 0\<rparr>"

definition stats_sum :: "(bucket \<Rightarrow> nat) \<Rightarrow> stats \<Rightarrow> nat" where
  "stats_sum f st = sum_list (map (f \<circ> snd) st)"

lemma stats_sum_update:
  "dict_ok st \<Longrightarrow> f no_bucket = 0 \<Longrightarrow>
   stats_sum f (AList.update k b st) + f (dict_or st k no_bucket) = stats_sum f st + f b"
proof (induction st)
  case (Cons x st)
  obtain k' v where x: "x = (k', v)" by (cases x)
  show ?case
  proof (cases "k' = k")
    case True
    with x show ?thesis by (simp add: stats_sum_def dict_or_def)
  next
    case False
    with Cons x show ?thesis by (simp add: stats_sum_def dict_or_def dict_ok_def)
  qed
qed (simp add: stats_sum_def dict_or_def)

definition added :: "(chain_out \<Rightarrow> nat \<Rightarrow> nat) \<Rightarrow> chain_out \<Rightarrow> nat \<Rightarrow> nat" where
  "added f rep n = sum_list (map (f rep) [0..<n])"

lemma stats_add_sum:
  assumes f: "f no_bucket = 0" and step: "\<And>i b. f (bucket_add rep served i b) = f b + d i" and ok: "dict_ok st"
  shows "dict_ok (stats_add rep tags served st) \<and>
    stats_sum f (stats_add rep tags served st) = stats_sum f st + sum_list (map d [0..<length tags])"
proof -
  have "dict_ok (fold (\<lambda>(i, tag) st. AList.update tag (bucket_add rep served i (dict_or st tag no_bucket)) st) (enumerate n tags) st) \<and>
    stats_sum f (fold (\<lambda>(i, tag) st. AList.update tag (bucket_add rep served i (dict_or st tag no_bucket)) st) (enumerate n tags) st) =
    stats_sum f st + sum_list (map d [n..<n + length tags])" for n
    using ok
  proof (induction tags arbitrary: n st)
    case (Cons tag tags)
    let ?st = "AList.update tag (bucket_add rep served n (dict_or st tag no_bucket)) st"
    have "stats_sum f ?st = stats_sum f st + d n"
      using stats_sum_update[of st f tag "bucket_add rep served n (dict_or st tag no_bucket)"] Cons.prems f step by simp
    moreover have "[n..<n + length (tag # tags)] = n # [Suc n..<Suc n + length tags]"
      by (simp add: upt_conv_Cons del: upt_Suc)
    ultimately show ?case using Cons.IH[of ?st "Suc n"] Cons.prems by (simp del: upt_Suc)
  qed simp
  from this[of 0] show ?thesis by (simp add: stats_add_def no_bucket_def)
qed

lemma bucket_add_sums:
  "b_n (bucket_add rep served i b) = b_n b + length (anchors rep i)"
  "b_acc (bucket_add rep served i b) = b_acc b + sum_list (map (leading_correct rep i) (anchors rep i))"
  by (simp_all add: bucket_add_def Let_def split: option.split)

text \<open>Anchors and leading correct depths of a replay over its windows.\<close>

definition anchor_count :: "chain_out \<Rightarrow> string list \<Rightarrow> nat" where
  "anchor_count rep tags = sum_list (map (\<lambda>i. length (anchors rep i)) [0..<length tags])"

definition correct_sum :: "chain_out \<Rightarrow> string list \<Rightarrow> nat" where
  "correct_sum rep tags = sum_list (map (\<lambda>i. sum_list (map (leading_correct rep i) (anchors rep i))) [0..<length tags])"

type_synonym feed = "chain_out \<times> chain_out \<times> string list \<times> int list list"

definition feed_all :: "feed list \<Rightarrow> gate \<Rightarrow> gate" where
  "feed_all fs g = fold (\<lambda>(live, cand, tags, d1). gate_feed live cand tags (Some d1)) fs g"

lemma feed_all_sums:
  "dict_ok (gt_live g) \<Longrightarrow> dict_ok (gt_cand g) \<Longrightarrow>
   stats_sum b_n (gt_live (feed_all fs g)) = stats_sum b_n (gt_live g) + sum_list (map (\<lambda>(l, _, tags, _). anchor_count l tags) fs) \<and>
   stats_sum b_n (gt_cand (feed_all fs g)) = stats_sum b_n (gt_cand g) + sum_list (map (\<lambda>(_, c, tags, _). anchor_count c tags) fs) \<and>
   stats_sum b_acc (gt_live (feed_all fs g)) = stats_sum b_acc (gt_live g) + sum_list (map (\<lambda>(l, _, tags, _). correct_sum l tags) fs) \<and>
   stats_sum b_acc (gt_cand (feed_all fs g)) = stats_sum b_acc (gt_cand g) + sum_list (map (\<lambda>(_, c, tags, _). correct_sum c tags) fs) \<and>
   gt_margin (feed_all fs g) = gt_margin g \<and> gt_min (feed_all fs g) = gt_min g"
proof (induction fs arbitrary: g)
  case (Cons x fs)
  obtain l c tags d1 where x: "x = (l, c, tags, d1)" by (cases x)
  let ?g = "gate_feed l c tags (Some d1) g"
  have live: "dict_ok (gt_live ?g)" "stats_sum b_n (gt_live ?g) = stats_sum b_n (gt_live g) + anchor_count l tags"
    "stats_sum b_acc (gt_live ?g) = stats_sum b_acc (gt_live g) + correct_sum l tags"
    using stats_add_sum[OF _ bucket_add_sums(1) Cons.prems(1)] stats_add_sum[OF _ bucket_add_sums(2) Cons.prems(1)]
    by (simp_all add: gate_feed_def no_bucket_def anchor_count_def correct_sum_def)
  have cand: "dict_ok (gt_cand ?g)" "stats_sum b_n (gt_cand ?g) = stats_sum b_n (gt_cand g) + anchor_count c tags"
    "stats_sum b_acc (gt_cand ?g) = stats_sum b_acc (gt_cand g) + correct_sum c tags"
    using stats_add_sum[OF _ bucket_add_sums(1) Cons.prems(2)] stats_add_sum[OF _ bucket_add_sums(2) Cons.prems(2)]
    by (simp_all add: gate_feed_def no_bucket_def anchor_count_def correct_sum_def)
  have "feed_all (x # fs) g = feed_all fs ?g" by (simp add: feed_all_def x)
  with Cons.IH[OF live(1) cand(1)] live cand x show ?case by (simp add: gate_feed_def)
qed (simp add: feed_all_def)

section \<open>Rounds of the group\<close>

text \<open>The fields the ranks have in common.\<close>

definition in_step :: "('a, 'h) tuner option list \<Rightarrow> bool" where
  "in_step ranks \<longleftrightarrow> (\<forall>r \<in> set ranks. \<forall>r' \<in> set ranks. \<forall>t t'. r = Some t \<longrightarrow> r' = Some t' \<longrightarrow>
     tu_rolled t = tu_rolled t' \<and> gt_promotions (tu_gate t) = gt_promotions (tu_gate t'))"

lemma tune_op_fields [simp]:
  "tu_rolled (tune_op c io p t) = tu_rolled t" "tu_disabled (tune_op c io p t) = tu_disabled t"
  "gt_promotions (tu_gate (tune_op c io p t)) = gt_promotions (tu_gate t)" "tu_live (tune_op c io p t) = tu_live t"
  "tu_rank0 (tune_op c io p t) = tu_rank0 t"
  by (auto simp: tune_op_def gate_feed_def split: plan.split)

lemma plan_next_fields:
  "plan_next n c rb sample store t = (r, t') \<Longrightarrow> tu_rolled t' = tu_rolled t \<and> tu_disabled t' = tu_disabled t \<and>
     gt_promotions (tu_gate t') = gt_promotions (tu_gate t) \<and> tu_live t' = tu_live t \<and> tu_rank0 t' = tu_rank0 t"
proof (induction n arbitrary: t)
  case (Suc n)
  from Suc.prems show ?case
    by (auto simp: Let_def gate_reset_def split: if_splits dest!: Suc.IH)
qed simp

lemma in_stepD:
  "in_step ranks \<Longrightarrow> Some t \<in> set ranks \<Longrightarrow> Some t' \<in> set ranks \<Longrightarrow>
   tu_rolled t = tu_rolled t' \<and> gt_promotions (tu_gate t) = gt_promotions (tu_gate t')"
  unfolding in_step_def by blast

lemma in_stepI:
  "(\<And>t. Some t \<in> set ranks \<Longrightarrow> (tu_rolled t, gt_promotions (tu_gate t)) = v) \<Longrightarrow> in_step ranks"
  unfolding in_step_def by (metis Pair_inject)

lemma plan_fields:
  "plan c rb sample store t = (r, t') \<Longrightarrow> tu_rolled t' = tu_rolled t \<and> tu_disabled t' = tu_disabled t \<and>
     gt_promotions (tu_gate t') = gt_promotions (tu_gate t) \<and> tu_live t' = tu_live t \<and> tu_rank0 t' = tu_rank0 t"
  unfolding plan_def by (rule plan_next_fields)

lemma plan_rollback: "plan_next n c rb sample store t = (Inr PRollback, t') \<Longrightarrow> \<not> tu_rolled t"
proof (induction n arbitrary: t)
  case (Suc n)
  from Suc.prems show ?case
    by (auto simp: Let_def make_batch_def split: if_splits dest!: Suc.IH)
qed simp

text \<open>What a plan does to the shared fields, the same on every rank.\<close>

definition plan_effect :: "'h plan \<Rightarrow> bool \<Rightarrow> bool \<Rightarrow> bool \<times> nat \<Rightarrow> bool \<times> nat" where
  "plan_effect p mem promote = (\<lambda>(rolled, n). case p of
      PRollback \<Rightarrow> (True, n)
    | PEval _ True \<Rightarrow> (rolled, if mem \<and> promote then Suc n else n)
    | _ \<Rightarrow> (rolled, n))"

definition plan_trace :: "'h plan \<Rightarrow> bool \<Rightarrow> coll list" where
  "plan_trace p mem = (case p of PNone \<Rightarrow> [] | PRollback \<Rightarrow> []
    | PEval _ True \<Rightarrow> if mem then [ReduceMem, RunOp, BcastPromote] else [ReduceMem]
    | _ \<Rightarrow> if mem then [ReduceMem, RunOp] else [ReduceMem])"

definition plan_worked :: "'h plan \<Rightarrow> bool \<Rightarrow> bool" where
  "plan_worked p mem = (case p of PNone \<Rightarrow> False | PRollback \<Rightarrow> True | _ \<Rightarrow> mem)"

lemma run_plan_ok:
  assumes "run_plan c zero io mem promote p t = (r, tr, t')" and "\<not> io_raise io"
  shows "r = Inr (plan_worked p mem) \<and> tr = plan_trace p mem \<and>
    (tu_rolled t', gt_promotions (tu_gate t')) = plan_effect p mem promote (tu_rolled t, gt_promotions (tu_gate t)) \<and>
    tu_disabled t' = tu_disabled t \<and> tu_rank0 t' = tu_rank0 t"
  using assms
  by (auto simp: run_plan_def plan_worked_def plan_trace_def plan_effect_def do_promote_def Let_def
      split: plan.splits if_splits bool.splits)

lemma guarded_step_ok:
  assumes "guarded_step c zero io planned bcast mem promote t = (a, tr, t')"
    and "\<not> io_raise io" "\<not> io_fault io" "\<not> tu_disabled t"
    and pl: "tu_rank0 t \<Longrightarrow> planned = (Inr bcast, t0)"
    and t0: "tu_rank0 t \<Longrightarrow> tu_rolled t0 = tu_rolled t \<and> tu_disabled t0 = tu_disabled t \<and>
      gt_promotions (tu_gate t0) = gt_promotions (tu_gate t) \<and> tu_rank0 t0 = tu_rank0 t"
  shows "a = Worked (plan_worked bcast mem) \<and> tr = BcastPlan # plan_trace bcast mem \<and>
    (tu_rolled t', gt_promotions (tu_gate t')) = plan_effect bcast mem promote (tu_rolled t, gt_promotions (tu_gate t))"
proof -
  define s where "s = (if tu_rank0 t then t0 else t)"
  obtain r tr1 t1 where r: "run_plan c zero io mem promote bcast s = (r, tr1, t1)" by (metis prod_cases3)
  note ok = run_plan_ok[OF r assms(2)]
  have "tuner_step c zero io planned bcast mem promote t = (r, BcastPlan # tr1, t1)"
    using assms(3) pl r by (auto simp: tuner_step_def s_def)
  with assms(1,4) ok have "a = Worked (plan_worked bcast mem)" "tr = BcastPlan # plan_trace bcast mem"
    "tu_rolled t' = tu_rolled t1" "tu_gate t' = tu_gate t1"
    by (auto simp: guarded_step_def split: if_splits)
  moreover have "tu_rolled s = tu_rolled t" "gt_promotions (tu_gate s) = gt_promotions (tu_gate t)"
    using t0 by (auto simp: s_def)
  ultimately show ?thesis using ok by simp
qed

definition group_ok :: "('a, 'h) tuner option list \<Rightarrow> bool" where
  "group_ok ranks \<longleftrightarrow> ranks \<noteq> [] \<and> list_all live_tuner ranks \<and> (\<forall>t. hd ranks = Some t \<longrightarrow> tu_rank0 t) \<and>
     list_all (\<lambda>r. \<forall>t. r = Some t \<longrightarrow> \<not> tu_rank0 t) (tl ranks)"

lemma group_ok_hd:
  assumes "group_ok ranks"
  obtains t0 where "hd ranks = Some t0" "tu_rank0 t0" "\<And>t. Some t \<in> set ranks \<Longrightarrow> tu_rank0 t \<Longrightarrow> t = t0"
proof -
  from assms obtain r rs where ranks: "ranks = r # rs" by (cases ranks) (auto simp: group_ok_def)
  with assms obtain t0 where t0: "r = Some t0" by (auto simp: group_ok_def live_tuner_def split: option.splits)
  with assms ranks have "tu_rank0 t0" "\<And>t. Some t \<in> set rs \<Longrightarrow> \<not> tu_rank0 t" by (auto simp: group_ok_def list_all_iff)
  with ranks t0 show thesis by (intro that[of t0]) auto
qed

lemma worker_round_live:
  assumes "list_all live_tuner ranks" and "hd ranks = Some t0"
  shows "worker_round c zero rb sample store ios ranks =
    (let p = group_plan c rb sample store t0; mem = list_all io_mem ios;
         promote = group_promote c (hd ios) p (snd (plan c rb sample store t0))
     in map (\<lambda>(io, r). case r of None \<Rightarrow> (Disabled, [], None)
          | Some t \<Rightarrow> let (a, tr, t') = guarded_step c zero io (plan c rb sample store t) p mem promote t in (a, tr, Some t'))
        (zip ios ranks))"
  using assms by (simp add: worker_round_def)

lemma worker_round_mem:
  assumes "list_all live_tuner ranks" and "hd ranks = Some t0" and "x \<in> set (worker_round c zero rb sample store ios ranks)"
  obtains io t a tr t' where "(io, Some t) \<in> set (zip ios ranks)" "x = (a, tr, Some t')"
    "guarded_step c zero io (plan c rb sample store t) (group_plan c rb sample store t0) (list_all io_mem ios)
       (group_promote c (hd ios) (group_plan c rb sample store t0) (snd (plan c rb sample store t0))) t = (a, tr, t')"
proof -
  from assms(3) obtain io r where ir: "(io, r) \<in> set (zip ios ranks)" and
    x: "x = (case r of None \<Rightarrow> (Disabled, [], None)
          | Some t \<Rightarrow> let (a, tr, t') = guarded_step c zero io (plan c rb sample store t) (group_plan c rb sample store t0)
               (list_all io_mem ios) (group_promote c (hd ios) (group_plan c rb sample store t0) (snd (plan c rb sample store t0))) t
             in (a, tr, Some t'))"
    unfolding worker_round_live[OF assms(1,2)] Let_def set_map by (metis (no_types, lifting) case_prod_conv imageE surj_pair)
  have "r \<in> set ranks" using ir by (rule set_zip_rightD)
  then obtain t where t: "r = Some t" using assms(1) by (auto simp: list_all_iff live_tuner_def split: option.splits)
  obtain a tr t' where g: "guarded_step c zero io (plan c rb sample store t) (group_plan c rb sample store t0)
      (list_all io_mem ios) (group_promote c (hd ios) (group_plan c rb sample store t0) (snd (plan c rb sample store t0))) t = (a, tr, t')"
    by (metis prod_cases3)
  with x t ir show thesis by (intro that[of io t a tr t']) auto
qed

lemma guarded_disabled:
  "guarded_step c zero io planned bcast mem promote t = (Disabled, tr, t') \<Longrightarrow> tu_disabled t'"
  by (auto simp: guarded_step_def split: if_splits prod.splits sum.splits)

lemma disabled_answer_not_live:
  assumes "group_ok ranks \<or> \<not> list_all live_tuner ranks"
    and "x \<in> set (worker_round c zero rb sample store ios ranks)" and "fst x = Disabled"
  shows "\<not> live_tuner (snd (snd x))"
proof (cases "list_all live_tuner ranks")
  case False
  with assms(2) show ?thesis by (auto simp: worker_round_def vote_out_def live_tuner_def split: option.splits)
next
  case True
  with assms(1) have "group_ok ranks" by simp
  then obtain t0 where "hd ranks = Some t0" by (rule group_ok_hd)
  then obtain io t a tr t' where x: "x = (a, tr, Some t')"
    and g: "guarded_step c zero io (plan c rb sample store t) (group_plan c rb sample store t0) (list_all io_mem ios)
       (group_promote c (hd ios) (group_plan c rb sample store t0) (snd (plan c rb sample store t0))) t = (a, tr, t')"
    by (rule worker_round_mem[OF True _ assms(2)])
  have "a = Disabled" using assms(3) x by simp
  with guarded_disabled[of c zero io _ _ _ _ t tr t'] g have "tu_disabled t'" by metis
  with x show ?thesis by (simp add: live_tuner_def)
qed

definition rolled_off :: "'a \<Rightarrow> ('a, 'h) tuner \<Rightarrow> bool" where
  "rolled_off zero t \<longleftrightarrow> tu_rolled t \<and> tu_live t = zero"

definition all_rolled :: "'a \<Rightarrow> ('a, 'h) tuner option list \<Rightarrow> bool" where
  "all_rolled zero ranks \<longleftrightarrow> (\<forall>t. Some t \<in> set ranks \<longrightarrow> rolled_off zero t)"

lemma run_plan_rolled:
  "run_plan c zero io mem False p s = (r, tr, s') \<Longrightarrow> rolled_off zero s \<Longrightarrow> rolled_off zero s'"
  by (cases p) (auto simp: run_plan_def rolled_off_def Let_def split: if_splits bool.splits)

lemma plan_rolled: "rolled_off zero t \<Longrightarrow> rolled_off zero (snd (plan c rb sample store t))"
proof -
  assume a: "rolled_off zero t"
  obtain r t' where p: "plan c rb sample store t = (r, t')" by fastforce
  from plan_fields[OF p] a show ?thesis by (simp add: p rolled_off_def)
qed

lemma tuner_step_rolled:
  assumes "tuner_step c zero io (plan c rb sample store t) bcast mem False t = (r, tr, t')" and "rolled_off zero t"
  shows "rolled_off zero t'"
proof (cases "io_fault io \<or> \<not> tu_rank0 t")
  case True
  with assms show ?thesis
    by (auto simp: tuner_step_def split: if_splits prod.splits intro: run_plan_rolled)
next
  case False
  obtain pr t0 where p: "plan c rb sample store t = (pr, t0)" by fastforce
  have t0: "rolled_off zero t0" using plan_rolled[OF assms(2), of c rb sample store] p by simp
  show ?thesis
  proof (cases pr)
    case (Inl e)
    with False assms(1) p t0 show ?thesis by (auto simp: tuner_step_def)
  next
    case (Inr q)
    with False assms(1) p show ?thesis by (auto simp: tuner_step_def split: prod.splits intro: run_plan_rolled[OF _ t0])
  qed
qed

lemma guarded_step_rolled:
  assumes "guarded_step c zero io (plan c rb sample store t) bcast mem False t = (a, tr, t')" and "rolled_off zero t"
  shows "rolled_off zero t'"
proof (cases "tu_disabled t")
  case True
  with assms show ?thesis by (simp add: guarded_step_def)
next
  case False
  obtain r tr1 t1 where s: "tuner_step c zero io (plan c rb sample store t) bcast mem False t = (r, tr1, t1)" by (metis prod_cases3)
  from tuner_step_rolled[OF s assms(2)] assms(1) False s show ?thesis
    by (cases r) (auto simp: guarded_step_def rolled_off_def split: if_splits)
qed

lemma all_rolled_round:
  assumes "all_rolled zero ranks" and "group_ok ranks \<or> \<not> list_all live_tuner ranks"
  shows "all_rolled zero (map (snd \<circ> snd) (worker_round c zero rb sample store ios ranks))"
proof (cases "list_all live_tuner ranks")
  case False
  have "rolled_off zero t'" if "Some t' \<in> vote_out ` set ranks" for t'
  proof -
    from that obtain x where x: "x \<in> set ranks" "Some t' = vote_out x" by blast
    from x(2) obtain t where "x = Some t" "t' = t\<lparr>tu_disabled := True\<rparr>" by (cases x) (auto simp: vote_out_def)
    with x(1) assms(1) show ?thesis by (simp add: all_rolled_def rolled_off_def)
  qed
  moreover have "set (map (snd \<circ> snd) (worker_round c zero rb sample store ios ranks)) = vote_out ` set ranks"
    using False by (force simp: worker_round_def)
  ultimately show ?thesis unfolding all_rolled_def by blast
next
  case True
  with assms(2) have g: "group_ok ranks" by simp
  then obtain t0 where hd: "hd ranks = Some t0" by (rule group_ok_hd)
  have "Some t0 \<in> set ranks" using g hd by (metis group_ok_def list.set_sel(1))
  then have "rolled_off zero t0" using assms(1) by (simp add: all_rolled_def)
  from plan_rolled[OF this, of c rb sample store]
  have pf: "\<not> group_promote c (hd ios) (group_plan c rb sample store t0) (snd (plan c rb sample store t0))"
    by (simp add: group_promote_def promote_flag_def rolled_off_def)
  have "rolled_off zero t'" if "x \<in> set (worker_round c zero rb sample store ios ranks)" "snd (snd x) = Some t'" for x t'
  proof -
    from worker_round_mem[OF True hd that(1)] that(2) obtain io t a tr where
      "(io, Some t) \<in> set (zip ios ranks)"
      and gs: "guarded_step c zero io (plan c rb sample store t) (group_plan c rb sample store t0) (list_all io_mem ios)
        (group_promote c (hd ios) (group_plan c rb sample store t0) (snd (plan c rb sample store t0))) t = (a, tr, t')"
      by (metis option.inject snd_conv)
    then have "Some t \<in> set ranks" by (meson set_zip_rightD)
    then have "rolled_off zero t" using assms(1) by (simp add: all_rolled_def)
    from guarded_step_rolled[OF _ this] gs pf show ?thesis by (metis (full_types))
  qed
  then show ?thesis by (force simp: all_rolled_def)
qed

text \<open>Sequences of calls: every call has its rollback file, sampling, store and inputs.\<close>

definition call_ranks :: "tune_cfg \<Rightarrow> 'a \<Rightarrow> bool \<times> (window list \<Rightarrow> nat \<Rightarrow> window list) \<times> 'h cap \<times> 'a step_io list \<Rightarrow>
    ('a, 'h) tuner option list \<Rightarrow> ('a, 'h) tuner option list" where
  "call_ranks c zero = (\<lambda>(rb, sample, store, ios) ranks. map (snd \<circ> snd) (worker_round c zero rb sample store ios ranks))"

definition call_seq :: "tune_cfg \<Rightarrow> 'a \<Rightarrow> (bool \<times> (window list \<Rightarrow> nat \<Rightarrow> window list) \<times> 'h cap \<times> 'a step_io list) list \<Rightarrow>
    ('a, 'h) tuner option list \<Rightarrow> ('a, 'h) tuner option list" where
  "call_seq c zero = fold (call_ranks c zero)"

lemma run_plan_rank0: "run_plan c zero io mem promote p t = (r, tr, t') \<Longrightarrow> tu_rank0 t' = tu_rank0 t"
  by (auto simp: run_plan_def do_promote_def Let_def split: plan.splits if_splits bool.splits)

lemma guarded_rank0:
  assumes "guarded_step c zero io (plan c rb sample store t) bcast mem promote t = (a, tr, t')"
  shows "tu_rank0 t' = tu_rank0 t"
proof -
  obtain pr t0 where p: "plan c rb sample store t = (pr, t0)" by fastforce
  obtain r tr1 t1 where s: "tuner_step c zero io (plan c rb sample store t) bcast mem promote t = (r, tr1, t1)" by (metis prod_cases3)
  have "tu_rank0 t1 = tu_rank0 t"
    using s plan_fields[OF p] unfolding p tuner_step_def
    by (auto split: if_splits sum.splits prod.splits dest!: run_plan_rank0)
  with assms s show ?thesis by (cases r) (auto simp: guarded_step_def split: if_splits)
qed

definition group_state :: "('a, 'h) tuner option list \<Rightarrow> bool" where
  "group_state ranks \<longleftrightarrow> group_ok ranks \<or> \<not> list_all live_tuner ranks"

lemma vote_out_not_live [simp]: "\<not> live_tuner (vote_out r)"
  by (simp add: live_tuner_def vote_out_def split: option.split)

lemma round_rank0:
  assumes "list_all live_tuner ranks" and "hd ranks = Some t0" and "length ios = length ranks" and "k < length ranks"
    and "ranks ! k = Some t" and "snd (snd (worker_round c zero rb sample store ios ranks ! k)) = Some t'"
  shows "tu_rank0 t' = tu_rank0 t"
proof -
  let ?g = "guarded_step c zero (ios ! k) (plan c rb sample store t) (group_plan c rb sample store t0) (list_all io_mem ios)
       (group_promote c (hd ios) (group_plan c rb sample store t0) (snd (plan c rb sample store t0))) t"
  obtain a tr u where g: "?g = (a, tr, u)" by (metis prod_cases3)
  have "worker_round c zero rb sample store ios ranks ! k = (a, tr, Some u)"
    using assms(3-5) g by (simp add: worker_round_live[OF assms(1,2)] Let_def)
  with assms(6) guarded_rank0[OF g] show ?thesis by simp
qed

lemma worker_round_length:
  "group_ok ranks \<Longrightarrow> length ios = length ranks \<Longrightarrow> length (worker_round c zero rb sample store ios ranks) = length ranks"
  by (erule group_ok_hd) (auto simp: worker_round_def Let_def group_ok_def)

lemma group_state_call:
  assumes "group_state ranks" and "length ios = length ranks"
  shows "group_state (call_ranks c zero (rb, sample, store, ios) ranks)"
proof (cases "list_all live_tuner ranks")
  case False
  then have "ranks \<noteq> []" by auto
  then have "\<not> list_all live_tuner (map vote_out ranks)" by (cases ranks) auto
  moreover have "call_ranks c zero (rb, sample, store, ios) ranks = map vote_out ranks"
    using False by (simp add: call_ranks_def worker_round_def)
  ultimately show ?thesis by (simp add: group_state_def)
next
  case True
  with assms(1) have g: "group_ok ranks" by (simp add: group_state_def)
  then obtain t0 where hd: "hd ranks = Some t0" by (rule group_ok_hd)
  let ?next = "call_ranks c zero (rb, sample, store, ios) ranks"
  have len: "length ?next = length ranks" using worker_round_length[OF g assms(2)] by (simp add: call_ranks_def)
  have same: "tu_rank0 t' = (k = 0)" if "k < length ranks" "?next ! k = Some t'" for k t'
  proof -
    have "live_tuner (ranks ! k)" using True that(1) by (simp add: list_all_length)
    then obtain t where t: "ranks ! k = Some t" by (auto simp: live_tuner_def split: option.splits)
    have "tu_rank0 t = (k = 0)"
      using g that(1) t by (cases ranks; cases k) (auto simp: group_ok_def list_all_length)
    moreover have "k < length (worker_round c zero rb sample store ios ranks)"
      using that(1) by (simp only: worker_round_length[OF g assms(2)])
    then have "snd (snd (worker_round c zero rb sample store ios ranks ! k)) = Some t'"
      using that(2) by (simp add: call_ranks_def)
    ultimately show ?thesis using round_rank0[OF True hd assms(2) that(1) t] by simp
  qed
  have ne: "0 < length ranks" using g by (simp add: group_ok_def)
  have "group_ok ?next" if "list_all live_tuner ?next"
    unfolding group_ok_def
  proof (intro conjI that)
    show nn: "?next \<noteq> []" using len ne by auto
    show "\<forall>t. hd ?next = Some t \<longrightarrow> tu_rank0 t" unfolding hd_conv_nth[OF nn] using same[OF ne] by blast
    show "list_all (\<lambda>r. \<forall>t. r = Some t \<longrightarrow> \<not> tu_rank0 t) (tl ?next)"
      unfolding list_all_length
    proof (intro allI impI)
      fix n t assume n: "n < length (tl ?next)" and t: "tl ?next ! n = Some t"
      from n t have "?next ! Suc n = Some t" "Suc n < length ranks" using len by (simp_all add: nth_tl)
      then show "\<not> tu_rank0 t" using same[of "Suc n" t] by simp
    qed
  qed
  then show ?thesis by (auto simp: group_state_def)
qed

lemma rolled_call_seq:
  "all_rolled zero ranks \<Longrightarrow> group_state ranks \<Longrightarrow>
   list_all (\<lambda>(rb, sample, store, ios). length ios = length ranks) calls \<Longrightarrow>
   all_rolled zero (call_seq c zero calls ranks)"
proof (induction calls arbitrary: ranks)
  case (Cons x calls)
  obtain rb sample store ios where x: "x = (rb, sample, store, ios)" by (cases x)
  have l: "length ios = length ranks" using Cons.prems(3) x by simp
  let ?r = "call_ranks c zero x ranks"
  have "all_rolled zero ?r"
    using all_rolled_round[OF Cons.prems(1)] Cons.prems(2) by (simp add: x call_ranks_def group_state_def)
  moreover have "group_state ?r" unfolding x by (rule group_state_call[OF Cons.prems(2) l])
  moreover have "length ?r = length ranks"
    using Cons.prems(2) l worker_round_length[of ranks ios] by (cases "list_all live_tuner ranks")
      (auto simp: x call_ranks_def group_state_def worker_round_def)
  ultimately show ?case using Cons.IH[of ?r] Cons.prems(3) by (simp add: call_seq_def)
qed (simp add: call_seq_def)

section \<open>Leads\<close>

text \<open>An evaluation whose last records have left the ring is never decided: the plan is empty, the queue is used
  up, and no step with the \<open>last\<close> mark follows.\<close>

lemma evicted_tail_is_not_decided:
  assumes "tu_queue t \<noteq> []" and "\<not> rb" and "0 < n" and "length (tu_queue t) \<le> nat (tr_wpm (tu_trainer t))"
    and "\<And>w. w \<in> set (tu_queue t) \<Longrightarrow> materialize store w = None"
  shows "plan_next n c rb sample store t = (Inr PNone, t\<lparr>tu_queue := []\<rparr>)"
proof -
  obtain m where n: "n = Suc m" using assms(3) by (cases n) auto
  have "List.map_filter (materialize store) (tu_queue t) = []"
    using assms(5) by (simp add: map_filter_def filter_empty_conv)
  then have "make_batch store (\<lambda>ws. PEval ws True) (tu_queue t) = PNone" by (simp add: make_batch_def)
  with assms(1,2,4) show ?thesis by (simp add: n Let_def)
qed

text \<open>The idle loop stops calling as soon as the engine has something to do.\<close>

lemma idle_loop_rpcs:
  "ei_rpcs (idle_loop ks e) \<le> ei_rpcs e + length (takeWhile idle_now ks) \<and> ei_rpcs e \<le> ei_rpcs (idle_loop ks e)"
proof (induction ks arbitrary: e)
  case (Cons k ks)
  define e1 where "e1 = e\<lparr>ei_busy := ei_busy e + tk_dt k, ei_rpcs := Suc (ei_rpcs e),
      ei_max_added := (if tk_arrived k then max (ei_max_added e) (tk_dt k * 1000) else ei_max_added e)\<rparr>"
  from Cons.IH[of e1] show ?case by (auto simp: Let_def e1_def)
qed simp

lemma fault_trace:
  assumes "io_fault io" shows "fst (snd (guarded_step c zero io planned bcast mem promote t)) = []"
  using assms by (auto simp: guarded_step_def tuner_step_def)

lemma healthy_trace:
  assumes "\<not> io_fault io" "\<not> tu_disabled t" "tu_rank0 t \<Longrightarrow> \<exists>p t0. planned = (Inr p, t0)"
  shows "fst (snd (guarded_step c zero io planned bcast mem promote t)) \<noteq> []"
proof -
  have "\<exists>r tr t'. tuner_step c zero io planned bcast mem promote t = (r, BcastPlan # tr, t')"
    using assms(1,3) by (cases "tu_rank0 t") (auto simp: tuner_step_def split: prod.split)
  then obtain r tr t' where "tuner_step c zero io planned bcast mem promote t = (r, BcastPlan # tr, t')" by blast
  with assms(2) show ?thesis by (cases r) (simp_all add: guarded_step_def)
qed

text \<open>Concrete values for the witnesses: two ranks, adapters as numbers.\<close>

definition demo_tune_cfg :: tune_cfg where
  "demo_tune_cfg = (case from_env [(''SUFFIX_MTP_TUNE_ROLLBACK_FILE'', ''/tmp/rb'')] of Inr c \<Rightarrow> c)"

lemma demo_tune_cfg_rollback: "tc_rollback demo_tune_cfg \<noteq> []"
  by (simp add: demo_tune_cfg_def from_env_def env_i_def env_f_def env_get_def dict_or_def)

definition demo_chain :: "bool \<Rightarrow> chain_out" where
  "demo_chain b = \<lparr>rp_correct = [[[True, True]], [[b, True]]], rp_full = [[True, False]], rp_pred1 = [[7, 7]]\<rparr>"

definition demo_gate :: gate where
  "demo_gate = \<lparr>gt_margin = 1 / 20, gt_min = 1, gt_live = [], gt_cand = [], gt_promotions = 0\<rparr>"

definition demo_tuner :: "bool \<Rightarrow> bool \<Rightarrow> (nat, nat) tuner" where
  "demo_tuner r0 rolled = \<lparr>tu_rank0 = r0, tu_disabled = False, tu_rolled = rolled, tu_live = (if rolled then 0 else 5), tu_cand = 6,
     tu_gate = demo_gate, tu_trainer = \<lparr>tr_micro = 0, tr_steps = 0, tr_wpm = 1, tr_ms = None\<rparr>,
     tu_queue = [], tu_eval_at = 0, tu_train = 0, tu_eval = 0, tu_skip = 0, tu_ms_max = 0\<rparr>"

definition demo_io :: "bool \<Rightarrow> nat step_io" where
  "demo_io fault = \<lparr>io_fault = fault, io_mem = True, io_update = Suc, io_ms = 10, io_live = demo_chain False, io_cand = demo_chain True,
     io_d1 = [[7, 7]], io_tags = [''en''], io_raise = False\<rparr>"

abbreviation (input) demo_store :: "nat cap" where
  "demo_store \<equiv> store_new demo_cap_cfg 8 0"

lemma plan_on_rollback:
  "tc_rollback c \<noteq> [] \<Longrightarrow> \<not> tu_rolled t \<Longrightarrow> plan c True sample store t = (Inr PRollback, t)"
proof -
  assume a: "tc_rollback c \<noteq> []" "\<not> tu_rolled t"
  have e: "plan c True sample store t = plan_next (Suc 999) c True sample store t" by (simp add: plan_def)
  show ?thesis unfolding e plan_next.simps(2) using a by simp
qed

lemma demo_group: "group_ok [Some (demo_tuner True b), Some (demo_tuner False b)]"
  by (simp add: group_ok_def live_tuner_def demo_tuner_def)

lemma demo_plan: "plan demo_tune_cfg True sample store (demo_tuner r0 False) = (Inr PRollback, demo_tuner r0 False)"
  by (rule plan_on_rollback) (simp_all add: demo_tune_cfg_rollback demo_tuner_def)

section \<open>Properties\<close>

text \<open>C27: without a fault the ranks stay in lockstep. If all ranks have a live tuner, agree on rollback and
  promotions, and nothing raises, then one call makes every rank enter the same collectives, so the
  call returns; all give the same answer, and they agree on rollback and promotions afterwards.\<close>

theorem ranks_stay_in_step:
  assumes "group_ok ranks" and "in_step ranks" and "list_all (\<lambda>io. \<not> io_fault io \<and> \<not> io_raise io) ios"
    and "\<And>t. hd ranks = Some t \<Longrightarrow> \<not> isl (fst (plan c rb sample store t))"
    and "out = worker_round c zero rb sample store ios ranks"
  shows "round_completes out \<and> (\<forall>x \<in> set out. \<forall>y \<in> set out. fst x = fst y) \<and> in_step (map (snd \<circ> snd) out)"
proof -
  obtain t0 where hd: "hd ranks = Some t0" and r0: "tu_rank0 t0" and only: "\<And>t. Some t \<in> set ranks \<Longrightarrow> tu_rank0 t \<Longrightarrow> t = t0"
    using group_ok_hd[OF assms(1)] by metis
  have live: "list_all live_tuner ranks" using assms(1) by (simp add: group_ok_def)
  obtain p t1 where p: "plan c rb sample store t0 = (Inr p, t1)"
    using assms(4)[OF hd] by (cases "plan c rb sample store t0"; cases "fst (plan c rb sample store t0)") auto
  have gp: "group_plan c rb sample store t0 = p" by (simp add: group_plan_def p)
  define mem where "mem = list_all io_mem ios"
  define promote where "promote = group_promote c (hd ios) p t1"
  have mem0: "Some t0 \<in> set ranks" using assms(1) hd by (metis group_ok_def list.set_sel(1))
  have elem: "fst x = Worked (plan_worked p mem) \<and> fst (snd x) = BcastPlan # plan_trace p mem \<and>
      (\<exists>t'. snd (snd x) = Some t' \<and>
        (tu_rolled t', gt_promotions (tu_gate t')) = plan_effect p mem promote (tu_rolled t0, gt_promotions (tu_gate t0)))"
    if x: "x \<in> set out" for x
  proof -
    obtain io t a tr t' where it: "(io, Some t) \<in> set (zip ios ranks)" and xe: "x = (a, tr, Some t')"
      and g: "guarded_step c zero io (plan c rb sample store t) p mem promote t = (a, tr, t')"
      by (rule worker_round_mem[OF live hd x[unfolded assms(5)], unfolded gp p snd_conv, folded mem_def promote_def])
    have t: "Some t \<in> set ranks" "io \<in> set ios" using it by (auto dest: set_zip_rightD set_zip_leftD)
    have dis: "\<not> tu_disabled t" using live t(1) by (auto simp: list_all_iff live_tuner_def)
    have same: "tu_rolled t = tu_rolled t0" "gt_promotions (tu_gate t) = gt_promotions (tu_gate t0)"
      using in_stepD[OF assms(2) t(1) mem0] by simp_all
    have pl: "plan c rb sample store t = (Inr p, t1)" if "tu_rank0 t" using only[OF t(1) that] p by simp
    have fl: "tu_rolled t1 = tu_rolled t \<and> tu_disabled t1 = tu_disabled t \<and>
        gt_promotions (tu_gate t1) = gt_promotions (tu_gate t) \<and> tu_rank0 t1 = tu_rank0 t" if "tu_rank0 t"
      using plan_fields[OF pl[OF that]] by simp
    have io: "\<not> io_raise io" "\<not> io_fault io" using assms(3) t(2) by (simp_all add: list_all_iff)
    show ?thesis using guarded_step_ok[OF g io dis pl fl] same xe by simp
  qed
  have "round_completes out" unfolding round_completes_def using elem by metis
  moreover have "\<forall>x \<in> set out. \<forall>y \<in> set out. fst x = fst y" using elem by metis
  moreover have "in_step (map (snd \<circ> snd) out)"
  proof (rule in_stepI)
    fix t assume "Some t \<in> set (map (snd \<circ> snd) out)"
    then obtain x where "x \<in> set out" "snd (snd x) = Some t" by auto
    with elem[of x] show "(tu_rolled t, gt_promotions (tu_gate t)) =
        plan_effect p mem promote (tu_rolled t0, gt_promotions (tu_gate t0))" by auto
  qed
  ultimately show ?thesis by blast
qed

theorem ranks_stay_in_step_witness:
  "round_completes (worker_round demo_tune_cfg 0 True (\<lambda>ws n. take n ws) demo_store [demo_io False, demo_io False]
     [Some (demo_tuner True False), Some (demo_tuner False False)])"
proof -
  have step: "in_step [Some (demo_tuner True False), Some (demo_tuner False False)]"
    by (rule in_stepI[of _ "(False, 0)"]) (auto simp: demo_tuner_def demo_gate_def)
  have ios: "list_all (\<lambda>io. \<not> io_fault io \<and> \<not> io_raise io) [demo_io False, demo_io False]" by (simp add: demo_io_def)
  have "\<not> isl (fst (plan demo_tune_cfg True (\<lambda>ws n. take n ws) demo_store t))"
    if "hd [Some (demo_tuner True False), Some (demo_tuner False False)] = Some t" for t
    using that by (auto simp: demo_plan)
  from ranks_stay_in_step[OF demo_group step ios this refl] show ?thesis by (rule conjunct1)
qed

text \<open>A rank that is out takes the whole group out, without leaving anyone waiting. Once some rank has
  answered \<open>disabled\<close>, in the next call every rank answers \<open>disabled\<close>, enters no collective and keeps no
  live tuner.\<close>

theorem failed_rank_disables_group:
  assumes "group_ok ranks \<or> \<not> list_all live_tuner ranks" and "x \<in> set (worker_round c zero rb sample store ios ranks)"
    and "fst x = Disabled" and "ranks' = map (snd \<circ> snd) (worker_round c zero rb sample store ios ranks)"
    and "y \<in> set (worker_round c zero rb' sample store' ios' ranks')"
  shows "fst y = Disabled \<and> fst (snd y) = [] \<and> \<not> live_tuner (snd (snd y))"
proof -
  have "snd (snd x) \<in> set ranks'" using assms(2,4) by auto
  moreover have "\<not> live_tuner (snd (snd x))" by (rule disabled_answer_not_live[OF assms(1-3)])
  ultimately have "\<not> list_all live_tuner ranks'" by (auto simp: list_all_iff)
  with assms(5) show ?thesis by (auto simp: worker_round_def vote_out_def live_tuner_def split: option.splits)
qed

theorem failed_rank_disables_group_witness:
  "map fst (worker_round demo_tune_cfg 0 True (\<lambda>ws n. take n ws) demo_store [demo_io False, demo_io False]
     (map (snd \<circ> snd) (worker_round demo_tune_cfg 0 True (\<lambda>ws n. take n ws) demo_store [demo_io True, demo_io True]
        [Some (demo_tuner True False), Some (demo_tuner False False)]))) = [Disabled, Disabled]"
  (is "map fst ?out = _")
proof -
  have len: "length ?out = 2"
    by (simp add: worker_round_def live_tuner_def demo_tuner_def demo_io_def guarded_step_def tuner_step_def Let_def)
  have "fst y = Disabled" if "y \<in> set ?out" for y
    using failed_rank_disables_group[OF disjI1[OF demo_group] _ _ refl that,
        of "hd (worker_round demo_tune_cfg 0 True (\<lambda>ws n. take n ws) demo_store [demo_io True, demo_io True]
              [Some (demo_tuner True False), Some (demo_tuner False False)])"]
    by (simp add: worker_round_def live_tuner_def demo_tuner_def demo_io_def guarded_step_def tuner_step_def Let_def)
  moreover obtain a b where "?out = [a, b]" using len by (auto simp: numeral_2_eq_2 length_Suc_conv)
  ultimately show ?thesis by simp
qed

text \<open>But the call in which a rank faults does not return: if one rank raises before the broadcast and
  another does not, they enter different collectives.\<close>

theorem fault_blocks_round:
  assumes "group_ok ranks" and "i < length ranks" "j < length ranks" and "length ios = length ranks"
    and "io_fault (ios ! i)" and "\<not> io_fault (ios ! j)"
    and "\<And>t. hd ranks = Some t \<Longrightarrow> \<not> isl (fst (plan c rb sample store t))"
  shows "\<not> round_completes (worker_round c zero rb sample store ios ranks)"
proof -
  obtain t0 where hd: "hd ranks = Some t0" and only: "\<And>t. Some t \<in> set ranks \<Longrightarrow> tu_rank0 t \<Longrightarrow> t = t0"
    using group_ok_hd[OF assms(1)] by metis
  have live: "list_all live_tuner ranks" using assms(1) by (simp add: group_ok_def)
  let ?out = "worker_round c zero rb sample store ios ranks"
  let ?g = "\<lambda>io t. guarded_step c zero io (plan c rb sample store t) (group_plan c rb sample store t0) (list_all io_mem ios)
       (group_promote c (hd ios) (group_plan c rb sample store t0) (snd (plan c rb sample store t0))) t"
  have at: "\<exists>t. Some t \<in> set ranks \<and> \<not> tu_disabled t \<and> fst (snd (?out ! k)) = fst (snd (?g (ios ! k) t)) \<and> ?out ! k \<in> set ?out"
    if k: "k < length ranks" for k
  proof -
    have "live_tuner (ranks ! k)" using live k by (simp add: list_all_length)
    then obtain t where t: "ranks ! k = Some t" "\<not> tu_disabled t" by (auto simp: live_tuner_def split: option.splits)
    obtain a tr t' where g: "?g (ios ! k) t = (a, tr, t')" by (metis prod_cases3)
    have out: "?out ! k = (a, tr, Some t')" "k < length ?out"
      using t(1) k assms(4) g by (simp_all add: worker_round_live[OF live hd] Let_def)
    have "Some t \<in> set ranks" using t(1) k by (metis nth_mem)
    moreover have "?out ! k \<in> set ?out" using out(2) by (rule nth_mem)
    ultimately show ?thesis using t(2) out(1) g by (intro exI[of _ t]) simp
  qed
  from at[OF assms(2)] obtain u where u: "fst (snd (?out ! i)) = fst (snd (?g (ios ! i) u))" "?out ! i \<in> set ?out" by blast
  have "fst (snd (?g (ios ! i) u)) = []" by (rule fault_trace[OF assms(5)])
  with u have empty: "fst (snd (?out ! i)) = []" "?out ! i \<in> set ?out" by simp_all
  from at[OF assms(3)] obtain t where t: "Some t \<in> set ranks" "\<not> tu_disabled t"
    "fst (snd (?out ! j)) = fst (snd (?g (ios ! j) t))" "?out ! j \<in> set ?out" by blast
  have "\<exists>p t1. plan c rb sample store t = (Inr p, t1)" if "tu_rank0 t"
    using assms(7)[OF hd] only[OF t(1) that] by (cases "plan c rb sample store t0"; cases "fst (plan c rb sample store t0)") auto
  from healthy_trace[OF assms(6) t(2) this] t(3) have "fst (snd (?out ! j)) \<noteq> []" by simp
  with empty t(4) show ?thesis unfolding round_completes_def by metis
qed

theorem fault_blocks_round_witness:
  "\<not> round_completes (worker_round demo_tune_cfg 0 True (\<lambda>ws n. take n ws) demo_store [demo_io False, demo_io True]
     [Some (demo_tuner True False), Some (demo_tuner False False)])"
proof (rule fault_blocks_round[OF demo_group, of 1 False 0])
  show "\<not> isl (fst (plan demo_tune_cfg True (\<lambda>ws n. take n ws) demo_store t))"
    if "hd [Some (demo_tuner True False), Some (demo_tuner False False)] = Some t" for t
    using that by (auto simp: demo_plan)
qed (simp_all add: demo_io_def)

text \<open>A rollback is final. Once all ranks have zeroed their adapters, no sequence of calls, with
  whatever plans, faults and evaluations, changes a live adapter again.\<close>

theorem rollback_is_final:
  assumes "all_rolled zero ranks" and "group_state ranks"
    and "list_all (\<lambda>(rb, sample, store, ios). length ios = length ranks) calls"
  shows "all_rolled zero (call_seq c zero calls ranks)"
  using assms by (rule rolled_call_seq)

theorem rollback_is_final_witness:
  "all_rolled 0 (call_seq demo_tune_cfg 0 [(False, (\<lambda>ws n. take n ws), demo_store, [demo_io False, demo_io True])]
     [Some (demo_tuner True True), Some (demo_tuner False True)])"
  by (rule rollback_is_final)
    (simp_all add: all_rolled_def rolled_off_def demo_tuner_def group_state_def group_ok_def live_tuner_def)

text \<open>The gate compares means over the same anchors. After any evaluation from a reset gate whose
  replays share the anchors, it promotes exactly when there were enough anchors and the mean number
  of leading correct drafts rose by at least the margin, however the windows were tagged.\<close>

theorem gate_decides_on_means:
  assumes "\<And>l c tags d1. (l, c, tags, d1) \<in> set fs \<Longrightarrow> rp_full c = rp_full l"
  shows "gate_decide (feed_all fs (gate_reset g)) \<longleftrightarrow>
    (let n = sum_list (map (\<lambda>(l, _, tags, _). anchor_count l tags) fs);
         live = sum_list (map (\<lambda>(l, _, tags, _). correct_sum l tags) fs);
         cand = sum_list (map (\<lambda>(_, c, tags, _). correct_sum c tags) fs)
     in gt_min g \<le> n \<and> gt_margin g \<le> (of_nat cand - of_nat live) / of_nat (max n 1))"
proof -
  have "anchor_count c tags = anchor_count l tags" if "(l, c, tags, d1) \<in> set fs" for l c tags d1
    using assms[OF that] by (simp add: anchor_count_def anchors_def)
  then have eq: "sum_list (map (\<lambda>(_, c, tags, _). anchor_count c tags) fs) = sum_list (map (\<lambda>(l, _, tags, _). anchor_count l tags) fs)"
    by (intro arg_cong[of _ _ sum_list] map_cong) auto
  have "dict_ok (gt_live (gate_reset g))" "dict_ok (gt_cand (gate_reset g))" by (simp_all add: gate_reset_def)
  from feed_all_sums[OF this, of fs] eq show ?thesis
    by (simp add: gate_decide_def stats_total_def stats_sum_def[symmetric] Let_def diff_divide_distrib gate_reset_def)
      (simp add: stats_sum_def)
qed

theorem gate_decides_on_means_witness:
  "gate_decide (feed_all [(demo_chain False, demo_chain True, [''en''], [[7, 7]])] (gate_reset demo_gate))"
proof (subst gate_decides_on_means)
  show "rp_full c = rp_full l" if "(l, c, tags, d1) \<in> set [(demo_chain False, demo_chain True, [''en''], [[7, 7 :: int]])]" for l c tags d1
    using that by (simp add: demo_chain_def)
qed (simp add: demo_gate_def demo_chain_def anchor_count_def correct_sum_def leading_correct_def anchors_def)

end
