(* ===== verification/Mixer.thy ===== *)
theory Mixer
  imports SuffixProposer
begin

text \<open>
  The mixer of native drafts and suffix tails (\<open>src/src/mixer.rs\<close>, \<open>HybridMixer\<close>) with
  \<open>SUFFIX_HYBRID_SPLIT\<close> unset: batch validation, feedback, eviction of departed requests, the
  arbitration of a row and one \<open>mix_numpy\<close> call on contiguous int64 buffers. The hash map of
  tracked requests is an association list, so departed contexts enter the corpus in list order; the f64
  averages are rationals.
\<close>

section \<open>State\<close>

record previous =
  pv_context :: "token list"
  pv_native :: nat
  pv_length :: nat
  pv_arm :: nat
  pv_accept :: rat
  pv_suffix :: "rat option"
  pv_had :: bool

record mcfg =
  mc_k :: nat
  mc_max :: nat
  mc_cc :: cache_cfg

record hmixer =
  hm_cache :: cache
  hm_prev :: "(rid, previous) dict"
  hm_last :: "nat list"
  hm_calls :: nat
  hm_decisions :: nat
  hm_native_tested :: nat
  hm_native_accepted :: nat
  hm_suffix_tested :: nat
  hm_suffix_accepted :: nat
  hm_native_proposed :: nat
  hm_suffix_proposed :: nat

definition hmixer_new :: "nat \<Rightarrow> nat \<Rightarrow> cache_cfg \<Rightarrow> (mcfg \<times> hmixer) res" where
  "hmixer_new k max_len cc =
     (if k < 1 \<or> 64 < k \<or> max_len < 1 \<or> 16777216 < max_len then Inl ValueError
      else Inr (\<lparr>mc_k = k, mc_max = max_len, mc_cc = cc\<rparr>,
                \<lparr>hm_cache = cache_new, hm_prev = [], hm_last = [], hm_calls = 0, hm_decisions = 0, hm_native_tested = 0,
                 hm_native_accepted = 0, hm_suffix_tested = 0, hm_suffix_accepted = 0, hm_native_proposed = 0,
                 hm_suffix_proposed = 0\<rparr>))"

lemma hmixer_new_code [code]:
  "hmixer_new k max_len cc =
     (if k < 1 \<or> 64 < k \<or> max_len < 1 \<or> (16777216 :: int) < int max_len then Inl ValueError
      else Inr (\<lparr>mc_k = k, mc_max = max_len, mc_cc = cc\<rparr>,
                \<lparr>hm_cache = cache_new, hm_prev = [], hm_last = [], hm_calls = 0, hm_decisions = 0, hm_native_tested = 0,
                 hm_native_accepted = 0, hm_suffix_tested = 0, hm_suffix_accepted = 0, hm_native_proposed = 0,
                 hm_suffix_proposed = 0\<rparr>))"
  by (simp add: hmixer_new_def)

section \<open>Continuity\<close>

datatype continuity = Fresh | Continuing | Reset

definition boundary_matches :: "token list \<Rightarrow> token list \<Rightarrow> bool" where
  "boundary_matches tracked row =
     (let l = length tracked; w = min BOUNDARY l
      in l \<le> length row \<and> take w tracked = take w row \<and> drop (l - w) tracked = slice row (l - w) l)"

definition decide_row :: "token list option \<Rightarrow> token list \<Rightarrow> continuity \<times> token list" where
  "decide_row tracked row =
     (case tracked of
        None \<Rightarrow> (Fresh, row)
      | Some t \<Rightarrow> if boundary_matches t row then (Continuing, drop (length t) row) else (Reset, row))"

section \<open>Validation\<close>

definition validate :: "mcfg \<Rightarrow> rid list \<Rightarrow> token list list \<Rightarrow> int list option \<Rightarrow> hmixer \<Rightarrow> unit res" where
  "validate c ids drafts acc m =
     (let n = length ids
      in if 4096 < n \<or> length drafts \<noteq> n \<or> (case acc of None \<Rightarrow> False | Some a \<Rightarrow> length a \<noteq> n) \<or> \<not> distinct ids \<or>
            list_ex (\<lambda>d. mc_k c < length d \<or> list_ex (\<lambda>t. t < 0) d) drafts
         then Inl ValueError
         else (case acc of
                 None \<Rightarrow> Inr ()
               | Some a \<Rightarrow>
                   if list_ex (\<lambda>(r, x). x < - 1 \<or> (case map_of (hm_prev m) r of None \<Rightarrow> False | Some p \<Rightarrow> int (pv_length p) < x))
                        (zip ids a)
                   then Inl ValueError else Inr ()))"

definition row_bounds :: "mcfg \<Rightarrow> nat \<Rightarrow> int list \<Rightarrow> token list list \<Rightarrow> unit res" where
  "row_bounds c n counts tokens =
     (if length counts < n then Inl ValueError
      else if length tokens < n \<or>
              list_ex (\<lambda>(x, row). x < 0 \<or> int (length row) < x \<or> int (mc_max c) < x) (take n (zip counts tokens))
      then Inl ValueError else Inr ())"

section \<open>Feedback\<close>

text \<open>The averages of a row, from how many tokens of its last proposal were accepted.\<close>

definition feed_previous :: "nat \<Rightarrow> previous \<Rightarrow> previous" where
  "feed_previous a p =
     (if 0 < pv_length p
      then let p1 = p\<lparr>pv_accept := (if pv_length p \<le> a then of_nat (pv_length p)
                                    else 7 / 10 * pv_accept p + 3 / 10 * of_nat a)\<rparr>
           in if pv_had p \<and> min a (pv_native p) < pv_native p
              then let got = of_nat (a - pv_native p)
                   in p1\<lparr>pv_suffix := Some (case pv_suffix p of Some e \<Rightarrow> 7 / 10 * e + 3 / 10 * got | None \<Rightarrow> got)\<rparr>
              else p1
      else p)"

definition feed_one :: "rid \<times> int \<Rightarrow> hmixer \<Rightarrow> hmixer" where
  "feed_one = (\<lambda>(r, x) m.
     if x < 0 then m
     else (case map_of (hm_prev m) r of
             None \<Rightarrow> m
           | Some p \<Rightarrow>
               let a = nat x; tested = min (a + 1) (pv_length p)
               in m\<lparr>hm_native_tested := hm_native_tested m + min tested (pv_native p),
                    hm_native_accepted := hm_native_accepted m + min a (pv_native p),
                    hm_suffix_tested := hm_suffix_tested m + (tested - pv_native p),
                    hm_suffix_accepted := hm_suffix_accepted m + (a - pv_native p),
                    hm_prev := AList.update r (feed_previous a p) (hm_prev m)\<rparr>))"

definition feed_back :: "rid list \<Rightarrow> int list option \<Rightarrow> hmixer \<Rightarrow> hmixer" where
  "feed_back ids acc m = (case acc of None \<Rightarrow> m | Some a \<Rightarrow> fold feed_one (zip ids a) m)"

section \<open>Departed requests\<close>

definition feed_cache :: "cache_cfg \<Rightarrow> token list \<Rightarrow> cache \<Rightarrow> cache" where
  "feed_cache cc toks c = (case cache_add cc toks c of None \<Rightarrow> c | Some c' \<Rightarrow> c')"

definition evict_gone :: "mcfg \<Rightarrow> rid list \<Rightarrow> hmixer \<Rightarrow> hmixer" where
  "evict_gone c ids m =
     m\<lparr>hm_cache := fold (\<lambda>(_, p). feed_cache (mc_cc c) (pv_context p)) (filter (\<lambda>(r, _). r \<notin> set ids) (hm_prev m)) (hm_cache m),
       hm_prev := filter (\<lambda>(r, _). r \<in> set ids) (hm_prev m)\<rparr>"

section \<open>Arbitration of a row\<close>

definition pick_budget :: "nat \<Rightarrow> rat option \<Rightarrow> nat" where
  "pick_budget k est = min (max (nat \<lceil>case est of None \<Rightarrow> of_nat k | Some e \<Rightarrow> e\<rceil>) 1) k"

text \<open>The native prefix the lookup is conditioned on.\<close>

definition kept_prefix :: "bool \<Rightarrow> nat \<Rightarrow> nat \<Rightarrow> nat" where
  "kept_prefix cont budget cap =
     (if cont then let b = min budget cap in if cap \<le> b then cap else max b (max (cap - 1) 1) else cap)"

definition lookup_key :: "cache_cfg \<Rightarrow> token list \<Rightarrow> token list \<Rightarrow> token list \<Rightarrow> nat \<Rightarrow> token list" where
  "lookup_key cc ctx delta native prefix =
     (let tk = min (cf_depth cc - length delta) (length ctx)
      in drop (length ctx - tk) ctx @ drop (length delta - cf_depth cc) delta @ take (prefix - 1) native)"

text \<open>\<open>combined\<close>: the tail replaces the last kept token while the row's suffix gate is open, and else only
  fills slots after the kept prefix. Returns the draft, its leading native tokens, and whether a tail is left.\<close>

definition combine :: "token list \<Rightarrow> nat \<Rightarrow> nat \<Rightarrow> rat option \<Rightarrow> token list \<Rightarrow> token list \<times> nat \<times> bool" where
  "combine native prefix cap gt tail =
     (let keep_prefix = prefix - 1; dropped = prefix - keep_prefix;
          replaces = (keep_prefix < prefix \<and> dropped \<le> length tail \<and> (case gt of None \<Rightarrow> True | Some e \<Rightarrow> 1 \<le> e));
          combined = (if replaces then take keep_prefix native @ tail
                      else take prefix native @ take (cap - length (take prefix native)) tail);
          draft = take (min (length combined) cap) combined;
          start = min keep_prefix (length draft);
          nc = start + length (takeWhile (\<lambda>(a, b). a = b) (zip (drop start draft) (drop start native)))
      in (draft, nc, nc < length draft))"

text \<open>The draft of a row: \<open>known\<close> is the tracked request when its context goes on, \<open>ctx\<close> its context. Returns the
  draft, its leading native tokens, whether a tail is left, and the budget.\<close>

definition row_cap :: "mcfg \<Rightarrow> nat \<Rightarrow> token list \<Rightarrow> nat" where
  "row_cap c len native = min (min (mc_k c) (mc_max c - len)) (length native)"

definition row_budget :: "mcfg \<Rightarrow> previous option \<Rightarrow> nat \<Rightarrow> cache \<Rightarrow> nat" where
  "row_budget c known cap ch = (if 0 < cached ch then min (pick_budget (mc_k c) (map_option pv_accept known)) cap else cap)"

definition row_draft :: "mcfg \<Rightarrow> previous option \<Rightarrow> token list \<Rightarrow> token list \<Rightarrow> cache \<Rightarrow> token list \<times> nat \<times> bool" where
  "row_draft c known delta native ch =
     (let ctx = (case known of Some p \<Rightarrow> pv_context p | None \<Rightarrow> []);
          cap = row_cap c (length ctx + length delta) native;
          prefix = kept_prefix (known \<noteq> None) (row_budget c known cap ch) cap;
          suffix = fst (speculate (mc_cc c) ch (lookup_key (mc_cc c) ctx delta native prefix) cap)
      in case known of
           None \<Rightarrow> (take cap native, cap, False)
         | Some p \<Rightarrow> if suffix = [] then (take cap native, cap, False) else combine native prefix cap (pv_suffix p) suffix)"

definition mix_step :: "mcfg \<Rightarrow> rid \<Rightarrow> token list \<Rightarrow> token list \<Rightarrow> hmixer \<Rightarrow> token list \<times> hmixer" where
  "mix_step c r row native m =
     (let tracked = map_of (hm_prev m) r;
          (cont, delta) = decide_row (map_option pv_context tracked) row;
          cache1 = (case tracked of Some p \<Rightarrow> if cont = Reset then feed_cache (mc_cc c) (pv_context p) (hm_cache m) else hm_cache m
                    | None \<Rightarrow> hm_cache m);
          known = (if cont = Continuing then tracked else None);
          ctx = (case known of Some p \<Rightarrow> pv_context p | None \<Rightarrow> []);
          (draft, nc, had) = row_draft c known delta native cache1;
          p' = \<lparr>pv_context = ctx @ delta, pv_native = nc, pv_length = length draft,
                pv_arm = row_budget c known (row_cap c (length ctx + length delta) native) cache1,
                pv_accept = (case known of Some p \<Rightarrow> pv_accept p | None \<Rightarrow> of_nat (mc_k c)),
                pv_suffix = (case known of Some p \<Rightarrow> pv_suffix p | None \<Rightarrow> None), pv_had = had\<rparr>;
          cache2 = (if tracked \<noteq> None \<and> cont = Reset then feed_cache (mc_cc c) [] cache1 else cache1)
      in (draft, m\<lparr>hm_cache := cache2, hm_prev := AList.update r p' (hm_prev m), hm_last := hm_last m @ [nc],
                    hm_native_proposed := hm_native_proposed m + nc,
                    hm_suffix_proposed := hm_suffix_proposed m + (length draft - nc),
                    hm_decisions := Suc (hm_decisions m)\<rparr>))"

fun mix_rows :: "mcfg \<Rightarrow> (rid \<times> token list \<times> token list) list \<Rightarrow> hmixer \<Rightarrow> token list list \<times> hmixer" where
  "mix_rows c [] m = ([], m)"
| "mix_rows c ((r, row, native) # xs) m =
     (let (d, m1) = mix_step c r row native m; (ds, m2) = mix_rows c xs m1 in (d # ds, m2))"

definition mix_core :: "mcfg \<Rightarrow> rid list \<Rightarrow> token list list \<Rightarrow> token list list \<Rightarrow> int list option \<Rightarrow> hmixer \<Rightarrow> token list list \<times> hmixer" where
  "mix_core c ids rows drafts acc m =
     (let m1 = evict_gone c ids (feed_back ids acc m);
          (ds, m2) = mix_rows c (zip ids (zip rows drafts)) (m1\<lparr>hm_last := []\<rparr>)
      in (ds, m2\<lparr>hm_calls := Suc (hm_calls m2)\<rparr>))"

definition mix_numpy :: "mcfg \<Rightarrow> rid list \<Rightarrow> int list \<Rightarrow> token list list \<Rightarrow> token list list \<Rightarrow> int list option \<Rightarrow> hmixer \<Rightarrow>
    token list list res \<times> hmixer" where
  "mix_numpy c ids counts tokens drafts acc m =
     (case rbind (validate c ids drafts acc m) (\<lambda>_. row_bounds c (length ids) counts tokens) of
        Inl e \<Rightarrow> (Inl e, m)
      | Inr _ \<Rightarrow>
          let (ds, m') = mix_core c ids (map (\<lambda>(x, row). take (nat x) row) (zip counts tokens)) drafts acc m in (Inr ds, m'))"

section \<open>One row\<close>

definition agree_len :: "'a list \<Rightarrow> 'a list \<Rightarrow> nat" where
  "agree_len xs ys = length (takeWhile (\<lambda>(a, b). a = b) (zip xs ys))"

lemma agree_len_le: "agree_len xs ys \<le> length xs" "agree_len xs ys \<le> length ys"
proof -
  have "agree_len xs ys \<le> length (zip xs ys)" unfolding agree_len_def by (rule length_takeWhile_le)
  then show "agree_len xs ys \<le> length xs" "agree_len xs ys \<le> length ys" by simp_all
qed

lemma agree_len_take: "take (agree_len xs ys) xs = take (agree_len xs ys) ys"
  by (induction xs ys rule: list_induct2') (auto simp: agree_len_def)

lemma agree_from:
  assumes "take n xs = take n ys" and "n \<le> length xs"
  shows "n + agree_len (drop n xs) (drop n ys) \<le> length xs"
    and "take (n + agree_len (drop n xs) (drop n ys)) xs = take (n + agree_len (drop n xs) (drop n ys)) ys"
  using agree_len_le(1)[of "drop n xs" "drop n ys"] agree_len_take[of "drop n xs" "drop n ys"] assms
  by (simp_all add: take_add)

lemma combine_ok:
  assumes "combine native prefix cap gt tail = (d, nc, had)" and "cap \<le> length native" and "prefix \<le> cap"
  shows "length d \<le> cap \<and> nc \<le> length d \<and> take nc d = take nc native"
proof -
  define kp where "kp = prefix - 1"
  define rest where "rest = (if kp < prefix \<and> prefix - kp \<le> length tail \<and> (case gt of None \<Rightarrow> True | Some e \<Rightarrow> 1 \<le> e) then tail
      else drop kp (take prefix native) @ take (cap - length (take prefix native)) tail)"
  have "take kp (take prefix native) = take kp native" by (simp add: kp_def min_def)
  then have split: "take prefix native = take kp native @ drop kp (take prefix native)"
    using append_take_drop_id[of kp "take prefix native"] by simp
  define whole where "whole = take kp native @ rest"
  have pre: "take prefix native @ x = take kp native @ (drop kp (take prefix native) @ x)" for x
    unfolding append_assoc[symmetric] split[symmetric] ..
  have whole: "whole = (if kp < prefix \<and> prefix - kp \<le> length tail \<and> (case gt of None \<Rightarrow> True | Some e \<Rightarrow> 1 \<le> e)
      then take kp native @ tail else take prefix native @ take (cap - length (take prefix native)) tail)"
    unfolding whole_def rest_def pre by (rule if_distrib)
  have d: "d = take (min (length whole) cap) whole"
    using assms(1) unfolding combine_def Let_def kp_def[symmetric] whole[symmetric] by simp
  define start where "start = min kp (length d)"
  have nc: "nc = start + agree_len (drop start d) (drop start native)"
    using assms(1) d unfolding combine_def Let_def kp_def[symmetric] whole[symmetric] agree_len_def start_def by simp
  have "kp \<le> length native" using assms(2,3) by (simp add: kp_def)
  then have "take start d = take start native"
    unfolding d start_def whole_def by (simp add: min_def)
  moreover have "start \<le> length d" by (simp add: start_def)
  moreover have "length d \<le> cap" unfolding d by simp
  ultimately show ?thesis using agree_from[of start d native] nc by simp
qed

lemma kept_prefix_le: "budget \<le> cap \<Longrightarrow> (cap \<noteq> 0 \<Longrightarrow> cap \<noteq> 1 \<or> 0 < budget) \<Longrightarrow> kept_prefix cont budget cap \<le> cap"
  by (auto simp: kept_prefix_def Let_def)

lemma pick_budget_pos: "0 < k \<Longrightarrow> 0 < pick_budget k est"
  by (auto simp: pick_budget_def)

definition row_ok :: "mcfg \<Rightarrow> token list \<Rightarrow> token list \<Rightarrow> token list \<Rightarrow> nat \<Rightarrow> bool" where
  "row_ok c row native d nc \<longleftrightarrow> nc \<le> length d \<and> length d \<le> mc_k c \<and> length d \<le> length native \<and>
     length d \<le> mc_max c - length row \<and> take nc d = take nc native"

lemma row_draft_ok:
  assumes "row_draft c known delta native ch = (d, nc, had)" and "0 < mc_k c"
    and "length (case known of Some p \<Rightarrow> pv_context p | None \<Rightarrow> []) + length delta = length row"
  shows "row_ok c row native d nc"
proof -
  define cap where "cap = row_cap c (length row) native"
  define b where "b = row_budget c known cap ch"
  have "kept_prefix (known \<noteq> None) b cap \<le> cap"
    using pick_budget_pos[OF assms(2)] by (intro kept_prefix_le) (auto simp: b_def row_budget_def)
  moreover have cap: "cap \<le> length native" "cap \<le> mc_k c" "cap \<le> mc_max c - length row" by (simp_all add: cap_def row_cap_def)
  ultimately have "length d \<le> cap \<and> nc \<le> length d \<and> take nc d = take nc native"
    using assms(1) combine_ok[of native _ cap _ _ d nc had] unfolding row_draft_def Let_def assms(3) cap_def[symmetric] b_def[symmetric]
    by (auto split: option.splits if_splits)
  with cap show ?thesis by (simp add: row_ok_def)
qed

lemma decide_row_length:
  "decide_row (map_option pv_context tracked) row = (cont, delta) \<Longrightarrow>
   length (case (if cont = Continuing then tracked else None) of Some p \<Rightarrow> pv_context p | None \<Rightarrow> []) + length delta = length row"
  by (auto simp: decide_row_def boundary_matches_def Let_def split: option.splits if_splits)

lemma mix_step_ok:
  assumes "mix_step c r row native m = (d, m')" and "0 < mc_k c"
  shows "\<exists>nc p. hm_last m' = hm_last m @ [nc] \<and> row_ok c row native d nc \<and> hm_prev m' = AList.update r p (hm_prev m) \<and>
     pv_length p = length d \<and> pv_native p = nc"
proof -
  obtain cont delta where dec: "decide_row (map_option pv_context (map_of (hm_prev m) r)) row = (cont, delta)" by fastforce
  define known where "known = (if cont = Continuing then map_of (hm_prev m) r else None)"
  obtain ch where ch: "ch = (case map_of (hm_prev m) r of Some p \<Rightarrow> if cont = Reset then feed_cache (mc_cc c) (pv_context p) (hm_cache m) else hm_cache m
                    | None \<Rightarrow> hm_cache m)" by simp
  obtain d' nc had where d': "row_draft c known delta native ch = (d', nc, had)" by (metis prod_cases3)
  have "row_ok c row native d' nc"
    using row_draft_ok[OF d' assms(2)] decide_row_length[OF dec] by (simp add: known_def)
  with assms(1) show ?thesis
    unfolding mix_step_def Let_def dec prod.case known_def[symmetric] ch[symmetric] d'
    by (intro exI[of _ nc] exI conjI) (auto simp del: update.simps)
qed

section \<open>One call\<close>

lemma mix_step_other: "mix_step c r row native m = (d, m') \<Longrightarrow> s \<noteq> r \<Longrightarrow> map_of (hm_prev m') s = map_of (hm_prev m) s"
  by (auto simp: mix_step_def Let_def dict_simps split: prod.splits)

lemma mix_rows_other:
  "mix_rows c xs m = (ds, m') \<Longrightarrow> r \<notin> fst ` set xs \<Longrightarrow> map_of (hm_prev m') r = map_of (hm_prev m) r"
proof (induction xs arbitrary: m ds)
  case (Cons x xs)
  obtain r1 row1 native1 where x: "x = (r1, row1, native1)" by (cases x)
  obtain d m1 where s: "mix_step c r1 row1 native1 m = (d, m1)" by fastforce
  obtain es where rest: "mix_rows c xs m1 = (es, m')"
    using Cons.prems(1) s x by (auto split: prod.splits)
  from Cons.IH[OF rest] mix_step_other[OF s, of r] Cons.prems(2) x show ?case by auto
qed simp

lemma mix_rows_ok:
  assumes "mix_rows c xs m = (ds, m')" and "0 < mc_k c" and "distinct (map fst xs)"
  shows "length ds = length xs \<and> (\<exists>ncs. hm_last m' = hm_last m @ ncs \<and> length ncs = length xs \<and>
     (\<forall>i < length xs. row_ok c (fst (snd (xs ! i))) (snd (snd (xs ! i))) (ds ! i) (ncs ! i) \<and>
        (\<exists>p. map_of (hm_prev m') (fst (xs ! i)) = Some p \<and> pv_length p = length (ds ! i) \<and> pv_native p = ncs ! i))) \<and>
     (\<forall>r. r \<notin> fst ` set xs \<longrightarrow> map_of (hm_prev m') r = map_of (hm_prev m) r)"
  using assms(1,3)
proof (induction xs arbitrary: m ds)
  case Nil
  then show ?case by auto
next
  case (Cons x xs)
  obtain r row native where x: "x = (r, row, native)" by (cases x)
  obtain d m1 where s: "mix_step c r row native m = (d, m1)" by fastforce
  obtain es where rest: "mix_rows c xs m1 = (es, m')" and ds: "ds = d # es"
    using Cons.prems(1) s x by (auto split: prod.splits)
  obtain nc p where one: "hm_last m1 = hm_last m @ [nc]" "row_ok c row native d nc"
    "hm_prev m1 = AList.update r p (hm_prev m)" "pv_length p = length d" "pv_native p = nc"
    using mix_step_ok[OF s assms(2)] by blast
  have "distinct (map fst xs)" and r: "r \<notin> fst ` set xs" using Cons.prems(2) x by simp_all
  from Cons.IH[OF rest this(1)] obtain ncs where IH: "length es = length xs" "hm_last m' = hm_last m1 @ ncs" "length ncs = length xs"
    "\<And>i. i < length xs \<Longrightarrow> row_ok c (fst (snd (xs ! i))) (snd (snd (xs ! i))) (es ! i) (ncs ! i) \<and>
        (\<exists>p. map_of (hm_prev m') (fst (xs ! i)) = Some p \<and> pv_length p = length (es ! i) \<and> pv_native p = ncs ! i)"
    "\<And>r. r \<notin> fst ` set xs \<Longrightarrow> map_of (hm_prev m') r = map_of (hm_prev m1) r" by blast
  have rp: "map_of (hm_prev m') r = Some p" using IH(5)[OF r] one(3) by (simp add: dict_simps)
  have at: "row_ok c (fst (snd ((x # xs) ! i))) (snd (snd ((x # xs) ! i))) (ds ! i) ((nc # ncs) ! i) \<and>
        (\<exists>p. map_of (hm_prev m') (fst ((x # xs) ! i)) = Some p \<and> pv_length p = length (ds ! i) \<and> pv_native p = (nc # ncs) ! i)"
    if "i < length (x # xs)" for i
    using that IH(4) one rp ds x by (cases i) auto
  have other: "map_of (hm_prev m') s = map_of (hm_prev m) s" if "s \<notin> fst ` set (x # xs)" for s
    using IH(5)[of s] that one(3) x by (simp add: dict_simps)
  from IH(1-3) one(1) ds at other show ?case by (intro conjI exI[of _ "nc # ncs"]) auto
qed

lemma feed_previous_fields [simp]:
  "pv_length (feed_previous a p) = pv_length p" "pv_native (feed_previous a p) = pv_native p"
  "pv_context (feed_previous a p) = pv_context p" "pv_had (feed_previous a p) = pv_had p"
  by (simp_all add: feed_previous_def Let_def)

lemma mix_rows_nth:
  assumes "mix_rows c xs m = (ds, m')" and "distinct (map fst xs)" and "i < length xs" and "xs ! i = (r, row, native)"
  shows "\<exists>q q'. mix_step c r row native q = (ds ! i, q') \<and> map_of (hm_prev q) r = map_of (hm_prev m) r \<and>
     map_of (hm_prev m') r = map_of (hm_prev q') r"
  using assms
proof (induction xs arbitrary: m ds i)
  case (Cons x xs)
  obtain r1 row1 native1 where x: "x = (r1, row1, native1)" by (cases x)
  obtain d m1 where s: "mix_step c r1 row1 native1 m = (d, m1)" by fastforce
  obtain es where rest: "mix_rows c xs m1 = (es, m')" and ds: "ds = d # es"
    using Cons.prems(1) s x by (auto split: prod.splits)
  show ?case
  proof (cases i)
    case 0
    then have "r1 \<notin> fst ` set xs" "r1 = r" "row1 = row" "native1 = native" using Cons.prems(2,4) x by auto
    with s ds 0 mix_rows_other[OF rest] show ?thesis by auto
  next
    case (Suc j)
    with Cons.prems x have j: "j < length xs" "xs ! j = (r, row, native)" "distinct (map fst xs)" by simp_all
    then have "r \<in> fst ` set xs" by (metis fst_conv image_eqI nth_mem)
    then have "r \<noteq> r1" using Cons.prems(2) x by auto
    then have "map_of (hm_prev m1) r = map_of (hm_prev m) r" using mix_step_other[OF s] by simp
    with Cons.IH[OF rest j(3,1,2)] show ?thesis using ds Suc by auto
  qed
qed simp

section \<open>Reachable mixers\<close>

inductive mixer_run :: "mcfg \<Rightarrow> hmixer \<Rightarrow> bool" where
  new: "hmixer_new k max_len cc = Inr (c, m) \<Longrightarrow> mixer_run c m"
| call: "mixer_run c m \<Longrightarrow> mix_numpy c ids counts tokens drafts acc m = (r, m') \<Longrightarrow> mixer_run c m'"

inductive_cases mixer_runE: "mixer_run c m"

lemma mixer_run_k: "mixer_run c m \<Longrightarrow> 0 < mc_k c"
  by (induction rule: mixer_run.induct) (auto simp: hmixer_new_def split: if_splits)

text \<open>The suffix average of every tracked request is unset or 0.\<close>

definition gates_shut :: "hmixer \<Rightarrow> bool" where
  "gates_shut m \<longleftrightarrow> (\<forall>r p. map_of (hm_prev m) r = Some p \<longrightarrow> pv_suffix p = None \<or> pv_suffix p = Some 0)"

definition hm_ok :: "mcfg \<Rightarrow> hmixer \<Rightarrow> bool" where
  "hm_ok c m \<longleftrightarrow> gates_shut m \<and> cache_ok (mc_cc c) (hm_cache m)"

lemma feed_cache_ok [simp]: "cache_ok cc ch \<Longrightarrow> cache_ok cc (feed_cache cc toks ch)"
  using cache_add_total_ok[of cc ch toks] by (auto simp: feed_cache_def)

lemma feed_previous_gate: "pv_suffix p = None \<or> pv_suffix p = Some 0 \<Longrightarrow> pv_suffix (feed_previous a p) = None \<or> pv_suffix (feed_previous a p) = Some 0"
  by (auto simp: feed_previous_def Let_def split: if_splits)

lemma feed_one_ok: "hm_ok c m \<Longrightarrow> hm_ok c (feed_one x m)"
proof -
  assume ok: "hm_ok c m"
  obtain r v where x: "x = (r, v)" by (cases x)
  show "hm_ok c (feed_one x m)"
  proof (cases "v < 0 \<or> map_of (hm_prev m) r = None")
    case True
    with ok x show ?thesis by (auto simp: feed_one_def)
  next
    case False
    then obtain p where p: "map_of (hm_prev m) r = Some p" by blast
    with ok have "pv_suffix p = None \<or> pv_suffix p = Some 0" by (simp add: hm_ok_def gates_shut_def)
    from feed_previous_gate[OF this] ok p x False show ?thesis
      by (auto simp: feed_one_def Let_def hm_ok_def gates_shut_def dict_simps)
  qed
qed

lemma feed_back_ok: "hm_ok c m \<Longrightarrow> hm_ok c (feed_back ids acc m)"
  by (auto simp: feed_back_def intro: fold_inv feed_one_ok split: option.split)

lemma fold_feed_cache_ok: "cache_ok cc ch \<Longrightarrow> cache_ok cc (fold (\<lambda>(_, p). feed_cache cc (pv_context p)) xs ch)"
  by (rule fold_inv) auto

lemma evict_gone_ok: "hm_ok c m \<Longrightarrow> hm_ok c (evict_gone c ids m)"
  by (auto simp: evict_gone_def hm_ok_def gates_shut_def dict_simps fold_feed_cache_ok split: if_splits)

lemma mix_step_prev:
  assumes "mix_step c r row native m = (d, m')" and "decide_row (map_option pv_context (map_of (hm_prev m) r)) row = (cont, delta)"
  shows "\<exists>p'. map_of (hm_prev m') r = Some p' \<and>
     pv_suffix p' = (if cont = Continuing then case map_of (hm_prev m) r of Some p \<Rightarrow> pv_suffix p | None \<Rightarrow> None else None)"
  using assms by (auto simp: mix_step_def Let_def dict_simps split: prod.splits option.splits if_splits)

lemma mix_step_cache_ok:
  "mix_step c r row native m = (d, m') \<Longrightarrow> cache_ok (mc_cc c) (hm_cache m) \<Longrightarrow> cache_ok (mc_cc c) (hm_cache m')"
  by (auto simp: mix_step_def Let_def split: prod.splits option.splits if_splits)

lemma mix_step_hm_ok: "mix_step c r row native m = (d, m') \<Longrightarrow> hm_ok c m \<Longrightarrow> hm_ok c m'"
proof -
  assume s: "mix_step c r row native m = (d, m')" and ok: "hm_ok c m"
  obtain cont delta where dec: "decide_row (map_option pv_context (map_of (hm_prev m) r)) row = (cont, delta)" by fastforce
  obtain p' where p': "map_of (hm_prev m') r = Some p'"
    "pv_suffix p' = (if cont = Continuing then case map_of (hm_prev m) r of Some p \<Rightarrow> pv_suffix p | None \<Rightarrow> None else None)"
    using mix_step_prev[OF s dec] by blast
  have "pv_suffix q = None \<or> pv_suffix q = Some 0" if "map_of (hm_prev m') t = Some q" for t q
  proof (cases "t = r")
    case True
    with that p' ok show ?thesis by (auto simp: hm_ok_def gates_shut_def split: option.splits)
  next
    case False
    with that mix_step_other[OF s False] ok show ?thesis by (simp add: hm_ok_def gates_shut_def)
  qed
  with mix_step_cache_ok[OF s] ok show ?thesis by (auto simp: hm_ok_def gates_shut_def)
qed

lemma mix_rows_hm_ok: "mix_rows c xs m = (ds, m') \<Longrightarrow> hm_ok c m \<Longrightarrow> hm_ok c m'"
proof (induction xs arbitrary: m ds)
  case (Cons x xs)
  obtain r row native where x: "x = (r, row, native)" by (cases x)
  obtain d m1 where s: "mix_step c r row native m = (d, m1)" by fastforce
  obtain es where "mix_rows c xs m1 = (es, m')" using Cons.prems(1) s x by (auto split: prod.splits)
  from Cons.IH[OF this mix_step_hm_ok[OF s Cons.prems(2)]] show ?case .
qed simp

lemma mix_core_ok:
  assumes "mix_core c ids rows drafts acc m = (ds, m')" and "hm_ok c m"
  shows "hm_ok c m'"
proof -
  let ?m1 = "(evict_gone c ids (feed_back ids acc m))\<lparr>hm_last := []\<rparr>"
  have ok: "hm_ok c ?m1" using evict_gone_ok[OF feed_back_ok[OF assms(2)], of ids ids acc] by (simp add: hm_ok_def gates_shut_def)
  obtain es m2 where r: "mix_rows c (zip ids (zip rows drafts)) ?m1 = (es, m2)" by fastforce
  have "m' = m2\<lparr>hm_calls := Suc (hm_calls m2)\<rparr>" using assms(1) r by (simp add: mix_core_def Let_def)
  with mix_rows_hm_ok[OF r ok] show ?thesis by (simp add: hm_ok_def gates_shut_def)
qed

lemma mixer_run_ok: "mixer_run c m \<Longrightarrow> hm_ok c m"
proof (induction rule: mixer_run.induct)
  case (new k max_len cc c m)
  then show ?case by (auto simp: hmixer_new_def hm_ok_def gates_shut_def cache_ok_new split: if_splits)
next
  case (call c m ids counts tokens drafts acc r m')
  then show ?case by (auto simp: mix_numpy_def split: sum.splits prod.splits dest: mix_core_ok)
qed

lemma mix_numpyE:
  assumes "mix_numpy c ids counts tokens drafts acc m = (Inr ds, m')"
  obtains xs m2 where
    "mix_rows c xs ((evict_gone c ids (feed_back ids acc m))\<lparr>hm_last := []\<rparr>) = (ds, m2)" "m' = m2\<lparr>hm_calls := Suc (hm_calls m2)\<rparr>"
    "distinct ids" "length xs = length ids" "map fst xs = ids"
    "\<forall>i < length ids. xs ! i = (ids ! i, take (nat (counts ! i)) (tokens ! i), drafts ! i)"
proof -
  have v: "validate c ids drafts acc m = Inr ()" "row_bounds c (length ids) counts tokens = Inr ()"
    using assms by (auto simp: mix_numpy_def rbind_def split: sum.splits)
  have d: "distinct ids" "length drafts = length ids" using v(1) by (auto simp: validate_def Let_def split: if_splits)
  have l: "length ids \<le> length counts" "length ids \<le> length tokens"
    using v(2) by (auto simp: row_bounds_def split: if_splits)
  define rows where "rows = map (\<lambda>(x, row). take (nat x) row) (zip counts tokens)"
  obtain es m2 where r: "mix_rows c (zip ids (zip rows drafts)) ((evict_gone c ids (feed_back ids acc m))\<lparr>hm_last := []\<rparr>) = (es, m2)" by fastforce
  have "es = ds" "m' = m2\<lparr>hm_calls := Suc (hm_calls m2)\<rparr>"
    using assms v r by (auto simp: mix_numpy_def mix_core_def Let_def rows_def[symmetric])
  moreover have "length rows = min (length counts) (length tokens)" by (simp add: rows_def)
  ultimately show thesis using r d l by (intro that[of "zip ids (zip rows drafts)" m2]) (auto simp: rows_def)
qed

definition grows :: "previous \<Rightarrow> previous \<Rightarrow> bool" where
  "grows p p' \<longleftrightarrow> pv_context p' = pv_context p \<and> (pv_suffix p \<noteq> None \<longrightarrow> pv_suffix p' \<noteq> None)"

lemma grows_refl [simp]: "grows p p"
  by (simp add: grows_def)

lemma grows_trans: "grows p p' \<Longrightarrow> grows p' p'' \<Longrightarrow> grows p p''"
  by (auto simp: grows_def)

lemma feed_one_grows: "map_of (hm_prev m) r = Some p \<Longrightarrow> \<exists>p'. map_of (hm_prev (feed_one x m)) r = Some p' \<and> grows p p'"
  by (auto simp: feed_one_def Let_def dict_simps grows_def feed_previous_def split: option.splits prod.splits)

lemma fold_feed_grows: "map_of (hm_prev m) r = Some p \<Longrightarrow> \<exists>p'. map_of (hm_prev (fold feed_one xs m)) r = Some p' \<and> grows p p'"
proof (induction xs arbitrary: m p)
  case (Cons x xs)
  from feed_one_grows[OF Cons.prems, of x] obtain q where q: "map_of (hm_prev (feed_one x m)) r = Some q" "grows p q" by blast
  from Cons.IH[OF q(1)] q(2) show ?case using grows_trans by fastforce
qed simp

lemma feed_back_grows: "map_of (hm_prev m) r = Some p \<Longrightarrow> \<exists>p'. map_of (hm_prev (feed_back ids acc m)) r = Some p' \<and> grows p p'"
  using fold_feed_grows by (auto simp: feed_back_def split: option.split)

lemma evict_gone_prev: "map_of (hm_prev (evict_gone c ids m)) r = (if r \<in> set ids then map_of (hm_prev m) r else None)"
  by (simp add: evict_gone_def dict_simps)

section \<open>An empty corpus\<close>

lemma empty_corpus_index:
  assumes "cache_ok cc ch" and "cached ch = 0" and "0 < cf_n cc"
  shows "index ch key = []"
proof (rule ccontr)
  assume "index ch key \<noteq> []"
  then obtain i p where e: "(i, p) \<in> set (index ch key)" by (cases "index ch key") auto
  with assms(1) have i: "i \<in> set (fifo ch)" and "p + cf_n cc \<le> length (seq_of ch i)" unfolding cache_ok_def by blast+
  moreover have "length (seq_of ch i) \<le> cached ch"
    using assms(1) i by (auto simp: cache_ok_def seq_lens_def intro!: member_le_sum_list)
  ultimately show False using assms(2,3) by simp
qed

lemma empty_corpus_silent: "cache_ok cc ch \<Longrightarrow> cached ch = 0 \<Longrightarrow> 0 < cf_n cc \<Longrightarrow> fst (speculate cc ch key k) = []"
  by (simp add: speculate_def Let_def empty_corpus_index)

text \<open>No row of the batch resets its request.\<close>

definition no_reset :: "(rid, previous) dict \<Rightarrow> (rid \<times> token list \<times> token list) list \<Rightarrow> bool" where
  "no_reset prev xs \<longleftrightarrow> (\<forall>(r, row, native) \<in> set xs. \<forall>p. map_of prev r = Some p \<longrightarrow> boundary_matches (pv_context p) row)"

lemma mix_step_echo:
  assumes "mix_step c r row native m = (d, m')" and "cache_ok (mc_cc c) (hm_cache m)" "cached (hm_cache m) = 0" "0 < cf_n (mc_cc c)"
    and "\<And>p. map_of (hm_prev m) r = Some p \<Longrightarrow> boundary_matches (pv_context p) row"
  shows "d = take (row_cap c (length row) native) native \<and> hm_cache m' = hm_cache m"
proof -
  obtain cont delta where dec: "decide_row (map_option pv_context (map_of (hm_prev m) r)) row = (cont, delta)" by fastforce
  have cont: "cont \<noteq> Reset" using dec assms(5) by (auto simp: decide_row_def split: option.splits if_splits)
  define known where "known = (if cont = Continuing then map_of (hm_prev m) r else None)"
  have "fst (row_draft c known delta native (hm_cache m)) = take (row_cap c (length row) native) native"
    using empty_corpus_silent[OF assms(2-4)] decide_row_length[OF dec, folded known_def]
    by (auto simp: row_draft_def Let_def split: option.split)
  with assms(1) cont show ?thesis
    by (auto simp: mix_step_def Let_def dec known_def[symmetric] split: prod.splits option.splits)
qed

lemma mix_rows_echo:
  assumes "mix_rows c xs m = (ds, m')" and "cache_ok (mc_cc c) (hm_cache m)" "cached (hm_cache m) = 0" "0 < cf_n (mc_cc c)"
    and "no_reset (hm_prev m) xs" and "distinct (map fst xs)"
  shows "ds = map (\<lambda>(r, row, native). take (row_cap c (length row) native) native) xs \<and> hm_cache m' = hm_cache m"
  using assms
proof (induction xs arbitrary: m ds)
  case (Cons x xs)
  obtain r row native where x: "x = (r, row, native)" by (cases x)
  obtain d m1 where s: "mix_step c r row native m = (d, m1)" by fastforce
  obtain es where rest: "mix_rows c xs m1 = (es, m')" and ds: "ds = d # es"
    using Cons.prems(1) s x by (auto split: prod.splits)
  have r: "r \<notin> fst ` set xs" and dx: "distinct (map fst xs)" using Cons.prems(6) x by simp_all
  have one: "d = take (row_cap c (length row) native) native" "hm_cache m1 = hm_cache m"
    using mix_step_echo[OF s Cons.prems(2-4)] Cons.prems(5) x by (auto simp: no_reset_def)
  have "map_of (hm_prev m1) t = map_of (hm_prev m) t" if "t \<in> fst ` set xs" for t
    using mix_step_other[OF s, of t] that r by blast
  then have "no_reset (hm_prev m1) xs" using Cons.prems(5) by (force simp: no_reset_def)
  with Cons.IH[OF rest _ _ _ _ dx] one Cons.prems(2-4) ds x show ?case by simp
qed simp

definition batch_continues :: "hmixer \<Rightarrow> rid list \<Rightarrow> int list \<Rightarrow> token list list \<Rightarrow> bool" where
  "batch_continues m ids counts tokens \<longleftrightarrow>
     fst ` set (hm_prev m) \<subseteq> set ids \<and>
     list_all (\<lambda>i. case map_of (hm_prev m) (ids ! i) of None \<Rightarrow> True
                   | Some p \<Rightarrow> boundary_matches (pv_context p) (take (nat (counts ! i)) (tokens ! i))) [0..<length ids]"

lemma feed_one_frame: "hm_cache (feed_one x m) = hm_cache m \<and> fst ` set (hm_prev (feed_one x m)) = fst ` set (hm_prev m)"
proof -
  obtain r v where x: "x = (r, v)" by (cases x)
  show ?thesis
  proof (cases "map_of (hm_prev m) r")
    case None
    with x show ?thesis by (simp add: feed_one_def)
  next
    case (Some p)
    then have "r \<in> fst ` set (hm_prev m)" by (metis domI dom_map_of_conv_image_fst)
    with Some x show ?thesis by (auto simp: feed_one_def Let_def dom_update)
  qed
qed

lemma feed_back_frame: "hm_cache (feed_back ids acc m) = hm_cache m \<and> fst ` set (hm_prev (feed_back ids acc m)) = fst ` set (hm_prev m)"
proof -
  have "hm_cache (fold feed_one xs n) = hm_cache n \<and> fst ` set (hm_prev (fold feed_one xs n)) = fst ` set (hm_prev n)" for xs n
    by (induction xs arbitrary: n) (simp_all add: feed_one_frame)
  then show ?thesis by (simp add: feed_back_def split: option.split)
qed

lemma feed_back_context:
  assumes "map_of (hm_prev (feed_back ids acc m)) r = Some p'"
  obtains p where "map_of (hm_prev m) r = Some p" "grows p p'"
proof -
  have "r \<in> fst ` set (hm_prev m)"
    using assms feed_back_frame[of ids acc m] by (metis domI dom_map_of_conv_image_fst)
  then obtain p where p: "map_of (hm_prev m) r = Some p" by (metis domD dom_map_of_conv_image_fst)
  with feed_back_grows[OF p, of ids acc] assms show thesis by (auto intro: that)
qed

lemma evict_gone_frame: "fst ` set (hm_prev m) \<subseteq> set ids \<Longrightarrow> hm_cache (evict_gone c ids m) = hm_cache m"
proof -
  assume "fst ` set (hm_prev m) \<subseteq> set ids"
  then have "filter (\<lambda>(r, _). r \<notin> set ids) (hm_prev m) = []" by (auto simp: filter_empty_conv)
  then show ?thesis by (simp add: evict_gone_def)
qed

section \<open>A shut gate\<close>

lemma combine_shut:
  assumes "combine native prefix cap (Some e) tail = (d, nc, had)" and "e < 1" and "prefix \<le> cap" and "cap \<le> length native"
  shows "take prefix d = take prefix native"
proof -
  define whole where "whole = take prefix native @ take (cap - length (take prefix native)) tail"
  have "\<not> 1 \<le> e" using assms(2) by simp
  then have "fst (combine native prefix cap (Some e) tail) = take (min (length whole) cap) whole"
    unfolding combine_def Let_def fst_conv option.case whole_def by (simp only: simp_thms if_False)
  then have "d = take (min (length whole) cap) whole" using assms(1) by simp
  moreover have "prefix \<le> min (length whole) cap" using assms(3,4) by (simp add: whole_def)
  ultimately have "take prefix d = take prefix whole" by (simp add: min.absorb1)
  moreover have "take prefix whole = take prefix native" using assms(3,4) by (simp add: whole_def)
  ultimately show ?thesis by simp
qed

lemma row_draft_shut:
  assumes "row_draft c (Some p) delta native ch = (d, nc, had)" and "pv_suffix p = Some e" and "e < 1" and "0 < mc_k c"
    and "length (pv_context p) + length delta = length row"
  shows "take (row_cap c (length row) native - 1) d = take (row_cap c (length row) native - 1) native"
proof -
  define cap where "cap = row_cap c (length row) native"
  define b where "b = row_budget c (Some p) cap ch"
  define prefix where "prefix = kept_prefix True b cap"
  have cap: "cap \<le> length native" by (simp add: cap_def row_cap_def)
  have pre: "prefix \<le> cap" unfolding prefix_def
    using pick_budget_pos[OF assms(4)] by (intro kept_prefix_le) (auto simp: b_def row_budget_def)
  have low: "cap - 1 \<le> prefix" by (auto simp: prefix_def kept_prefix_def Let_def)
  have rd: "(d = take cap native) \<or> (\<exists>tail. combine native prefix cap (Some e) tail = (d, nc, had))"
    using assms(1,2) unfolding row_draft_def Let_def option.case assms(5) cap_def[symmetric] b_def[symmetric]
    by (auto simp: prefix_def split: if_splits)
  then have "take prefix d = take prefix native"
    using combine_shut[OF _ assms(3) pre cap] pre by (auto simp: min_def)
  then have "take (cap - 1) (take prefix d) = take (cap - 1) (take prefix native)" by simp
  with low show ?thesis by (simp add: cap_def min_def)
qed

lemma mix_step_shut:
  assumes "mix_step c r row native m = (d, m')" and "map_of (hm_prev m) r = Some p" and "pv_suffix p = Some e" and "e < 1"
    and "boundary_matches (pv_context p) row" and "0 < mc_k c"
  shows "take (row_cap c (length row) native - 1) d = take (row_cap c (length row) native - 1) native \<and>
    (\<exists>p'. map_of (hm_prev m') r = Some p' \<and> pv_suffix p' = Some e)"
proof -
  have dec: "decide_row (map_option pv_context (map_of (hm_prev m) r)) row = (Continuing, drop (length (pv_context p)) row)"
    using assms(2,5) by (simp add: decide_row_def)
  have len: "length (pv_context p) + length (drop (length (pv_context p)) row) = length row"
    using assms(5) by (simp add: boundary_matches_def Let_def)
  obtain d' nc had where rd: "row_draft c (Some p) (drop (length (pv_context p)) row) native (hm_cache m) = (d', nc, had)" by (metis prod_cases3)
  have dec1: "decide_row (Some (pv_context p)) row = (Continuing, drop (length (pv_context p)) row)"
    using dec assms(2) by simp
  have "d = d'" using assms(1) by (simp add: mix_step_def Let_def assms(2) dec1 rd)
  with row_draft_shut[OF rd assms(3,4,6) len] mix_step_prev[OF assms(1) dec] assms(2,3) show ?thesis by simp
qed

lemma mixed_batch:
  assumes "mixer_run c m" and "mix_numpy c ids counts tokens drafts acc m = (Inr ds, m')"
  shows "length ds = length ids \<and> length (hm_last m') = length ids \<and>
    (\<forall>i < length ids. row_ok c (take (nat (counts ! i)) (tokens ! i)) (drafts ! i) (ds ! i) (hm_last m' ! i) \<and>
       (\<exists>p. map_of (hm_prev m') (ids ! i) = Some p \<and> pv_length p = length (ds ! i) \<and> pv_native p = hm_last m' ! i)) \<and>
    (\<forall>r. r \<notin> set ids \<longrightarrow> map_of (hm_prev m') r = None)"
proof -
  let ?m1 = "(evict_gone c ids (feed_back ids acc m))\<lparr>hm_last := []\<rparr>"
  obtain xs m2 where r: "mix_rows c xs ?m1 = (ds, m2)" and m': "m' = m2\<lparr>hm_calls := Suc (hm_calls m2)\<rparr>" and d: "distinct ids"
    and len: "length xs = length ids" and ids: "map fst xs = ids"
    and at: "\<forall>i < length ids. xs ! i = (ids ! i, take (nat (counts ! i)) (tokens ! i), drafts ! i)"
    by (rule mix_numpyE[OF assms(2)])
  have dx: "distinct (map fst xs)" and fx: "fst ` set xs = set ids" using d ids by (simp, metis set_map)
  from mix_rows_ok[OF r mixer_run_k[OF assms(1)] dx] obtain ncs where ok: "length ds = length xs" "hm_last m2 = hm_last ?m1 @ ncs"
    "length ncs = length xs"
    "\<And>i. i < length xs \<Longrightarrow> row_ok c (fst (snd (xs ! i))) (snd (snd (xs ! i))) (ds ! i) (ncs ! i) \<and>
        (\<exists>p. map_of (hm_prev m2) (fst (xs ! i)) = Some p \<and> pv_length p = length (ds ! i) \<and> pv_native p = ncs ! i)"
    "\<And>r. r \<notin> fst ` set xs \<Longrightarrow> map_of (hm_prev m2) r = map_of (hm_prev ?m1) r" by blast
  have gone: "map_of (hm_prev m2) s = None" if "s \<notin> set ids" for s
    using ok(5)[of s] that fx evict_gone_prev[of c ids "feed_back ids acc m" s] by simp
  show ?thesis using ok(1-4) at len gone m' by simp
qed

text \<open>A concrete run: a request whose context enters the corpus, and a second one that gets a suffix tail, has it
  rejected inside the native prefix, and goes on.\<close>

definition demo_mcfg :: mcfg where
  "demo_mcfg = \<lparr>mc_k = 4, mc_max = 64, mc_cc = demo_cache_cfg\<rparr>"

definition demo_hm0 :: hmixer where
  "demo_hm0 = \<lparr>hm_cache = cache_new, hm_prev = [], hm_last = [], hm_calls = 0, hm_decisions = 0, hm_native_tested = 0,
     hm_native_accepted = 0, hm_suffix_tested = 0, hm_suffix_accepted = 0, hm_native_proposed = 0, hm_suffix_proposed = 0\<rparr>"

definition demo_mix :: "rid \<Rightarrow> token list \<Rightarrow> token list \<Rightarrow> int \<Rightarrow> hmixer \<Rightarrow> token list list res \<times> hmixer" where
  "demo_mix r ctx native a m = mix_numpy demo_mcfg [r] [int (length ctx)] [ctx] [native] (Some [a]) m"

definition demo_hm1 :: hmixer where
  "demo_hm1 = snd (demo_mix ''a'' [8, 1, 2] [3, 9, 9, 9] (- 1) (snd (demo_mix ''b'' [1, 2, 3, 4, 5, 6, 7] [9, 9, 9, 9] (- 1) demo_hm0)))"

definition demo_hm2 :: hmixer where
  "demo_hm2 = snd (demo_mix ''a'' [8, 1, 2, 3, 4] [5, 6, 9, 9] 1 (snd (demo_mix ''a'' [8, 1, 2, 3] [4, 5, 9, 9] 0 demo_hm1)))"

lemma demo_run_mix: "mixer_run demo_mcfg m \<Longrightarrow> mixer_run demo_mcfg (snd (demo_mix r ctx native a m))"
  unfolding demo_mix_def by (erule mixer_run.call) (rule prod.collapse[symmetric])

lemma demo_run0: "mixer_run demo_mcfg demo_hm0"
  by (rule mixer_run.new[of 4 64 demo_cache_cfg]) (simp add: hmixer_new_def demo_mcfg_def demo_hm0_def)

lemma demo_run2: "mixer_run demo_mcfg demo_hm2"
  unfolding demo_hm2_def demo_hm1_def by (intro demo_run_mix demo_run0)

lemma demo_hm2_gate: "map_option (\<lambda>p. (pv_suffix p, pv_context p)) (map_of (hm_prev demo_hm2) ''a'') = Some (Some 0, [8, 1, 2, 3, 4])"
  by code_simp

text \<open>The condition on departures is needed: a request that leaves in this very call fills the corpus before the
  rows are drafted.\<close>

lemma departure_ends_echo:
  "(let m = snd (mix_numpy demo_mcfg [''a'', ''b''] [3, 7] [[8, 1, 2, 0, 0, 0, 0], [1, 2, 3, 4, 5, 6, 7]] [[3, 9, 9, 9], [9, 9, 9, 9]]
       None demo_hm0)
    in cached (hm_cache m) = 0 \<and> fst (demo_mix ''a'' [8, 1, 2, 3] [4, 5, 9, 9] 0 m) = Inr [[4, 5, 6, 7]])"
  by code_simp

section \<open>Properties\<close>

text \<open>C7: what a mixer call publishes. Every draft starts with as many native tokens as the mixer reports,
  is no longer than the native draft, the budget and the room left in the context, and the mixer
  afterwards tracks exactly the batch, each request with the length and the native prefix of its draft.\<close>

theorem drafts_start_native:
  assumes "mixer_run c m" and "mix_numpy c ids counts tokens drafts acc m = (Inr ds, m')"
  shows "length ds = length ids \<and> length (hm_last m') = length ids \<and>
    (\<forall>i < length ids. row_ok c (take (nat (counts ! i)) (tokens ! i)) (drafts ! i) (ds ! i) (hm_last m' ! i) \<and>
       (\<exists>p. map_of (hm_prev m') (ids ! i) = Some p \<and> pv_length p = length (ds ! i) \<and> pv_native p = hm_last m' ! i)) \<and>
    (\<forall>r. r \<notin> set ids \<longrightarrow> map_of (hm_prev m') r = None)"
  using assms by (rule mixed_batch)

theorem drafts_start_native_witness:
  "case demo_mix ''a'' [8, 1, 2, 3] [4, 5, 9, 9] 0 demo_hm1 of
     (Inr ds, m') \<Rightarrow> take (hm_last m' ! 0) (ds ! 0) = take (hm_last m' ! 0) [4, 5, 9, 9] | _ \<Rightarrow> False"
proof -
  have "case fst (demo_mix ''a'' [8, 1, 2, 3] [4, 5, 9, 9] 0 demo_hm1) of Inr _ \<Rightarrow> True | Inl _ \<Rightarrow> False" by code_simp
  then obtain ds m' where call: "demo_mix ''a'' [8, 1, 2, 3] [4, 5, 9, 9] 0 demo_hm1 = (Inr ds, m')"
    by (cases "demo_mix ''a'' [8, 1, 2, 3] [4, 5, 9, 9] 0 demo_hm1") (auto split: sum.splits)
  have "mixer_run demo_mcfg demo_hm1" unfolding demo_hm1_def by (intro demo_run_mix demo_run0)
  from drafts_start_native[OF this call[unfolded demo_mix_def]] show ?thesis unfolding call by (simp add: row_ok_def)
qed

text \<open>With nothing in the corpus the mixer is the native drafter. If no request has left and every row
  continues its request, each draft is the native draft cut to the budget and the context room, and
  the corpus stays empty.\<close>

theorem unfed_mixer_echoes_native:
  assumes "mixer_run c m" and "0 < cf_n (mc_cc c)" and "cached (hm_cache m) = 0" and "batch_continues m ids counts tokens"
    and "mix_numpy c ids counts tokens drafts acc m = (Inr ds, m')"
  shows "ds = map (\<lambda>i. take (row_cap c (length (take (nat (counts ! i)) (tokens ! i))) (drafts ! i)) (drafts ! i)) [0..<length ids] \<and>
    hm_cache m' = hm_cache m"
proof -
  let ?m1 = "(evict_gone c ids (feed_back ids acc m))\<lparr>hm_last := []\<rparr>"
  obtain xs m2 where r: "mix_rows c xs ?m1 = (ds, m2)" and m': "m' = m2\<lparr>hm_calls := Suc (hm_calls m2)\<rparr>" and d: "distinct ids"
    and len: "length xs = length ids" and ids: "map fst xs = ids"
    and at: "\<forall>i < length ids. xs ! i = (ids ! i, take (nat (counts ! i)) (tokens ! i), drafts ! i)"
    by (rule mix_numpyE[OF assms(5)])
  have keys: "fst ` set (hm_prev (feed_back ids acc m)) \<subseteq> set ids"
    using assms(4) feed_back_frame[of ids acc m] by (simp add: batch_continues_def)
  have cache: "hm_cache ?m1 = hm_cache m" using evict_gone_frame[OF keys, of c] feed_back_frame[of ids acc m] by simp
  have ok: "cache_ok (mc_cc c) (hm_cache m)" using mixer_run_ok[OF assms(1)] by (simp add: hm_ok_def)
  have "boundary_matches (pv_context p') row" if x: "(s, row, native) \<in> set xs" and p': "map_of (hm_prev ?m1) s = Some p'" for s row native p'
  proof -
    from x obtain i where i: "i < length ids" "s = ids ! i" "row = take (nat (counts ! i)) (tokens ! i)"
      using at len by (metis Pair_inject in_set_conv_nth)
    from p' have "map_of (hm_prev (feed_back ids acc m)) s = Some p'"
      using evict_gone_prev[of c ids "feed_back ids acc m" s] by (simp split: if_splits)
    then obtain p where p: "map_of (hm_prev m) s = Some p" "grows p p'" by (rule feed_back_context)
    from assms(4) i(1) p(1) i(2,3) have "boundary_matches (pv_context p) row"
      by (auto simp: batch_continues_def list_all_iff split: option.splits)
    with p(2) show ?thesis by (simp add: grows_def)
  qed
  then have nr: "no_reset (hm_prev ?m1) xs" by (auto simp: no_reset_def)
  have dx: "distinct (map fst xs)" using d ids by simp
  from mix_rows_echo[OF r _ _ assms(2) nr dx] cache ok assms(3)
  have ds: "ds = map (\<lambda>(r, row, native). take (row_cap c (length row) native) native) xs" and "hm_cache m2 = hm_cache m" by simp_all
  moreover have "map (\<lambda>(r, row, native). take (row_cap c (length row) native) native) xs =
      map (\<lambda>i. take (row_cap c (length (take (nat (counts ! i)) (tokens ! i))) (drafts ! i)) (drafts ! i)) [0..<length ids]"
    using at len by (intro nth_equalityI) (simp_all del: length_take)
  ultimately show ?thesis using m' by simp
qed

theorem unfed_mixer_echoes_native_witness:
  "fst (demo_mix ''b'' [1, 2, 9] [7, 8] 1 (snd (demo_mix ''b'' [1, 2] [9, 9] (- 1) demo_hm0))) = Inr [[7, 8]]"
proof -
  define m where "m = snd (demo_mix ''b'' [1, 2] [9, 9] (- 1) demo_hm0)"
  have "case fst (demo_mix ''b'' [1, 2, 9] [7, 8] 1 m) of Inr _ \<Rightarrow> True | Inl _ \<Rightarrow> False" unfolding m_def by code_simp
  then obtain ds m' where call: "demo_mix ''b'' [1, 2, 9] [7, 8] 1 m = (Inr ds, m')"
    by (cases "demo_mix ''b'' [1, 2, 9] [7, 8] 1 m") (auto split: sum.splits)
  have run: "mixer_run demo_mcfg m" unfolding m_def by (intro demo_run_mix demo_run0)
  have n: "0 < cf_n (mc_cc demo_mcfg)" by code_simp
  have empty: "cached (hm_cache m) = 0" unfolding m_def by code_simp
  have cont: "batch_continues m [''b''] [int (length [1, 2, 9 :: token])] [[1, 2, 9]]" unfolding m_def by code_simp
  from unfed_mixer_echoes_native[OF run n empty cont call[unfolded demo_mix_def]]
  have "ds = [[7, 8]]" by (simp add: row_cap_def demo_mcfg_def)
  then show ?thesis unfolding m_def[symmetric] call by simp
qed

text \<open>C24: the suffix gate of a request never opens again. In every reachable mixer a suffix average, once
  set, is 0; from then on, as long as the request goes on, its average stays 0 and the tail may fill
  only the last slot of its drafts, however many suffix tokens the verifier accepts.\<close>

theorem suffix_gate_never_reopens:
  assumes "mixer_run c m" and "map_of (hm_prev m) r = Some p" and "pv_suffix p = Some e"
    and "mix_numpy c ids counts tokens drafts acc m = (Inr ds, m')" and "i < length ids" and "ids ! i = r"
    and "row = take (nat (counts ! i)) (tokens ! i)" and "boundary_matches (pv_context p) row"
    and "cap = row_cap c (length row) (drafts ! i)"
  shows "e = 0 \<and> take (cap - 1) (ds ! i) = take (cap - 1) (drafts ! i) \<and>
    (\<exists>p'. map_of (hm_prev m') r = Some p' \<and> pv_suffix p' = Some 0)"
proof -
  let ?m1 = "(evict_gone c ids (feed_back ids acc m))\<lparr>hm_last := []\<rparr>"
  obtain xs m2 where rr: "mix_rows c xs ?m1 = (ds, m2)" and m': "m' = m2\<lparr>hm_calls := Suc (hm_calls m2)\<rparr>" and d: "distinct ids"
    and len: "length xs = length ids" and ids: "map fst xs = ids"
    and at: "\<forall>i < length ids. xs ! i = (ids ! i, take (nat (counts ! i)) (tokens ! i), drafts ! i)"
    by (rule mix_numpyE[OF assms(4)])
  have ok: "hm_ok c m" by (rule mixer_run_ok[OF assms(1)])
  with assms(2,3) have e: "e = 0" by (fastforce simp: hm_ok_def gates_shut_def)
  obtain p1 where p1: "map_of (hm_prev (feed_back ids acc m)) r = Some p1" "grows p p1"
    using feed_back_grows[OF assms(2), of ids acc] by blast
  have "pv_suffix p1 = None \<or> pv_suffix p1 = Some 0"
    using feed_back_ok[OF ok, of ids acc] p1(1) unfolding hm_ok_def gates_shut_def by blast
  moreover have "pv_suffix p1 \<noteq> None" using p1(2) assms(3) by (simp add: grows_def)
  ultimately have s0: "pv_suffix p1 = Some 0" by simp
  have rin: "r \<in> set ids" using assms(5,6) by (metis nth_mem)
  then have pm: "map_of (hm_prev ?m1) r = Some p1" using p1(1) evict_gone_prev[of c ids "feed_back ids acc m" r] by simp
  have x: "xs ! i = (r, row, drafts ! i)" using at assms(5,6,7) by simp
  have dx: "distinct (map fst xs)" using d ids by simp
  obtain q q' where q: "mix_step c r row (drafts ! i) q = (ds ! i, q')" "map_of (hm_prev q) r = Some p1"
    "map_of (hm_prev m2) r = map_of (hm_prev q') r"
    using mix_rows_nth[OF rr dx _ x] assms(5) len pm by auto
  have bm: "boundary_matches (pv_context p1) row" using p1(2) assms(8) by (simp add: grows_def)
  have "(0 :: rat) < 1" by simp
  from mix_step_shut[OF q(1,2) s0 this bm mixer_run_k[OF assms(1)]] q(3) e m' assms(9) show ?thesis by simp
qed

theorem suffix_gate_never_reopens_witness:
  "case demo_mix ''a'' [8, 1, 2, 3, 4, 5] [6, 9, 9, 9] 1 demo_hm2 of
     (Inr ds, m') \<Rightarrow> take 3 (ds ! 0) = [6, 9, 9] \<and> map_option pv_suffix (map_of (hm_prev m') ''a'') = Some (Some 0) | _ \<Rightarrow> False"
proof -
  have "case fst (demo_mix ''a'' [8, 1, 2, 3, 4, 5] [6, 9, 9, 9] 1 demo_hm2) of Inr _ \<Rightarrow> True | Inl _ \<Rightarrow> False" by code_simp
  then obtain ds m' where call: "demo_mix ''a'' [8, 1, 2, 3, 4, 5] [6, 9, 9, 9] 1 demo_hm2 = (Inr ds, m')"
    by (cases "demo_mix ''a'' [8, 1, 2, 3, 4, 5] [6, 9, 9, 9] 1 demo_hm2") (auto split: sum.splits)
  obtain p where p: "map_of (hm_prev demo_hm2) ''a'' = Some p" "pv_suffix p = Some 0" "pv_context p = [8, 1, 2, 3, 4]"
    using demo_hm2_gate by auto
  have bm: "boundary_matches (pv_context p) [8, 1, 2, 3, 4, 5]" unfolding p(3) by code_simp
  have cap: "4 = row_cap demo_mcfg (length [8, 1, 2, 3, 4, 5 :: token]) ([[6, 9, 9, 9 :: token]] ! 0)" by code_simp
  have row: "[8, 1, 2, 3, 4, 5] = take (nat ([int (length [8, 1, 2, 3, 4, 5 :: token])] ! 0)) ([[8, 1, 2, 3, 4, 5 :: token]] ! 0)" by simp
  have i: "0 < length [''a'']" "[''a''] ! 0 = ''a''" by simp_all
  from suffix_gate_never_reopens[OF demo_run2 p(1,2) call[unfolded demo_mix_def] i row bm cap]
  show ?thesis unfolding call by auto
qed

end
