(* ===== verification/WrapV1.thy ===== *)
theory WrapV1
  imports Mixer
begin

text \<open>
  The hook of the V1 model runner (\<open>suffix_hybrid/wrap.py\<close>): the source fingerprint and the capability
  check, the per-step gate, the accepted lengths fed to the mixer, the one-hot probabilities of the
  suffix tail, the fallback to the native drafts, and \<open>install\<close>. The native drafter is an input (its
  drafts or its exception, and the probabilities it leaves); the mixer is the model of
  \<open>Mixer.thy\<close>. Probabilities are rationals; log lines are left out.
\<close>

section \<open>Install-time checks\<close>

datatype file_state = NoFile | Unreadable | Digest string

definition SOURCES :: "(string \<times> string) list" where
  "SOURCES =
     [(''v1/worker/gpu_model_runner.py'', ''74d01726dff08704a1d1684f955d86d49e8643972f2003e1ca2c811b2d47bda9''),
      (''v1/spec_decode/llm_base_proposer.py'', ''260ac95740b07fca10b5deb8b1e9f24e89577f35dcbc65db979ae5e5b26e2a77''),
      (''v1/spec_decode/eagle.py'', ''b2b1f7d15117b43108be368756d9c6e9334d9415a070e46178e18bb7c6476378''),
      (''v1/spec_decode/dflash.py'', ''758318d6058caefbd3dbe91feddfba88006f872309f7c3275c6cc412d8c5733f''),
      (''v1/sample/rejection_sampler.py'', ''9acaefa7ff3ff02649adf3a2edc4a7281d0089c23566fe5ff140c5f820d88ac4''),
      (''model_executor/models/qwen3_5_mtp.py'', ''a7550c4954899b38cecc536633c0fffd04820ed802610fb28cd4d79971b4f1f1'')]"

definition fingerprint_sources :: "(string \<Rightarrow> file_state) \<Rightarrow> string list" where
  "fingerprint_sources files =
     map fst (filter (\<lambda>(rel, expected). case files rel of NoFile \<Rightarrow> True | Unreadable \<Rightarrow> True | Digest d \<Rightarrow> d \<noteq> expected) SOURCES)"

text \<open>The attribute of the runner class: absent, not callable, or a function with its parameters, when
  \<open>inspect.signature\<close> can tell them, and the hook mark.\<close>

datatype runner_attr = Absent | NotCallable | Fn "string list option" bool

definition PROPOSE_PARAMS :: "string list" where
  "PROPOSE_PARAMS = [''scheduler_output'', ''sampled_token_ids'', ''sampling_metadata'', ''spec_decode_metadata'', ''slot_mappings'']"

definition check_capability :: "runner_attr \<Rightarrow> unit res" where
  "check_capability a =
     (case a of
        Absent \<Rightarrow> Inl RuntimeError
      | NotCallable \<Rightarrow> Inl RuntimeError
      | Fn None _ \<Rightarrow> Inr ()
      | Fn (Some ps) _ \<Rightarrow> if list_all (\<lambda>p. p \<in> set ps) PROPOSE_PARAMS then Inr () else Inl RuntimeError)"

text \<open>\<open>install\<close>: answers whether the hook is on, and the attribute afterwards.\<close>

definition v1_install :: "environ \<Rightarrow> bool \<Rightarrow> runner_attr \<Rightarrow> bool res \<times> runner_attr" where
  "v1_install e importable a =
     (if \<not> env_is e ''SUFFIX_HYBRID_WRAP'' ''1'' then (Inr False, a)
      else if \<not> importable then (Inl RuntimeError, a)
      else (case check_capability a of
              Inl err \<Rightarrow> (Inl err, a)
            | Inr _ \<Rightarrow> (Inr True, case a of Fn ps False \<Rightarrow> Fn ps True | _ \<Rightarrow> a)))"

section \<open>The step\<close>

datatype draft_out = Tensor "token list list" | Rows "token list list"

fun draft_rows :: "draft_out \<Rightarrow> token list list" where
  "draft_rows (Tensor d) = d"
| "draft_rows (Rows d) = d"

record v1_gate =
  g_drafter :: "string \<times> string"
  g_async :: bool
  g_unpadded :: bool
  g_greedy :: bool
  g_list :: bool
  g_pp :: int
  g_hybrid :: bool
  g_model_type :: "string option"
  g_synthetic :: bool
  g_method :: string

definition ACCEPT_DRAFTERS :: "(string \<times> string) list" where
  "ACCEPT_DRAFTERS = [(''vllm.v1.spec_decode.eagle'', ''EagleProposer''), (''vllm.v1.spec_decode.eagle'', ''MtpProposer''),
     (''vllm.v1.spec_decode.dflash'', ''DFlashProposer'')]"

definition ACCEPT_METHODS :: "string list" where
  "ACCEPT_METHODS = [''eagle'', ''eagle3'', ''mtp'', ''dflash'', ''dspark'']"

definition v1_unsupported :: "v1_gate \<Rightarrow> bool" where
  "v1_unsupported g \<longleftrightarrow>
     g_drafter g \<notin> set ACCEPT_DRAFTERS \<or> g_async g \<or> \<not> g_unpadded g \<or> \<not> g_greedy g \<or> \<not> g_list g \<or> g_pp g \<noteq> 1 \<or>
     (g_hybrid g \<and> g_model_type g \<noteq> Some ''qwen3_5_mtp'') \<or> g_synthetic g \<or> g_method g \<notin> set ACCEPT_METHODS"

type_synonym probs = "rat list list list"

record v1_in =
  i_gate :: v1_gate
  i_sampled :: "token list list"
  i_num_draft :: "int list option"
  i_native :: "draft_out res"
  i_probs :: "probs option"
  i_ids :: "rid list"
  i_counts :: "int list"
  i_tokens :: "token list list"
  i_elapsed :: nat
  i_env :: environ

record v1 =
  v_skips :: nat
  v_mixer :: "(mcfg \<times> hmixer) option"
  v_lengths :: "(rid, nat) dict option"
  v_cost :: "nat option"
  v_calls :: nat
  v_interval :: "int option"
  v_errors :: nat
  v_probs :: "probs option"

record v1_cfg =
  vc_k :: nat
  vc_max :: nat
  vc_cc :: cache_cfg

definition v1_init :: v1 where
  "v1_init = \<lparr>v_skips = 0, v_mixer = None, v_lengths = None, v_cost = None, v_calls = 0, v_interval = None, v_errors = 0,
     v_probs = None\<rparr>"

abbreviation lengths_of :: "v1 \<Rightarrow> (rid, nat) dict" where
  "lengths_of s \<equiv> (case v_lengths s of None \<Rightarrow> [] | Some d \<Rightarrow> d)"

text \<open>What a row reports: no usable feedback is - 1.\<close>

definition v1_feedback :: "int \<Rightarrow> nat \<Rightarrow> nat option \<Rightarrow> int" where
  "v1_feedback v n tracked =
     (let a = (if v \<noteq> 0 then int n - 1 else - 1)
      in if (case tracked of Some t \<Rightarrow> int t < a | None \<Rightarrow> False) then - 1
         else if a = v \<and> (case tracked of Some t \<Rightarrow> v \<noteq> int t | None \<Rightarrow> True) then - 1 else a)"

fun v1_accepted :: "rid list \<Rightarrow> int list option \<Rightarrow> (rid, nat) dict \<Rightarrow> nat \<Rightarrow> token list list \<Rightarrow> token list list \<Rightarrow>
    (int list \<times> token list list) res" where
  "v1_accepted ids nd prev i [] drafts = Inr ([], drafts)"
| "v1_accepted ids nd prev i (smp # ss) drafts =
     (if smp = []
      then (if i < length drafts
            then rbind (v1_accepted ids nd prev (Suc i) ss (drafts[i := []])) (\<lambda>(acc, d). Inr (- 1 # acc, d))
            else Inl IndexError)
      else if (case nd of None \<Rightarrow> False | Some l \<Rightarrow> length l \<le> i) \<or> length ids \<le> i then Inl IndexError
      else let v = (case nd of None \<Rightarrow> 0 | Some l \<Rightarrow> l ! i)
           in rbind (v1_accepted ids nd prev (Suc i) ss drafts)
                (\<lambda>(acc, d). Inr (v1_feedback v (length smp) (map_of prev (ids ! i)) # acc, d)))"

text \<open>The probabilities of the tail: one-hot at the drafted token. \<open>scatter_\<close> raises outside the vocabulary and
  when there are more tokens than positions.\<close>

definition one_hot :: "rat list \<Rightarrow> token \<Rightarrow> rat list" where
  "one_hot q t = (replicate (length q) 0)[nat t := 1]"

definition fix_row :: "rat list list \<Rightarrow> token list \<Rightarrow> nat \<Rightarrow> rat list list res" where
  "fix_row p row prefix =
     (if length row \<le> prefix then Inr p
      else if length p < length row \<or> list_ex (\<lambda>(q, t). t < 0 \<or> int (length q) \<le> t) (zip (drop prefix p) (drop prefix row))
      then Inl RuntimeError
      else Inr (take prefix p @ map2 one_hot (drop prefix p) (drop prefix row) @ drop (length row) p))"

fun fix_probs :: "probs \<Rightarrow> (token list \<times> nat) list \<Rightarrow> probs res" where
  "fix_probs ps [] = Inr ps"
| "fix_probs [] ((row, prefix) # rs) = (if length row \<le> prefix then fix_probs [] rs else Inl IndexError)"
| "fix_probs (p # ps) ((row, prefix) # rs) =
     rbind (fix_row p row prefix) (\<lambda>q. rbind (fix_probs ps rs) (\<lambda>qs. Inr (q # qs)))"

section \<open>The body\<close>

definition v1_mixer :: "v1_cfg \<Rightarrow> (v1, mcfg \<times> hmixer) stmt" where
  "v1_mixer cfg s =
     (case v_mixer s of
        Some cm \<Rightarrow> (Inr cm, s)
      | None \<Rightarrow> (case hmixer_new (vc_k cfg) (vc_max cfg) (vc_cc cfg) of
                   Inl e \<Rightarrow> (Inl e, s) | Inr cm \<Rightarrow> (Inr cm, s\<lparr>v_mixer := Some cm\<rparr>)))"

definition v1_mix :: "v1_in \<Rightarrow> draft_out \<Rightarrow> mcfg \<times> hmixer \<Rightarrow> (v1, token list list) stmt" where
  "v1_mix i native cm s =
     (case v1_accepted (i_ids i) (i_num_draft i) (lengths_of s) 0 (i_sampled i) (draft_rows native) of
        Inl e \<Rightarrow> (Inl e, s)
      | Inr (acc, drafts) \<Rightarrow>
          let (r, m) = mix_numpy (fst cm) (i_ids i) (i_counts i) (i_tokens i) drafts (Some acc) (snd cm)
          in (r, s\<lparr>v_mixer := Some (fst cm, m)\<rparr>))"

definition v1_fixup :: "token list list \<Rightarrow> (v1, unit) stmt" where
  "v1_fixup mixed s =
     (case v_probs s of
        None \<Rightarrow> (Inr (), s)
      | Some ps \<Rightarrow>
          let prefixes = (case v_mixer s of None \<Rightarrow> [] | Some (_, m) \<Rightarrow> hm_last m)
          in case fix_probs ps (zip mixed prefixes) of Inl e \<Rightarrow> (Inl e, s) | Inr qs \<Rightarrow> (Inr (), s\<lparr>v_probs := Some qs\<rparr>))"

definition log_interval :: "environ \<Rightarrow> int res" where
  "log_interval e = (case env_int e ''SUFFIX_HYBRID_LOG_INTERVAL'' ''0'' of None \<Rightarrow> Inl ValueError | Some n \<Rightarrow> Inr n)"

definition v1_finish :: "v1_in \<Rightarrow> token list list \<Rightarrow> (v1, unit) stmt" where
  "v1_finish i mixed s =
     (let s1 = s\<lparr>v_lengths := Some (dict_updates [] (zip (i_ids i) (map length mixed))), v_cost := Some (i_elapsed i),
                 v_calls := Suc (v_calls s)\<rparr>
      in case (case v_interval s1 of Some n \<Rightarrow> Inr n | None \<Rightarrow> log_interval (i_env i)) of
           Inl e \<Rightarrow> (Inl e, s1)
         | Inr n \<Rightarrow>
             let s2 = s1\<lparr>v_interval := Some n\<rparr>
             in if 0 < n \<and> int (v_calls s2) mod n = 0
                then (case log_interval (i_env i) of Inl e \<Rightarrow> (Inl e, s2) | Inr n' \<Rightarrow> (Inr (), s2\<lparr>v_interval := Some n'\<rparr>))
                else (Inr (), s2))"

definition rectangular :: "'a list list \<Rightarrow> bool" where
  "rectangular rows \<longleftrightarrow> (case rows of [] \<Rightarrow> True | r # rs \<Rightarrow> list_all (\<lambda>x. length x = length r) rs)"

fun v1_output :: "draft_out \<Rightarrow> token list list \<Rightarrow> draft_out" where
  "v1_output (Tensor _) mixed = (if rectangular mixed then Tensor mixed else Rows mixed)"
| "v1_output (Rows _) mixed = Rows mixed"

definition v1_body :: "v1_cfg \<Rightarrow> v1_in \<Rightarrow> draft_out \<Rightarrow> (v1, draft_out) stmt" where
  "v1_body cfg i native =
     seq_bind (v1_mixer cfg) (\<lambda>cm.
     seq_bind (v1_mix i native cm) (\<lambda>mixed.
     seq_bind (v1_fixup mixed) (\<lambda>_.
     seq_bind (v1_finish i mixed) (\<lambda>_. seq_ret (v1_output native mixed)))))"

definition v1_propose :: "v1_cfg \<Rightarrow> v1_in \<Rightarrow> (v1, draft_out) stmt" where
  "v1_propose cfg i s =
     (let s0 = (if v1_unsupported (i_gate i) then s\<lparr>v_skips := Suc (v_skips s)\<rparr> else s)
      in case i_native i of
           Inl e \<Rightarrow> (Inl e, s0)
         | Inr native \<Rightarrow>
             let s1 = s0\<lparr>v_probs := i_probs i\<rparr>
             in if v1_unsupported (i_gate i) then (Inr native, s1)
                else case v1_body cfg i native s1 of
                       (Inr out, s2) \<Rightarrow> (Inr out, s2)
                     | (Inl _, s2) \<Rightarrow> (Inr native, s2\<lparr>v_probs := i_probs i, v_errors := Suc (v_errors s2)\<rparr>))"

section \<open>What a step serves\<close>

text \<open>The outcome of a body that went through: one mixer call, its rows served, their lengths kept.\<close>

definition v1_served :: "v1_in \<Rightarrow> draft_out \<Rightarrow> draft_out \<Rightarrow> v1 \<Rightarrow> bool" where
  "v1_served i native out s' \<longleftrightarrow> (\<exists>c m drafts acc m' mixed.
     mix_numpy c (i_ids i) (i_counts i) (i_tokens i) drafts (Some acc) m = (Inr mixed, m') \<and> out = v1_output native mixed \<and>
     v_mixer s' = Some (c, m') \<and> v_lengths s' = Some (dict_updates [] (zip (i_ids i) (map length mixed))) \<and>
     (case i_probs i of None \<Rightarrow> v_probs s' = None
      | Some ps \<Rightarrow> \<exists>qs. fix_probs ps (zip mixed (hm_last m')) = Inr qs \<and> v_probs s' = Some qs))"

lemma v1_mixer_frame: "v1_mixer cfg s = (r, s') \<Longrightarrow> v_probs s' = v_probs s \<and> v_lengths s' = v_lengths s \<and> v_interval s' = v_interval s"
  by (auto simp: v1_mixer_def split: option.splits sum.splits)

lemma v1_mix_frame: "v1_mix i native cm s = (r, s') \<Longrightarrow> v_probs s' = v_probs s \<and> v_lengths s' = v_lengths s \<and> v_interval s' = v_interval s"
  by (auto simp: v1_mix_def Let_def split: sum.splits prod.splits)

lemma v1_mix_ok:
  assumes "v1_mix i native cm s = (Inr mixed, s')"
  obtains drafts acc m where "mix_numpy (fst cm) (i_ids i) (i_counts i) (i_tokens i) drafts (Some acc) (snd cm) = (Inr mixed, m)"
    "v1_accepted (i_ids i) (i_num_draft i) (lengths_of s) 0 (i_sampled i) (draft_rows native) = Inr (acc, drafts)"
    "s' = s\<lparr>v_mixer := Some (fst cm, m)\<rparr>"
proof -
  obtain acc drafts where a: "v1_accepted (i_ids i) (i_num_draft i) (lengths_of s) 0 (i_sampled i) (draft_rows native) = Inr (acc, drafts)"
    using assms by (auto simp: v1_mix_def split: sum.splits)
  obtain r m where "mix_numpy (fst cm) (i_ids i) (i_counts i) (i_tokens i) drafts (Some acc) (snd cm) = (r, m)" by fastforce
  with assms a show thesis by (intro that[of drafts acc m]) (auto simp: v1_mix_def)
qed

lemma v1_fixup_cases:
  assumes "v1_fixup mixed s = (Inr u, s')" and "v_mixer s = Some (c, m)"
  shows "v_mixer s' = Some (c, m) \<and> v_lengths s' = v_lengths s \<and> v_interval s' = v_interval s \<and>
    (case v_probs s of None \<Rightarrow> v_probs s' = None | Some ps \<Rightarrow> \<exists>qs. fix_probs ps (zip mixed (hm_last m)) = Inr qs \<and> v_probs s' = Some qs)"
  using assms by (auto simp: v1_fixup_def Let_def split: option.splits sum.splits)

lemma v1_finish_frame:
  "v1_finish i mixed s = (r, s') \<Longrightarrow> v_mixer s' = v_mixer s \<and> v_probs s' = v_probs s \<and>
     v_lengths s' = Some (dict_updates [] (zip (i_ids i) (map length mixed)))"
  by (auto simp: v1_finish_def Let_def split: sum.splits option.splits if_splits)

lemma v1_servedI:
  "mix_numpy c (i_ids i) (i_counts i) (i_tokens i) drafts (Some acc) m = (Inr mixed, m') \<Longrightarrow> out = v1_output native mixed \<Longrightarrow>
   v_mixer s' = Some (c, m') \<Longrightarrow> v_lengths s' = Some (dict_updates [] (zip (i_ids i) (map length mixed))) \<Longrightarrow>
   (case i_probs i of None \<Rightarrow> v_probs s' = None
    | Some ps \<Rightarrow> \<exists>qs. fix_probs ps (zip mixed (hm_last m')) = Inr qs \<and> v_probs s' = Some qs) \<Longrightarrow> v1_served i native out s'"
  unfolding v1_served_def by blast

lemma v1_body_ok:
  assumes "v1_body cfg i native s = (Inr out, s')" and "v_probs s = i_probs i"
  shows "v1_served i native out s'"
proof -
  obtain cm s1 where a: "v1_mixer cfg s = (Inr cm, s1)"
    and "seq_bind (v1_mix i native cm) (\<lambda>mixed. seq_bind (v1_fixup mixed) (\<lambda>_. seq_bind (v1_finish i mixed)
      (\<lambda>_. seq_ret (v1_output native mixed)))) s1 = (Inr out, s')"
    using assms(1) unfolding v1_body_def seq_bind_Inr by blast
  then obtain mixed s2 where b: "v1_mix i native cm s1 = (Inr mixed, s2)"
    and "seq_bind (v1_fixup mixed) (\<lambda>_. seq_bind (v1_finish i mixed) (\<lambda>_. seq_ret (v1_output native mixed))) s2 = (Inr out, s')"
    unfolding seq_bind_Inr by blast
  then obtain u s3 where c: "v1_fixup mixed s2 = (Inr u, s3)"
    and "seq_bind (v1_finish i mixed) (\<lambda>_. seq_ret (v1_output native mixed)) s3 = (Inr out, s')"
    unfolding seq_bind_Inr by blast
  then obtain u' where d: "v1_finish i mixed s3 = (Inr u', s')" and out: "out = v1_output native mixed"
    unfolding seq_bind_Inr by (auto simp: seq_ret_def)
  obtain drafts acc m where m: "mix_numpy (fst cm) (i_ids i) (i_counts i) (i_tokens i) drafts (Some acc) (snd cm) = (Inr mixed, m)"
    and s2: "s2 = s1\<lparr>v_mixer := Some (fst cm, m)\<rparr>"
    using v1_mix_ok[OF b] by blast
  have mx: "v_mixer s2 = Some (fst cm, m)" by (simp add: s2)
  have "v_probs s2 = i_probs i" using v1_mixer_frame[OF a] v1_mix_frame[OF b] assms(2) by simp
  with v1_fixup_cases[OF c mx] v1_finish_frame[OF d] m out show ?thesis
    by (intro v1_servedI[OF m out]) (simp_all split: option.splits)
qed

text \<open>The one-hot rows.\<close>

lemma one_hot_nth: "v < length q \<Longrightarrow> 0 \<le> t \<Longrightarrow> int v < int (length q) \<Longrightarrow> one_hot q t ! v = (if v = nat t then 1 else 0)"
  by (simp add: one_hot_def nth_list_update)

lemma fix_row_nth:
  assumes "fix_row p row prefix = Inr q" and "prefix < length row"
  shows "length q = length p \<and> length row \<le> length p \<and>
    (\<forall>j < length p. q ! j = (if prefix \<le> j \<and> j < length row then one_hot (p ! j) (row ! j) else p ! j)) \<and>
    (\<forall>j. prefix \<le> j \<longrightarrow> j < length row \<longrightarrow> 0 \<le> row ! j \<and> row ! j < int (length (p ! j)))"
proof -
  have len: "length row \<le> length p" and q: "q = take prefix p @ map2 one_hot (drop prefix p) (drop prefix row) @ drop (length row) p"
    and ok: "\<not> list_ex (\<lambda>(q, t). t < 0 \<or> int (length q) \<le> t) (zip (drop prefix p) (drop prefix row))"
    using assms by (auto simp: fix_row_def split: if_splits)
  have "0 \<le> row ! j \<and> row ! j < int (length (p ! j))" if j: "prefix \<le> j" "j < length row" for j
  proof -
    have "(p ! j, row ! j) \<in> set (zip (drop prefix p) (drop prefix row))"
      unfolding in_set_zip using j len by (intro exI[of _ "j - prefix"]) auto
    with ok show ?thesis by (force simp: list_ex_iff)
  qed
  moreover have "q ! j = (if prefix \<le> j \<and> j < length row then one_hot (p ! j) (row ! j) else p ! j)" if "j < length p" for j
    using that len assms(2) unfolding q by (auto simp: nth_append)
  ultimately show ?thesis using len assms(2) q by auto
qed

section \<open>Feedback and the mixer's proposals\<close>

text \<open>The lengths of the hook are those of the mixer's last proposals.\<close>

definition in_sync :: "v1 \<Rightarrow> bool" where
  "in_sync s \<longleftrightarrow> (\<forall>r. map_of (lengths_of s) r =
     (case v_mixer s of None \<Rightarrow> None | Some (_, m) \<Rightarrow> map_option pv_length (map_of (hm_prev m) r)))"

definition mixer_reached :: "v1 \<Rightarrow> bool" where
  "mixer_reached s \<longleftrightarrow> (case v_mixer s of None \<Rightarrow> True | Some (c, m) \<Rightarrow> mixer_run c m)"

lemma v1_feedback_bounds:
  "- 1 \<le> v1_feedback v n tracked" if "0 < n"
  using that by (auto simp: v1_feedback_def Let_def)

lemma v1_feedback_tracked: "v1_feedback v n (Some t) \<le> int t"
  by (auto simp: v1_feedback_def Let_def)

lemma v1_accepted_nth:
  "v1_accepted ids nd prev i ss drafts = Inr (acc, d) \<Longrightarrow> length acc = length ss \<and> length d = length drafts \<and>
   (\<forall>j < length ss. - 1 \<le> acc ! j \<and> (acc ! j = - 1 \<or> (\<forall>t. map_of prev (ids ! (i + j)) = Some t \<longrightarrow> acc ! j \<le> int t)))"
proof (induction ss arbitrary: i drafts acc d)
  case (Cons smp ss)
  show ?case
  proof (cases "smp = []")
    case True
    then obtain acc' where rest: "v1_accepted ids nd prev (Suc i) ss (drafts[i := []]) = Inr (acc', d)" and acc: "acc = - 1 # acc'"
      using Cons.prems by (auto simp: rbind_eq_Inr split: if_splits)
    note IH = Cons.IH[OF rest]
    have "- 1 \<le> acc ! j \<and> (acc ! j = - 1 \<or> (\<forall>t. map_of prev (ids ! (i + j)) = Some t \<longrightarrow> acc ! j \<le> int t))" if "j < length (smp # ss)" for j
      using that IH acc by (cases j) auto
    with IH acc show ?thesis by simp
  next
    case False
    then obtain v acc' where rest: "v1_accepted ids nd prev (Suc i) ss drafts = Inr (acc', d)"
      and acc: "acc = v1_feedback v (length smp) (map_of prev (ids ! i)) # acc'"
      using Cons.prems by (auto simp: rbind_eq_Inr Let_def split: if_splits)
    note IH = Cons.IH[OF rest]
    have "- 1 \<le> acc ! j \<and> (acc ! j = - 1 \<or> (\<forall>t. map_of prev (ids ! (i + j)) = Some t \<longrightarrow> acc ! j \<le> int t))" if "j < length (smp # ss)" for j
      using that IH acc False v1_feedback_bounds[of "length smp"] v1_feedback_tracked by (cases j) auto
    with IH acc show ?thesis by simp
  qed
qed simp

lemma v1_feedback_fits:
  assumes "v1_accepted (i_ids i) nd (lengths_of s) 0 ss drafts = Inr (acc, d)" and "in_sync s" and "v_mixer s = Some (c, m)"
    and "length ss = length (i_ids i)"
  shows "validate c (i_ids i) d (Some acc) m = validate c (i_ids i) d None m"
proof -
  note a = v1_accepted_nth[OF assms(1)]
  have "\<not> (x < - 1 \<or> (case map_of (hm_prev m) r of None \<Rightarrow> False | Some p \<Rightarrow> int (pv_length p) < x))"
    if "(r, x) \<in> set (zip (i_ids i) acc)" for r x
  proof -
    from that obtain j where j: "j < length ss" "r = i_ids i ! j" "x = acc ! j"
      using a assms(4) by (auto simp: in_set_zip)
    have "map_of (lengths_of s) r = map_option pv_length (map_of (hm_prev m) r)" using assms(2,3) by (simp add: in_sync_def)
    with a j show ?thesis by (auto split: option.splits)
  qed
  then have "\<not> list_ex (\<lambda>(r, x). x < - 1 \<or> (case map_of (hm_prev m) r of None \<Rightarrow> False | Some p \<Rightarrow> int (pv_length p) < x)) (zip (i_ids i) acc)"
    by (auto simp: list_ex_iff)
  moreover have "length acc = length (i_ids i)" using a assms(4) by simp
  ultimately show ?thesis by (simp add: validate_def Let_def)
qed

lemma mix_numpy_Inl: "mix_numpy c ids counts tokens drafts acc m = (Inl e, m') \<Longrightarrow> m' = m"
  by (auto simp: mix_numpy_def Let_def split: sum.splits prod.splits)

lemma mix_numpy_lengths:
  assumes "mixer_run c m" and "mix_numpy c ids counts tokens drafts acc m = (Inr ds, m')"
  shows "map_of (dict_updates [] (zip ids (map length ds))) r = map_option pv_length (map_of (hm_prev m') r)"
proof -
  have d: "distinct ids" using mix_numpyE[OF assms(2)] by metis
  note ok = mixed_batch[OF assms]
  have dz: "distinct (map fst (zip ids (map length ds)))" using d by (rule distinct_fst_zip)
  show ?thesis
  proof (cases "r \<in> set ids")
    case True
    then obtain i where i: "i < length ids" "r = ids ! i" by (metis in_set_conv_nth)
    with ok d show ?thesis using map_of_zip_at[OF d i(1), of "map length ds"] by (auto simp: map_of_updates_distinct[OF dz])
  next
    case False
    with ok show ?thesis
      by (auto simp: map_of_updates_distinct[OF dz] split: option.split dest!: map_of_SomeD dest: set_zip_leftD)
  qed
qed

section \<open>Runs\<close>

lemma seq_bind_assoc: "seq_bind (seq_bind m f) g = seq_bind m (\<lambda>x. seq_bind (f x) g)"
  by (auto simp: seq_bind_def fun_eq_iff split: prod.split sum.split)

definition v1_stage :: "v1_cfg \<Rightarrow> v1_in \<Rightarrow> draft_out \<Rightarrow> (v1, token list list) stmt" where
  "v1_stage cfg i native = seq_bind (v1_mixer cfg) (v1_mix i native)"

lemma v1_body_stage:
  "v1_body cfg i native = seq_bind (v1_stage cfg i native)
     (\<lambda>mixed. seq_bind (v1_fixup mixed) (\<lambda>_. seq_bind (v1_finish i mixed) (\<lambda>_. seq_ret (v1_output native mixed))))"
  unfolding v1_body_def v1_stage_def seq_bind_assoc ..

text \<open>The one-hot rows of this step cannot be written: the native probabilities are too small for the mixed drafts.\<close>

definition fixup_raises :: "v1_cfg \<Rightarrow> v1_in \<Rightarrow> v1 \<Rightarrow> bool" where
  "fixup_raises cfg i s \<longleftrightarrow> \<not> v1_unsupported (i_gate i) \<and>
     (case i_native i of Inl _ \<Rightarrow> False
      | Inr native \<Rightarrow> (case v1_stage cfg i native (s\<lparr>v_probs := i_probs i\<rparr>) of
           (Inl _, _) \<Rightarrow> False | (Inr mixed, s2) \<Rightarrow> isl (fst (v1_fixup mixed s2))))"

definition v1_inv :: "v1 \<Rightarrow> bool" where
  "v1_inv s \<longleftrightarrow> in_sync s \<and> mixer_reached s"

lemma v1_inv_init: "v1_inv v1_init"
  by (simp add: v1_inv_def v1_init_def in_sync_def mixer_reached_def)

lemma v1_inv_cong: "v_mixer s' = v_mixer s \<Longrightarrow> v_lengths s' = v_lengths s \<Longrightarrow> v1_inv s' = v1_inv s"
  by (simp add: v1_inv_def in_sync_def mixer_reached_def)

lemma v1_inv_lengths:
  assumes "mixer_run c m" and "\<And>r. map_of d r = map_option pv_length (map_of (hm_prev m) r)"
    and "v_mixer s = Some (c, m)" and "v_lengths s = Some d"
  shows "v1_inv s"
  using assms by (simp add: v1_inv_def in_sync_def mixer_reached_def)

lemma v1_mixer_inv:
  assumes "v1_inv s" and "v1_mixer cfg s = (r, s')"
  shows "v1_inv s' \<and> (\<forall>cm. r = Inr cm \<longrightarrow> v_mixer s' = Some cm)"
proof (cases "v_mixer s")
  case (Some cm)
  with assms show ?thesis by (auto simp: v1_mixer_def)
next
  case None
  show ?thesis
  proof (cases "hmixer_new (vc_k cfg) (vc_max cfg) (vc_cc cfg)")
    case (Inl e)
    with assms None show ?thesis by (auto simp: v1_mixer_def)
  next
    case (Inr cm)
    obtain c m where cm: "cm = (c, m)" by (cases cm)
    have s': "s' = s\<lparr>v_mixer := Some (c, m)\<rparr>" "r = Inr (c, m)" using assms(2) None Inr cm by (auto simp: v1_mixer_def)
    have run: "mixer_run c m" using Inr cm by (auto intro: mixer_run.new)
    have "hm_prev m = []" using Inr cm by (auto simp: hmixer_new_def split: if_splits)
    moreover have "map_of (lengths_of s) q = None" for q using assms(1) None by (simp add: v1_inv_def in_sync_def)
    ultimately have "v1_inv s'" using run s'(1) by (simp add: v1_inv_def in_sync_def mixer_reached_def)
    with s' cm show ?thesis by simp
  qed
qed

lemma v1_mix_inv:
  assumes "v1_inv s" and "v_mixer s = Some cm" and "v1_mix i native cm s = (r, s')"
  shows "(case r of Inl _ \<Rightarrow> v1_inv s'
     | Inr mixed \<Rightarrow> \<exists>c m. v_mixer s' = Some (c, m) \<and> mixer_run c m \<and>
         (\<forall>q. map_of (dict_updates [] (zip (i_ids i) (map length mixed))) q = map_option pv_length (map_of (hm_prev m) q)))"
proof -
  obtain c m where cm: "cm = (c, m)" by (cases cm)
  have run: "mixer_run c m" using assms(1,2) cm by (simp add: v1_inv_def mixer_reached_def)
  show ?thesis
  proof (cases "v1_accepted (i_ids i) (i_num_draft i) (lengths_of s) 0 (i_sampled i) (draft_rows native)")
    case (Inl e)
    with assms(1,3) show ?thesis by (auto simp: v1_mix_def)
  next
    case (Inr x)
    obtain acc drafts where x: "x = (acc, drafts)" by (cases x)
    obtain q m' where mx: "mix_numpy c (i_ids i) (i_counts i) (i_tokens i) drafts (Some acc) m = (q, m')" by fastforce
    have s': "r = q" "s' = s\<lparr>v_mixer := Some (c, m')\<rparr>" using assms(3) Inr x cm mx by (auto simp: v1_mix_def)
    show ?thesis
    proof (cases q)
      case (Inl e)
      with mx have "m' = m" by (auto dest: mix_numpy_Inl)
      then have "v_mixer s' = v_mixer s" "v_lengths s' = v_lengths s" using s' assms(2) cm by simp_all
      then have "v1_inv s'" using assms(1) by (simp only: v1_inv_cong[of s' s])
      with Inl s' show ?thesis by simp
    next
      case (Inr mixed)
      have "mixer_run c m'" using run mx by (rule mixer_run.call)
      with mix_numpy_lengths[OF run mx[unfolded Inr]] Inr s' show ?thesis by simp
    qed
  qed
qed

lemma v1_stage_inv:
  assumes "v1_inv s" and "v1_stage cfg i native s = (r, s')"
  shows "(case r of Inl _ \<Rightarrow> v1_inv s'
     | Inr mixed \<Rightarrow> \<exists>c m. v_mixer s' = Some (c, m) \<and> mixer_run c m \<and>
         (\<forall>q. map_of (dict_updates [] (zip (i_ids i) (map length mixed))) q = map_option pv_length (map_of (hm_prev m) q)))"
  using assms(2) unfolding v1_stage_def
proof (cases rule: seq_bind_cases)
  case (raise e)
  with v1_mixer_inv[OF assms(1) raise(1)] show ?thesis by simp
next
  case (go cm s1)
  from v1_mixer_inv[OF assms(1) go(1)] have "v1_inv s1" "v_mixer s1 = Some cm" by simp_all
  from v1_mix_inv[OF this go(2)] show ?thesis .
qed

lemma v1_body_inv:
  assumes "v1_inv s" and "v1_body cfg i native s = (r, s')"
    and "\<And>mixed s2. v1_stage cfg i native s = (Inr mixed, s2) \<Longrightarrow> \<not> isl (fst (v1_fixup mixed s2))"
  shows "v1_inv s'"
  using assms(2) unfolding v1_body_stage
proof (cases rule: seq_bind_cases)
  case (raise e)
  with v1_stage_inv[OF assms(1) raise(1)] show ?thesis by simp
next
  case (go mixed s2)
  from v1_stage_inv[OF assms(1) go(1)] obtain c m where m: "v_mixer s2 = Some (c, m)" "mixer_run c m"
    "\<And>q. map_of (dict_updates [] (zip (i_ids i) (map length mixed))) q = map_option pv_length (map_of (hm_prev m) q)" by auto
  from go(2) show ?thesis
  proof (cases rule: seq_bind_cases)
    case (raise e)
    with assms(3)[OF go(1)] show ?thesis by simp
  next
    case (go u s3)
    have m3: "v_mixer s3 = Some (c, m)" using v1_fixup_cases[OF go(1) m(1)] by simp
    from go(2) have "\<exists>q. v1_finish i mixed s3 = (q, s')"
      by (cases rule: seq_bind_cases) (auto simp: seq_ret_def)
    then obtain q where "v1_finish i mixed s3 = (q, s')" by blast
    from v1_finish_frame[OF this] m3 show ?thesis by (intro v1_inv_lengths[OF m(2,3)]) simp_all
  qed
qed

lemma v1_propose_inv:
  assumes "v1_inv s" and "v1_propose cfg i s = (r, s')" and "\<not> fixup_raises cfg i s"
  shows "v1_inv s'"
proof (cases "v1_unsupported (i_gate i) \<or> isl (i_native i)")
  case True
  with assms(2) have "v_mixer s' = v_mixer s" "v_lengths s' = v_lengths s"
    by (auto simp: v1_propose_def Let_def split: sum.splits if_splits)
  with assms(1) show ?thesis by (simp add: v1_inv_cong[of s' s])
next
  case False
  then obtain native where n: "i_native i = Inr native" by (cases "i_native i") auto
  let ?s = "s\<lparr>v_probs := i_probs i\<rparr>"
  obtain q s2 where b: "v1_body cfg i native ?s = (q, s2)" by fastforce
  have ok: "v1_inv ?s" using assms(1) by (simp add: v1_inv_cong[of ?s s])
  have "\<not> isl (fst (v1_fixup mixed s2))" if "v1_stage cfg i native ?s = (Inr mixed, s2)" for mixed s2
    using assms(3) False n that by (simp add: fixup_raises_def)
  from v1_body_inv[OF ok b this] have "v1_inv s2" by blast
  moreover have "v_mixer s' = v_mixer s2" "v_lengths s' = v_lengths s2"
    using assms(2) False n b by (auto simp: v1_propose_def Let_def split: sum.splits)
  ultimately show ?thesis by (simp add: v1_inv_cong[of s' s2])
qed

inductive v1_run :: "v1_cfg \<Rightarrow> v1 \<Rightarrow> bool" where
  start: "v1_run cfg v1_init"
| step: "v1_run cfg s \<Longrightarrow> \<not> fixup_raises cfg i s \<Longrightarrow> v1_propose cfg i s = (r, s') \<Longrightarrow> v1_run cfg s'"

lemma v1_run_inv: "v1_run cfg s \<Longrightarrow> v1_inv s"
  by (induction rule: v1_run.induct) (auto simp: v1_inv_init intro: v1_propose_inv)

section \<open>A log interval that does not parse\<close>

definition bad_interval :: "v1_in \<Rightarrow> bool" where
  "bad_interval i \<longleftrightarrow> env_int (i_env i) ''SUFFIX_HYBRID_LOG_INTERVAL'' ''0'' = None"

lemma v1_stage_frame: "v1_stage cfg i native s = (r, s') \<Longrightarrow> v_interval s' = v_interval s"
  unfolding v1_stage_def by (elim seq_bind_cases) (auto dest!: v1_mixer_frame v1_mix_frame)

lemma bad_interval_body:
  assumes "bad_interval i" and "v_interval s = None" and "v1_body cfg i native s = (r, s')"
  shows "isl r \<and> v_interval s' = None"
  using assms(3) unfolding v1_body_stage
proof (cases rule: seq_bind_cases)
  case (raise e)
  with v1_stage_frame[OF raise(1)] assms(2) show ?thesis by simp
next
  case (go mixed s2)
  have n2: "v_interval s2 = None" using v1_stage_frame[OF go(1)] assms(2) by simp
  from go(2) show ?thesis
  proof (cases rule: seq_bind_cases)
    case (raise e)
    with n2 show ?thesis by (auto simp: v1_fixup_def Let_def split: option.splits sum.splits)
  next
    case (go u s3)
    have n3: "v_interval s3 = None" using go(1) n2 by (auto simp: v1_fixup_def Let_def split: option.splits sum.splits)
    from go(2) show ?thesis
      by (cases rule: seq_bind_cases)
        (insert n3 assms(1), auto simp: v1_finish_def Let_def log_interval_def bad_interval_def)
  qed
qed

fun v1_outs :: "v1_cfg \<Rightarrow> v1_in list \<Rightarrow> v1 \<Rightarrow> draft_out res list" where
  "v1_outs cfg [] s = []"
| "v1_outs cfg (i # is) s = (let (r, s') = v1_propose cfg i s in r # v1_outs cfg is s')"

lemma bad_interval_step:
  "bad_interval i \<Longrightarrow> v_interval s = None \<Longrightarrow> v1_propose cfg i s = (r, s') \<Longrightarrow> r = i_native i \<and> v_interval s' = None"
proof -
  assume b: "bad_interval i" and n: "v_interval s = None" and p: "v1_propose cfg i s = (r, s')"
  show ?thesis
  proof (cases "v1_unsupported (i_gate i) \<or> isl (i_native i)")
    case True
    with n p show ?thesis by (auto simp: v1_propose_def Let_def split: sum.splits if_splits)
  next
    case False
    then obtain native where nat: "i_native i = Inr native" by (cases "i_native i") auto
    obtain q s2 where body: "v1_body cfg i native (s\<lparr>v_probs := i_probs i\<rparr>) = (q, s2)" by fastforce
    from bad_interval_body[OF b _ body] n have "isl q" "v_interval s2 = None" by simp_all
    with p False nat body show ?thesis by (cases q) (auto simp: v1_propose_def Let_def)
  qed
qed

lemma bad_interval_outs: "list_all bad_interval is \<Longrightarrow> v_interval s = None \<Longrightarrow> v1_outs cfg is s = map i_native is"
proof (induction "is" arbitrary: s)
  case (Cons i "is")
  obtain r s' where p: "v1_propose cfg i s = (r, s')" by fastforce
  from bad_interval_step[OF _ Cons.prems(2) p] Cons p show ?case by simp
qed simp

definition demo_v1_cfg :: v1_cfg where
  "demo_v1_cfg = \<lparr>vc_k = 4, vc_max = 64, vc_cc = demo_cache_cfg\<rparr>"

definition demo_v1_in :: "environ \<Rightarrow> v1_in" where
  "demo_v1_in e =
     \<lparr>i_gate = \<lparr>g_drafter = (''vllm.v1.spec_decode.eagle'', ''MtpProposer''), g_async = False, g_unpadded = True, g_greedy = True,
        g_list = True, g_pp = 1, g_hybrid = False, g_model_type = None, g_synthetic = False, g_method = ''mtp''\<rparr>,
      i_sampled = [[2]], i_num_draft = None, i_native = Inr (Tensor [[3, 9]]), i_probs = None, i_ids = [''a''],
      i_counts = [3], i_tokens = [[8, 1, 2]], i_elapsed = 5, i_env = e\<rparr>"

text \<open>The condition on the probabilities in the feedback property below is needed: after a step whose probabilities could not be rewritten the
  mixer tracks a request the hook does not, and an unclamped feedback exceeds its proposal.\<close>

definition demo_raised :: v1 where
  "demo_raised = snd (v1_propose demo_v1_cfg
     ((demo_v1_in [])\<lparr>i_ids := [''a'', ''c''], i_counts := [4, 2], i_tokens := [[8, 1, 2, 3], [5, 5, 0, 0]],
        i_native := Inr (Rows [[4, 5, 9, 9], [6, 6]]), i_sampled := [[3], [5]], i_num_draft := Some [4, 0], i_probs := Some []\<rparr>)
     (v1_init\<lparr>v_mixer := Some (demo_mcfg, demo_hm1)\<rparr>))"

lemma untracked_feedback_unclamped:
  "case v1_accepted [''c''] (Some [4]) (lengths_of demo_raised) 0 [[1, 2, 3, 4]] [[9]] of
     Inr (acc, d) \<Rightarrow> acc = [3] \<and> (case v_mixer demo_raised of Some (c, m) \<Rightarrow> validate c [''c''] d (Some acc) m = Inl ValueError
       | None \<Rightarrow> False)
   | Inl _ \<Rightarrow> False"
  by code_simp

text \<open>Installing twice wraps the runner once.\<close>

lemma v1_install_twice: "v1_install e ok a = (Inr b, a') \<Longrightarrow> v1_install e ok a' = (Inr b, a')"
  by (auto simp: v1_install_def check_capability_def split: runner_attr.splits option.splits bool.splits if_splits)

section \<open>Properties\<close>

text \<open>C9: the hook never makes a step fail. An exception leaves it only if the native drafter raised it;
  otherwise it serves either the native drafts with the native probabilities, or the rows of one mixer
  call, with the probabilities rewritten for exactly those rows.\<close>

theorem hook_serves_native_or_mixed:
  assumes "v1_propose cfg i s = (r, s')"
  shows "case r of Inl e \<Rightarrow> i_native i = Inl e
    | Inr out \<Rightarrow> \<exists>native. i_native i = Inr native \<and> (out = native \<and> v_probs s' = i_probs i \<or> v1_served i native out s')"
proof (cases "v1_unsupported (i_gate i) \<or> isl (i_native i)")
  case True
  with assms show ?thesis by (auto simp: v1_propose_def Let_def split: sum.splits if_splits)
next
  case False
  then obtain native where n: "i_native i = Inr native" by (cases "i_native i") auto
  obtain q s2 where b: "v1_body cfg i native (s\<lparr>v_probs := i_probs i\<rparr>) = (q, s2)" by fastforce
  show ?thesis
  proof (cases q)
    case (Inl e)
    with assms False n b have "r = Inr native" "v_probs s' = i_probs i" by (auto simp: v1_propose_def Let_def)
    with n show ?thesis by simp
  next
    case (Inr out)
    with assms False n b have "r = Inr out" "s' = s2" by (auto simp: v1_propose_def Let_def)
    with v1_body_ok[OF b[unfolded Inr]] n show ?thesis by simp
  qed
qed

theorem hook_serves_native_or_mixed_witness:
  "case v1_propose demo_v1_cfg (demo_v1_in []) v1_init of
     (Inl _, _) \<Rightarrow> False
   | (Inr out, s') \<Rightarrow> out = Tensor [[3, 9]] \<and> v_probs s' = None \<or> v1_served (demo_v1_in []) (Tensor [[3, 9]]) out s'"
proof -
  obtain r s' where p: "v1_propose demo_v1_cfg (demo_v1_in []) v1_init = (r, s')" by fastforce
  have "i_native (demo_v1_in []) = Inr (Tensor [[3, 9]])" "i_probs (demo_v1_in []) = None" by (simp_all add: demo_v1_in_def)
  with hook_serves_native_or_mixed[OF p] show ?thesis by (cases r) (auto simp: p)
qed

text \<open>The rewritten probabilities fit the served drafts. In every row the native prefix and everything
  after the draft keep their native distribution, and each position of the suffix tail gives its
  drafted token probability 1 and every other token 0.\<close>

theorem tail_is_one_hot:
  assumes "fix_row p row prefix = Inr q" and "prefix < length row" and "j < length p" and "v < length (p ! j)"
  shows "q ! j ! v = (if prefix \<le> j \<and> j < length row then if row ! j = int v then 1 else 0 else p ! j ! v)"
proof -
  note f = fix_row_nth[OF assms(1,2)]
  show ?thesis
  proof (cases "prefix \<le> j \<and> j < length row")
    case True
    with f have "0 \<le> row ! j" "q ! j = one_hot (p ! j) (row ! j)" using assms(3) by auto
    with True assms(4) show ?thesis using one_hot_nth[OF assms(4), of "row ! j"] by auto
  next
    case False
    with f assms(3) show ?thesis by auto
  qed
qed

theorem tail_is_one_hot_witness:
  "(case fix_row [[1 / 2, 1 / 2, 0], [1, 0, 0]] [0, 2] 1 of Inr q \<Rightarrow> q ! 1 ! 2 = 1 \<and> q ! 0 ! 1 = 1 / 2 | Inl _ \<Rightarrow> False)"
proof -
  have q: "fix_row [[1 / 2, 1 / 2, 0], [1, 0, 0]] [0, 2] 1 = Inr [[1 / 2, 1 / 2, 0], [0, 0, 1]]"
    by (simp add: fix_row_def one_hot_def)
  have "[[1 / 2, 1 / 2, 0], [0, 0, 1 :: rat]] ! 1 ! 2 = 1" by (subst tail_is_one_hot[OF q]) simp_all
  moreover have "[[1 / 2, 1 / 2, 0], [0, 0, 1 :: rat]] ! 0 ! 1 = 1 / 2" by (subst tail_is_one_hot[OF q]) simp_all
  ultimately show ?thesis unfolding q sum.case by (rule conjI)
qed

text \<open>C12: the mixer never rejects the hook's feedback. In every run in which the probabilities could be
  rewritten whenever a step reached them, through gate skips, native errors and mixer errors alike,
  the accepted lengths computed for a step never exceed the proposals the mixer tracks.\<close>

theorem feedback_never_rejected:
  assumes "v1_run cfg s" and "v_mixer s = Some (c, m)" and "length (i_sampled i) = length (i_ids i)"
    and "v1_accepted (i_ids i) (i_num_draft i) (lengths_of s) 0 (i_sampled i) drafts = Inr (acc, d)"
  shows "validate c (i_ids i) d (Some acc) m = validate c (i_ids i) d None m"
  using v1_run_inv[OF assms(1)] by (intro v1_feedback_fits[OF assms(4) _ assms(2,3)]) (simp add: v1_inv_def)

theorem feedback_never_rejected_witness:
  "(let s = snd (v1_propose demo_v1_cfg (demo_v1_in []) v1_init); (c, m) = the (v_mixer s)
    in case v1_accepted [''a''] (Some [2]) (lengths_of s) 0 [[3, 9, 5]] [[7, 7]] of
      Inr (acc, d) \<Rightarrow> validate c [''a''] d (Some acc) m = validate c [''a''] d None m | Inl _ \<Rightarrow> False)"
proof -
  obtain r s where p: "v1_propose demo_v1_cfg (demo_v1_in []) v1_init = (r, s)" by fastforce
  have "\<not> fixup_raises demo_v1_cfg (demo_v1_in []) v1_init" by code_simp
  with p have run: "v1_run demo_v1_cfg s" by (intro v1_run.step[OF v1_run.start])
  have "v_mixer (snd (v1_propose demo_v1_cfg (demo_v1_in []) v1_init)) \<noteq> None" by code_simp
  then obtain c m where m: "v_mixer s = Some (c, m)" using p by auto
  obtain acc d where a: "v1_accepted [''a''] (Some [2]) (lengths_of s) 0 [[3, 9, 5]] [[7, 7]] = Inr (acc, d)" by simp
  define i where "i = (demo_v1_in [])\<lparr>i_sampled := [[3, 9, 5]], i_num_draft := Some [2]\<rparr>"
  have "length (i_sampled i) = length (i_ids i)" by (simp add: i_def demo_v1_in_def)
  from feedback_never_rejected[OF run m this, of "[[7, 7]]" acc d] a
  have "validate c [''a''] d (Some acc) m = validate c [''a''] d None m" by (simp add: i_def demo_v1_in_def)
  then show ?thesis by (simp only: p m a snd_conv Let_def option.sel prod.case sum.case)
qed

text \<open>A log interval that is not a number turns the hook off. From a fresh hook every step, of any run
  with such a setting, serves the native drafts, although the mixer is run each time.\<close>

theorem bad_log_interval_never_mixes:
  assumes "list_all bad_interval is"
  shows "v1_outs cfg is v1_init = map i_native is"
  by (rule bad_interval_outs[OF assms]) (simp add: v1_init_def)

theorem bad_log_interval_never_mixes_witness:
  "v1_outs demo_v1_cfg [demo_v1_in [(''SUFFIX_HYBRID_LOG_INTERVAL'', ''ten'')], demo_v1_in [(''SUFFIX_HYBRID_LOG_INTERVAL'', ''ten'')]] v1_init =
     [Inr (Tensor [[3, 9]]), Inr (Tensor [[3, 9]])]"
proof -
  have "bad_interval (demo_v1_in [(''SUFFIX_HYBRID_LOG_INTERVAL'', ''ten'')])" by code_simp
  then show ?thesis
    using bad_log_interval_never_mixes[of "[demo_v1_in [(''SUFFIX_HYBRID_LOG_INTERVAL'', ''ten'')], demo_v1_in [(''SUFFIX_HYBRID_LOG_INTERVAL'', ''ten'')]]" demo_v1_cfg]
    by (simp add: demo_v1_in_def)
qed

end
