(* ===== verification/SchedSync.thy ===== *)
theory SchedSync
  imports Prelude
begin

text \<open>
  The switch to synchronous scheduling (\<open>suffix_hybrid/sched_sync.py\<close>): arming, the finder on
  \<open>sys.meta_path\<close> that patches \<open>vllm.engine.arg_utils\<close> while it is loaded, the wrapped
  \<open>create_engine_config\<close> and its asynchronous variant. The import machinery (a module in
  \<open>sys.modules\<close> is returned as it is; else the finders are asked in order and the first spec is
  executed) is modelled as the language defines it; what vLLM makes of the arguments is a function
  parameter.
\<close>

section \<open>Arming\<close>

definition sync_armed :: "environ \<Rightarrow> bool" where
  "sync_armed e \<longleftrightarrow> \<not> env_is e ''SUFFIX_HYBRID_SYNC_SCHED'' ''0'' \<and> env_is e ''SUFFIX_HYBRID_WRAP'' ''1''"

text \<open>\<open>sys.meta_path\<close> holds our finder and the real ones; \<open>im_wraps\<close> counts the wrappers around
  \<open>EngineArgs.create_engine_config\<close> of the loaded module.\<close>

datatype finder = Ours | Path

record importer =
  im_modules :: "string list"
  im_finders :: "finder list"
  im_wraps :: nat

text \<open>What the loaded module defines: no class, a class without the method, or the class vLLM has.\<close>

datatype shape = NoClass | NoMethod | HasMethod

abbreviation ARG_UTILS :: string where
  "ARG_UTILS \<equiv> ''vllm.engine.arg_utils''"

definition install_hook :: "environ \<Rightarrow> importer \<Rightarrow> importer" where
  "install_hook e im =
     (if \<not> sync_armed e \<or> Ours \<in> set (im_finders im) then im else im\<lparr>im_finders := Ours # im_finders im\<rparr>)"

text \<open>\<open>_patch\<close>: \<open>None\<close> when it raises.\<close>

definition patch_class :: "shape \<Rightarrow> importer \<Rightarrow> importer option" where
  "patch_class sh im =
     (case sh of NoClass \<Rightarrow> Some im | NoMethod \<Rightarrow> None | HasMethod \<Rightarrow> Some (if 0 < im_wraps im then im else im\<lparr>im_wraps := 1\<rparr>))"

section \<open>Finding and loading\<close>

datatype spec = Plain | Wrapped

definition step_aside :: "importer \<Rightarrow> importer" where
  "step_aside im = im\<lparr>im_finders := filter (\<lambda>f. f \<noteq> Ours) (im_finders im)\<rparr>"

text \<open>\<open>importlib.util.find_spec\<close> over the remaining finders: \<open>avail\<close> says which modules the real finders know.\<close>

definition real_spec :: "(string \<Rightarrow> bool) \<Rightarrow> string \<Rightarrow> importer \<Rightarrow> bool" where
  "real_spec avail name im \<longleftrightarrow> Path \<in> set (im_finders im) \<and> avail name"

definition find_spec :: "shape \<Rightarrow> (string \<Rightarrow> bool) \<Rightarrow> string \<Rightarrow> importer \<Rightarrow> spec option res \<times> importer" where
  "find_spec sh avail name im =
     (if name \<noteq> ARG_UTILS then (Inr None, im)
      else if ARG_UTILS \<in> set (im_modules im)
      then (case patch_class sh im of None \<Rightarrow> (Inl OtherError, im) | Some im' \<Rightarrow> (Inr None, step_aside im'))
      else let im' = step_aside im
           in if real_spec avail name im' then (Inr (Some Wrapped), im') else (Inr None, im'))"

text \<open>The finders in order. The list is taken when the walk starts.\<close>

fun walk :: "shape \<Rightarrow> (string \<Rightarrow> bool) \<Rightarrow> string \<Rightarrow> finder list \<Rightarrow> importer \<Rightarrow> spec option res \<times> importer" where
  "walk sh avail name [] im = (Inr None, im)"
| "walk sh avail name (Path # fs) im = (if avail name then (Inr (Some Plain), im) else walk sh avail name fs im)"
| "walk sh avail name (Ours # fs) im =
     (case find_spec sh avail name im of
        (Inl e, im') \<Rightarrow> (Inl e, im')
      | (Inr (Some sp), im') \<Rightarrow> (Inr (Some sp), im')
      | (Inr None, im') \<Rightarrow> walk sh avail name fs im')"

text \<open>Running the module's body: it defines the class afresh; the wrapped loader patches it, and an exception of the
  patch is swallowed. \<open>ok\<close> says whether the body itself runs through.\<close>

definition exec_module :: "shape \<Rightarrow> string \<Rightarrow> spec \<Rightarrow> bool \<Rightarrow> importer \<Rightarrow> unit res \<times> importer" where
  "exec_module sh name sp ok im =
     (if \<not> ok then (Inl OtherError, im)
      else let im1 = im\<lparr>im_modules := (if name \<in> set (im_modules im) then im_modules im else name # im_modules im),
                        im_wraps := (if name = ARG_UTILS then 0 else im_wraps im)\<rparr>
           in (Inr (), if sp = Wrapped then (case patch_class sh im1 of None \<Rightarrow> im1 | Some im2 \<Rightarrow> im2) else im1))"

definition load_module :: "shape \<Rightarrow> (string \<Rightarrow> bool) \<Rightarrow> string \<Rightarrow> bool \<Rightarrow> importer \<Rightarrow> unit res \<times> importer" where
  "load_module sh avail name ok im =
     (case walk sh avail name (im_finders im) im of
        (Inl e, im') \<Rightarrow> (Inl e, im')
      | (Inr None, im') \<Rightarrow> (Inl OtherError, im')
      | (Inr (Some sp), im') \<Rightarrow> exec_module sh name sp ok im')"

definition import_module :: "shape \<Rightarrow> (string \<Rightarrow> bool) \<Rightarrow> string \<Rightarrow> bool \<Rightarrow> importer \<Rightarrow> unit res \<times> importer" where
  "import_module sh avail name ok im =
     (if name \<in> set (im_modules im) then (Inr (), im) else load_module sh avail name ok im)"

datatype event = Install environ | Import string bool | Reload string bool

fun event_step :: "shape \<Rightarrow> (string \<Rightarrow> bool) \<Rightarrow> event \<Rightarrow> importer \<Rightarrow> importer" where
  "event_step sh avail (Install e) im = install_hook e im"
| "event_step sh avail (Import m ok) im = snd (import_module sh avail m ok im)"
| "event_step sh avail (Reload m ok) im = (if m \<in> set (im_modules im) then snd (load_module sh avail m ok im) else im)"

definition events :: "shape \<Rightarrow> (string \<Rightarrow> bool) \<Rightarrow> event list \<Rightarrow> importer \<Rightarrow> importer" where
  "events sh avail = fold (event_step sh avail)"

definition process_start :: importer where
  "process_start = \<lparr>im_modules = [], im_finders = [Path], im_wraps = 0\<rparr>"

section \<open>Building the configuration\<close>

record eargs =
  ea_async :: "bool option"
  ea_spec :: "(string, bool) dict option"

abbreviation PADDED :: string where
  "PADDED \<equiv> ''disable_padded_drafter_batch''"

definition async_args :: "eargs \<Rightarrow> eargs" where
  "async_args a =
     (case ea_spec a of
        Some d \<Rightarrow> if dict_or d PADDED False then a\<lparr>ea_spec := Some (AList.update PADDED False d)\<rparr> else a
      | None \<Rightarrow> a)"

text \<open>\<open>create_engine_config\<close> of the loaded class: the arguments it leaves, and whether the scheduler is asynchronous.\<close>

definition create_config :: "(eargs \<Rightarrow> bool) \<Rightarrow> environ \<Rightarrow> importer \<Rightarrow> eargs \<Rightarrow> eargs \<times> bool" where
  "create_config resolve e im a =
     (let a' = (if im_wraps im = 0 then a
                else if env_is e ''SUFFIX_HYBRID_ASYNC'' ''1'' then async_args a
                else a\<lparr>ea_async := Some False\<rparr>)
      in (a', resolve a'))"

text \<open>A speculative config whose padded-batch switch is off and that is otherwise the given one.\<close>

definition same_but_padded :: "(string, bool) dict \<Rightarrow> (string, bool) dict \<Rightarrow> bool" where
  "same_but_padded d d' \<longleftrightarrow> \<not> dict_or d' PADDED False \<and> (\<forall>k. k \<noteq> PADDED \<longrightarrow> map_of d' k = map_of d k)"

lemma async_args_spec:
  "ea_async (async_args a) = ea_async a \<and> rel_option same_but_padded (ea_spec a) (ea_spec (async_args a))"
  by (auto simp: async_args_def same_but_padded_def dict_simps split: option.split)

section \<open>Runs after arming\<close>

definition hook_pending :: "importer \<Rightarrow> bool" where
  "hook_pending im \<longleftrightarrow> ARG_UTILS \<notin> set (im_modules im) \<and> im_finders im = [Ours, Path]"

definition hook_live :: "importer \<Rightarrow> bool" where
  "hook_live im \<longleftrightarrow> ARG_UTILS \<in> set (im_modules im) \<and> im_wraps im = 1"

text \<open>Installs again, and importer any modules, in any order; the body of the target module runs through.\<close>

fun plain_event :: "event \<Rightarrow> bool" where
  "plain_event (Install _) \<longleftrightarrow> True"
| "plain_event (Import m ok) \<longleftrightarrow> (m = ARG_UTILS \<longrightarrow> ok)"
| "plain_event (Reload _ _) \<longleftrightarrow> False"

text \<open>Events before arming that do not import the target.\<close>

fun early_event :: "event \<Rightarrow> bool" where
  "early_event (Install _) \<longleftrightarrow> True"
| "early_event (Import m _) \<longleftrightarrow> m \<noteq> ARG_UTILS"
| "early_event (Reload _ _) \<longleftrightarrow> False"

definition hook_early :: "importer \<Rightarrow> bool" where
  "hook_early im \<longleftrightarrow> ARG_UTILS \<notin> set (im_modules im) \<and> (im_finders im = [Path] \<or> im_finders im = [Ours, Path])"

lemma walk_other [simp]:
  "name \<noteq> ARG_UTILS \<Longrightarrow> walk sh avail name fs im = (Inr (if Path \<in> set fs \<and> avail name then Some Plain else None), im)"
  by (induction sh avail name fs im rule: walk.induct) (auto simp: find_spec_def)

lemma import_other:
  assumes "name \<noteq> ARG_UTILS" and "import_module sh avail name ok im = (r, im')"
  shows "im_finders im' = im_finders im \<and> im_wraps im' = im_wraps im \<and> (ARG_UTILS \<in> set (im_modules im') \<longleftrightarrow> ARG_UTILS \<in> set (im_modules im))"
  using assms by (auto simp: import_module_def load_module_def exec_module_def Let_def split: if_splits)

lemma import_target:
  assumes "hook_pending im" and "avail ARG_UTILS" and "sh = HasMethod"
  shows "hook_live (snd (import_module sh avail ARG_UTILS True im))"
  using assms
  by (simp add: import_module_def load_module_def hook_pending_def hook_live_def find_spec_def step_aside_def real_spec_def
      exec_module_def Let_def patch_class_def)

lemma early_step: "hook_early im \<Longrightarrow> early_event ev \<Longrightarrow> hook_early (event_step sh avail ev im)"
proof (cases ev)
  case (Import m ok)
  assume h: "hook_early im" and "early_event ev"
  with Import have m: "m \<noteq> ARG_UTILS" by simp
  obtain r im' where i: "import_module sh avail m ok im = (r, im')" by fastforce
  from import_other[OF m i] h i Import show ?thesis by (simp add: hook_early_def)
qed (auto simp: hook_early_def install_hook_def)

lemma armed_step:
  assumes "hook_pending im \<or> hook_live im" and "plain_event ev" and "avail ARG_UTILS" and "sh = HasMethod"
  shows "hook_pending (event_step sh avail ev im) \<or> hook_live (event_step sh avail ev im)"
proof (cases ev)
  case (Install e)
  with assms(1) show ?thesis by (auto simp: install_hook_def hook_pending_def hook_live_def)
next
  case (Import m ok)
  show ?thesis
  proof (cases "m = ARG_UTILS")
    case True
    with assms Import have "event_step sh avail ev im = snd (import_module sh avail ARG_UTILS True im)" by simp
    with import_target[of im avail sh] assms show ?thesis by (auto simp: import_module_def hook_live_def)
  next
    case False
    obtain r im' where i: "import_module sh avail m ok im = (r, im')" by fastforce
    from import_other[OF False i] assms(1) i Import show ?thesis by (auto simp: hook_pending_def hook_live_def)
  qed
next
  case (Reload m ok)
  with assms(2) show ?thesis by simp
qed

lemma events_early: "list_all early_event es \<Longrightarrow> hook_early im \<Longrightarrow> hook_early (events sh avail es im)"
  unfolding events_def by (induction es arbitrary: im) (simp_all add: early_step)

lemma events_armed:
  "list_all plain_event es \<Longrightarrow> hook_pending im \<or> hook_live im \<Longrightarrow> avail ARG_UTILS \<Longrightarrow> sh = HasMethod \<Longrightarrow>
   hook_pending (events sh avail es im) \<or> hook_live (events sh avail es im)"
  unfolding events_def
proof (induction es arbitrary: im)
  case (Cons ev es)
  then have "hook_pending (event_step sh avail ev im) \<or> hook_live (event_step sh avail ev im)" by (intro armed_step) simp_all
  with Cons show ?case by simp
qed simp

lemma armed_run:
  assumes "sync_armed e" and "list_all early_event es0" and "list_all plain_event es" and "avail ARG_UTILS"
    and "im = events HasMethod avail (es0 @ Install e # es) process_start"
  shows "hook_pending im \<or> hook_live im"
proof -
  have "hook_early (events HasMethod avail es0 process_start)"
    by (rule events_early[OF assms(2)]) (simp add: hook_early_def process_start_def)
  then have "hook_pending (install_hook e (events HasMethod avail es0 process_start))"
    using assms(1) by (auto simp: hook_early_def hook_pending_def install_hook_def)
  then show ?thesis
    using events_armed[OF assms(3), of _ avail HasMethod] assms(4) by (simp add: assms(5) events_def)
qed

text \<open>Arming after the target was imported has no effect on later imports: a module in \<open>sys.modules\<close> is returned
  before any finder is asked, so the branch of \<open>find_spec\<close> for a loaded module runs on a reload only, whose
  fresh body then is not patched.\<close>

lemma late_arming_never_patches:
  assumes "ARG_UTILS \<in> set (im_modules im)" and "im_wraps im = 0" and "list_all plain_event es"
  shows "im_wraps (events sh avail es im) = 0"
proof -
  have "ARG_UTILS \<in> set (im_modules (events sh avail es im)) \<and> im_wraps (events sh avail es im) = 0"
    using assms(3,1,2) unfolding events_def
  proof (induction es arbitrary: im)
    case (Cons ev es)
    have "ARG_UTILS \<in> set (im_modules (event_step sh avail ev im)) \<and> im_wraps (event_step sh avail ev im) = 0"
    proof (cases ev)
      case (Import m ok)
      show ?thesis
      proof (cases "m = ARG_UTILS")
        case True
        with Import Cons.prems show ?thesis by (simp add: import_module_def)
      next
        case False
        obtain r im' where i: "import_module sh avail m ok im = (r, im')" by fastforce
        from import_other[OF False i] Cons.prems i Import show ?thesis by simp
      qed
    qed (use Cons.prems in \<open>auto simp: install_hook_def\<close>)
    with Cons show ?case by simp
  qed simp
  then show ?thesis ..
qed

lemma reload_loses_hook:
  "im_wraps (events HasMethod (\<lambda>_. True) [Install [(''SUFFIX_HYBRID_WRAP'', ''1'')], Import ARG_UTILS True, Reload ARG_UTILS True] process_start) = 0"
  by code_simp

section \<open>Properties\<close>

text \<open>C34: an armed process controls scheduling. Arm at any time before the first import of the argument
  module; then, after whatever further installs and imports, once the module is loaded its class is
  wrapped exactly once. A configuration built while \<open>SUFFIX_HYBRID_ASYNC\<close> is not 1 is passed an explicit
  \<open>False\<close>, whatever the operator asked for, and schedules synchronously; one built while it is 1 keeps the
  operator's argument, and only the padded-batch switch of its speculative config is turned off.\<close>

theorem armed_forces_sync:
  assumes "sync_armed e" and "list_all early_event es0" and "list_all plain_event es" and "avail ARG_UTILS"
    and "im = events HasMethod avail (es0 @ Install e # es) process_start" and "ARG_UTILS \<in> set (im_modules im)"
    and "\<And>a. ea_async a = Some False \<Longrightarrow> \<not> resolve a" and "create_config resolve e' im a = (a', async)"
  shows "im_wraps im = 1 \<and>
    (if env_is e' ''SUFFIX_HYBRID_ASYNC'' ''1''
     then ea_async a' = ea_async a \<and> async = resolve a' \<and> rel_option same_but_padded (ea_spec a) (ea_spec a')
     else ea_async a' = Some False \<and> ea_spec a' = ea_spec a \<and> \<not> async)"
proof -
  have w: "im_wraps im = 1" using armed_run[OF assms(1-5)] assms(6) by (auto simp: hook_pending_def hook_live_def)
  with assms(7)[of "a\<lparr>ea_async := Some False\<rparr>"] assms(8) async_args_spec[of a] show ?thesis
    by (auto simp: create_config_def Let_def)
qed

theorem armed_forces_sync_witness:
  "(let im = events HasMethod (\<lambda>_. True) [Import ''vllm'' True, Install [(''SUFFIX_HYBRID_WRAP'', ''1'')], Import ARG_UTILS True] process_start
    in im_wraps im = 1 \<and> \<not> snd (create_config (\<lambda>a. ea_async a \<noteq> Some False) [] im \<lparr>ea_async = None, ea_spec = None\<rparr>) \<and>
       snd (create_config (\<lambda>a. ea_async a \<noteq> Some False) [(''SUFFIX_HYBRID_ASYNC'', ''1'')] im \<lparr>ea_async = None, ea_spec = None\<rparr>))"
proof -
  define im where "im = events HasMethod (\<lambda>_. True) ([Import ''vllm'' True] @ Install [(''SUFFIX_HYBRID_WRAP'', ''1'')] # [Import ARG_UTILS True]) process_start"
  define a :: eargs where "a = \<lparr>ea_async = None, ea_spec = None\<rparr>"
  define res :: "eargs \<Rightarrow> bool" where "res = (\<lambda>b. ea_async b \<noteq> Some False)"
  have e: "sync_armed [(''SUFFIX_HYBRID_WRAP'', ''1'')]" by code_simp
  have l: "ARG_UTILS \<in> set (im_modules im)" unfolding im_def by code_simp
  have m: "\<not> env_is [] ''SUFFIX_HYBRID_ASYNC'' ''1''" "env_is [(''SUFFIX_HYBRID_ASYNC'', ''1'')] ''SUFFIX_HYBRID_ASYNC'' ''1''"
    by code_simp+
  note ok = armed_forces_sync[where resolve = res and a = a, OF e _ _ _ im_def l _ prod.collapse[symmetric]]
  have "im_wraps im = 1 \<and> \<not> snd (create_config res [] im a)" using ok[of "[]"] m(1) by (simp add: res_def)
  moreover have "snd (create_config res [(''SUFFIX_HYBRID_ASYNC'', ''1'')] im a)"
    using ok[of "[(''SUFFIX_HYBRID_ASYNC'', ''1'')]"] m(2) by (simp add: res_def a_def)
  ultimately show ?thesis by (simp add: im_def Let_def flip: a_def res_def)
qed

end
