(* ===== verification/HostAllReduce.thy ===== *)
theory HostAllReduce
  imports Prelude "HOL-Library.Word"
begin

text \<open>
  The all-reduce through host memory (\<open>suffix_hybrid/host_ar.py\<close>): kernel routing, rounds, chunks and slot
  addresses, and the protocol of \<open>_har_kernel\<close> and \<open>_hag_kernel\<close> between the ranks. Every rank
  runs the same launches. A step of the model is one element a rank writes, reduces or copies, in any
  order within a phase, one publication of its epoch, or one passed barrier; the steps of the ranks
  interleave freely. The blocks of one rank are merged: its barrier publishes when the whole phase is
  done. Epochs are 32-bit words; the fp32 accumulation in rank order with its final rounding is a
  function parameter.
\<close>

section \<open>Routing and layout\<close>

definition ROUND_BYTES :: nat where "ROUND_BYTES = 4194304"

definition Q8_GROUP :: nat where "Q8_GROUP = 128"

definition WORLDS :: "nat list" where "WORLDS = [2, 4, 8]"

datatype kernel = OneShot | TwoShot | Q8

definition route :: "nat \<Rightarrow> nat \<Rightarrow> nat \<Rightarrow> nat \<Rightarrow> bool option \<Rightarrow> bool option \<Rightarrow> kernel" where
  "route n oneshot_max q8_min q8_group oneshot q8 =
     (let one = (case oneshot of None \<Rightarrow> n * 2 \<le> oneshot_max | Some b \<Rightarrow> b);
          q = (case q8 of None \<Rightarrow> \<not> one \<and> q8_min \<le> n * 2 | Some b \<Rightarrow> b)
      in if q \<and> n mod q8_group = 0 then Q8 else if one then OneShot else TwoShot)"

definition rounds :: "nat \<Rightarrow> nat \<Rightarrow> nat" where
  "rounds n round_elems = cdivn n round_elems"

text \<open>Chunk \<open>j\<close> of a round of \<open>rn\<close> elements.\<close>

definition chunk :: "nat \<Rightarrow> nat \<Rightarrow> nat" where
  "chunk world rn = cdivn (cdivn rn world) 8 * 8"

definition chunk_lo :: "nat \<Rightarrow> nat \<Rightarrow> nat \<Rightarrow> nat" where
  "chunk_lo world rn j = j * chunk world rn"

definition chunk_hi :: "nat \<Rightarrow> nat \<Rightarrow> nat \<Rightarrow> nat" where
  "chunk_hi world rn j = min (chunk_lo world rn j + chunk world rn) rn"

text \<open>Element \<open>e\<close> of the slot of a rank in a region whose slots hold \<open>sz\<close> elements, for a parity.\<close>

definition slot_addr :: "nat \<Rightarrow> nat \<Rightarrow> nat \<Rightarrow> nat \<Rightarrow> nat \<Rightarrow> nat" where
  "slot_addr world sz par j e = par * (world * sz) + j * sz + e"

section \<open>Rounds and state\<close>

datatype mode = Reduce1 | Reduce2 | Gather

record 'v round =
  rd_mode :: mode
  rd_n :: nat
  rd_x :: "nat \<Rightarrow> nat \<Rightarrow> 'v"

record 'v har_cfg =
  hc_world :: nat
  hc_round :: nat
  hc_sum :: "'v list \<Rightarrow> 'v"

definition launch_rounds :: "nat \<Rightarrow> mode \<Rightarrow> nat \<Rightarrow> (nat \<Rightarrow> nat \<Rightarrow> 'v) \<Rightarrow> 'v round list" where
  "launch_rounds round_elems md n x =
     map (\<lambda>k. \<lparr>rd_mode = md, rd_n = min (n - k * round_elems) round_elems, rd_x = (\<lambda>j e. x j (k * round_elems + e))\<rparr>)
       [0..<rounds n round_elems]"

definition epoch :: "nat \<Rightarrow> 32 word" where
  "epoch r = word_of_nat (Suc r)"

definition parity :: "nat \<Rightarrow> nat" where
  "parity r = unat (and (epoch r) 1)"

text \<open>The two flag lines of a rank for each parity.\<close>

datatype phase = Ph1 | Ph2

datatype pc = Writing | Wait1 | Reducing | Wait2 | Gathering

record 'v har =
  h_rnd :: "nat \<Rightarrow> nat"
  h_pc :: "nat \<Rightarrow> pc"
  h_rem :: "nat \<Rightarrow> nat list"
  h_dat :: "nat \<Rightarrow> 'v"
  h_red :: "nat \<Rightarrow> 'v"
  h_flag :: "nat \<Rightarrow> phase \<Rightarrow> nat \<Rightarrow> 32 word"
  h_out :: "nat \<Rightarrow> nat \<Rightarrow> nat \<Rightarrow> 'v option"

definition write_set :: "'v har_cfg \<Rightarrow> 'v round \<Rightarrow> nat \<Rightarrow> nat list" where
  "write_set c rd i =
     (if rd_mode rd = Reduce2
      then filter (\<lambda>e. e < chunk_lo (hc_world c) (rd_n rd) i \<or> chunk_hi (hc_world c) (rd_n rd) i \<le> e) [0..<rd_n rd]
      else [0..<rd_n rd])"

definition reduce_set :: "'v har_cfg \<Rightarrow> 'v round \<Rightarrow> nat \<Rightarrow> nat list" where
  "reduce_set c rd i =
     (case rd_mode rd of
        Reduce1 \<Rightarrow> [0..<rd_n rd]
      | Reduce2 \<Rightarrow> [chunk_lo (hc_world c) (rd_n rd) i..<chunk_hi (hc_world c) (rd_n rd) i]
      | Gather \<Rightarrow> filter (\<lambda>e. e div rd_n rd \<noteq> i) [0..<hc_world c * rd_n rd])"

definition gather_set :: "'v har_cfg \<Rightarrow> 'v round \<Rightarrow> nat \<Rightarrow> nat list" where
  "gather_set c rd i =
     concat (map (\<lambda>j. if j = i then [] else [chunk_lo (hc_world c) (rd_n rd) j..<chunk_hi (hc_world c) (rd_n rd) j]) [0..<hc_world c])"

abbreviation dat_addr :: "'v har_cfg \<Rightarrow> nat \<Rightarrow> nat \<Rightarrow> nat \<Rightarrow> nat" where
  "dat_addr c \<equiv> slot_addr (hc_world c) (hc_round c)"

abbreviation red_addr :: "'v har_cfg \<Rightarrow> nat \<Rightarrow> nat \<Rightarrow> nat \<Rightarrow> nat" where
  "red_addr c \<equiv> slot_addr (hc_world c) (hc_round c div hc_world c)"

definition write_todo :: "'v har_cfg \<Rightarrow> 'v round list \<Rightarrow> nat \<Rightarrow> nat \<Rightarrow> nat list" where
  "write_todo c rs r i = (if r < length rs then write_set c (rs ! r) i else [])"

definition har_init :: "'v har_cfg \<Rightarrow> 'v round list \<Rightarrow> 'v \<Rightarrow> 'v har" where
  "har_init c rs z = \<lparr>h_rnd = (\<lambda>_. 0), h_pc = (\<lambda>_. Writing), h_rem = write_todo c rs 0, h_dat = (\<lambda>_. z), h_red = (\<lambda>_. z),
     h_flag = (\<lambda>_ _ _. 0), h_out = (\<lambda>_ _ _. None)\<rparr>"

section \<open>Steps\<close>

text \<open>The store of one element in phase 1; the gather kernel also copies its own part to its output.\<close>

definition do_write :: "'v har_cfg \<Rightarrow> 'v round \<Rightarrow> nat \<Rightarrow> nat \<Rightarrow> 'v har \<Rightarrow> 'v har" where
  "do_write c rd i e s =
     (let r = h_rnd s i; v = rd_x rd i e
      in s\<lparr>h_dat := (h_dat s)(dat_addr c (parity r) i e := v), h_rem := (h_rem s)(i := removeAll e (h_rem s i)),
           h_out := (if rd_mode rd = Gather then (h_out s)(i := (h_out s i)(r := (h_out s i r)(i * rd_n rd + e := Some v)))
                     else h_out s)\<rparr>)"

definition do_publish :: "phase \<Rightarrow> nat \<Rightarrow> pc \<Rightarrow> 'v har \<Rightarrow> 'v har" where
  "do_publish phase i p s =
     (let r = h_rnd s i
      in s\<lparr>h_flag := (h_flag s)(parity r := (h_flag s (parity r))(phase := (h_flag s (parity r) phase)(i := epoch r))),
           h_pc := (h_pc s)(i := p)\<rparr>)"

definition do_pass :: "nat \<Rightarrow> pc \<Rightarrow> nat list \<Rightarrow> 'v har \<Rightarrow> 'v har" where
  "do_pass i p todo s = s\<lparr>h_pc := (h_pc s)(i := p), h_rem := (h_rem s)(i := todo)\<rparr>"

definition barrier_open :: "'v har_cfg \<Rightarrow> phase \<Rightarrow> nat \<Rightarrow> 'v har \<Rightarrow> bool" where
  "barrier_open c phase i s \<longleftrightarrow>
     list_all (\<lambda>j. h_flag s (parity (h_rnd s i)) phase j = epoch (h_rnd s i)) [0..<hc_world c]"

definition reduced :: "'v har_cfg \<Rightarrow> 'v round \<Rightarrow> nat \<Rightarrow> nat \<Rightarrow> 'v har \<Rightarrow> 'v" where
  "reduced c rd i e s =
     (let p = parity (h_rnd s i)
      in if rd_mode rd = Gather then h_dat s (dat_addr c p (e div rd_n rd) (e mod rd_n rd))
         else hc_sum c (map (\<lambda>j. if j = i then rd_x rd i e else h_dat s (dat_addr c p j e)) [0..<hc_world c]))"

definition put_out :: "nat \<Rightarrow> nat \<Rightarrow> 'v \<Rightarrow> 'v har \<Rightarrow> 'v har" where
  "put_out i e v s =
     (let r = h_rnd s i
      in s\<lparr>h_out := (h_out s)(i := (h_out s i)(r := (h_out s i r)(e := Some v))), h_rem := (h_rem s)(i := removeAll e (h_rem s i))\<rparr>)"

definition do_reduce :: "'v har_cfg \<Rightarrow> 'v round \<Rightarrow> nat \<Rightarrow> nat \<Rightarrow> 'v har \<Rightarrow> 'v har" where
  "do_reduce c rd i e s =
     (let v = reduced c rd i e s; s1 = put_out i e v s
      in if rd_mode rd = Reduce2
         then s1\<lparr>h_red := (h_red s)(red_addr c (parity (h_rnd s i)) i (e - chunk_lo (hc_world c) (rd_n rd) i) := v)\<rparr>
         else s1)"

definition do_copy :: "'v har_cfg \<Rightarrow> 'v round \<Rightarrow> nat \<Rightarrow> nat \<Rightarrow> 'v har \<Rightarrow> 'v har" where
  "do_copy c rd i e s =
     (let j = e div chunk (hc_world c) (rd_n rd)
      in put_out i e (h_red s (red_addr c (parity (h_rnd s i)) j (e - chunk_lo (hc_world c) (rd_n rd) j))) s)"

definition next_round :: "'v har_cfg \<Rightarrow> 'v round list \<Rightarrow> nat \<Rightarrow> 'v har \<Rightarrow> 'v har" where
  "next_round c rs i s =
     s\<lparr>h_rnd := (h_rnd s)(i := Suc (h_rnd s i)), h_pc := (h_pc s)(i := Writing),
       h_rem := (h_rem s)(i := write_todo c rs (Suc (h_rnd s i)) i)\<rparr>"

text \<open>Rank \<open>i\<close>'s next step, on element \<open>e\<close> where the phase has elements left.\<close>

definition har_step :: "'v har_cfg \<Rightarrow> 'v round list \<Rightarrow> nat \<Rightarrow> nat \<Rightarrow> 'v har \<Rightarrow> 'v har option" where
  "har_step c rs i e s =
     (if hc_world c \<le> i \<or> length rs \<le> h_rnd s i then None
      else
        let rd = rs ! h_rnd s i
        in case h_pc s i of
             Writing \<Rightarrow> if h_rem s i = [] then Some (do_publish Ph1 i Wait1 s)
                        else if e \<in> set (h_rem s i) then Some (do_write c rd i e s) else None
           | Wait1 \<Rightarrow> if barrier_open c Ph1 i s then Some (do_pass i Reducing (reduce_set c rd i) s) else None
           | Reducing \<Rightarrow> if h_rem s i = [] then Some (if rd_mode rd = Reduce2 then do_publish Ph2 i Wait2 s else next_round c rs i s)
                         else if e \<in> set (h_rem s i) then Some (do_reduce c rd i e s) else None
           | Wait2 \<Rightarrow> if barrier_open c Ph2 i s then Some (do_pass i Gathering (gather_set c rd i) s) else None
           | Gathering \<Rightarrow> if h_rem s i = [] then Some (next_round c rs i s)
                          else if e \<in> set (h_rem s i) then Some (do_copy c rd i e s) else None)"

inductive har_run :: "'v har_cfg \<Rightarrow> 'v round list \<Rightarrow> 'v \<Rightarrow> 'v har \<Rightarrow> bool" for c rs z where
  start: "har_run c rs z (har_init c rs z)"
| step: "har_run c rs z s \<Longrightarrow> har_step c rs i e s = Some s' \<Longrightarrow> har_run c rs z s'"

inductive_cases har_runE: "har_run c rs z s"

section \<open>Chunks, slots and epochs\<close>

lemma chunk_covers: "0 < world \<Longrightarrow> rn \<le> world * chunk world rn"
proof -
  assume w: "0 < world"
  have "rn \<le> cdivn rn world * world" by (rule cdivn_ge[OF w])
  also have "\<dots> \<le> (cdivn (cdivn rn world) 8 * 8) * world" by (intro mult_right_mono cdivn_ge) simp_all
  finally show ?thesis by (simp add: chunk_def ac_simps)
qed

lemma chunk_fits: "0 < world \<Longrightarrow> sz mod (world * 8) = 0 \<Longrightarrow> rn \<le> sz \<Longrightarrow> chunk world rn \<le> sz div world"
proof -
  assume w: "0 < world" and sz: "sz mod (world * 8) = 0" and rn: "rn \<le> sz"
  from sz obtain q where q: "sz = world * 8 * q" by auto
  have "rn \<le> q * 8 * world" using rn q by (simp add: ac_simps)
  then have "cdivn rn world \<le> q * 8" by (rule cdivn_le[OF w])
  then have "cdivn (cdivn rn world) 8 \<le> q" by (rule cdivn_le[rotated]) simp
  then show ?thesis using w q by (simp add: chunk_def)
qed

lemma chunk_pos: "0 < rn \<Longrightarrow> 0 < world \<Longrightarrow> 0 < chunk world rn"
  using chunk_covers[of world rn] by (cases "chunk world rn") auto

text \<open>The chunks of the ranks split a round: an element lies in the chunk of exactly one rank.\<close>

lemma in_chunk:
  assumes "0 < rn" and "0 < world"
  shows "chunk_lo world rn j \<le> e \<and> e < chunk_hi world rn j \<longleftrightarrow> e < rn \<and> e div chunk world rn = j"
proof -
  have c: "0 < chunk world rn" by (rule chunk_pos[OF assms])
  have "j * chunk world rn \<le> e \<and> e < j * chunk world rn + chunk world rn \<longleftrightarrow> e div chunk world rn = j"
    using c by (metis add.commute div_nat_eqI less_eq_div_iff_mult_less_eq mult.commute mult_Suc dividend_less_div_times div_times_less_eq_dividend)
  then show ?thesis by (auto simp: chunk_lo_def chunk_hi_def)
qed

lemma chunk_owner: "e < rn \<Longrightarrow> 0 < world \<Longrightarrow> e div chunk world rn < world"
  using chunk_covers[of world rn] chunk_pos[of rn world] by (simp add: div_less_iff_less_mult)

lemma slot_addr_inj:
  assumes "slot_addr world sz p j e = slot_addr world sz p' j' e'" and "e < sz" "e' < sz" "j < world" "j' < world"
  shows "p = p' \<and> j = j' \<and> e = e'"
proof -
  have split: "slot_addr world sz q i f = (q * world + i) * sz + f" for q i f
    by (simp add: slot_addr_def algebra_simps)
  have "(p * world + j) * sz + e = (p' * world + j') * sz + e'" using assms(1) by (simp add: split)
  then have "((p * world + j) * sz + e) div sz = ((p' * world + j') * sz + e') div sz"
    and "((p * world + j) * sz + e) mod sz = ((p' * world + j') * sz + e') mod sz" by simp_all
  then have e: "e = e'" and "p * world + j = p' * world + j'" using assms(2,3) by simp_all
  then have "(p * world + j) div world = (p' * world + j') div world" "(p * world + j) mod world = (p' * world + j') mod world" by simp_all
  with e assms(4,5) show ?thesis by simp
qed

lemma epoch_unat: "Suc r < 4294967296 \<Longrightarrow> unat (epoch r) = Suc r"
  unfolding epoch_def unat_of_nat by simp

lemma epoch_inj: "Suc r < 4294967296 \<Longrightarrow> Suc q < 4294967296 \<Longrightarrow> epoch r = epoch q \<Longrightarrow> r = q"
  by (metis Suc_inject epoch_unat)

lemma epoch_nonzero: "Suc r < 4294967296 \<Longrightarrow> epoch r \<noteq> 0"
  using epoch_unat[of r] by (metis nat.distinct(1) unat_0)

lemma parity_mod2: "parity r = Suc r mod 2"
proof -
  have "parity r = unat (epoch r) mod 2" by (simp add: parity_def and_one_eq unat_mod_distrib)
  also have "\<dots> = (Suc r mod 4294967296) mod 2" unfolding epoch_def unat_of_nat by simp
  also have "\<dots> = Suc r mod 2" by (rule mod_mod_cancel) simp
  finally show ?thesis .
qed

lemma parity_less: "parity r < 2"
  by (simp add: parity_mod2)

section \<open>Control of the ranks\<close>

definition arrived1 :: "'v har \<Rightarrow> nat \<Rightarrow> nat" where
  "arrived1 s j = h_rnd s j + (if h_pc s j = Writing then 0 else 1)"

definition passed1 :: "'v har \<Rightarrow> nat \<Rightarrow> nat" where
  "passed1 s j = h_rnd s j + (if h_pc s j \<in> {Reducing, Wait2, Gathering} then 1 else 0)"

definition arrived2 :: "'v har \<Rightarrow> nat \<Rightarrow> nat" where
  "arrived2 s j = h_rnd s j + (if h_pc s j \<in> {Wait2, Gathering} then 1 else 0)"

lemmas har_count_defs = arrived1_def passed1_def arrived2_def

definition two_shot :: "'v round list \<Rightarrow> nat \<Rightarrow> bool" where
  "two_shot rs r \<longleftrightarrow> r < length rs \<and> rd_mode (rs ! r) = Reduce2"

definition har_ok :: "'v har_cfg \<Rightarrow> 'v round list \<Rightarrow> bool" where
  "har_ok c rs \<longleftrightarrow> hc_world c \<in> set WORLDS \<and> 0 < hc_round c \<and> hc_round c mod (hc_world c * 1024) = 0 \<and>
     list_all (\<lambda>rd. 0 < rd_n rd \<and> rd_n rd \<le> hc_round c) rs \<and> Suc (length rs) < 4294967296"

definition ctrl_rank :: "'v round list \<Rightarrow> 'v har \<Rightarrow> nat \<Rightarrow> bool" where
  "ctrl_rank rs s i \<longleftrightarrow> h_rnd s i \<le> length rs \<and> (h_pc s i \<noteq> Writing \<longrightarrow> h_rnd s i < length rs) \<and>
     (h_pc s i \<in> {Wait2, Gathering} \<longrightarrow> two_shot rs (h_rnd s i))"

definition ctrl_pair :: "'v har \<Rightarrow> nat \<Rightarrow> nat \<Rightarrow> bool" where
  "ctrl_pair s i j \<longleftrightarrow> passed1 s i \<le> arrived1 s j \<and> (h_pc s i = Gathering \<longrightarrow> Suc (h_rnd s i) \<le> arrived2 s j)"

definition ctrl_flag :: "'v round list \<Rightarrow> 'v har \<Rightarrow> nat \<Rightarrow> nat \<Rightarrow> bool" where
  "ctrl_flag rs s j r \<longleftrightarrow>
     (h_flag s (parity r) Ph1 j = epoch r \<longrightarrow> r < arrived1 s j) \<and>
     (h_flag s (parity r) Ph2 j = epoch r \<longrightarrow> r < arrived2 s j) \<and>
     (r < arrived1 s j \<longrightarrow> arrived1 s j \<le> r + 2 \<longrightarrow> h_flag s (parity r) Ph1 j = epoch r) \<and>
     (two_shot rs r \<longrightarrow> r < arrived2 s j \<longrightarrow> arrived2 s j \<le> r + 2 \<longrightarrow> h_flag s (parity r) Ph2 j = epoch r)"

definition ctrl_inv :: "'v har_cfg \<Rightarrow> 'v round list \<Rightarrow> 'v har \<Rightarrow> bool" where
  "ctrl_inv c rs s \<longleftrightarrow> (\<forall>i < hc_world c. ctrl_rank rs s i) \<and> (\<forall>i < hc_world c. \<forall>j < hc_world c. ctrl_pair s i j) \<and>
     (\<forall>j < hc_world c. \<forall>r < length rs. ctrl_flag rs s j r)"

lemma ctrl_flag_update1:
  assumes "ctrl_flag rs s j r" and "arrived1 s' j = a" and "arrived2 s' j = arrived2 s j"
    and "h_flag s' (parity r) Ph2 j = h_flag s (parity r) Ph2 j"
    and "h_flag s' (parity r) Ph1 j = epoch r \<Longrightarrow> r < a"
    and "r < a \<Longrightarrow> a \<le> r + 2 \<Longrightarrow> h_flag s' (parity r) Ph1 j = epoch r"
  shows "ctrl_flag rs s' j r"
  using assms(1,5,6) unfolding ctrl_flag_def assms(2-4) by blast

lemma ctrl_flag_update2:
  assumes "ctrl_flag rs s j r" and "arrived2 s' j = a" and "arrived1 s' j = arrived1 s j"
    and "h_flag s' (parity r) Ph1 j = h_flag s (parity r) Ph1 j"
    and "h_flag s' (parity r) Ph2 j = epoch r \<Longrightarrow> r < a"
    and "two_shot rs r \<Longrightarrow> r < a \<Longrightarrow> a \<le> r + 2 \<Longrightarrow> h_flag s' (parity r) Ph2 j = epoch r"
  shows "ctrl_flag rs s' j r"
  using assms(1,5,6) unfolding ctrl_flag_def assms(2-4) by blast

lemma ctrl_invI:
  "(\<And>i. i < hc_world c \<Longrightarrow> ctrl_rank rs s i) \<Longrightarrow> (\<And>i j. i < hc_world c \<Longrightarrow> j < hc_world c \<Longrightarrow> ctrl_pair s i j) \<Longrightarrow>
   (\<And>j r. j < hc_world c \<Longrightarrow> r < length rs \<Longrightarrow> ctrl_flag rs s j r) \<Longrightarrow> ctrl_inv c rs s"
  by (simp add: ctrl_inv_def)

lemma ctrl_invD:
  assumes "ctrl_inv c rs s"
  shows "i < hc_world c \<Longrightarrow> ctrl_rank rs s i" "i < hc_world c \<Longrightarrow> j < hc_world c \<Longrightarrow> ctrl_pair s i j"
    "j < hc_world c \<Longrightarrow> r < length rs \<Longrightarrow> ctrl_flag rs s j r"
  using assms unfolding ctrl_inv_def by blast+

lemma ctrl_inv_cong:
  "h_rnd s' = h_rnd s \<Longrightarrow> h_pc s' = h_pc s \<Longrightarrow> h_flag s' = h_flag s \<Longrightarrow> ctrl_inv c rs s' = ctrl_inv c rs s"
  by (simp add: ctrl_inv_def ctrl_rank_def ctrl_pair_def ctrl_flag_def har_count_defs)

lemma har_step_cases:
  assumes "har_step c rs i e s = Some s'"
  obtains
    (stored) "i < hc_world c" "h_rnd s i < length rs" "h_pc s i = Writing" "e \<in> set (h_rem s i)" "s' = do_write c (rs ! h_rnd s i) i e s"
  | (publish1) "i < hc_world c" "h_rnd s i < length rs" "h_pc s i = Writing" "h_rem s i = []" "s' = do_publish Ph1 i Wait1 s"
  | (pass1) "i < hc_world c" "h_rnd s i < length rs" "h_pc s i = Wait1" "barrier_open c Ph1 i s"
      "s' = do_pass i Reducing (reduce_set c (rs ! h_rnd s i) i) s"
  | (reduce) "i < hc_world c" "h_rnd s i < length rs" "h_pc s i = Reducing" "e \<in> set (h_rem s i)" "s' = do_reduce c (rs ! h_rnd s i) i e s"
  | (publish2) "i < hc_world c" "h_rnd s i < length rs" "h_pc s i = Reducing" "h_rem s i = []" "rd_mode (rs ! h_rnd s i) = Reduce2"
      "s' = do_publish Ph2 i Wait2 s"
  | (finish) "i < hc_world c" "h_rnd s i < length rs" "h_pc s i = Reducing" "h_rem s i = []" "rd_mode (rs ! h_rnd s i) \<noteq> Reduce2"
      "s' = next_round c rs i s"
  | (pass2) "i < hc_world c" "h_rnd s i < length rs" "h_pc s i = Wait2" "barrier_open c Ph2 i s"
      "s' = do_pass i Gathering (gather_set c (rs ! h_rnd s i) i) s"
  | (copy) "i < hc_world c" "h_rnd s i < length rs" "h_pc s i = Gathering" "e \<in> set (h_rem s i)" "s' = do_copy c (rs ! h_rnd s i) i e s"
  | (copied) "i < hc_world c" "h_rnd s i < length rs" "h_pc s i = Gathering" "h_rem s i = []" "s' = next_round c rs i s"
  using assms by (auto simp: har_step_def Let_def not_le split: if_splits pc.splits)

lemma do_frames [frame_simps]:
  "h_rnd (do_write c rd i e s) = h_rnd s" "h_pc (do_write c rd i e s) = h_pc s" "h_flag (do_write c rd i e s) = h_flag s"
  "h_rnd (do_reduce c rd i e s) = h_rnd s" "h_pc (do_reduce c rd i e s) = h_pc s" "h_flag (do_reduce c rd i e s) = h_flag s"
  "h_rnd (do_copy c rd i e s) = h_rnd s" "h_pc (do_copy c rd i e s) = h_pc s" "h_flag (do_copy c rd i e s) = h_flag s"
  by (simp_all add: do_write_def do_reduce_def do_copy_def put_out_def Let_def)

lemma publish_counts:
  assumes "h_pc s i = Writing"
  shows "arrived1 (do_publish Ph1 i Wait1 s) j = (if j = i then Suc (h_rnd s i) else arrived1 s j)"
    "passed1 (do_publish Ph1 i Wait1 s) j = passed1 s j" "arrived2 (do_publish Ph1 i Wait1 s) j = arrived2 s j"
  using assms by (simp_all add: har_count_defs do_publish_def Let_def)

lemma publish_flag:
  "h_flag (do_publish phase i p s) q k j =
     (if q = parity (h_rnd s i) \<and> k = phase \<and> j = i then epoch (h_rnd s i) else h_flag s q k j)"
  by (simp add: do_publish_def Let_def)

lemma parity_neq: "parity (Suc r) \<noteq> parity r"
  by (simp add: parity_mod2) presburger

lemma ctrl_publish1:
  assumes "ctrl_inv c rs s" and "i < hc_world c" and "h_rnd s i < length rs" and "h_pc s i = Writing" and "har_ok c rs"
  shows "ctrl_inv c rs (do_publish Ph1 i Wait1 s)" (is "ctrl_inv c rs ?s")
proof (rule ctrl_invI)
  fix k assume "k < hc_world c"
  with ctrl_invD(1)[OF assms(1), of k] assms(3) show "ctrl_rank rs ?s k" by (auto simp: ctrl_rank_def do_publish_def Let_def)
next
  fix k j assume "k < hc_world c" "j < hc_world c"
  with ctrl_invD(2)[OF assms(1), of k j] assms(4) show "ctrl_pair ?s k j"
    by (auto simp: ctrl_pair_def publish_counts[OF assms(4)]) (auto simp: har_count_defs do_publish_def Let_def split: if_splits)
next
  fix j r assume j: "j < hc_world c" and r: "r < length rs"
  have N: "Suc r < 4294967296" "Suc (h_rnd s i) < 4294967296" using r assms(3,5) by (simp_all add: har_ok_def)
  note old = ctrl_invD(3)[OF assms(1) j r]
  show "ctrl_flag rs ?s j r"
  proof (cases "j = i")
    case False
    with old show ?thesis by (simp add: ctrl_flag_def publish_counts[OF assms(4)] publish_flag)
  next
    case True
    have a1: "arrived1 s i = h_rnd s i" using assms(4) by (simp add: arrived1_def)
    have f0: "h_flag ?s (parity r) Ph1 i = (if parity r = parity (h_rnd s i) then epoch (h_rnd s i) else h_flag s (parity r) Ph1 i)"
      and f1: "h_flag ?s (parity r) Ph2 i = h_flag s (parity r) Ph2 i" by (simp_all add: publish_flag)
    have c1: "h_flag ?s (parity r) Ph1 i = epoch r \<Longrightarrow> r < Suc (h_rnd s i)"
    proof (cases "parity r = parity (h_rnd s i)")
      case same: True
      assume "h_flag ?s (parity r) Ph1 i = epoch r"
      then have "epoch r = epoch (h_rnd s i)" unfolding f0 if_P[OF same] by (rule sym)
      then show ?thesis using epoch_inj[OF N] by blast
    next
      case False
      assume "h_flag ?s (parity r) Ph1 i = epoch r"
      then have "h_flag s (parity r) Ph1 i = epoch r" unfolding f0 if_not_P[OF False] .
      with old have "r < arrived1 s i" unfolding True ctrl_flag_def by blast
      then show ?thesis using a1 by simp
    qed
    have c2: "h_flag ?s (parity r) Ph1 i = epoch r" if "r < Suc (h_rnd s i)" "Suc (h_rnd s i) \<le> r + 2"
    proof -
      from that consider "h_rnd s i = r" | "h_rnd s i = Suc r" by linarith
      then show ?thesis
        using f0 old True a1 parity_neq[of r] by cases (auto simp: ctrl_flag_def)
    qed
    have n: "arrived1 ?s i = Suc (h_rnd s i)" "arrived2 ?s i = arrived2 s i"
      by (simp_all add: publish_counts[OF assms(4)])
    show ?thesis unfolding True
      by (rule ctrl_flag_update1[OF old[unfolded True] n f1 c1 c2])
  qed
qed

lemma publish2_counts:
  assumes "h_pc s i = Reducing"
  shows "arrived1 (do_publish Ph2 i Wait2 s) j = arrived1 s j" "passed1 (do_publish Ph2 i Wait2 s) j = passed1 s j"
    "arrived2 (do_publish Ph2 i Wait2 s) j = (if j = i then Suc (h_rnd s i) else arrived2 s j)"
  using assms by (simp_all add: har_count_defs do_publish_def Let_def)

lemma do_publish_sel [simp]:
  "h_rnd (do_publish k i p s) = h_rnd s" "h_pc (do_publish k i p s) = (h_pc s)(i := p)" "h_rem (do_publish k i p s) = h_rem s"
  "h_dat (do_publish k i p s) = h_dat s" "h_red (do_publish k i p s) = h_red s" "h_out (do_publish k i p s) = h_out s"
  by (simp_all add: do_publish_def Let_def)

lemma do_pass_sel [simp]:
  "h_rnd (do_pass i p td s) = h_rnd s" "h_pc (do_pass i p td s) = (h_pc s)(i := p)" "h_rem (do_pass i p td s) = (h_rem s)(i := td)"
  "h_dat (do_pass i p td s) = h_dat s" "h_red (do_pass i p td s) = h_red s" "h_out (do_pass i p td s) = h_out s"
  "h_flag (do_pass i p td s) = h_flag s"
  by (simp_all add: do_pass_def)

lemma next_round_sel [simp]:
  "h_rnd (next_round c rs i s) = (h_rnd s)(i := Suc (h_rnd s i))" "h_pc (next_round c rs i s) = (h_pc s)(i := Writing)"
  "h_rem (next_round c rs i s) = (h_rem s)(i := write_todo c rs (Suc (h_rnd s i)) i)"
  "h_dat (next_round c rs i s) = h_dat s" "h_red (next_round c rs i s) = h_red s" "h_out (next_round c rs i s) = h_out s"
  "h_flag (next_round c rs i s) = h_flag s"
  by (simp_all add: next_round_def)

lemma ctrl_publish2:
  assumes "ctrl_inv c rs s" and "i < hc_world c" and "h_rnd s i < length rs" and "h_pc s i = Reducing"
    and "rd_mode (rs ! h_rnd s i) = Reduce2" and "har_ok c rs"
  shows "ctrl_inv c rs (do_publish Ph2 i Wait2 s)" (is "ctrl_inv c rs ?s")
proof (rule ctrl_invI)
  fix k assume "k < hc_world c"
  with ctrl_invD(1)[OF assms(1), of k] assms(3,5) show "ctrl_rank rs ?s k" by (auto simp: ctrl_rank_def two_shot_def)
next
  fix k j assume "k < hc_world c" "j < hc_world c"
  with ctrl_invD(2)[OF assms(1), of k j] assms(4) show "ctrl_pair ?s k j"
    by (auto simp: ctrl_pair_def publish2_counts[OF assms(4)] arrived2_def split: if_splits)
next
  fix j r assume j: "j < hc_world c" and r: "r < length rs"
  have N: "Suc r < 4294967296" "Suc (h_rnd s i) < 4294967296" using r assms(3,6) by (simp_all add: har_ok_def)
  note old = ctrl_invD(3)[OF assms(1) j r]
  show "ctrl_flag rs ?s j r"
  proof (cases "j = i")
    case False
    with old show ?thesis by (simp add: ctrl_flag_def publish2_counts[OF assms(4)] publish_flag)
  next
    case True
    have a2: "arrived2 s i = h_rnd s i" using assms(4) by (simp add: arrived2_def)
    have f1: "h_flag ?s (parity r) Ph2 i = (if parity r = parity (h_rnd s i) then epoch (h_rnd s i) else h_flag s (parity r) Ph2 i)"
      and f0: "h_flag ?s (parity r) Ph1 i = h_flag s (parity r) Ph1 i" by (simp_all add: publish_flag)
    have c1: "h_flag ?s (parity r) Ph2 i = epoch r \<Longrightarrow> r < Suc (h_rnd s i)"
    proof (cases "parity r = parity (h_rnd s i)")
      case same: True
      assume "h_flag ?s (parity r) Ph2 i = epoch r"
      then have "epoch r = epoch (h_rnd s i)" unfolding f1 if_P[OF same] by (rule sym)
      then show ?thesis using epoch_inj[OF N] by blast
    next
      case False
      assume "h_flag ?s (parity r) Ph2 i = epoch r"
      then have "h_flag s (parity r) Ph2 i = epoch r" unfolding f1 if_not_P[OF False] .
      with old have "r < arrived2 s i" unfolding True ctrl_flag_def by blast
      then show ?thesis using a2 by simp
    qed
    have c2: "h_flag ?s (parity r) Ph2 i = epoch r" if "two_shot rs r" "r < Suc (h_rnd s i)" "Suc (h_rnd s i) \<le> r + 2"
    proof -
      from that consider "h_rnd s i = r" | "h_rnd s i = Suc r" by linarith
      then show ?thesis
        using f1 old True a2 parity_neq[of r] that(1) by cases (auto simp: ctrl_flag_def)
    qed
    have n: "arrived2 ?s i = Suc (h_rnd s i)" "arrived1 ?s i = arrived1 s i"
      by (simp_all add: publish2_counts[OF assms(4)])
    show ?thesis unfolding True
      by (rule ctrl_flag_update2[OF old[unfolded True] n f0 c1 c2])
  qed
qed

lemma barrier_open_iff: "barrier_open c k i s \<longleftrightarrow> (\<forall>j < hc_world c. h_flag s (parity (h_rnd s i)) k j = epoch (h_rnd s i))"
  by (auto simp: barrier_open_def list_all_iff)

lemma ctrl_pass1:
  assumes "ctrl_inv c rs s" and "i < hc_world c" and "h_rnd s i < length rs" and "h_pc s i = Wait1" and "barrier_open c Ph1 i s"
  shows "ctrl_inv c rs (do_pass i Reducing td s)" (is "ctrl_inv c rs ?s")
proof (rule ctrl_invI)
  fix k assume "k < hc_world c"
  with ctrl_invD(1)[OF assms(1), of k] assms(3) show "ctrl_rank rs ?s k" by (auto simp: ctrl_rank_def)
next
  fix k j assume kj: "k < hc_world c" "j < hc_world c"
  have "h_rnd s i < arrived1 s j"
    using ctrl_invD(3)[OF assms(1) kj(2) assms(3)] assms(5) kj(2) by (auto simp: ctrl_flag_def barrier_open_iff)
  with ctrl_invD(2)[OF assms(1) kj] assms(4) show "ctrl_pair ?s k j"
    by (auto simp: ctrl_pair_def har_count_defs split: if_splits)
next
  fix j r assume "j < hc_world c" "r < length rs"
  with ctrl_invD(3)[OF assms(1), of j r] assms(4) show "ctrl_flag rs ?s j r"
    by (auto simp: ctrl_flag_def har_count_defs split: if_splits)
qed

lemma ctrl_pass2:
  assumes "ctrl_inv c rs s" and "i < hc_world c" and "h_rnd s i < length rs" and "h_pc s i = Wait2" and "barrier_open c Ph2 i s"
  shows "ctrl_inv c rs (do_pass i Gathering td s)" (is "ctrl_inv c rs ?s")
proof (rule ctrl_invI)
  fix k assume "k < hc_world c"
  with ctrl_invD(1)[OF assms(1), of k] assms(3,4) show "ctrl_rank rs ?s k" by (auto simp: ctrl_rank_def)
next
  fix k j assume kj: "k < hc_world c" "j < hc_world c"
  have "h_rnd s i < arrived2 s j"
    using ctrl_invD(3)[OF assms(1) kj(2) assms(3)] assms(5) kj(2) by (auto simp: ctrl_flag_def barrier_open_iff)
  with ctrl_invD(2)[OF assms(1) kj] assms(4) show "ctrl_pair ?s k j"
    by (auto simp: ctrl_pair_def har_count_defs split: if_splits)
next
  fix j r assume "j < hc_world c" "r < length rs"
  with ctrl_invD(3)[OF assms(1), of j r] assms(4) show "ctrl_flag rs ?s j r"
    by (auto simp: ctrl_flag_def har_count_defs split: if_splits)
qed

lemma ctrl_next:
  assumes "ctrl_inv c rs s" and "i < hc_world c" and "h_rnd s i < length rs"
    and "h_pc s i = Reducing \<and> rd_mode (rs ! h_rnd s i) \<noteq> Reduce2 \<or> h_pc s i = Gathering"
  shows "ctrl_inv c rs (next_round c rs i s)" (is "ctrl_inv c rs ?s")
proof -
  have a1: "arrived1 ?s j = arrived1 s j" and p1: "passed1 ?s j = passed1 s j" for j
    using assms(4) by (auto simp: har_count_defs)
  have a2: "arrived2 ?s j = (if j = i then Suc (h_rnd s i) else arrived2 s j)" for j
    using assms(4) by (auto simp: har_count_defs)
  have a2le: "arrived2 s i \<le> Suc (h_rnd s i)" by (simp add: arrived2_def)
  show ?thesis
  proof (rule ctrl_invI)
    fix k assume "k < hc_world c"
    with ctrl_invD(1)[OF assms(1), of k] assms(3) show "ctrl_rank rs ?s k" by (auto simp: ctrl_rank_def)
  next
    fix k j assume "k < hc_world c" "j < hc_world c"
    with ctrl_invD(2)[OF assms(1), of k j] a2le show "ctrl_pair ?s k j" by (auto simp: ctrl_pair_def a1 p1 a2)
  next
    fix j r assume j: "j < hc_world c" and r: "r < length rs"
    note old = ctrl_invD(3)[OF assms(1) j r]
    have "h_flag s (parity r) Ph2 i = epoch r" if "j = i" "two_shot rs r" "r < Suc (h_rnd s i)" "Suc (h_rnd s i) \<le> r + 2"
    proof -
      have "r < arrived2 s i \<and> arrived2 s i \<le> r + 2"
        using that assms(4) by (auto simp: arrived2_def two_shot_def) (metis Suc_leI le_antisym less_Suc_eq_le not_less_eq_eq)
      with old that show ?thesis by (simp add: ctrl_flag_def)
    qed
    with old a2le show "ctrl_flag rs ?s j r" unfolding ctrl_flag_def a1 a2 by auto
  qed
qed

lemma ctrl_step:
  assumes "ctrl_inv c rs s" and "har_ok c rs" and "har_step c rs i e s = Some s'"
  shows "ctrl_inv c rs s'"
  using assms(3)
proof (cases rule: har_step_cases)
  case publish1 with ctrl_publish1[OF assms(1)] assms(2) show ?thesis by simp
next
  case publish2 with ctrl_publish2[OF assms(1)] assms(2) show ?thesis by simp
next
  case pass1 with ctrl_pass1[OF assms(1)] show ?thesis by simp
next
  case pass2 with ctrl_pass2[OF assms(1)] show ?thesis by simp
next
  case finish with ctrl_next[OF assms(1)] show ?thesis by simp
next
  case copied with ctrl_next[OF assms(1)] show ?thesis by simp
next
  case stored with assms(1) ctrl_inv_cong[of s' s c rs] show ?thesis by (simp add: frame_simps)
next
  case reduce with assms(1) ctrl_inv_cong[of s' s c rs] show ?thesis by (simp add: frame_simps)
next
  case copy with assms(1) ctrl_inv_cong[of s' s c rs] show ?thesis by (simp add: frame_simps)
qed

lemma ctrl_init:
  assumes "har_ok c rs"
  shows "ctrl_inv c rs (har_init c rs z)"
proof (rule ctrl_invI)
  fix j r assume r: "r < length rs"
  have "epoch r \<noteq> 0" using r assms by (intro epoch_nonzero) (simp add: har_ok_def)
  then show "ctrl_flag rs (har_init c rs z) j r" by (auto simp: ctrl_flag_def har_count_defs har_init_def)
qed (simp_all add: ctrl_rank_def ctrl_pair_def har_count_defs har_init_def)

section \<open>Contents of the slots\<close>

text \<open>What every rank must end up with at element \<open>e\<close> of a round.\<close>

definition spec :: "'v har_cfg \<Rightarrow> 'v round \<Rightarrow> nat \<Rightarrow> 'v" where
  "spec c rd e = (if rd_mode rd = Gather then rd_x rd (e div rd_n rd) (e mod rd_n rd)
                  else hc_sum c (map (\<lambda>j. rd_x rd j e) [0..<hc_world c]))"

definition out_n :: "'v har_cfg \<Rightarrow> 'v round \<Rightarrow> nat" where
  "out_n c rd = (if rd_mode rd = Gather then hc_world c * rd_n rd else rd_n rd)"

definition rem_ok :: "'v har_cfg \<Rightarrow> 'v round list \<Rightarrow> 'v har \<Rightarrow> nat \<Rightarrow> bool" where
  "rem_ok c rs s i \<longleftrightarrow>
     (h_pc s i = Writing \<longrightarrow> set (h_rem s i) \<subseteq> set (write_todo c rs (h_rnd s i) i)) \<and>
     (h_pc s i = Reducing \<longrightarrow> set (h_rem s i) \<subseteq> set (reduce_set c (rs ! h_rnd s i) i)) \<and>
     (h_pc s i = Gathering \<longrightarrow> set (h_rem s i) \<subseteq> set (gather_set c (rs ! h_rnd s i) i))"

definition wrote :: "'v har \<Rightarrow> nat \<Rightarrow> nat \<Rightarrow> nat \<Rightarrow> bool" where
  "wrote s j r e \<longleftrightarrow> h_rnd s j \<le> Suc r \<and> (r < arrived1 s j \<or> r = h_rnd s j \<and> h_pc s j = Writing \<and> e \<notin> set (h_rem s j))"

definition wrote_red :: "'v har \<Rightarrow> nat \<Rightarrow> nat \<Rightarrow> nat \<Rightarrow> bool" where
  "wrote_red s j r e \<longleftrightarrow> h_rnd s j \<le> Suc r \<and> (r < arrived2 s j \<or> r = h_rnd s j \<and> h_pc s j = Reducing \<and> e \<notin> set (h_rem s j))"

definition own_chunk :: "'v har_cfg \<Rightarrow> 'v round \<Rightarrow> nat \<Rightarrow> nat \<Rightarrow> bool" where
  "own_chunk c rd j e \<longleftrightarrow> chunk_lo (hc_world c) (rd_n rd) j \<le> e \<and> e < chunk_hi (hc_world c) (rd_n rd) j"

definition dat_ok :: "'v har_cfg \<Rightarrow> 'v round list \<Rightarrow> 'v har \<Rightarrow> bool" where
  "dat_ok c rs s \<longleftrightarrow> (\<forall>j < hc_world c. \<forall>r < length rs. \<forall>e \<in> set (write_set c (rs ! r) j). wrote s j r e \<longrightarrow>
     h_dat s (dat_addr c (parity r) j e) = rd_x (rs ! r) j e)"

definition red_ok :: "'v har_cfg \<Rightarrow> 'v round list \<Rightarrow> 'v har \<Rightarrow> bool" where
  "red_ok c rs s \<longleftrightarrow> (\<forall>j < hc_world c. \<forall>r < length rs. \<forall>e. two_shot rs r \<longrightarrow> own_chunk c (rs ! r) j e \<longrightarrow> wrote_red s j r e \<longrightarrow>
     h_red s (red_addr c (parity r) j (e - chunk_lo (hc_world c) (rd_n (rs ! r)) j)) = spec c (rs ! r) e)"

definition out_ok :: "'v har_cfg \<Rightarrow> 'v round list \<Rightarrow> 'v har \<Rightarrow> bool" where
  "out_ok c rs s \<longleftrightarrow> (\<forall>i < hc_world c. \<forall>r e v. h_out s i r e = Some v \<longrightarrow> r < length rs \<and> v = spec c (rs ! r) e)"

lemma har_ok_simps:
  assumes "har_ok c rs"
  shows "0 < hc_world c" "0 < hc_round c" "hc_round c mod (hc_world c * 8) = 0"
    "r < length rs \<Longrightarrow> 0 < rd_n (rs ! r)" "r < length rs \<Longrightarrow> rd_n (rs ! r) \<le> hc_round c"
proof -
  show "hc_round c mod (hc_world c * 8) = 0"
  proof -
    have "hc_world c * 8 dvd hc_world c * 1024" by simp
    moreover have "hc_world c * 1024 dvd hc_round c" using assms by (auto simp: har_ok_def)
    ultimately have "hc_world c * 8 dvd hc_round c" by (rule dvd_trans)
    then show ?thesis by simp
  qed
qed (use assms in \<open>auto simp: har_ok_def WORLDS_def list_all_length\<close>)

lemma write_set_mem:
  "e \<in> set (write_set c rd i) \<longleftrightarrow> e < rd_n rd \<and> (rd_mode rd = Reduce2 \<longrightarrow> \<not> own_chunk c rd i e)"
  by (auto simp: write_set_def own_chunk_def)

lemma reduce_set_mem:
  "e \<in> set (reduce_set c rd i) \<longleftrightarrow>
     (case rd_mode rd of Reduce1 \<Rightarrow> e < rd_n rd | Reduce2 \<Rightarrow> own_chunk c rd i e
      | Gather \<Rightarrow> e < hc_world c * rd_n rd \<and> e div rd_n rd \<noteq> i)"
  by (auto simp: reduce_set_def own_chunk_def split: mode.splits)

lemma gather_set_mem: "e \<in> set (gather_set c rd i) \<longleftrightarrow> (\<exists>j < hc_world c. j \<noteq> i \<and> own_chunk c rd j e)"
  by (auto simp: gather_set_def own_chunk_def)

lemma own_chunk_iff:
  assumes "har_ok c rs" and "r < length rs"
  shows "own_chunk c (rs ! r) j e \<longleftrightarrow> e < rd_n (rs ! r) \<and> e div chunk (hc_world c) (rd_n (rs ! r)) = j"
  unfolding own_chunk_def by (rule in_chunk) (use har_ok_simps[OF assms(1)] assms(2) in auto)

lemma own_chunk_unique:
  assumes "har_ok c rs" and "r < length rs" and "own_chunk c (rs ! r) i e" and "own_chunk c (rs ! r) j e"
  shows "i = j"
  using assms(3,4) unfolding own_chunk_iff[OF assms(1,2)] by simp

lemma own_chunk_offset:
  assumes "har_ok c rs" and "r < length rs" and "own_chunk c (rs ! r) j e"
  shows "e - chunk_lo (hc_world c) (rd_n (rs ! r)) j < hc_round c div hc_world c"
proof -
  have "chunk (hc_world c) (rd_n (rs ! r)) \<le> hc_round c div hc_world c"
    by (rule chunk_fits) (use har_ok_simps[OF assms(1)] assms(2) in auto)
  then show ?thesis using assms(3) unfolding own_chunk_def chunk_hi_def by linarith
qed

lemma round_window:
  assumes "ctrl_inv c rs s" and "i < hc_world c" and "j < hc_world c" and "h_pc s i \<noteq> Writing"
  shows "h_rnd s j \<le> Suc (h_rnd s i)" "arrived1 s j \<le> h_rnd s i + 2" "arrived2 s j \<le> h_rnd s i + 2"
proof -
  have "passed1 s j \<le> Suc (h_rnd s i)" using ctrl_invD(2)[OF assms(1,3,2)] assms(4) by (simp add: ctrl_pair_def arrived1_def)
  then show "h_rnd s j \<le> Suc (h_rnd s i)" "arrived1 s j \<le> h_rnd s i + 2" "arrived2 s j \<le> h_rnd s i + 2"
    by (simp_all add: har_count_defs split: if_splits)
qed

lemma read_dat:
  assumes "ctrl_inv c rs s" and "dat_ok c rs s" and "i < hc_world c" and "j < hc_world c" and "h_rnd s i < length rs"
    and "h_pc s i = Reducing" and "e \<in> set (write_set c (rs ! h_rnd s i) j)"
  shows "h_dat s (dat_addr c (parity (h_rnd s i)) j e) = rd_x (rs ! h_rnd s i) j e"
proof -
  have "h_rnd s i < arrived1 s j" using ctrl_invD(2)[OF assms(1,3,4)] assms(6) by (simp add: ctrl_pair_def passed1_def)
  moreover have "h_rnd s j \<le> Suc (h_rnd s i)" by (rule round_window(1)[OF assms(1,3,4)]) (simp add: assms(6))
  ultimately have "wrote s j (h_rnd s i) e" by (simp add: wrote_def)
  with assms(2,4,5,7) show ?thesis unfolding dat_ok_def by blast
qed

lemma read_red:
  assumes "ctrl_inv c rs s" and "red_ok c rs s" and "i < hc_world c" and "j < hc_world c" and "h_rnd s i < length rs"
    and "h_pc s i = Gathering" and "own_chunk c (rs ! h_rnd s i) j e"
  shows "h_red s (red_addr c (parity (h_rnd s i)) j (e - chunk_lo (hc_world c) (rd_n (rs ! h_rnd s i)) j)) = spec c (rs ! h_rnd s i) e"
proof -
  have "h_rnd s i < arrived2 s j" using ctrl_invD(2)[OF assms(1,3,4)] assms(6) by (simp add: ctrl_pair_def)
  moreover have "h_rnd s j \<le> Suc (h_rnd s i)" by (rule round_window(1)[OF assms(1,3,4)]) (simp add: assms(6))
  moreover have "two_shot rs (h_rnd s i)" using ctrl_invD(1)[OF assms(1,3)] assms(6) by (simp add: ctrl_rank_def)
  ultimately have "wrote_red s j (h_rnd s i) e" by (simp add: wrote_red_def)
  with assms(2,4,5,7) \<open>two_shot rs (h_rnd s i)\<close> show ?thesis unfolding red_ok_def by blast
qed

text \<open>A rank that has passed the first barrier reduces exactly what the specification asks for.\<close>

lemma reduced_spec:
  assumes "ctrl_inv c rs s" and "dat_ok c rs s" and "har_ok c rs" and "i < hc_world c" and "h_rnd s i < length rs"
    and "h_pc s i = Reducing" and "e \<in> set (reduce_set c (rs ! h_rnd s i) i)"
  shows "reduced c (rs ! h_rnd s i) i e s = spec c (rs ! h_rnd s i) e"
proof (cases "rd_mode (rs ! h_rnd s i) = Gather")
  case True
  let ?n = "rd_n (rs ! h_rnd s i)"
  have n: "0 < ?n" by (rule har_ok_simps(4)[OF assms(3,5)])
  have "e div ?n < hc_world c" "e mod ?n \<in> set (write_set c (rs ! h_rnd s i) (e div ?n))"
    using assms(7) True n by (auto simp: reduce_set_mem write_set_mem div_less_iff_less_mult)
  then show ?thesis using read_dat[OF assms(1,2,4) _ assms(5,6)] True by (simp add: reduced_def spec_def Let_def)
next
  case False
  have "h_dat s (dat_addr c (parity (h_rnd s i)) j e) = rd_x (rs ! h_rnd s i) j e" if "j < hc_world c" "j \<noteq> i" for j
  proof (rule read_dat[OF assms(1,2,4) that(1) assms(5,6)])
    show "e \<in> set (write_set c (rs ! h_rnd s i) j)"
      using assms(7) False that(2) own_chunk_unique[OF assms(3,5), of i e j] own_chunk_iff[OF assms(3,5), of i e]
      by (auto simp: reduce_set_mem write_set_mem split: mode.splits)
  qed
  then have "map (\<lambda>j. if j = i then rd_x (rs ! h_rnd s i) i e else h_dat s (dat_addr c (parity (h_rnd s i)) j e)) [0..<hc_world c] =
    map (\<lambda>j. rd_x (rs ! h_rnd s i) j e) [0..<hc_world c]" by (intro map_cong) auto
  then show ?thesis unfolding reduced_def spec_def Let_def if_not_P[OF False] by (rule arg_cong)
qed

lemma do_write_sel [simp]:
  "h_rnd (do_write c rd i e s) = h_rnd s" "h_pc (do_write c rd i e s) = h_pc s"
  "h_rem (do_write c rd i e s) = (h_rem s)(i := removeAll e (h_rem s i))"
  "h_dat (do_write c rd i e s) = (h_dat s)(dat_addr c (parity (h_rnd s i)) i e := rd_x rd i e)" "h_red (do_write c rd i e s) = h_red s"
  by (simp_all add: do_write_def Let_def)

lemma do_reduce_sel [simp]:
  "h_rnd (do_reduce c rd i e s) = h_rnd s" "h_pc (do_reduce c rd i e s) = h_pc s"
  "h_rem (do_reduce c rd i e s) = (h_rem s)(i := removeAll e (h_rem s i))" "h_dat (do_reduce c rd i e s) = h_dat s"
  "h_red (do_reduce c rd i e s) =
     (if rd_mode rd = Reduce2
      then (h_red s)(red_addr c (parity (h_rnd s i)) i (e - chunk_lo (hc_world c) (rd_n rd) i) := reduced c rd i e s) else h_red s)"
  "h_out (do_reduce c rd i e s) i' r x =
     (if i' = i \<and> r = h_rnd s i \<and> x = e then Some (reduced c rd i e s) else h_out s i' r x)"
  by (simp_all add: do_reduce_def put_out_def Let_def)

lemma do_copy_sel [simp]:
  "h_rnd (do_copy c rd i e s) = h_rnd s" "h_pc (do_copy c rd i e s) = h_pc s"
  "h_rem (do_copy c rd i e s) = (h_rem s)(i := removeAll e (h_rem s i))" "h_dat (do_copy c rd i e s) = h_dat s"
  "h_red (do_copy c rd i e s) = h_red s"
  "h_out (do_copy c rd i e s) i' r x =
     (if i' = i \<and> r = h_rnd s i \<and> x = e
      then Some (h_red s (red_addr c (parity (h_rnd s i)) (e div chunk (hc_world c) (rd_n rd))
             (e - chunk_lo (hc_world c) (rd_n rd) (e div chunk (hc_world c) (rd_n rd)))))
      else h_out s i' r x)"
  by (simp_all add: do_copy_def put_out_def Let_def)

lemma do_write_out:
  "h_out (do_write c rd i e s) i' r x =
     (if rd_mode rd = Gather \<and> i' = i \<and> r = h_rnd s i \<and> x = i * rd_n rd + e then Some (rd_x rd i e) else h_out s i' r x)"
  by (simp add: do_write_def Let_def)

subsection \<open>Remaining work\<close>

lemma rem_step:
  assumes "har_step c rs i e s = Some s'" and "\<forall>k < hc_world c. rem_ok c rs s k" and "k < hc_world c"
  shows "rem_ok c rs s' k"
proof -
  have "rem_ok c rs s k" using assms(2,3) by blast
  with assms(1) show ?thesis by (cases rule: har_step_cases) (auto simp: rem_ok_def)
qed

subsection \<open>Slots of the first phase\<close>

lemma wrote_mono_frame:
  assumes "har_step c rs i e s = Some s'" and "wrote s' j r f" and "r < length rs" and "f \<in> set (write_set c (rs ! r) j)"
  shows "wrote s j r f \<or> (j = i \<and> r = h_rnd s i \<and> h_pc s i = Writing \<and> f = e \<and> s' = do_write c (rs ! r) i e s)"
  using assms(1)
proof (cases rule: har_step_cases)
  case stored with assms show ?thesis by (auto simp: wrote_def arrived1_def split: if_splits)
next
  case publish1 with assms show ?thesis by (auto simp: wrote_def arrived1_def split: if_splits)
next
  case pass1 with assms show ?thesis by (auto simp: wrote_def arrived1_def split: if_splits)
next
  case reduce with assms show ?thesis by (auto simp: wrote_def arrived1_def split: if_splits)
next
  case publish2 with assms show ?thesis by (auto simp: wrote_def arrived1_def split: if_splits)
next
  case finish with assms show ?thesis by (auto simp: wrote_def arrived1_def write_todo_def split: if_splits)
next
  case pass2 with assms show ?thesis by (auto simp: wrote_def arrived1_def split: if_splits)
next
  case copy with assms show ?thesis by (auto simp: wrote_def arrived1_def split: if_splits)
next
  case copied with assms show ?thesis by (auto simp: wrote_def arrived1_def write_todo_def split: if_splits)
qed

lemma dat_frame: "har_step c rs i e s = Some s' \<Longrightarrow> h_pc s i \<noteq> Writing \<Longrightarrow> h_dat s' = h_dat s"
  by (erule har_step_cases) simp_all

text \<open>A store lands in a slot of the other parity than the round the other ranks may still read.\<close>

lemma other_slot:
  assumes "har_ok c rs" and "i < hc_world c" and "j < hc_world c" and "h_rnd s i < length rs" and "r < length rs"
    and "e < hc_round c" and "f < hc_round c" and "h_pc s i = Writing" and "wrote s j r f"
    and "dat_addr c (parity r) j f = dat_addr c (parity (h_rnd s i)) i e"
  shows "j = i \<and> r = h_rnd s i \<and> f = e"
proof -
  from slot_addr_inj[OF assms(10,7,6,3,2)] have eq: "parity r = parity (h_rnd s i)" "j = i" "f = e" by simp_all
  have "r = h_rnd s i \<or> Suc r = h_rnd s i" using assms(8,9) eq(2) by (auto simp: wrote_def arrived1_def)
  then show ?thesis using eq parity_neq[of r] by auto
qed

lemma dat_step:
  assumes "har_ok c rs" and "har_step c rs i e s = Some s'" and "\<forall>k < hc_world c. rem_ok c rs s k" and "dat_ok c rs s"
  shows "dat_ok c rs s'"
  unfolding dat_ok_def
proof (intro allI ballI impI)
  fix j r f assume j: "j < hc_world c" and r: "r < length rs" and f: "f \<in> set (write_set c (rs ! r) j)" and w: "wrote s' j r f"
  from wrote_mono_frame[OF assms(2) w r f]
  consider (new) "j = i" "r = h_rnd s i" "f = e" "s' = do_write c (rs ! r) i e s" | (old) "wrote s j r f" by blast
  then show "h_dat s' (dat_addr c (parity r) j f) = rd_x (rs ! r) j f"
  proof cases
    case new then show ?thesis by simp
  next
    case old
    have prev: "h_dat s (dat_addr c (parity r) j f) = rd_x (rs ! r) j f" using assms(4) j r f old unfolding dat_ok_def by blast
    from assms(2) show ?thesis
    proof (cases rule: har_step_cases)
      case stored
      have "e \<in> set (write_set c (rs ! h_rnd s i) i)"
        using assms(3) stored by (auto simp: rem_ok_def write_todo_def)
      then have "e < hc_round c" "f < hc_round c"
        using har_ok_simps(5)[OF assms(1)] stored(2) r f by (auto simp: write_set_mem intro: less_le_trans)
      from other_slot[OF assms(1) stored(1) j stored(2) r this stored(3) old] prev stored(5) show ?thesis by auto
    qed (use prev dat_frame[OF assms(2)] in auto)
  qed
qed

subsection \<open>Slots of the second phase\<close>

lemma wrote_red_frame:
  assumes "har_step c rs i e s = Some s'" and "wrote_red s' j r f" and "two_shot rs r" and "own_chunk c (rs ! r) j f"
    and "ctrl_rank rs s i"
  shows "wrote_red s j r f \<or> (j = i \<and> r = h_rnd s i \<and> h_pc s i = Reducing \<and> f = e \<and> s' = do_reduce c (rs ! r) i e s)"
  using assms(1)
proof (cases rule: har_step_cases)
  case stored with assms show ?thesis by (auto simp: wrote_red_def arrived2_def split: if_splits)
next
  case publish1 with assms show ?thesis by (auto simp: wrote_red_def arrived2_def split: if_splits)
next
  case pass1 with assms show ?thesis by (auto simp: wrote_red_def arrived2_def reduce_set_mem two_shot_def split: if_splits)
next
  case reduce with assms show ?thesis by (auto simp: wrote_red_def arrived2_def split: if_splits)
next
  case publish2 with assms show ?thesis by (auto simp: wrote_red_def arrived2_def split: if_splits)
next
  case finish with assms show ?thesis by (auto simp: wrote_red_def arrived2_def two_shot_def split: if_splits)
next
  case pass2 with assms show ?thesis by (auto simp: wrote_red_def arrived2_def split: if_splits)
next
  case copy with assms show ?thesis by (auto simp: wrote_red_def arrived2_def split: if_splits)
next
  case copied with assms show ?thesis by (auto simp: wrote_red_def arrived2_def split: if_splits)
qed

lemma red_frame: "har_step c rs i e s = Some s' \<Longrightarrow> h_pc s i \<noteq> Reducing \<Longrightarrow> h_red s' = h_red s"
  by (erule har_step_cases) simp_all

lemma other_red_slot:
  assumes "har_ok c rs" and "i < hc_world c" and "j < hc_world c" and "h_rnd s i < length rs" and "r < length rs"
    and "own_chunk c (rs ! h_rnd s i) i e" and "own_chunk c (rs ! r) j f" and "h_pc s i = Reducing" and "wrote_red s j r f"
    and "red_addr c (parity r) j (f - chunk_lo (hc_world c) (rd_n (rs ! r)) j) =
         red_addr c (parity (h_rnd s i)) i (e - chunk_lo (hc_world c) (rd_n (rs ! h_rnd s i)) i)"
  shows "j = i \<and> r = h_rnd s i \<and> f = e"
proof -
  from slot_addr_inj[OF assms(10) own_chunk_offset[OF assms(1,5,7)] own_chunk_offset[OF assms(1,4,6)] assms(3,2)]
  have eq: "parity r = parity (h_rnd s i)" "j = i"
    "f - chunk_lo (hc_world c) (rd_n (rs ! r)) j = e - chunk_lo (hc_world c) (rd_n (rs ! h_rnd s i)) i" by blast+
  have "r = h_rnd s i \<or> Suc r = h_rnd s i" using assms(8,9) eq(2) by (auto simp: wrote_red_def arrived2_def)
  then have "r = h_rnd s i" using eq(1) parity_neq[of r] by auto
  then show ?thesis using eq assms(6,7) unfolding own_chunk_def by auto
qed

lemma red_step:
  assumes "har_ok c rs" and "har_step c rs i e s = Some s'" and "\<forall>k < hc_world c. rem_ok c rs s k" and "ctrl_inv c rs s"
    and "dat_ok c rs s" and "red_ok c rs s"
  shows "red_ok c rs s'"
  unfolding red_ok_def
proof (intro allI ballI impI)
  fix j r f assume j: "j < hc_world c" and r: "r < length rs" and t: "two_shot rs r" and f: "own_chunk c (rs ! r) j f"
    and w: "wrote_red s' j r f"
  have i: "i < hc_world c" using assms(2) by (cases rule: har_step_cases) simp_all
  have red: "reduced c (rs ! h_rnd s i) i e s = spec c (rs ! h_rnd s i) e \<and> e \<in> set (reduce_set c (rs ! h_rnd s i) i)"
    if "h_pc s i = Reducing" "h_rnd s i < length rs" "e \<in> set (h_rem s i)"
    using reduced_spec[OF assms(4,5,1) i] that assms(3) i by (auto simp: rem_ok_def)
  from wrote_red_frame[OF assms(2) w t f ctrl_invD(1)[OF assms(4) i]]
  consider (new) "j = i" "r = h_rnd s i" "f = e" "h_pc s i = Reducing" "s' = do_reduce c (rs ! r) i e s" | (old) "wrote_red s j r f" by blast
  then show "h_red s' (red_addr c (parity r) j (f - chunk_lo (hc_world c) (rd_n (rs ! r)) j)) = spec c (rs ! r) f"
  proof cases
    case new
    have "reduced c (rs ! h_rnd s i) i e s = spec c (rs ! h_rnd s i) e"
      by (rule reduced_spec[OF assms(4,5,1) i]) (use new t f in \<open>auto simp: two_shot_def reduce_set_mem\<close>)
    then show ?thesis using new t by (simp add: two_shot_def)
  next
    case old
    have prev: "h_red s (red_addr c (parity r) j (f - chunk_lo (hc_world c) (rd_n (rs ! r)) j)) = spec c (rs ! r) f"
      using assms(6) j r t f old unfolding red_ok_def by blast
    from assms(2) show ?thesis
    proof (cases rule: har_step_cases)
      case reduce
      show ?thesis
      proof (cases "rd_mode (rs ! h_rnd s i) = Reduce2")
        case True
        with red[OF reduce(3,2,4)] have own: "own_chunk c (rs ! h_rnd s i) i e" by (simp add: reduce_set_mem)
        from other_red_slot[OF assms(1) i j reduce(2) r own f reduce(3) old] prev red[OF reduce(3,2,4)] reduce(5) True
        show ?thesis by auto
      qed (use reduce(5) prev in simp)
    qed (use prev red_frame[OF assms(2)] in auto)
  qed
qed

subsection \<open>Outputs\<close>

lemma copy_spec:
  assumes "har_ok c rs" and "ctrl_inv c rs s" and "red_ok c rs s" and "i < hc_world c" and "h_rnd s i < length rs"
    and "h_pc s i = Gathering" and "e \<in> set (gather_set c (rs ! h_rnd s i) i)"
  shows "h_red s (red_addr c (parity (h_rnd s i)) (e div chunk (hc_world c) (rd_n (rs ! h_rnd s i)))
     (e - chunk_lo (hc_world c) (rd_n (rs ! h_rnd s i)) (e div chunk (hc_world c) (rd_n (rs ! h_rnd s i))))) = spec c (rs ! h_rnd s i) e"
proof -
  from assms(7) obtain j where j: "j < hc_world c" "own_chunk c (rs ! h_rnd s i) j e" by (auto simp: gather_set_mem)
  then have "e div chunk (hc_world c) (rd_n (rs ! h_rnd s i)) = j" using own_chunk_iff[OF assms(1,5)] by blast
  with read_red[OF assms(2,3,4) j(1) assms(5,6) j(2)] show ?thesis by simp
qed

lemma out_step:
  assumes "har_ok c rs" and "har_step c rs i e s = Some s'" and "\<forall>k < hc_world c. rem_ok c rs s k" and "ctrl_inv c rs s"
    and "dat_ok c rs s" and "red_ok c rs s" and "out_ok c rs s"
  shows "out_ok c rs s'"
  unfolding out_ok_def
proof (intro allI impI)
  fix i' r x v assume i': "i' < hc_world c" and v: "h_out s' i' r x = Some v"
  have prev: "h_out s i' r x = Some v \<Longrightarrow> r < length rs \<and> v = spec c (rs ! r) x" using assms(7) i' unfolding out_ok_def by blast
  from assms(2) show "r < length rs \<and> v = spec c (rs ! r) x"
  proof (cases rule: har_step_cases)
    case stored
    have "e < rd_n (rs ! h_rnd s i)"
      using assms(3) stored by (auto simp: rem_ok_def write_todo_def write_set_mem)
    then show ?thesis using v stored prev by (auto simp: do_write_out spec_def split: if_splits)
  next
    case reduce
    have "reduced c (rs ! h_rnd s i) i e s = spec c (rs ! h_rnd s i) e"
      by (rule reduced_spec[OF assms(4,5,1)]) (use reduce assms(3) in \<open>auto simp: rem_ok_def\<close>)
    then show ?thesis using v reduce prev by (auto split: if_splits)
  next
    case copy
    from copy_spec[OF assms(1,4,6) copy(1,2,3)] copy assms(3) v prev show ?thesis by (auto simp: rem_ok_def split: if_splits)
  qed (use v prev in simp_all)
qed

subsection \<open>Elements not yet produced\<close>

definition left :: "'v har_cfg \<Rightarrow> 'v round list \<Rightarrow> 'v har \<Rightarrow> nat \<Rightarrow> nat \<Rightarrow> bool" where
  "left c rs s i e \<longleftrightarrow>
     (let rd = rs ! h_rnd s i; late = (rd_mode rd = Reduce2 \<and> e \<in> set (gather_set c rd i))
      in case h_pc s i of
           Writing \<Rightarrow> rd_mode rd = Gather \<longrightarrow> e div rd_n rd = i \<longrightarrow> e mod rd_n rd \<in> set (h_rem s i)
         | Wait1 \<Rightarrow> e \<in> set (reduce_set c rd i) \<or> late
         | Reducing \<Rightarrow> e \<in> set (h_rem s i) \<or> late
         | Wait2 \<Rightarrow> late
         | Gathering \<Rightarrow> e \<in> set (h_rem s i))"

definition done_ok :: "'v har_cfg \<Rightarrow> 'v round list \<Rightarrow> 'v har \<Rightarrow> bool" where
  "done_ok c rs s \<longleftrightarrow> (\<forall>i < hc_world c. \<forall>r < length rs. \<forall>e < out_n c (rs ! r).
     h_out s i r e = None \<longrightarrow> h_rnd s i \<le> r \<and> (r = h_rnd s i \<longrightarrow> left c rs s i e))"

lemma out_kept: "har_step c rs i e s = Some s' \<Longrightarrow> h_out s' i' r x = None \<Longrightarrow> h_out s i' r x = None"
  by (erule har_step_cases) (auto simp: do_write_out split: if_splits)

lemma other_frame: "har_step c rs i e s = Some s' \<Longrightarrow> k \<noteq> i \<Longrightarrow> h_rnd s' k = h_rnd s k \<and> h_pc s' k = h_pc s k \<and> h_rem s' k = h_rem s k"
  by (erule har_step_cases) simp_all

lemma left_other: "har_step c rs i e s = Some s' \<Longrightarrow> k \<noteq> i \<Longrightarrow> h_rnd s' k = h_rnd s k \<and> left c rs s' k x = left c rs s k x"
  using other_frame[of c rs i e s s' k] by (cases "h_pc s k") (simp_all add: left_def Let_def)

lemma out_split:
  assumes "har_ok c rs" and "i < hc_world c" and "r < length rs" and "x < out_n c (rs ! r)"
  shows "rd_mode (rs ! r) = Gather \<and> x div rd_n (rs ! r) = i \<and> x mod rd_n (rs ! r) < rd_n (rs ! r) \<or>
     x \<in> set (reduce_set c (rs ! r) i) \<or> rd_mode (rs ! r) = Reduce2 \<and> x \<in> set (gather_set c (rs ! r) i)"
proof (cases "rd_mode (rs ! r)")
  case Reduce2
  then have x: "x < rd_n (rs ! r)" using assms(4) by (simp add: out_n_def)
  then have "x div chunk (hc_world c) (rd_n (rs ! r)) < hc_world c" by (rule chunk_owner) (rule har_ok_simps(1)[OF assms(1)])
  with Reduce2 x show ?thesis unfolding reduce_set_mem gather_set_mem own_chunk_iff[OF assms(1,3)] by auto
qed (use assms(4) har_ok_simps(4)[OF assms(1,3)] in \<open>auto simp: out_n_def reduce_set_mem\<close>)

lemma div_mod_unique: "x div n = (i::nat) \<Longrightarrow> x = i * n + x mod n"
  by (metis div_mult_mod_eq)

lemma left_step:
  assumes "har_ok c rs" and "har_step c rs i e s = Some s'" and "ctrl_inv c rs s" and "r < length rs" and "x < out_n c (rs ! r)"
    and "h_out s' i r x = None" and "h_rnd s i \<le> r" and "r = h_rnd s i \<Longrightarrow> left c rs s i x"
  shows "h_rnd s' i \<le> r \<and> (r = h_rnd s' i \<longrightarrow> left c rs s' i x)"
  using assms(2)
proof (cases rule: har_step_cases)
  case stored
  then show ?thesis using assms(6-8) div_mod_unique[of x "rd_n (rs ! r)" i] by (auto simp: left_def do_write_out Let_def)
next
  case publish1
  then show ?thesis using assms(7,8) out_split[OF assms(1) publish1(1) assms(4,5)] by (auto simp: left_def Let_def)
next
  case pass1 then show ?thesis using assms(7,8) by (auto simp: left_def Let_def)
next
  case reduce then show ?thesis using assms(6-8) by (auto simp: left_def Let_def)
next
  case publish2 then show ?thesis using assms(7,8) by (auto simp: left_def Let_def)
next
  case finish
  then have "r \<noteq> h_rnd s i" using assms(8) by (auto simp: left_def Let_def)
  then show ?thesis using assms(4,7) finish out_split[OF assms(1) finish(1) assms(4,5)] har_ok_simps(4)[OF assms(1,4)]
    by (auto simp: left_def Let_def write_todo_def write_set_mem)
next
  case pass2 then show ?thesis using assms(7,8) by (auto simp: left_def Let_def)
next
  case copy then show ?thesis using assms(6-8) by (auto simp: left_def Let_def)
next
  case copied
  then have "r \<noteq> h_rnd s i" using assms(8) by (auto simp: left_def Let_def)
  then show ?thesis using assms(4,7) copied out_split[OF assms(1) copied(1) assms(4,5)] har_ok_simps(4)[OF assms(1,4)]
    by (auto simp: left_def Let_def write_todo_def write_set_mem)
qed

lemma done_step:
  assumes "har_ok c rs" and "har_step c rs i e s = Some s'" and "ctrl_inv c rs s" and "done_ok c rs s"
  shows "done_ok c rs s'"
  unfolding done_ok_def
proof (intro allI impI)
  fix k r x assume k: "k < hc_world c" "r < length rs" "x < out_n c (rs ! r)" and none: "h_out s' k r x = None"
  have prev: "h_rnd s k \<le> r \<and> (r = h_rnd s k \<longrightarrow> left c rs s k x)"
    using assms(4) k out_kept[OF assms(2) none] unfolding done_ok_def by blast
  show "h_rnd s' k \<le> r \<and> (r = h_rnd s' k \<longrightarrow> left c rs s' k x)"
  proof (cases "k = i")
    case True
    show ?thesis using left_step[OF assms(1-3) k(2,3)] none prev unfolding True by blast
  next
    case False with left_other[OF assms(2) False] prev show ?thesis by simp
  qed
qed

section \<open>Reachable states\<close>

definition har_inv :: "'v har_cfg \<Rightarrow> 'v round list \<Rightarrow> 'v har \<Rightarrow> bool" where
  "har_inv c rs s \<longleftrightarrow> ctrl_inv c rs s \<and> (\<forall>k < hc_world c. rem_ok c rs s k) \<and> dat_ok c rs s \<and> red_ok c rs s \<and> out_ok c rs s \<and> done_ok c rs s"

lemma har_inv_init:
  assumes "har_ok c rs"
  shows "har_inv c rs (har_init c rs z)"
  unfolding har_inv_def
proof (intro conjI)
  show "ctrl_inv c rs (har_init c rs z)" by (rule ctrl_init[OF assms])
  show "done_ok c rs (har_init c rs z)"
    using har_ok_simps(4)[OF assms] by (auto simp: done_ok_def har_init_def left_def Let_def write_todo_def write_set_mem)
qed (auto simp: rem_ok_def dat_ok_def red_ok_def out_ok_def har_init_def wrote_def wrote_red_def har_count_defs write_todo_def)

lemma har_inv_step: "har_ok c rs \<Longrightarrow> har_inv c rs s \<Longrightarrow> har_step c rs i e s = Some s' \<Longrightarrow> har_inv c rs s'"
  unfolding har_inv_def using ctrl_step rem_step dat_step red_step out_step done_step by meson

lemma har_reach_inv: "har_run c rs z s \<Longrightarrow> har_ok c rs \<Longrightarrow> har_inv c rs s"
  by (induction rule: har_run.induct) (auto intro: har_inv_init har_inv_step)

definition all_finished :: "'v har_cfg \<Rightarrow> 'v round list \<Rightarrow> 'v har \<Rightarrow> bool" where
  "all_finished c rs s \<longleftrightarrow> list_all (\<lambda>i. h_rnd s i = length rs) [0..<hc_world c]"

lemma barrier_open_all:
  assumes "ctrl_inv c rs s" and "i < hc_world c" and "h_rnd s i < length rs" and "h_pc s i = Wait1"
    and "\<And>j. j < hc_world c \<Longrightarrow> h_rnd s i < arrived1 s j"
  shows "barrier_open c Ph1 i s"
  using ctrl_invD(3)[OF assms(1) _ assms(3)] assms(5) round_window(2)[OF assms(1,2)] assms(4)
  by (auto simp: barrier_open_iff ctrl_flag_def)

lemma barrier_open_all2:
  assumes "ctrl_inv c rs s" and "i < hc_world c" and "h_rnd s i < length rs" and "h_pc s i = Wait2"
    and "\<And>j. j < hc_world c \<Longrightarrow> h_rnd s i < arrived2 s j"
  shows "barrier_open c Ph2 i s"
  using ctrl_invD(3)[OF assms(1) _ assms(3)] ctrl_invD(1)[OF assms(1,2)] assms(5) round_window(3)[OF assms(1,2)] assms(4)
  by (auto simp: barrier_open_iff ctrl_flag_def ctrl_rank_def)

lemma busy_step:
  assumes "i < hc_world c" and "h_rnd s i < length rs" and "h_pc s i \<in> {Writing, Reducing, Gathering}"
  shows "\<exists>e s'. har_step c rs i e s = Some s'"
proof (cases "h_rem s i")
  case Nil with assms show ?thesis by (auto simp: har_step_def Let_def)
next
  case (Cons e l)
  with assms have "har_step c rs i e s \<noteq> None" by (auto simp: har_step_def Let_def)
  then show ?thesis by blast
qed

lemma progress:
  assumes inv: "ctrl_inv c rs s" and i: "i < hc_world c" "h_rnd s i < length rs"
  shows "\<exists>i e s'. har_step c rs i e s = Some s'"
proof (cases "\<exists>k < hc_world c. h_rnd s k < length rs \<and> h_pc s k \<in> {Writing, Reducing, Gathering}")
  case True then show ?thesis using busy_step by blast
next
  case False
  define key where "key k = 2 * h_rnd s k + (if h_pc s k = Wait2 then 1 else 0)" for k
  define U where "U = {k. k < hc_world c \<and> h_rnd s k < length rs}"
  have "i \<in> U" "finite U" using i by (simp_all add: U_def)
  then obtain m where m: "m \<in> U" "\<And>k. k \<in> U \<Longrightarrow> key m \<le> key k"
    by (metis (mono_tags) arg_min_if_finite(1) arg_min_least empty_iff)
  have wait: "h_pc s k = Wait1 \<or> h_pc s k = Wait2" if "k \<in> U" for k
    using that False unfolding U_def by (cases "h_pc s k") auto
  have fin: "h_rnd s k = length rs \<and> h_pc s k = Writing" if "k < hc_world c" "k \<notin> U" for k
    using ctrl_invD(1)[OF inv that(1)] that unfolding U_def ctrl_rank_def by auto
  have mw: "m < hc_world c" "h_rnd s m < length rs" using m(1) by (simp_all add: U_def)
  show ?thesis
  proof (cases "h_pc s m = Wait1")
    case True
    have "h_rnd s m < arrived1 s j" if "j < hc_world c" for j
    proof (cases "j \<in> U")
      case u: True
      then show ?thesis using m(2)[OF u] wait[OF u] True by (auto simp: key_def arrived1_def split: if_splits)
    qed (use fin[OF that] mw(2) in \<open>simp add: arrived1_def\<close>)
    from barrier_open_all[OF inv mw True this]
    have "har_step c rs m 0 s = Some (do_pass m Reducing (reduce_set c (rs ! h_rnd s m) m) s)" using mw True by (simp add: har_step_def)
    then show ?thesis by blast
  next
    case f: False
    then have w2: "h_pc s m = Wait2" using wait[OF m(1)] by simp
    have "h_rnd s m < arrived2 s j" if "j < hc_world c" for j
    proof (cases "j \<in> U")
      case u: True
      then show ?thesis using m(2)[OF u] wait[OF u] w2 by (auto simp: key_def arrived2_def split: if_splits)
    qed (use fin[OF that] mw(2) in \<open>simp add: arrived2_def\<close>)
    from barrier_open_all2[OF inv mw w2 this]
    have "har_step c rs m 0 s = Some (do_pass m Gathering (gather_set c (rs ! h_rnd s m) m) s)" using mw w2 by (simp add: har_step_def)
    then show ?thesis by blast
  qed
qed

section \<open>Bound on the number of steps\<close>

definition round_cost :: "'v har_cfg \<Rightarrow> nat \<Rightarrow> 'v round \<Rightarrow> nat" where
  "round_cost c i rd = length (write_set c rd i) + length (reduce_set c rd i) + length (gather_set c rd i) + 5"

definition rank_cost :: "'v har_cfg \<Rightarrow> 'v round list \<Rightarrow> 'v har \<Rightarrow> nat \<Rightarrow> nat" where
  "rank_cost c rs s i =
     (if h_rnd s i < length rs
      then let rd = rs ! h_rnd s i
           in sum_list (map (round_cost c i) (drop (Suc (h_rnd s i)) rs)) +
              (case h_pc s i of
                 Writing \<Rightarrow> length (h_rem s i) + length (reduce_set c rd i) + length (gather_set c rd i) + 5
               | Wait1 \<Rightarrow> length (reduce_set c rd i) + length (gather_set c rd i) + 4
               | Reducing \<Rightarrow> length (h_rem s i) + length (gather_set c rd i) + 3
               | Wait2 \<Rightarrow> length (gather_set c rd i) + 2
               | Gathering \<Rightarrow> length (h_rem s i) + 1)
      else 0)"

definition har_cost :: "'v har_cfg \<Rightarrow> 'v round list \<Rightarrow> 'v har \<Rightarrow> nat" where
  "har_cost c rs s = sum (rank_cost c rs s) {0..<hc_world c}"

lemma later_rounds:
  "r < length rs \<Longrightarrow> sum_list (map (round_cost c i) (drop r rs)) = round_cost c i (rs ! r) + sum_list (map (round_cost c i) (drop (Suc r) rs))"
  by (simp add: Cons_nth_drop_Suc[symmetric])

lemma rank_cost_next:
  assumes "h_rnd s i < length rs"
  shows "rank_cost c rs (next_round c rs i s) i = sum_list (map (round_cost c i) (drop (Suc (h_rnd s i)) rs))"
proof (cases "Suc (h_rnd s i) < length rs")
  case True
  then show ?thesis by (simp add: rank_cost_def write_todo_def Let_def round_cost_def later_rounds[OF True])
qed (simp add: rank_cost_def)

lemma rank_cost_step:
  assumes "har_step c rs i e s = Some s'"
  shows "rank_cost c rs s' i < rank_cost c rs s i"
  using assms
proof (cases rule: har_step_cases)
  case finish
  then show ?thesis using rank_cost_next[OF finish(2), of c] by (simp add: rank_cost_def Let_def)
next
  case copied
  then show ?thesis using rank_cost_next[OF copied(2), of c] by (simp add: rank_cost_def Let_def)
qed (auto simp: rank_cost_def Let_def length_removeAll_less)

lemma har_cost_step:
  assumes "har_step c rs i e s = Some s'"
  shows "har_cost c rs s' < har_cost c rs s"
  unfolding har_cost_def
proof (rule sum_strict_mono_ex1)
  have i: "i < hc_world c" using assms by (cases rule: har_step_cases) simp_all
  have other: "rank_cost c rs s' k = rank_cost c rs s k" if "k \<noteq> i" for k
    using other_frame[OF assms that] by (cases "h_pc s k") (simp_all add: rank_cost_def Let_def)
  show "\<forall>k \<in> {0..<hc_world c}. rank_cost c rs s' k \<le> rank_cost c rs s k"
    using other rank_cost_step[OF assms] by (metis less_imp_le order_refl)
  show "\<exists>k \<in> {0..<hc_world c}. rank_cost c rs s' k < rank_cost c rs s k"
    using rank_cost_step[OF assms] i by auto
qed simp

text \<open>A schedule names the rank that steps and the element it takes.\<close>

fun har_exec :: "'v har_cfg \<Rightarrow> 'v round list \<Rightarrow> (nat \<times> nat) list \<Rightarrow> 'v har \<Rightarrow> 'v har option" where
  "har_exec c rs [] s = Some s"
| "har_exec c rs ((i, e) # sched) s = (case har_step c rs i e s of None \<Rightarrow> None | Some s' \<Rightarrow> har_exec c rs sched s')"

lemma har_exec_run: "har_run c rs z s \<Longrightarrow> har_exec c rs sched s = Some s' \<Longrightarrow> har_run c rs z s'"
proof (induction sched arbitrary: s)
  case (Cons a sched)
  then obtain i e t where t: "har_step c rs i e s = Some t" "har_exec c rs sched t = Some s'"
    by (cases a) (auto split: option.splits)
  from Cons.IH[OF har_run.step[OF Cons.prems(1) t(1)] t(2)] show ?case .
qed simp

lemma har_exec_cost: "har_exec c rs sched s = Some s' \<Longrightarrow> length sched + har_cost c rs s' \<le> har_cost c rs s"
proof (induction sched arbitrary: s)
  case (Cons a sched)
  then obtain i e t where "a = (i, e)" "har_step c rs i e s = Some t" "har_exec c rs sched t = Some s'"
    by (cases a) (auto split: option.splits)
  with Cons.IH[of t] har_cost_step[of c rs i e s t] show ?case by simp
qed simp

lemma har_init_cost: "har_cost c rs (har_init c rs z) = (\<Sum>i = 0..<hc_world c. sum_list (map (round_cost c i) rs))"
  unfolding har_cost_def
proof (rule sum.cong)
  fix i
  show "rank_cost c rs (har_init c rs z) i = sum_list (map (round_cost c i) rs)"
    by (cases rs) (simp_all add: rank_cost_def har_init_def write_todo_def round_cost_def Let_def)
qed simp

section \<open>Launches\<close>

lemma rounds_pos: "0 < R \<Longrightarrow> k < rounds n R \<Longrightarrow> k * R < n"
  unfolding rounds_def using cdivn_le[of R n k] by (meson not_le)

lemma rounds_elem: "0 < R \<Longrightarrow> e < n \<Longrightarrow> e div R < rounds n R \<and> e mod R < min (n - e div R * R) R"
proof -
  assume R: "0 < R" and e: "e < n"
  have "n \<le> rounds n R * R" unfolding rounds_def by (rule cdivn_ge[OF R])
  then have "e div R < rounds n R" using e R by (simp add: div_less_iff_less_mult)
  moreover have "e mod R < n - e div R * R" using e div_mult_mod_eq[of e R] by linarith
  ultimately show ?thesis using R by simp
qed

lemma launch_length [simp]: "length (launch_rounds R md n x) = rounds n R"
  by (simp add: launch_rounds_def)

lemma launch_nth: "k < rounds n R \<Longrightarrow> launch_rounds R md n x ! k =
   \<lparr>rd_mode = md, rd_n = min (n - k * R) R, rd_x = (\<lambda>j e. x j (k * R + e))\<rparr>"
  by (simp add: launch_rounds_def)

lemma launch_ok:
  assumes "hc_world c \<in> set WORLDS" and "0 < hc_round c" and "hc_round c mod (hc_world c * 1024) = 0"
    and "Suc (rounds n (hc_round c)) < 4294967296"
  shows "har_ok c (launch_rounds (hc_round c) md n x)"
  using assms rounds_pos[OF assms(2)] by (auto simp: har_ok_def list_all_length launch_nth)

section \<open>Properties\<close>

lemma all_reduce_value:
  assumes "har_ok c rs" and "har_run c rs z s" and "i < hc_world c" and "r < h_rnd s i" and "e < out_n c (rs ! r)"
  shows "h_out s i r e = Some (spec c (rs ! r) e)"
proof -
  have inv: "har_inv c rs s" by (rule har_reach_inv[OF assms(2,1)])
  have r: "r < length rs" using ctrl_invD(1)[of c rs s i] inv assms(3,4) unfolding har_inv_def ctrl_rank_def by linarith
  have "h_out s i r e \<noteq> None" using inv assms(3-5) r unfolding har_inv_def done_ok_def by (meson not_le)
  moreover have "h_out s i r e = Some v \<Longrightarrow> v = spec c (rs ! r) e" for v
    using inv assms(3) unfolding har_inv_def out_ok_def by blast
  ultimately show ?thesis by blast
qed

text \<open>C13: every rank that has gone past a round holds, at every element of its output, the specified value of that round,
  whatever the interleaving of the ranks: the sum of the ranks' inputs taken in rank order for the reduce
  kernels (one-shot and two-shot), the owner's input for the gather kernel.
\<close>

theorem all_reduce_result:
  assumes "har_ok c rs" and "har_run c rs z s" and "i < hc_world c" and "r < h_rnd s i" and "e < out_n c (rs ! r)"
  shows "h_out s i r e = Some (spec c (rs ! r) e)"
  by (rule all_reduce_value[OF assms])

text \<open>No element of an output is ever wrong, not even in the middle of a round: whenever two ranks have both stored
  an element of the same round, they hold the same value, and it is the specified one.
\<close>

theorem all_reduce_agrees:
  assumes "har_ok c rs" and "har_run c rs z s" and "i < hc_world c" and "j < hc_world c"
    and "h_out s i r e = Some v" and "h_out s j r e = Some w"
  shows "v = w \<and> v = spec c (rs ! r) e"
  using har_reach_inv[OF assms(2,1)] assms(3-6) unfolding har_inv_def out_ok_def by blast

text \<open>C28: the barriers never deadlock: as long as some rank has a round left, some rank can take a step. The flag lines
  are shared by all rounds of a parity, so a rank that is one round ahead may already have published there.
\<close>

theorem all_reduce_never_stuck:
  assumes "har_ok c rs" and "har_run c rs z s" and "\<not> all_finished c rs s"
  shows "\<exists>i e s'. har_step c rs i e s = Some s'"
proof -
  have inv: "ctrl_inv c rs s" using har_reach_inv[OF assms(2,1)] by (simp add: har_inv_def)
  from assms(3) obtain i where i: "i < hc_world c" "h_rnd s i \<noteq> length rs" by (auto simp: all_finished_def list_all_iff)
  then have "h_rnd s i < length rs" using ctrl_invD(1)[OF inv i(1)] by (simp add: ctrl_rank_def)
  from progress[OF inv i(1) this] show ?thesis .
qed

text \<open>Every schedule of the ranks is finite: it has at most the sum, over ranks and rounds, of the elements the rank
  writes, reduces and copies in that round and its five control steps.
\<close>

theorem all_reduce_terminates:
  assumes "har_exec c rs sched (har_init c rs z) = Some s"
  shows "length sched \<le> (\<Sum>i = 0..<hc_world c. sum_list (map (round_cost c i) rs))"
  using har_exec_cost[OF assms] by (simp add: har_init_cost)

text \<open>A launch over an n-element tensor, cut into rounds by the kernel, leaves at every element of the output of
  every finished rank the rank-order sum of that element.
\<close>

theorem all_reduce_launch:
  assumes "hc_world c \<in> set WORLDS" and "0 < hc_round c" and "hc_round c mod (hc_world c * 1024) = 0"
    and "Suc (rounds n (hc_round c)) < 4294967296" and "md \<noteq> Gather"
    and "har_run c (launch_rounds (hc_round c) md n x) z s" and "i < hc_world c" and "h_rnd s i = rounds n (hc_round c)" and "e < n"
  shows "h_out s i (e div hc_round c) (e mod hc_round c) = Some (hc_sum c (map (\<lambda>j. x j e) [0..<hc_world c]))"
proof -
  let ?rs = "launch_rounds (hc_round c) md n x" and ?k = "e div hc_round c"
  have ok: "har_ok c ?rs" by (rule launch_ok[OF assms(1-4)])
  have k: "?k < rounds n (hc_round c)" and m: "e mod hc_round c < min (n - ?k * hc_round c) (hc_round c)"
    using rounds_elem[OF assms(2,9)] by simp_all
  have "h_out s i ?k (e mod hc_round c) = Some (spec c (?rs ! ?k) (e mod hc_round c))"
    by (rule all_reduce_value[OF ok assms(6,7)]) (use k m assms(5,8) in \<open>simp_all add: out_n_def launch_nth\<close>)
  then show ?thesis using assms(5) by (simp add: spec_def launch_nth[OF k])
qed

section \<open>A two-rank run\<close>

definition duo_cfg :: "nat har_cfg" where
  "duo_cfg = \<lparr>hc_world = 2, hc_round = 2048, hc_sum = sum_list\<rparr>"

definition duo_rounds :: "nat round list" where
  "duo_rounds = launch_rounds 2048 Reduce2 1 (\<lambda>j e. j + 1)"

definition duo_sched :: "(nat \<times> nat) list" where
  "duo_sched = [(0, 0), (1, 0), (1, 0), (1, 0), (0, 0), (0, 0), (1, 0), (0, 0), (1, 0), (0, 0), (1, 0), (0, 0), (1, 0)]"

lemma duo_exec:
  "case har_exec duo_cfg duo_rounds duo_sched (har_init duo_cfg duo_rounds 0) of
     None \<Rightarrow> False | Some s \<Rightarrow> h_rnd s 0 = 1 \<and> h_rnd s (Suc 0) = 1 \<and> h_out s 0 0 0 = Some 3 \<and> h_out s (Suc 0) 0 0 = Some 3"
  by code_simp

lemma duo_ok: "har_ok duo_cfg duo_rounds"
  unfolding duo_rounds_def using launch_ok[of duo_cfg 1 Reduce2 "\<lambda>j e. j + 1"] by (simp add: duo_cfg_def WORLDS_def rounds_def cdivn_def)

lemma duo_run:
  obtains s where "har_run duo_cfg duo_rounds 0 s" "h_rnd s 0 = 1" "h_rnd s (Suc 0) = 1" "h_out s 0 0 0 = Some 3" "h_out s (Suc 0) 0 0 = Some 3"
    "har_exec duo_cfg duo_rounds duo_sched (har_init duo_cfg duo_rounds 0) = Some s"
proof -
  from duo_exec obtain s where s: "har_exec duo_cfg duo_rounds duo_sched (har_init duo_cfg duo_rounds 0) = Some s"
    by (cases "har_exec duo_cfg duo_rounds duo_sched (har_init duo_cfg duo_rounds 0)") auto
  show ?thesis by (rule that[OF har_exec_run[OF har_run.start s]]) (use duo_exec s in simp_all)
qed

lemma duo_first: "length duo_rounds = 1" "rd_mode (duo_rounds ! 0) = Reduce2" "rd_n (duo_rounds ! 0) = 1"
  by (simp_all add: duo_rounds_def rounds_def cdivn_def launch_nth)

lemma all_reduce_result_witness:
  "\<exists>s. har_run duo_cfg duo_rounds 0 s \<and> h_rnd s (Suc 0) = 1 \<and> Some 3 = Some (spec duo_cfg (duo_rounds ! 0) 0)"
proof -
  obtain s where s: "har_run duo_cfg duo_rounds 0 s" "h_rnd s (Suc 0) = 1" "h_out s (Suc 0) 0 0 = Some 3" by (rule duo_run)
  have "h_out s (Suc 0) 0 0 = Some (spec duo_cfg (duo_rounds ! 0) 0)"
    by (rule all_reduce_result[OF duo_ok s(1)]) (simp_all add: s(2) duo_cfg_def out_n_def duo_first)
  with s show ?thesis by auto
qed

lemma all_reduce_agrees_witness:
  "\<exists>s. har_run duo_cfg duo_rounds 0 s \<and> h_out s 0 0 0 = h_out s (Suc 0) 0 0 \<and> h_out s 0 0 0 = Some (spec duo_cfg (duo_rounds ! 0) 0)"
proof -
  obtain s where s: "har_run duo_cfg duo_rounds 0 s" "h_out s 0 0 0 = Some 3" "h_out s (Suc 0) 0 0 = Some 3" by (rule duo_run)
  have "(3::nat) = 3 \<and> 3 = spec duo_cfg (duo_rounds ! 0) 0"
    by (rule all_reduce_agrees[OF duo_ok s(1) _ _ s(2,3)]) (simp_all add: duo_cfg_def)
  with s show ?thesis by auto
qed

lemma all_reduce_never_stuck_witness: "\<exists>i e s'. har_step duo_cfg duo_rounds i e (har_init duo_cfg duo_rounds 0) = Some s'"
  by (rule all_reduce_never_stuck[OF duo_ok har_run.start])
    (simp add: all_finished_def duo_cfg_def duo_first har_init_def upt_rec)

lemma all_reduce_terminates_witness: "length duo_sched \<le> (\<Sum>i = 0..<hc_world duo_cfg. sum_list (map (round_cost duo_cfg i) duo_rounds))"
proof -
  obtain s where "har_exec duo_cfg duo_rounds duo_sched (har_init duo_cfg duo_rounds 0) = Some s" by (rule duo_run)
  then show ?thesis by (rule all_reduce_terminates)
qed

lemma all_reduce_launch_witness:
  "\<exists>s. har_run duo_cfg duo_rounds 0 s \<and> h_out s 0 0 0 = Some (sum_list (map (\<lambda>j. j + 1) [0..<2]))"
proof -
  obtain s where s: "har_run duo_cfg duo_rounds 0 s" "h_rnd s 0 = 1" by (rule duo_run)
  have "h_out s 0 (0 div hc_round duo_cfg) (0 mod hc_round duo_cfg) = Some (hc_sum duo_cfg (map (\<lambda>j. j + 1) [0..<hc_world duo_cfg]))"
    by (rule all_reduce_launch[where n = 1 and md = Reduce2 and x = "\<lambda>j e. j + 1" and z = 0])
      (use s in \<open>simp_all add: duo_rounds_def duo_cfg_def WORLDS_def rounds_def cdivn_def\<close>)
  with s show ?thesis by (auto simp: duo_cfg_def)
qed

end
