(* ===== verification/Residency.thy ===== *)
theory Residency
  imports Prelude "HOL-Library.Word"
begin

text \<open>
  The residency resolver of the HiSparse cache (\<open>sm120/hisparse_mtp_patch/own_resolver.py\<close>): for each run of
  launch rows of one request it maps the top-k host rows to slots of the request's hot region, loading
  the missing ones over the least recently used slots. The theory holds the reference semantics
  \<open>reference_resolve\<close>, the CUDA kernel \<open>suffix_hisparse_resolve\<close> with its open-addressing union hash,
  its five phases and its 16-bit tagged entries, the invalidation kernel, and the capacity checks.
  Between two barriers the threads of a block run in any order: the insertion order of the union is an argument,
  and so is which references see an entry that another thread tags in the same phase.
\<close>

unbundle bit_operations_syntax

section \<open>Capacity\<close>

definition POS_LIMIT :: int where "POS_LIMIT = 16383"

definition smem_bytes :: "int \<Rightarrow> int \<Rightarrow> int" where
  "smem_bytes union_rows hot_size =
     (let hash_size = union_rows + 1; nbc = - ((- hot_size) div 32)
      in 4 * hash_size + 4 * ((hash_size + 1) div 2) + 4 * (3 * nbc + 7))"

definition fits :: "int \<Rightarrow> int \<Rightarrow> int \<Rightarrow> bool" where
  "fits union_rows hot_size available \<longleftrightarrow>
     0 < union_rows \<and> union_rows \<le> hot_size \<and> - ((- hot_size) div 32) * 32 < POS_LIMIT \<and> smem_bytes union_rows hot_size \<le> available"

section \<open>Tables and translation\<close>

record rcfg =
  rc_top_k :: nat
  rc_hot :: nat
  rc_hash :: nat
  rc_hot_bs :: int
  rc_attn_stride :: int
  rc_host_rows :: int
  rc_src_bs :: int
  rc_src_bt :: "int list list option"
  rc_res_bs :: int
  rc_res_bt :: "int list list option"
  rc_res_null :: int
  rc_hot_bt :: "int list list"

definition block_at :: "int list list \<Rightarrow> int \<Rightarrow> int \<Rightarrow> int option" where
  "block_at bt r b =
     (if 0 \<le> r \<and> r < int (length bt) \<and> 0 \<le> b \<and> b < int (length (bt ! nat r)) then Some (bt ! nat r ! nat b) else None)"

text \<open>The resident row and the host row of a token, -1 for none.\<close>

definition translate_topk_entry :: "rcfg \<Rightarrow> int \<Rightarrow> int \<Rightarrow> int \<Rightarrow> int \<times> int" where
  "translate_topk_entry c rid st t =
     (case rc_src_bt c of
        None \<Rightarrow> (-1, if rc_host_rows c \<le> t then -1 else t)
      | Some src \<Rightarrow>
          (let g = (case block_at src rid (if 0 \<le> t then t div rc_src_bs c else -1) of
                      Some pb \<Rightarrow> if 0 < pb then pb * rc_src_bs c + t mod rc_src_bs c else -1 | None \<Rightarrow> -1);
               res = (case rc_res_bt c of
                        None \<Rightarrow> -1
                      | Some bt \<Rightarrow>
                          (case block_at bt st (if 0 \<le> t then t div rc_res_bs c else -1) of
                             Some pb \<Rightarrow> if pb \<noteq> rc_res_null c \<and> 0 \<le> pb then pb * rc_res_bs c + t mod rc_res_bs c else -1
                           | None \<Rightarrow> -1))
           in (res, if rc_host_rows c \<le> g then -1 else g)))"

text \<open>The same pair as the reference computes it, over clamped tokens; its callers have a source table and a state row.\<close>

definition ref_entry :: "rcfg \<Rightarrow> int \<Rightarrow> int \<Rightarrow> int \<Rightarrow> int \<times> int" where
  "ref_entry c rid st t =
     (let src = the (rc_src_bt c); tp = max 0 t; sb = (if 0 \<le> t then tp div rc_src_bs c else -1);
          ok = (0 \<le> rid \<and> rid < int (length src) \<and> 0 \<le> sb \<and> sb < int (length (src ! nat rid)));
          pb = (if ok then src ! nat rid ! nat sb else 0);
          g0 = (if ok \<and> 0 < pb then pb * rc_src_bs c + tp mod rc_src_bs c else -1);
          g = (if rc_host_rows c \<le> g0 then -1 else g0);
          res = (case rc_res_bt c of
                   None \<Rightarrow> -1
                 | Some bt \<Rightarrow>
                     let rb = (if 0 \<le> t then tp div rc_res_bs c else -1);
                         okr = (st < int (length bt) \<and> 0 \<le> rb \<and> rb < int (length (bt ! nat st)));
                         prb = (if okr then bt ! nat st ! nat rb else -1)
                     in if okr \<and> prb \<noteq> rc_res_null c \<and> 0 \<le> prb then prb * rc_res_bs c + tp mod rc_res_bs c else -1)
      in (res, g))"

abbreviation host_backed :: "rcfg \<Rightarrow> int \<Rightarrow> bool" where
  "host_backed c st \<equiv> rc_src_bt c \<noteq> None \<and> 0 \<le> st"

lemma ref_entry_eq: "host_backed c st \<Longrightarrow> ref_entry c rid st = translate_topk_entry c rid st"
proof (rule ext)
  fix t assume "host_backed c st"
  then obtain src where "rc_src_bt c = Some src" "0 \<le> st" by blast
  then show "ref_entry c rid st t = translate_topk_entry c rid st t"
    by (auto simp: ref_entry_def translate_topk_entry_def block_at_def Let_def split: option.splits)
qed

definition get_physical_hot_row :: "rcfg \<Rightarrow> int \<Rightarrow> int \<Rightarrow> int" where
  "get_physical_hot_row c rid slot = rc_hot_bt c ! nat rid ! nat (slot div rc_hot_bs c) * rc_hot_bs c + slot mod rc_hot_bs c"

definition attn_of :: "rcfg \<Rightarrow> int \<Rightarrow> int" where
  "attn_of c p = (if p < 0 then -1 else (p div rc_hot_bs c) * rc_attn_stride c + p mod rc_hot_bs c)"

section \<open>The reference\<close>

text \<open>Outputs of one run. An index that is never written is \<open>None\<close>; the swap list holds the pairs written from
  the run's first swap entry on.\<close>

record run_out =
  ro_hot :: "int option list"
  ro_attn :: "int option list"
  ro_valid :: "nat list"
  ro_swap :: "(int \<times> int) list"
  ro_cnt :: "nat list"
  ro_hits :: nat
  ro_misses :: nat
  ro_dgi :: "int list"
  ro_lru :: "int list"

datatype place = Hit int | Miss int | Invalid

definition is_missed :: "place option \<Rightarrow> bool" where
  "is_missed pl = (case pl of Some (Miss s) \<Rightarrow> True | _ \<Rightarrow> False)"

definition valid_of :: "rcfg \<Rightarrow> (int \<times> int) list \<Rightarrow> nat \<Rightarrow> nat list" where
  "valid_of c ents n =
     map (\<lambda>r. length (filter (\<lambda>(res, g). 0 \<le> res \<or> 0 \<le> g) (take (rc_top_k c) (drop (r * rc_top_k c) ents)))) [0..<n]"

definition host_refs :: "(int \<times> int) list \<Rightarrow> (nat \<times> int) list" where
  "host_refs ents = map (\<lambda>(p, _, g). (p, g)) (filter (\<lambda>(p, res, g). \<not> (0 \<le> res \<or> g < 0)) (enumerate 0 ents))"

fun firsts :: "(nat \<times> int) list \<Rightarrow> (int \<times> nat) list \<Rightarrow> (int \<times> nat) list" where
  "firsts [] d = d"
| "firsts ((p, g) # refs) d = firsts refs (if g \<in> fst ` set d then d else d @ [(g, p)])"

definition cached_row :: "rcfg \<Rightarrow> int list \<Rightarrow> int \<Rightarrow> int" where
  "cached_row c dgi s = (if 0 \<le> s \<and> s < int (rc_hot c) then dgi ! nat s else -1)"

fun scan_lru :: "rcfg \<Rightarrow> int list \<Rightarrow> (int \<times> nat) list \<Rightarrow> int list \<Rightarrow> (int \<Rightarrow> place option) \<Rightarrow> int list \<Rightarrow> int list
    \<Rightarrow> (int \<Rightarrow> place option) \<times> int list \<times> int list" where
  "scan_lru c dgi first [] slot_of hits evict = (slot_of, hits, evict)"
| "scan_lru c dgi first (s # lru) slot_of hits evict =
     (let x = cached_row c dgi s
      in if 0 \<le> x \<and> x \<in> fst ` set first then scan_lru c dgi first lru (slot_of(x \<mapsto> Hit s)) (hits @ [s]) evict
         else scan_lru c dgi first lru slot_of hits (evict @ [s]))"

fun load_misses :: "rcfg \<Rightarrow> int \<Rightarrow> (nat \<times> int) list \<Rightarrow> int list \<Rightarrow> (int \<Rightarrow> place option) \<Rightarrow> (int \<times> int) list \<Rightarrow> int list
    \<Rightarrow> ((int \<Rightarrow> place option) \<times> (int \<times> int) list \<times> int list) option" where
  "load_misses c rid [] evict slot_of swap dgi = Some (slot_of, swap, dgi)"
| "load_misses c rid ((p, g) # ms) [] slot_of swap dgi = None"
| "load_misses c rid ((p, g) # ms) (s # evict) slot_of swap dgi =
     (if 0 \<le> s \<and> s < int (rc_hot c)
      then load_misses c rid ms evict (slot_of(g \<mapsto> Miss s)) (swap @ [(g, get_physical_hot_row c rid s)]) (dgi[nat s := g])
      else load_misses c rid ms evict (slot_of(g \<mapsto> Invalid)) (swap @ [(g, -1)]) dgi)"

definition hot_of :: "rcfg \<Rightarrow> int \<Rightarrow> place option \<Rightarrow> int" where
  "hot_of c rid pl = (case pl of Some (Hit s) \<Rightarrow> get_physical_hot_row c rid s | Some (Miss s) \<Rightarrow> get_physical_hot_row c rid s | _ \<Rightarrow> -1)"

definition ref_row :: "rcfg \<Rightarrow> int \<Rightarrow> (int \<Rightarrow> place option) \<Rightarrow> int \<times> int \<Rightarrow> int" where
  "ref_row c rid slot_of = (\<lambda>(res, g). if 0 \<le> res then res else if g < 0 then -1 else hot_of c rid (slot_of g))"

definition swap_cnt :: "rcfg \<Rightarrow> nat \<Rightarrow> nat \<Rightarrow> nat list" where
  "swap_cnt c n m = map (\<lambda>r. nat (max 0 (min (int (rc_top_k c)) (int m - int r * int (rc_top_k c))))) [0..<n]"

text \<open>One run: \<open>n\<close> rows of request \<open>rid\<close> with state row \<open>st\<close>. \<open>None\<close> is the index error when the evictable slots run
  out.\<close>

definition ref_run :: "rcfg \<Rightarrow> int \<Rightarrow> int \<Rightarrow> nat \<Rightarrow> int list \<Rightarrow> int list \<Rightarrow> int list \<Rightarrow> run_out option" where
  "ref_run c rid st n toks dgi lru =
     (let ents = map (ref_entry c rid st) toks; refs = host_refs ents; first = firsts refs []
      in if first = []
         then Some \<lparr>ro_hot = map (\<lambda>e. Some (ref_row c rid Map.empty e)) ents, ro_attn = map (\<lambda>e. Some (attn_of c (ref_row c rid Map.empty e))) ents,
                    ro_valid = valid_of c ents n, ro_swap = [], ro_cnt = replicate n 0, ro_hits = 0, ro_misses = 0, ro_dgi = dgi, ro_lru = lru\<rparr>
         else
           case scan_lru c dgi first lru Map.empty [] [] of (slot_of, hits, evict) \<Rightarrow>
             let misses = sort_key fst (map (\<lambda>(g, p). (p, g)) (filter (\<lambda>(g, p). slot_of g = None) first))
             in case load_misses c rid misses evict slot_of [] dgi of
                  None \<Rightarrow> None
                | Some (slots, swap, dgi') \<Rightarrow>
                    Some \<lparr>ro_hot = map (\<lambda>e. Some (ref_row c rid slots e)) ents,
                          ro_attn = map (\<lambda>e. Some (attn_of c (ref_row c rid slots e))) ents,
                          ro_valid = valid_of c ents n, ro_swap = swap, ro_cnt = swap_cnt c n (length misses),
                          ro_hits = length (filter (\<lambda>(p, g). slots g \<noteq> Some Invalid \<and> \<not> (is_missed (slots g) \<and> p \<in> fst ` set misses)) refs),
                          ro_misses = length (filter (\<lambda>(p, g). is_missed (slots g) \<and> p \<in> fst ` set misses) refs),
                          ro_dgi = dgi', ro_lru = drop (length misses) evict @ take (length misses) evict @ hits\<rparr>)"

section \<open>The union hash\<close>

definition kTagMask :: "16 word" where "kTagMask = 0xC000"
definition kTagHit :: "16 word" where "kTagHit = 0x4000"
definition kTagMiss :: "16 word" where "kTagMiss = 0x8000"
definition kTagInvalid :: "16 word" where "kTagInvalid = 0xC000"
definition kSlotMask :: "16 word" where "kSlotMask = 0x3FFF"
definition kUnset :: "16 word" where "kUnset = 0x3FFF"

definition hash_slot :: "int \<Rightarrow> nat \<Rightarrow> nat" where
  "hash_slot key table_size = nat ((uint (word_of_int key * 2654435761 :: 32 word) * int table_size) div 2 ^ 32)"

definition next_slot :: "nat \<Rightarrow> nat \<Rightarrow> nat" where
  "next_slot h table_size = (if h + 1 = table_size then 0 else h + 1)"

definition table_size :: "rcfg \<Rightarrow> nat \<Rightarrow> nat" where
  "table_size c n = min (rc_hash c) (4 * n * rc_top_k c)"

text \<open>The 16-bit minimum by compare-and-swap on the word that holds two of them; the uncontended loop.\<close>

definition half :: "32 word \<Rightarrow> nat \<Rightarrow> 16 word" where
  "half w idx = ucast (drop_bit (idx mod 2 * 16) w)"

definition atomic_min_u16 :: "32 word \<Rightarrow> nat \<Rightarrow> 16 word \<Rightarrow> 32 word" where
  "atomic_min_u16 w idx v =
     (let shift = idx mod 2 * 16
      in if drop_bit shift w AND 0xFFFF \<le> ucast v then w
         else (w AND NOT (push_bit shift 0xFFFF)) OR push_bit shift (ucast v))"

record ktab =
  kt_keys :: "int list"
  kt_vals :: "16 word list"
  kt_count :: nat

definition ktab_init :: "nat \<Rightarrow> ktab" where
  "ktab_init T = \<lparr>kt_keys = replicate T (-1), kt_vals = replicate T kUnset, kt_count = 0\<rparr>"

text \<open>The probe loops: the first slot that is empty or holds the key, and the endless variants, for which \<open>None\<close> is
  a full turn without an end.\<close>

fun probe_cas :: "nat \<Rightarrow> int list \<Rightarrow> nat \<Rightarrow> int \<Rightarrow> nat option" where
  "probe_cas 0 keys h g = None"
| "probe_cas (Suc n) keys h g =
     (if keys ! h = -1 \<or> keys ! h = g then Some h else probe_cas n keys (next_slot h (length keys)) g)"

fun find_key :: "nat \<Rightarrow> int list \<Rightarrow> nat \<Rightarrow> int \<Rightarrow> nat option option" where
  "find_key 0 keys h g = None"
| "find_key (Suc n) keys h g =
     (if keys ! h = g then Some (Some h) else if keys ! h = -1 then Some None else find_key n keys (next_slot h (length keys)) g)"

fun seek_key :: "nat \<Rightarrow> int list \<Rightarrow> nat \<Rightarrow> int \<Rightarrow> nat option" where
  "seek_key 0 keys h g = None"
| "seek_key (Suc n) keys h g = (if keys ! h = g then Some h else seek_key n keys (next_slot h (length keys)) g)"

definition kern_insert :: "rcfg \<Rightarrow> nat \<times> int \<Rightarrow> ktab \<Rightarrow> ktab" where
  "kern_insert c = (\<lambda>(p, g) t.
     (let T = length (kt_keys t)
      in case probe_cas T (kt_keys t) (hash_slot g T) g of
           None \<Rightarrow> t\<lparr>kt_count := kt_count t + rc_hash c\<rparr>
         | Some h \<Rightarrow>
             (let t1 = t\<lparr>kt_keys := (kt_keys t)[h := g], kt_count := kt_count t + (if kt_keys t ! h = -1 then 1 else 0)\<rparr>
              in if p < unat kUnset then t1\<lparr>kt_vals := (kt_vals t)[h := min (kt_vals t ! h) (word_of_nat p)]\<rparr>
                 else t1\<lparr>kt_count := kt_count t1 + rc_hash c\<rparr>)))"

section \<open>The kernel's phases\<close>

text \<open>Phase 2.\<close>

fun kern_scan :: "rcfg \<Rightarrow> int list \<Rightarrow> int list \<Rightarrow> int list \<Rightarrow> 16 word list \<Rightarrow> int list \<Rightarrow> int list
    \<Rightarrow> (16 word list \<times> int list \<times> int list) option" where
  "kern_scan c dgi keys [] vals hits evict = Some (vals, hits, evict)"
| "kern_scan c dgi keys (s # lru) vals hits evict =
     (let x = cached_row c dgi s; T = length keys
      in if 0 \<le> x
         then case find_key T keys (hash_slot x T) x of
                None \<Rightarrow> None
              | Some None \<Rightarrow> kern_scan c dgi keys lru vals hits (evict @ [s])
              | Some (Some h) \<Rightarrow> kern_scan c dgi keys lru (vals[h := kTagHit OR word_of_int s]) (hits @ [s]) evict
         else kern_scan c dgi keys lru vals hits (evict @ [s]))"

text \<open>Phase 3: the misses take the evictable slots from the back of the compaction buffer.\<close>

fun kern_load :: "rcfg \<Rightarrow> int \<Rightarrow> int list \<Rightarrow> nat \<Rightarrow> (nat \<times> int \<times> nat) list \<Rightarrow> 16 word list \<Rightarrow> (int \<times> int) list \<Rightarrow> int list
    \<Rightarrow> 16 word list \<times> (int \<times> int) list \<times> int list" where
  "kern_load c rid lru_out m [] vals swap dgi = (vals, swap, dgi)"
| "kern_load c rid lru_out m ((p, g, h) # ms) vals swap dgi =
     (let s = lru_out ! (rc_hot c - 1 - m)
      in if s < 0 \<or> int (rc_hot c) \<le> s
         then kern_load c rid lru_out (Suc m) ms (vals[h := kTagInvalid]) (swap @ [(g, -1)]) dgi
         else kern_load c rid lru_out (Suc m) ms (vals[h := kTagMiss OR word_of_int s]) (swap @ [(g, get_physical_hot_row c rid s)])
                (dgi[nat s := g]))"

definition write_entry_index :: "rcfg \<Rightarrow> int \<Rightarrow> 16 word \<Rightarrow> int" where
  "write_entry_index c rid entry =
     (if entry AND kTagMask = kTagInvalid then -1 else get_physical_hot_row c rid (uint (entry AND kSlotMask)))"

text \<open>The entry a reference is written from: phase 3 as far as it sees a tag, then phase 4 when the run has several rows.\<close>

definition entry_at :: "nat \<Rightarrow> (nat \<Rightarrow> bool) \<Rightarrow> 16 word list \<Rightarrow> 16 word list \<Rightarrow> nat \<times> int \<times> nat \<Rightarrow> 16 word option" where
  "entry_at n sees vals2 vals3 = (\<lambda>(p, g, h).
     let seen = (if vals2 ! h = word_of_nat p \<or> sees p then vals3 ! h else vals2 ! h)
     in if seen AND kTagMask \<noteq> 0 then Some seen else if 1 < n then Some (vals3 ! h) else None)"

fun seek_all :: "int list \<Rightarrow> (nat \<times> int) list \<Rightarrow> (nat \<times> int \<times> nat) list option" where
  "seek_all keys [] = Some []"
| "seek_all keys ((p, g) # refs) =
     (case seek_key (length keys) keys (hash_slot g (length keys)) g of
        None \<Rightarrow> None
      | Some h \<Rightarrow> map_option ((#) (p, g, h)) (seek_all keys refs))"

definition kern_row :: "rcfg \<Rightarrow> int \<Rightarrow> (nat \<Rightarrow> 16 word option) \<Rightarrow> nat \<times> int \<times> int \<Rightarrow> int option" where
  "kern_row c rid entry = (\<lambda>(p, res, g).
     if 0 \<le> res then Some res else if g < 0 then Some (-1) else map_option (write_entry_index c rid) (entry p))"

text \<open>Phase 5.\<close>

definition kern_lru :: "rcfg \<Rightarrow> int list \<Rightarrow> nat \<Rightarrow> nat \<Rightarrow> int list" where
  "kern_lru c lru_out total_hits total_misses =
     (let remaining = rc_hot c - total_hits - total_misses
      in map (\<lambda>i. if i < remaining then lru_out ! (rc_hot c - 1 - total_misses - i)
                  else if i < remaining + total_misses then lru_out ! (rc_hot c - 1 - (i - remaining))
                  else lru_out ! (i - remaining - total_misses)) [0..<rc_hot c])"

definition kern_run :: "rcfg \<Rightarrow> int \<Rightarrow> int \<Rightarrow> nat \<Rightarrow> int list \<Rightarrow> (nat \<times> int) list \<Rightarrow> (nat \<Rightarrow> bool) \<Rightarrow> int list \<Rightarrow> int list \<Rightarrow> run_out option" where
  "kern_run c rid st n toks ord sees dgi lru =
     (let ents = map (translate_topk_entry c rid st) toks; refs = host_refs ents;
          tab = fold (kern_insert c) ord (ktab_init (table_size c n)); keys = kt_keys tab
      in if rc_hash c \<le> kt_count tab then None
         else if kt_count tab = 0
         then Some \<lparr>ro_hot = map (kern_row c rid (\<lambda>_. None)) (enumerate 0 ents),
                    ro_attn = map (map_option (attn_of c) \<circ> kern_row c rid (\<lambda>_. None)) (enumerate 0 ents),
                    ro_valid = valid_of c ents n, ro_swap = [], ro_cnt = replicate n 0, ro_hits = 0, ro_misses = 0, ro_dgi = dgi, ro_lru = lru\<rparr>
         else if (rc_hot c + 31) div 32 * 32 < n * rc_top_k c then None
         else
           case (kern_scan c dgi keys lru (kt_vals tab) [] [], seek_all keys refs) of
             (Some (vals2, hits, evict), Some refs_h) \<Rightarrow>
               (let lru_out = hits @ rev evict;
                    misses = filter (\<lambda>(p, g, h). vals2 ! h = word_of_nat p) refs_h; nm = length misses
                in case kern_load c rid lru_out 0 misses vals2 [] dgi of (vals3, swap, dgi') \<Rightarrow>
                     let ents_at = map (\<lambda>x. (fst x, entry_at n sees vals2 vals3 x)) refs_h;
                         entry = (\<lambda>p. case map_of ents_at p of Some (Some e) \<Rightarrow> Some e | _ \<Rightarrow> None);
                         row = kern_row c rid entry;
                         good = filter (\<lambda>(p, g, h). case entry p of Some e \<Rightarrow> e AND kTagMask \<noteq> kTagInvalid | None \<Rightarrow> False) refs_h;
                         loaded = filter (\<lambda>(p, g, h). vals2 ! h = word_of_nat p \<and> vals3 ! h AND kTagMask = kTagMiss) good
                     in Some \<lparr>ro_hot = map row (enumerate 0 ents), ro_attn = map (map_option (attn_of c) \<circ> row) (enumerate 0 ents),
                              ro_valid = valid_of c ents n, ro_swap = swap, ro_cnt = swap_cnt c n nm,
                              ro_hits = length good - length loaded, ro_misses = length loaded, ro_dgi = dgi',
                              ro_lru = kern_lru c lru_out (length hits) nm\<rparr>)
           | _ \<Rightarrow> None)"

section \<open>Tagged entries\<close>

lemmas tag_defs = kTagMask_def kTagHit_def kTagMiss_def kTagInvalid_def kSlotMask_def kUnset_def

lemma slot_mask: "kSlotMask = mask 14"
  by (simp add: kSlotMask_def mask_eq_exp_minus_1)

lemma tag_mask: "kTagMask = NOT (mask 14)"
  by (simp add: kTagMask_def mask_eq_exp_minus_1)

lemma small_slot:
  assumes "unat w < 16384"
  shows "w AND kSlotMask = w" "w AND kTagMask = 0"
proof -
  have "unat (take_bit 14 w) = unat w mod 2 ^ 14" unfolding unsigned_take_bit_eq by (rule take_bit_eq_mod)
  then have "unat (take_bit 14 w) = unat w" using assms by simp
  then have "take_bit 14 w = w" by (rule unsigned_word_eqI)
  then show s: "w AND kSlotMask = w" by (simp add: slot_mask take_bit_eq_mask)
  have "w AND kTagMask = (w AND mask 14) AND NOT (mask 14)" using s by (simp add: tag_mask slot_mask)
  also have "\<dots> = 0" by (simp add: and.assoc)
  finally show "w AND kTagMask = 0" .
qed

lemma tag_or:
  assumes "unat w < 16384"
  shows "(kTagHit OR w) AND kTagMask = kTagHit" "(kTagHit OR w) AND kSlotMask = w"
    "(kTagMiss OR w) AND kTagMask = kTagMiss" "(kTagMiss OR w) AND kSlotMask = w"
  using small_slot[OF assms] by (simp_all add: bit.conj_disj_distrib2 tag_defs)

lemma tags_distinct [simp]:
  "kTagHit \<noteq> 0" "kTagMiss \<noteq> 0" "kTagInvalid \<noteq> 0" "kTagHit \<noteq> kTagInvalid" "kTagMiss \<noteq> kTagInvalid" "kTagHit \<noteq> kTagMiss"
  "kTagInvalid \<noteq> kTagHit" "kTagInvalid \<noteq> kTagMiss" "kTagMiss \<noteq> kTagHit" "kTagInvalid AND kTagMask = kTagInvalid"
  by (simp_all add: tag_defs)

lemma unat_word16: "p < 65536 \<Longrightarrow> unat (word_of_nat p :: 16 word) = p"
  by (simp add: unat_of_nat)

lemma word16_inj: "p < 65536 \<Longrightarrow> q < 65536 \<Longrightarrow> (word_of_nat p :: 16 word) = word_of_nat q \<Longrightarrow> p = q"
  by (metis unat_word16)

lemma unat_kUnset: "unat kUnset = 16383"
  by (simp add: kUnset_def)

lemma word_slot: "0 \<le> s \<Longrightarrow> s < 16384 \<Longrightarrow> unat (word_of_int s :: 16 word) < 16384 \<and> uint (word_of_int s :: 16 word) = s"
  by (simp add: uint_word_of_int unat_eq_nat_uint nat_less_iff)

section \<open>Open addressing\<close>

lemma hash_slot_less: "0 < T \<Longrightarrow> hash_slot g T < T"
proof -
  assume T: "0 < T"
  let ?u = "uint (word_of_int g * 2654435761 :: 32 word)"
  have "?u < 2 ^ 32" using uint_lt2p[of "word_of_int g * 2654435761 :: 32 word"] by simp
  then have "?u * int T < int T * 2 ^ 32" using T by simp
  then have "?u * int T div 2 ^ 32 < int T" by (simp add: div_less_iff_less_mult)
  then show ?thesis unfolding hash_slot_def using T by (simp add: nat_less_iff)
qed

lemma next_slot_mod: "h < T \<Longrightarrow> next_slot h T = (h + 1) mod T"
  by (auto simp: next_slot_def)

lemma next_slot_less: "h < T \<Longrightarrow> next_slot h T < T"
  by (simp add: next_slot_mod)

lemma probe_cas_None:
  "probe_cas n keys h g = None \<Longrightarrow> h < length keys \<Longrightarrow> i < n \<Longrightarrow> keys ! ((h + i) mod length keys) \<noteq> -1"
proof (induction n arbitrary: h i)
  case (Suc n)
  show ?case
  proof (cases i)
    case 0 with Suc.prems show ?thesis by (auto split: if_splits)
  next
    case (Suc j)
    have "keys ! ((next_slot h (length keys) + j) mod length keys) \<noteq> -1"
      using Suc.prems Suc by (intro Suc.IH) (auto simp: next_slot_less split: if_splits)
    then show ?thesis using Suc Suc.prems(2) by (simp add: next_slot_mod mod_simps)
  qed
qed simp

lemma probe_cas_Some:
  "probe_cas n keys h g = Some a \<Longrightarrow> h < length keys \<Longrightarrow> a < length keys \<and> (keys ! a = -1 \<or> keys ! a = g)"
  by (induction n arbitrary: h) (auto simp: next_slot_less split: if_splits)

text \<open>Every slot is on every probe sequence.\<close>

lemma probe_cas_full:
  assumes "probe_cas (length keys) keys h g = None" and "h < length keys"
  shows "-1 \<notin> set keys"
proof
  assume "-1 \<in> set keys"
  then obtain a where a: "a < length keys" "keys ! a = -1" by (auto simp: in_set_conv_nth)
  define i where "i = (a + length keys - h) mod length keys"
  have "(h + i) mod length keys = a"
    unfolding i_def mod_add_right_eq using assms(2) a(1) by simp
  moreover have "i < length keys" unfolding i_def using a(1) by (intro mod_less_divisor) linarith
  ultimately show False using probe_cas_None[OF assms, of i] a(2) by simp
qed

lemma probe_cas_update:
  "probe_cas n keys h g = Some a \<Longrightarrow> h < length keys \<Longrightarrow> a \<noteq> b \<Longrightarrow> b < length keys \<Longrightarrow> keys ! b = -1 \<Longrightarrow> g \<noteq> g0 \<Longrightarrow>
   probe_cas n (keys[b := g0]) h g = Some a"
  by (induction n arbitrary: h) (auto simp: next_slot_less nth_list_update split: if_splits)

lemma probe_cas_same:
  "probe_cas n keys h g = Some b \<Longrightarrow> h < length keys \<Longrightarrow> keys ! b = -1 \<Longrightarrow> probe_cas n (keys[b := g]) h g = Some b"
proof (induction n arbitrary: h)
  case (Suc n)
  show ?case
  proof (cases "keys ! h = -1 \<or> keys ! h = g")
    case True
    then show ?thesis using Suc.prems by auto
  next
    case False
    then have "h \<noteq> b" and "probe_cas n keys (next_slot h (length keys)) g = Some b" using Suc.prems by auto
    then show ?thesis using Suc.IH[OF _ next_slot_less[OF Suc.prems(2)] Suc.prems(3)] False by auto
  qed
qed simp

lemma find_key_probe:
  "g \<noteq> -1 \<Longrightarrow> find_key n keys h g = map_option (\<lambda>a. if keys ! a = g then Some a else None) (probe_cas n keys h g)"
  by (induction n arbitrary: h) auto

lemma seek_key_probe:
  "probe_cas n keys h g = Some a \<Longrightarrow> keys ! a = g \<Longrightarrow> g \<noteq> -1 \<Longrightarrow> seek_key n keys h g = Some a"
  by (induction n arbitrary: h) (auto split: if_splits)

abbreviation slot_in :: "int list \<Rightarrow> int \<Rightarrow> nat option" where
  "slot_in keys g \<equiv> probe_cas (length keys) keys (hash_slot g (length keys)) g"

text \<open>The table after the references \<open>S\<close>: every key sits at the end of its own probe sequence, with its least
  position; the counter is the number of keys.\<close>

definition tab_ok :: "nat \<Rightarrow> (nat \<times> int) set \<Rightarrow> ktab \<Rightarrow> bool" where
  "tab_ok T S t \<longleftrightarrow> length (kt_keys t) = T \<and> length (kt_vals t) = T \<and> set (kt_keys t) - {-1} = snd ` S \<and>
     (\<forall>a < T. kt_keys t ! a \<noteq> -1 \<longrightarrow> slot_in (kt_keys t) (kt_keys t ! a) = Some a) \<and>
     (\<forall>a < T. unat (kt_vals t ! a) = (if kt_keys t ! a = -1 then 16383 else Min {p. (p, kt_keys t ! a) \<in> S})) \<and>
     kt_count t = card (snd ` S) \<and> length (filter (\<lambda>k. k \<noteq> -1) (kt_keys t)) = card (snd ` S)"

lemma tab_ok_init: "tab_ok T {} (ktab_init T)"
  by (auto simp: tab_ok_def ktab_init_def unat_kUnset)

lemma filter_update_new:
  "b < length xs \<Longrightarrow> xs ! b = y \<Longrightarrow> x \<noteq> y \<Longrightarrow> length (filter (\<lambda>k. k \<noteq> y) (xs[b := x])) = Suc (length (filter (\<lambda>k. k \<noteq> y) xs))"
  by (induction xs arbitrary: b) (auto simp: nth_Cons split: nat.splits)

lemma set_update_new: "b < length xs \<Longrightarrow> xs ! b = y \<Longrightarrow> x \<noteq> y \<Longrightarrow> set (xs[b := x]) - {y} = insert x (set xs - {y})"
  by (induction xs arbitrary: b) (auto simp: nth_Cons split: nat.splits)

lemma tab_okD:
  assumes "tab_ok T S t"
  shows "length (kt_keys t) = T" "length (kt_vals t) = T" "set (kt_keys t) - {-1} = snd ` S" "kt_count t = card (snd ` S)"
    "a < T \<Longrightarrow> kt_keys t ! a \<noteq> -1 \<Longrightarrow> slot_in (kt_keys t) (kt_keys t ! a) = Some a"
    "a < T \<Longrightarrow> unat (kt_vals t ! a) = (if kt_keys t ! a = -1 then 16383 else Min {p. (p, kt_keys t ! a) \<in> S})"
    "length (filter (\<lambda>k. k \<noteq> -1) (kt_keys t)) = card (snd ` S)"
  using assms unfolding tab_ok_def by blast+

lemma tab_has_room:
  assumes "tab_ok T S t" and "card (snd ` S) < T"
  shows "\<exists>a. slot_in (kt_keys t) g = Some a \<and> a < T \<and> (kt_keys t ! a = -1 \<or> kt_keys t ! a = g)"
proof (cases "slot_in (kt_keys t) g")
  case None
  have "hash_slot g T < T" using assms(2) by (intro hash_slot_less) simp
  then have "-1 \<notin> set (kt_keys t)" using probe_cas_full None tab_okD(1)[OF assms(1)] by metis
  then have "filter (\<lambda>k. k \<noteq> -1) (kt_keys t) = kt_keys t" by (intro filter_True) auto
  then show ?thesis using assms(2) tab_okD(1,7)[OF assms(1)] by simp
next
  case (Some a)
  have "hash_slot g T < T" using assms(2) by (intro hash_slot_less) simp
  then show ?thesis using probe_cas_Some[OF Some] Some tab_okD(1)[OF assms(1)] by metis
qed

lemma tab_key_slot:
  assumes "tab_ok T S t" and "g \<in> snd ` S" and "g \<noteq> -1"
  shows "\<exists>a < T. slot_in (kt_keys t) g = Some a \<and> kt_keys t ! a = g"
proof -
  have "g \<in> set (kt_keys t)" using tab_okD(3)[OF assms(1)] assms(2,3) by blast
  then obtain a where "a < T" "kt_keys t ! a = g" using tab_okD(1)[OF assms(1)] by (auto simp: in_set_conv_nth)
  with tab_okD(5)[OF assms(1) this(1)] assms(3) show ?thesis by auto
qed

lemma min_insert:
  assumes "p < 16383" and "unat (v :: 16 word) = Min {q. (q, g) \<in> S}" and "finite S" and "\<exists>q. (q, g) \<in> S"
  shows "unat (min v (word_of_nat p)) = Min {q. (q, g) \<in> insert (p, g) S}"
proof -
  let ?P = "{q. (q, g) \<in> S}"
  have "?P \<subseteq> fst ` S" by force
  then have fin: "finite ?P" using assms(3) finite_surj[of S ?P fst] by auto
  have set: "{q. (q, g) \<in> insert (p, g) S} = insert p ?P" by auto
  have "unat (word_of_nat p :: 16 word) = p" using assms(1) by (intro unat_word16) simp
  then have "unat (min v (word_of_nat p)) = min (unat v) p" by (simp add: min_def word_le_nat_alt)
  also have "\<dots> = Min (insert p ?P)" using assms(2,4) fin by (subst Min_insert) (auto simp: min.commute)
  finally show ?thesis unfolding set .
qed

lemma min_first:
  assumes "p < 16383" and "unat (v :: 16 word) = 16383" and "\<And>q. (q, g) \<notin> S"
  shows "unat (min v (word_of_nat p)) = Min {q. (q, g) \<in> insert (p, g) S}"
proof -
  have "unat (word_of_nat p :: 16 word) = p" using assms(1) by (intro unat_word16) simp
  then have "unat (min v (word_of_nat p)) = p" using assms(1,2) by (simp add: min_def word_le_nat_alt)
  moreover have "{q. (q, g) \<in> insert (p, g) S} = {p}" using assms(3) by auto
  ultimately show ?thesis by simp
qed

text \<open>One insertion, of a new key or of one that is there.\<close>

lemma tab_ok_insert:
  assumes ok: "tab_ok T S t" and fin: "finite S" and room: "card (snd ` S) < T" and p: "p < 16383" and g: "0 \<le> g"
  shows "tab_ok T (insert (p, g) S) (kern_insert c (p, g) t)"
proof -
  obtain a where a: "slot_in (kt_keys t) g = Some a" "a < T" "kt_keys t ! a = -1 \<or> kt_keys t ! a = g"
    using tab_has_room[OF ok room] by blast
  have len: "length (kt_keys t) = T" "length (kt_vals t) = T" using tab_okD[OF ok] by simp_all
  have T: "0 < T" using room by simp
  have g1: "g \<noteq> -1" using g by simp
  define t' where "t' = kern_insert c (p, g) t"
  have keys': "kt_keys t' = (kt_keys t)[a := g]" and vals': "kt_vals t' = (kt_vals t)[a := min (kt_vals t ! a) (word_of_nat p)]"
    and count': "kt_count t' = kt_count t + (if kt_keys t ! a = -1 then 1 else 0)"
    using a(1) p by (simp_all add: t'_def kern_insert_def Let_def unat_kUnset)
  have mem: "g \<in> snd ` S \<longleftrightarrow> kt_keys t ! a = g"
    using tab_key_slot[OF ok _ g1] a(1,2) tab_okD(3)[OF ok] len(1) g1 by (metis DiffI insert_iff nth_mem option.inject singletonD empty_iff)
  show ?thesis
  proof (cases "kt_keys t ! a = g")
    case True
    then have same: "(kt_keys t)[a := g] = kt_keys t" using list_update_id by metis
    have S: "snd ` insert (p, g) S = snd ` S" using True mem by auto
    have vals: "unat (kt_vals t' ! b) = (if kt_keys t ! b = -1 then 16383 else Min {q. (q, kt_keys t ! b) \<in> insert (p, g) S})" if b: "b < T" for b
    proof (cases "b = a")
      case eq: True
      have "unat (kt_vals t ! a) = Min {q. (q, g) \<in> S}" using tab_okD(6)[OF ok a(2)] True g1 by simp
      moreover have "\<exists>q. (q, g) \<in> S" using True mem by auto
      ultimately show ?thesis using min_insert[OF p _ fin] eq True g1 b len(2) by (simp add: vals')
    next
      case False
      then have "kt_keys t ! b \<noteq> g" using tab_okD(5)[OF ok b] a(1) g1 by auto
      then have "{q. (q, kt_keys t ! b) \<in> insert (p, g) S} = {q. (q, kt_keys t ! b) \<in> S}" by auto
      then show ?thesis using tab_okD(6)[OF ok b] False by (simp add: vals')
    qed
    show ?thesis
      unfolding tab_ok_def t'_def[symmetric] S
      using tab_okD[OF ok] vals count' True g1 by (simp add: keys' same vals' len)
  next
    case False
    then have empty: "kt_keys t ! a = -1" using a(3) by blast
    have new: "g \<notin> snd ` S" using mem False by blast
    have slots: "slot_in (kt_keys t') (kt_keys t' ! b) = Some b" if b: "b < T" "kt_keys t' ! b \<noteq> -1" for b
    proof (cases "b = a")
      case True
      have "probe_cas T ((kt_keys t)[a := g]) (hash_slot g T) g = Some a"
        by (rule probe_cas_same) (use a(1) len(1) hash_slot_less[OF T] empty in simp_all)
      then show ?thesis using True a(2) len(1) by (simp add: keys')
    next
      case ne: False
      have kb: "kt_keys t' ! b = kt_keys t ! b" "kt_keys t ! b \<noteq> -1" using ne b(2) by (simp_all add: keys')
      then have "kt_keys t ! b \<in> snd ` S" using tab_okD(3)[OF ok] b(1) len(1) nth_mem by blast
      then have kg: "kt_keys t ! b \<noteq> g" using new by auto
      have "probe_cas T ((kt_keys t)[a := g]) (hash_slot (kt_keys t ! b) T) (kt_keys t ! b) = Some b"
        by (rule probe_cas_update) (use tab_okD(5)[OF ok b(1) kb(2)] len(1) hash_slot_less[OF T] empty ne a(2) kg in simp_all)
      then show ?thesis using kb(1) len(1) by (simp add: keys')
    qed
    have vals: "unat (kt_vals t' ! b) = (if kt_keys t' ! b = -1 then 16383 else Min {q. (q, kt_keys t' ! b) \<in> insert (p, g) S})" if b: "b < T" for b
    proof (cases "b = a")
      case True
      have "unat (kt_vals t ! a) = 16383" using tab_okD(6)[OF ok a(2)] empty by simp
      then have "unat (min (kt_vals t ! a) (word_of_nat p)) = Min {q. (q, g) \<in> insert (p, g) S}"
        by (rule min_first[OF p]) (use new in force)
      then show ?thesis using True g1 b len by (simp add: vals' keys')
    next
      case ne: False
      show ?thesis
      proof (cases "kt_keys t ! b = -1")
        case True then show ?thesis using tab_okD(6)[OF ok b] ne by (simp add: vals' keys')
      next
        case k: False
        then have "kt_keys t ! b \<in> snd ` S" using tab_okD(3)[OF ok] b len(1) nth_mem by blast
        then have "kt_keys t ! b \<noteq> g" using new by auto
        then have "{q. (q, kt_keys t ! b) \<in> insert (p, g) S} = {q. (q, kt_keys t ! b) \<in> S}" by auto
        then show ?thesis using tab_okD(6)[OF ok b] ne k by (simp add: vals' keys')
      qed
    qed
    have card: "card (snd ` insert (p, g) S) = Suc (card (snd ` S))" using new fin by simp
    have sets: "set (kt_keys t') - {-1} = snd ` insert (p, g) S"
      using set_update_new[of a "kt_keys t" "-1" g] a(2) len(1) empty g1 tab_okD(3)[OF ok] by (simp add: keys')
    have cnt: "length (filter (\<lambda>k. k \<noteq> -1) (kt_keys t')) = Suc (card (snd ` S))"
      using filter_update_new[of a "kt_keys t" "-1" g] a(2) len(1) empty g1 tab_okD(7)[OF ok] by (simp add: keys')
    show ?thesis
      unfolding tab_ok_def t'_def[symmetric] card
      using sets slots vals cnt count' empty tab_okD(4)[OF ok] len by (simp add: keys' vals')
  qed
qed

lemma kern_insert_fold:
  assumes "tab_ok T S t" and "finite S" and "card (snd ` (S \<union> set ord)) < T" and "\<forall>(p, g) \<in> set ord. p < 16383 \<and> 0 \<le> g"
  shows "tab_ok T (S \<union> set ord) (fold (kern_insert c) ord t)"
  using assms
proof (induction ord arbitrary: S t)
  case (Cons x ord)
  obtain p g where x: "x = (p, g)" by (cases x)
  have sub: "card (snd ` S) \<le> card (snd ` (S \<union> set (x # ord)))" using Cons.prems(2) by (intro card_mono) auto
  have "tab_ok T (insert (p, g) S) (kern_insert c (p, g) t)"
    by (rule tab_ok_insert) (use Cons.prems sub x in auto)
  from Cons.IH[OF this] Cons.prems x show ?case by simp
qed simp

section \<open>References and their first positions\<close>

fun fresh :: "int set \<Rightarrow> (nat \<times> int) list \<Rightarrow> (nat \<times> int) list" where
  "fresh K [] = []"
| "fresh K ((p, g) # refs) = (if g \<in> K then fresh K refs else (p, g) # fresh (insert g K) refs)"

abbreviation first_pos :: "(nat \<times> int) set \<Rightarrow> int \<Rightarrow> nat" where
  "first_pos S g \<equiv> Min {q. (q, g) \<in> S}"

lemma firsts_fresh: "firsts refs d = d @ map prod.swap (fresh (fst ` set d) refs)"
  by (induction refs d rule: firsts.induct) (simp_all add: insert_commute)

lemma fresh_filter:
  assumes "sorted_wrt (<) (map fst refs)"
  shows "fresh K refs = filter (\<lambda>(p, g). g \<notin> K \<and> p = first_pos (set refs) g) refs"
  using assms
proof (induction refs arbitrary: K)
  case (Cons x refs)
  obtain p g where x: "x = (p, g)" by (cases x)
  have later: "\<And>q k. (q, k) \<in> set refs \<Longrightarrow> p < q" using Cons.prems x by (force simp: image_iff)
  have keep: "first_pos (set (x # refs)) k = first_pos (set refs) k" if "k \<noteq> g" for k
    using that x by (intro arg_cong[of _ _ Min]) auto
  have head: "first_pos (set (x # refs)) g = p"
  proof (rule Min_eqI)
    have "{q. (q, g) \<in> set (x # refs)} \<subseteq> fst ` set (x # refs)" by force
    then show "finite {q. (q, g) \<in> set (x # refs)}" by (rule finite_subset) simp
  qed (use later x in \<open>force+\<close>)
  show ?case
  proof (cases "g \<in> K")
    case True
    have "filter (\<lambda>(q, k). k \<notin> K \<and> q = first_pos (set refs) k) refs = filter (\<lambda>(q, k). k \<notin> K \<and> q = first_pos (set (x # refs)) k) refs"
    proof (rule filter_cong[OF refl])
      fix y assume "y \<in> set refs"
      obtain q k where y: "y = (q, k)" by (cases y)
      show "(case y of (q, k) \<Rightarrow> k \<notin> K \<and> q = first_pos (set refs) k) = (case y of (q, k) \<Rightarrow> k \<notin> K \<and> q = first_pos (set (x # refs)) k)"
        using keep[of k] True unfolding y prod.case by metis
    qed
    with Cons True x show ?thesis by simp
  next
    case False
    have "filter (\<lambda>(q, k). k \<notin> insert g K \<and> q = first_pos (set refs) k) refs = filter (\<lambda>(q, k). k \<notin> K \<and> q = first_pos (set (x # refs)) k) refs"
    proof (rule filter_cong[OF refl])
      fix y assume in_refs: "y \<in> set refs"
      obtain q k where y: "y = (q, k)" by (cases y)
      have "p < q" using later in_refs y by blast
      then show "(case y of (q, k) \<Rightarrow> k \<notin> insert g K \<and> q = first_pos (set refs) k) = (case y of (q, k) \<Rightarrow> k \<notin> K \<and> q = first_pos (set (x # refs)) k)"
        using keep[of k] head unfolding y prod.case by (metis insert_iff less_irrefl)
    qed
    with Cons False x head show ?thesis by simp
  qed
qed simp

lemma sorted_filter_fst: "sorted_wrt (<) (map fst (xs :: (nat \<times> 'b) list)) \<Longrightarrow> sorted_wrt (<) (map fst (filter P xs))"
  by (induction xs) auto

lemma sort_key_id: "sorted_wrt (<) (map fst (xs :: (nat \<times> 'b) list)) \<Longrightarrow> sort_key fst xs = xs"
  by (rule sort_key_id_if_sorted) (metis sorted_wrt_mono_rel less_imp_le)

lemma host_refs_sorted: "sorted_wrt (<) (map fst (host_refs ents))"
proof -
  have "map fst (host_refs ents) = map fst (filter (\<lambda>(p, res, g). \<not> (0 \<le> res \<or> g < 0)) (enumerate 0 ents))"
    by (simp add: host_refs_def o_def case_prod_unfold)
  moreover have "sorted_wrt (<) (map fst (enumerate 0 ents))" by (simp add: sorted_wrt_upt)
  ultimately show ?thesis using sorted_filter_fst by metis
qed

lemma host_refs_mem: "(p, g) \<in> set (host_refs ents) \<longleftrightarrow> p < length ents \<and> snd (ents ! p) = g \<and> fst (ents ! p) < 0 \<and> 0 \<le> g"
proof -
  have "(p, g) \<in> set (host_refs ents) \<longleftrightarrow> (\<exists>res. (p, res, g) \<in> set (enumerate 0 ents) \<and> \<not> (0 \<le> res \<or> g < 0))"
    by (force simp: host_refs_def)
  also have "\<dots> \<longleftrightarrow> p < length ents \<and> snd (ents ! p) = g \<and> fst (ents ! p) < 0 \<and> 0 \<le> g"
    by (auto simp: in_set_enumerate_eq) (metis fst_conv snd_conv prod.collapse not_le)+
  finally show ?thesis .
qed

lemma host_refs_pos_unique: "(p, g) \<in> set (host_refs ents) \<Longrightarrow> (p, k) \<in> set (host_refs ents) \<Longrightarrow> g = k"
  by (simp add: host_refs_mem)

text \<open>The misses of the reference, in position order.\<close>

lemma ref_misses:
  "sort_key fst (map (\<lambda>(g, p). (p, g)) (filter (\<lambda>(g, p). slot_of g = None) (firsts (host_refs ents) []))) =
   filter (\<lambda>(p, g). slot_of g = None \<and> p = first_pos (set (host_refs ents)) g) (host_refs ents)"
proof -
  let ?r = "host_refs ents"
  have "map (\<lambda>(g, p). (p, g)) (filter (\<lambda>(g, p). slot_of g = None) (firsts ?r [])) = filter (\<lambda>(p, g). slot_of g = None) (fresh {} ?r)"
    unfolding firsts_fresh by (simp add: filter_map o_def case_prod_unfold prod.swap_def)
  also have "\<dots> = filter (\<lambda>(p, g). slot_of g = None \<and> p = first_pos (set ?r) g) ?r"
    unfolding fresh_filter[OF host_refs_sorted] by (simp add: filter_filter case_prod_unfold conj_commute)
  finally show ?thesis using sort_key_id[OF sorted_filter_fst[OF host_refs_sorted]] by simp
qed

lemma fresh_keys: "snd ` set (fresh K refs) = snd ` set refs - K"
  by (induction K refs rule: fresh.induct) auto

lemma firsts_keys: "fst ` set (firsts refs []) = snd ` set refs"
  by (simp add: firsts_fresh image_image fresh_keys)

lemma firsts_empty: "firsts refs [] = [] \<longleftrightarrow> refs = []"
  using firsts_keys[of refs] by (cases refs) auto

section \<open>The kernel follows the reference\<close>

definition enc :: "(nat \<times> int) set \<Rightarrow> (int \<Rightarrow> place option) \<Rightarrow> int \<Rightarrow> 16 word" where
  "enc S sm g = (case sm g of None \<Rightarrow> word_of_nat (first_pos S g) | Some (Hit s) \<Rightarrow> kTagHit OR word_of_int s
                 | Some (Miss s) \<Rightarrow> kTagMiss OR word_of_int s | Some Invalid \<Rightarrow> kTagInvalid)"

definition vals_rel :: "int list \<Rightarrow> (nat \<times> int) set \<Rightarrow> (int \<Rightarrow> place option) \<Rightarrow> 16 word list \<Rightarrow> bool" where
  "vals_rel keys S sm vals \<longleftrightarrow> length vals = length keys \<and> (\<forall>a < length keys. keys ! a \<noteq> -1 \<longrightarrow> vals ! a = enc S sm (keys ! a))"

text \<open>A table without stale slots: each key has one slot, which its probe sequence ends at.\<close>

definition keys_ok :: "int set \<Rightarrow> int list \<Rightarrow> bool" where
  "keys_ok K keys \<longleftrightarrow> (\<forall>g. \<exists>a < length keys. slot_in keys g = Some a \<and> (if g \<in> K then keys ! a = g else keys ! a = -1)) \<and>
     (\<forall>a < length keys. keys ! a \<noteq> -1 \<longrightarrow> slot_in keys (keys ! a) = Some a)"

lemma keys_ok_tab:
  assumes "tab_ok T S t" and "card (snd ` S) < T" and "\<forall>g \<in> snd ` S. 0 \<le> g"
  shows "keys_ok (snd ` S) (kt_keys t)"
proof -
  have "\<exists>a < T. slot_in (kt_keys t) g = Some a \<and> (if g \<in> snd ` S then kt_keys t ! a = g else kt_keys t ! a = -1)" for g
  proof (cases "g \<in> snd ` S")
    case True
    then show ?thesis using tab_key_slot[OF assms(1) True] assms(3) by force
  next
    case False
    obtain a where a: "slot_in (kt_keys t) g = Some a" "a < T" "kt_keys t ! a = -1 \<or> kt_keys t ! a = g"
      using tab_has_room[OF assms(1,2)] by blast
    have "kt_keys t ! a = g \<Longrightarrow> g = -1" using tab_okD(1,3)[OF assms(1)] False a(2) nth_mem[of a "kt_keys t"] by blast
    then show ?thesis using a False by auto
  qed
  then show ?thesis using tab_okD(1,5)[OF assms(1)] unfolding keys_ok_def by blast
qed

lemma keys_okD:
  assumes "keys_ok K keys"
  obtains a where "a < length keys" "slot_in keys g = Some a" "g \<in> K \<Longrightarrow> keys ! a = g" "g \<notin> K \<Longrightarrow> keys ! a = -1"
  using assms unfolding keys_ok_def by metis

lemma vals_rel_update:
  assumes "vals_rel keys S sm vals" and "keys_ok K keys" and "g \<in> K" and "slot_in keys g = Some a" and "g \<noteq> -1"
  shows "vals_rel keys S (sm(g := pl)) (vals[a := enc S (sm(g := pl)) g])"
  unfolding vals_rel_def
proof (intro conjI allI impI)
  show "length (vals[a := enc S (sm(g := pl)) g]) = length keys" using assms(1) by (simp add: vals_rel_def)
  fix b assume b: "b < length keys" "keys ! b \<noteq> -1"
  obtain a' where a': "slot_in keys g = Some a'" "keys ! a' = g" "a' < length keys" using keys_okD[OF assms(2), of g] assms(3) by metis
  show "vals[a := enc S (sm(g := pl)) g] ! b = enc S (sm(g := pl)) (keys ! b)"
  proof (cases "keys ! b = g")
    case True
    then have "slot_in keys g = Some b" using assms(2) b unfolding keys_ok_def by blast
    then show ?thesis using assms(1,4) True b by (simp add: vals_rel_def)
  next
    case False
    then have "a \<noteq> b" using a' assms(4) by auto
    then show ?thesis using assms(1) False b by (simp add: vals_rel_def enc_def)
  qed
qed

lemma kern_scan_sim:
  assumes "vals_rel keys S sm vals" and "keys_ok (snd ` S) keys" and "fst ` set first = snd ` S"
  shows "case scan_lru c dgi first lru sm hits ev of (sm', h', e') \<Rightarrow>
     (\<exists>vals'. kern_scan c dgi keys lru vals hits ev = Some (vals', h', e') \<and> vals_rel keys S sm' vals')"
  using assms(1)
proof (induction lru arbitrary: sm vals hits ev)
  case (Cons s lru)
  let ?x = "cached_row c dgi s"
  show ?case
  proof (cases "0 \<le> ?x")
    case False
    with Cons.IH[OF Cons.prems] show ?thesis by (simp add: Let_def)
  next
    case True
    obtain a where a: "a < length keys" "slot_in keys ?x = Some a" "?x \<in> snd ` S \<Longrightarrow> keys ! a = ?x" "?x \<notin> snd ` S \<Longrightarrow> keys ! a = -1"
      by (rule keys_okD[OF assms(2), of ?x]) blast
    have found: "find_key (length keys) keys (hash_slot ?x (length keys)) ?x = Some (if ?x \<in> snd ` S then Some a else None)"
      using True a by (simp add: find_key_probe)
    show ?thesis
    proof (cases "?x \<in> snd ` S")
      case hit: True
      have "vals_rel keys S (sm(?x \<mapsto> Hit s)) (vals[a := kTagHit OR word_of_int s])"
        using vals_rel_update[OF Cons.prems assms(2) hit a(2), of "Some (Hit s)"] True by (simp add: enc_def)
      from Cons.IH[OF this, of "hits @ [s]" ev] found hit True assms(3) show ?thesis by (simp add: Let_def fun_upd_def)
    next
      case miss: False
      from Cons.IH[OF Cons.prems, of hits "ev @ [s]"] found miss True assms(3) show ?thesis by (simp add: Let_def)
    qed
  qed
qed simp

lemma seek_all_keys:
  assumes "keys_ok K keys" and "snd ` set refs \<subseteq> K" and "\<forall>(p, g) \<in> set refs. 0 \<le> g"
  shows "seek_all keys refs = Some (map (\<lambda>(p, g). (p, g, the (slot_in keys g))) refs)"
  using assms(2,3)
proof (induction refs)
  case (Cons x refs)
  obtain p g where x: "x = (p, g)" by (cases x)
  obtain a where a: "slot_in keys g = Some a" "g \<in> K \<Longrightarrow> keys ! a = g" by (rule keys_okD[OF assms(1), of g]) blast
  have "seek_key (length keys) keys (hash_slot g (length keys)) g = Some a"
    by (rule seek_key_probe) (use a Cons.prems x in auto)
  with Cons a x show ?case by simp
qed simp

lemma lru_out_back: "m < length evict \<Longrightarrow> length hits + length evict = n \<Longrightarrow> (hits @ rev evict) ! (n - 1 - m) = evict ! m"
proof -
  assume m: "m < length evict" and n: "length hits + length evict = n"
  then have "n - 1 - m = length hits + (length evict - Suc m)" by simp
  then have "(hits @ rev evict) ! (n - 1 - m) = rev evict ! (length evict - Suc m)" by (metis nth_append_length_plus)
  then show ?thesis using m by (simp add: rev_nth)
qed

lemma kern_load_sim:
  assumes "keys_ok (snd ` S) keys" and "length hits + length evict = rc_hot c" and "vals_rel keys S sm vals"
    and "snd ` set ms \<subseteq> snd ` S" and "\<forall>(p, g) \<in> set ms. 0 \<le> g" and "m + length ms \<le> length evict"
  shows "\<exists>sm' sw' d' vals'. load_misses c rid ms (drop m evict) sm swap dgi = Some (sm', sw', d') \<and>
     kern_load c rid (hits @ rev evict) m (map (\<lambda>(p, g). (p, g, the (slot_in keys g))) ms) vals swap dgi = (vals', sw', d') \<and>
     vals_rel keys S sm' vals'"
  using assms(3-6)
proof (induction ms arbitrary: m sm vals swap dgi)
  case (Cons x ms)
  obtain p g where x: "x = (p, g)" by (cases x)
  have m: "m < length evict" using Cons.prems(4) by simp
  then have ev: "drop m evict = evict ! m # drop (Suc m) evict" by (rule Cons_nth_drop_Suc[symmetric])
  obtain a where a: "slot_in keys g = Some a" by (rule keys_okD[OF assms(1), of g]) blast
  have g: "g \<in> snd ` S" "g \<noteq> -1" using Cons.prems(2,3) x by auto
  note upd = vals_rel_update[OF Cons.prems(1) assms(1) g(1) a g(2)]
  let ?s = "evict ! m"
  have rest: "m + length (x # ms) \<le> length evict \<Longrightarrow> Suc m + length ms \<le> length evict" by simp
  show ?case
  proof (cases "0 \<le> ?s \<and> ?s < int (rc_hot c)")
    case True
    have "vals_rel keys S (sm(g \<mapsto> Miss ?s)) (vals[a := kTagMiss OR word_of_int ?s])"
      using upd[of "Some (Miss ?s)"] by (simp add: enc_def)
    from Cons.IH[OF this _ _ rest[OF Cons.prems(4)]] Cons.prems(2,3)
    show ?thesis using True x a ev lru_out_back[OF m assms(2)] by (simp add: Let_def not_less fun_upd_def)
  next
    case False
    have "vals_rel keys S (sm(g \<mapsto> Invalid)) (vals[a := kTagInvalid])"
      using upd[of "Some Invalid"] by (simp add: enc_def)
    from Cons.IH[OF this _ _ rest[OF Cons.prems(4)]] Cons.prems(2,3)
    show ?thesis using False x a ev lru_out_back[OF m assms(2)] by (auto simp: Let_def not_less fun_upd_def)
  qed
qed simp

text \<open>Places the scan and the loads record lie in the region; loads touch the misses only.\<close>

definition place_in :: "nat \<Rightarrow> place option \<Rightarrow> bool" where
  "place_in hot pl = (case pl of Some (Hit s) \<Rightarrow> 0 \<le> s \<and> s < int hot | Some (Miss s) \<Rightarrow> 0 \<le> s \<and> s < int hot | _ \<Rightarrow> True)"

lemma scan_lru_places:
  "(\<forall>g. place_in (rc_hot c) (sm g) \<and> (sm g = None \<or> (\<exists>s. sm g = Some (Hit s)))) \<Longrightarrow> scan_lru c dgi first lru sm h e = (sm', h', e') \<Longrightarrow>
   \<forall>g. place_in (rc_hot c) (sm' g) \<and> (sm' g = None \<or> (\<exists>s. sm' g = Some (Hit s)))"
proof (induction lru arbitrary: sm h e)
  case (Cons s lru)
  have "0 \<le> cached_row c dgi s \<Longrightarrow> 0 \<le> s \<and> s < int (rc_hot c)" by (simp add: cached_row_def split: if_splits)
  then have "0 \<le> cached_row c dgi s \<Longrightarrow> place_in (rc_hot c) (Some (Hit s))" by (simp add: place_in_def)
  with Cons.prems(1) have "0 \<le> cached_row c dgi s \<Longrightarrow>
     \<forall>g. place_in (rc_hot c) ((sm(cached_row c dgi s \<mapsto> Hit s)) g) \<and> ((sm(cached_row c dgi s \<mapsto> Hit s)) g = None \<or> (\<exists>t. (sm(cached_row c dgi s \<mapsto> Hit s)) g = Some (Hit t)))"
    by simp
  from Cons.IH[OF this] Cons.IH[OF Cons.prems(1)] Cons.prems(2) show ?case by (simp add: Let_def fun_upd_def split: if_splits)
qed simp

lemma scan_lru_split: "scan_lru c dgi first lru sm h e = (sm', h', e') \<Longrightarrow> length h' + length e' = length h + length e + length lru"
  by (induction lru arbitrary: sm h e) (auto simp: Let_def split: if_splits)

lemma load_misses_places:
  "load_misses c rid ms ev sm swap dgi = Some (sm', sw', d') \<Longrightarrow> (\<forall>g. place_in (rc_hot c) (sm g)) \<Longrightarrow>
   (\<forall>g. place_in (rc_hot c) (sm' g)) \<and> (\<forall>g. g \<notin> snd ` set ms \<longrightarrow> sm' g = sm g) \<and> (\<forall>g \<in> snd ` set ms. sm' g \<noteq> None)"
proof (induction c rid ms ev sm swap dgi rule: load_misses.induct)
  case (3 c rid p g ms s evict sm swap dgi)
  show ?case
  proof (cases "0 \<le> s \<and> s < int (rc_hot c)")
    case True
    have pl: "\<forall>k. place_in (rc_hot c) ((sm(g \<mapsto> Miss s)) k)" using 3(4) True by (simp add: place_in_def)
    from 3(1)[OF True _ pl] 3(3) True show ?thesis by (cases "g \<in> snd ` set ms") (auto simp: fun_upd_def split: if_splits)
  next
    case False
    have pl: "\<forall>k. place_in (rc_hot c) ((sm(g \<mapsto> Invalid)) k)" using 3(4) by (simp add: place_in_def)
    from 3(2)[OF False _ pl] 3(3) False show ?thesis by (cases "g \<in> snd ` set ms") (auto simp: fun_upd_def split: if_splits)
  qed
qed auto

text \<open>Decoding an entry.\<close>

lemma enc_decode:
  assumes "place_in (rc_hot (c :: rcfg)) (sm g)" and "rc_hot c < 16384" and "sm g \<noteq> None"
  shows "write_entry_index c rid (enc S sm g) = hot_of c rid (sm g)" "enc S sm g AND kTagMask \<noteq> 0"
    "enc S sm g AND kTagMask = kTagInvalid \<longleftrightarrow> sm g = Some Invalid" "enc S sm g AND kTagMask = kTagMiss \<longleftrightarrow> is_missed (sm g)"
proof -
  have w: "unat (word_of_int s :: 16 word) < 16384" "uint (word_of_int s :: 16 word) = s" if "0 \<le> s" "s < int (rc_hot c)" for s
    using word_slot[of s] that assms(2) by simp_all
  show "write_entry_index c rid (enc S sm g) = hot_of c rid (sm g)" "enc S sm g AND kTagMask \<noteq> 0"
    "enc S sm g AND kTagMask = kTagInvalid \<longleftrightarrow> sm g = Some Invalid" "enc S sm g AND kTagMask = kTagMiss \<longleftrightarrow> is_missed (sm g)"
    using assms(1,3) w tag_or
    by (auto simp: enc_def write_entry_index_def hot_of_def place_in_def is_missed_def split: option.splits place.splits)
qed

lemma enc_position:
  assumes "place_in (rc_hot (c :: rcfg)) (sm g)" and "rc_hot c < 16384" and "p < 16383" and "first_pos S g < 16383"
  shows "enc S sm g = word_of_nat p \<longleftrightarrow> sm g = None \<and> p = first_pos S g"
    "sm g = None \<Longrightarrow> enc S sm g AND kTagMask = 0"
proof -
  have z: "(word_of_nat q :: 16 word) AND kTagMask = 0" if "q < 16384" for q
    using small_slot(2)[of "word_of_nat q"] unat_word16[of q] that by simp
  show "sm g = None \<Longrightarrow> enc S sm g AND kTagMask = 0" using z[of "first_pos S g"] assms(4) by (simp add: enc_def)
  show "enc S sm g = word_of_nat p \<longleftrightarrow> sm g = None \<and> p = first_pos S g"
  proof (cases "sm g")
    case None
    then show ?thesis using word16_inj[of "first_pos S g" p] assms(3,4) by (auto simp: enc_def)
  next
    case (Some pl)
    then have "enc S sm g AND kTagMask \<noteq> 0" using enc_decode(2)[where c = c and sm = sm and g = g and S = S] assms(1,2) by simp
    then show ?thesis using z[of p] assms(3) Some by auto
  qed
qed

lemma first_pos_mem: "finite S \<Longrightarrow> (p, g) \<in> S \<Longrightarrow> (first_pos S g, g) \<in> S"
proof -
  assume S: "finite S" "(p, g) \<in> S"
  have "{q. (q, g) \<in> S} \<subseteq> fst ` S" by force
  then have "finite {q. (q, g) \<in> S}" by (rule finite_subset) (simp add: S(1))
  from Min_in[OF this] S(2) show ?thesis by auto
qed

text \<open>Whatever the other threads' tags a reference sees, it is written from the final entry of its row.\<close>

lemma kern_entry:
  assumes "vals_rel keys S sm2 vals2" and "vals_rel keys S sm3 vals3" and "keys_ok (snd ` S) keys" and "(p, g) \<in> S"
    and "\<forall>(q, k) \<in> S. q < 16383 \<and> 0 \<le> k" and "finite S" and "rc_hot c < 16384"
    and "\<forall>k. place_in (rc_hot (c :: rcfg)) (sm2 k)" and "\<forall>k. place_in (rc_hot c) (sm3 k)"
    and "sm2 g \<noteq> None \<Longrightarrow> sm3 g = sm2 g" and "sm3 g \<noteq> None" and "1 < n \<or> p = first_pos S g"
  shows "entry_at n sees vals2 vals3 (p, g, the (slot_in keys g)) = Some (enc S sm3 g)"
    "vals2 ! the (slot_in keys g) = word_of_nat p \<longleftrightarrow> sm2 g = None \<and> p = first_pos S g"
    "vals3 ! the (slot_in keys g) = enc S sm3 g"
proof -
  have gK: "g \<in> snd ` S" "g \<noteq> -1" and p: "p < 16383" using assms(4,5) by force+
  obtain a where a: "a < length keys" "slot_in keys g = Some a" "keys ! a = g" using keys_okD[OF assms(3), of g] gK(1) by metis
  have v2: "vals2 ! a = enc S sm2 g" and v3: "vals3 ! a = enc S sm3 g" using assms(1,2) a gK by (auto simp: vals_rel_def)
  have fp: "first_pos S g < 16383" using first_pos_mem[OF assms(6,4)] assms(5) by blast
  have pos: "enc S sm2 g = word_of_nat p \<longleftrightarrow> sm2 g = None \<and> p = first_pos S g"
    by (rule enc_position(1)[where c = c]) (use assms(7,8) p fp in simp_all)
  have tag3: "enc S sm3 g AND kTagMask \<noteq> 0"
    by (rule enc_decode(2)[where c = c]) (use assms(7,9,11) in simp_all)
  show "vals2 ! the (slot_in keys g) = word_of_nat p \<longleftrightarrow> sm2 g = None \<and> p = first_pos S g"
    "vals3 ! the (slot_in keys g) = enc S sm3 g"
    using v2 v3 pos a(2) by simp_all
  show "entry_at n sees vals2 vals3 (p, g, the (slot_in keys g)) = Some (enc S sm3 g)"
  proof (cases "sm2 g")
    case None
    then have z: "enc S sm2 g AND kTagMask = 0"
      using enc_position(2)[where c = c and p = p and sm = sm2 and g = g and S = S] assms(7,8) p fp by blast
    show ?thesis
    proof (cases "p = first_pos S g \<or> sees p")
      case True
      then show ?thesis using v3 tag3 a(2) pos None v2 by (auto simp: entry_at_def Let_def)
    next
      case False
      then have "1 < n" using assms(12) by blast
      with False show ?thesis using v2 v3 z a(2) pos by (simp add: entry_at_def Let_def)
    qed
  next
    case (Some pl)
    then have "enc S sm2 g = enc S sm3 g" using assms(10) by (simp add: enc_def)
    then show ?thesis using v2 v3 tag3 a(2) by (simp add: entry_at_def Let_def)
  qed
qed

section \<open>Well-formed cache rows\<close>

text \<open>The type of a state row: the LRU order is a permutation of the slots, and no host row is held twice.\<close>

definition row_ok :: "rcfg \<Rightarrow> int list \<Rightarrow> int list \<Rightarrow> bool" where
  "row_ok c dgi lru \<longleftrightarrow> length dgi = rc_hot c \<and> distinct lru \<and> set lru = int ` {0..<rc_hot c} \<and>
     (\<forall>s < rc_hot c. \<forall>t < rc_hot c. 0 \<le> dgi ! s \<longrightarrow> dgi ! s = dgi ! t \<longrightarrow> s = t)"

definition hit_in :: "rcfg \<Rightarrow> int list \<Rightarrow> int set \<Rightarrow> int \<Rightarrow> bool" where
  "hit_in c dgi K s \<longleftrightarrow> 0 \<le> cached_row c dgi s \<and> cached_row c dgi s \<in> K"

lemma scan_lru_eq:
  "scan_lru c dgi first lru sm h e =
     (fold (\<lambda>s m. if hit_in c dgi (fst ` set first) s then m(cached_row c dgi s \<mapsto> Hit s) else m) lru sm,
      h @ filter (hit_in c dgi (fst ` set first)) lru, e @ filter (\<lambda>s. \<not> hit_in c dgi (fst ` set first) s) lru)"
  by (induction lru arbitrary: sm h e) (simp_all add: Let_def hit_in_def)

lemma hit_fold_iff:
  "fold (\<lambda>s m. if hit_in c dgi K s then m(cached_row c dgi s \<mapsto> Hit s) else m) lru sm g = None \<longleftrightarrow>
   sm g = None \<and> (\<forall>s \<in> set lru. hit_in c dgi K s \<longrightarrow> cached_row c dgi s \<noteq> g)"
  by (induction lru arbitrary: sm) auto

lemma hit_fold_place:
  "fold (\<lambda>s m. if hit_in c dgi K s then m(cached_row c dgi s \<mapsto> Hit s) else m) lru sm g = Some pl \<Longrightarrow>
   sm g = Some pl \<or> (\<exists>s \<in> set lru. hit_in c dgi K s \<and> cached_row c dgi s = g \<and> pl = Hit s)"
proof (induction lru arbitrary: sm)
  case (Cons s lru)
  show ?case
  proof (cases "hit_in c dgi K s")
    case True
    with Cons.prems have "(sm(cached_row c dgi s \<mapsto> Hit s)) g = Some pl \<or> (\<exists>s \<in> set lru. hit_in c dgi K s \<and> cached_row c dgi s = g \<and> pl = Hit s)"
      by (intro Cons.IH) (simp add: fun_upd_def)
    then show ?thesis using True by (cases "cached_row c dgi s = g") auto
  next
    case False
    then show ?thesis using Cons.IH[of sm] Cons.prems by auto
  qed
qed simp

lemma row_ok_cached_inj:
  assumes "row_ok c dgi lru"
  shows "inj_on (cached_row c dgi) {s \<in> set lru. hit_in c dgi K s}"
proof (rule inj_onI)
  fix s t assume "s \<in> {s \<in> set lru. hit_in c dgi K s}" "t \<in> {s \<in> set lru. hit_in c dgi K s}" "cached_row c dgi s = cached_row c dgi t"
  then show "s = t" using assms by (auto simp: row_ok_def hit_in_def cached_row_def)
qed

lemma miss_count:
  assumes "distinct refs" and "finite S" and "S = set refs" and "\<And>g. sm g = None \<longleftrightarrow> g \<notin> H"
  shows "length (filter (\<lambda>(p, g). sm g = None \<and> p = first_pos S g) refs) = card (snd ` S - H)"
proof -
  let ?m = "filter (\<lambda>(p, g). sm g = None \<and> p = first_pos S g) refs"
  have "length ?m = card (set ?m)" by (rule distinct_card[symmetric]) (simp add: assms(1))
  also have "\<dots> = card (snd ` set ?m)" by (rule card_image[symmetric]) (auto intro!: inj_onI)
  also have "snd ` set ?m = snd ` S - H"
  proof
    show "snd ` set ?m \<subseteq> snd ` S - H" using assms(3,4) by force
    show "snd ` S - H \<subseteq> snd ` set ?m"
    proof
      fix g assume g: "g \<in> snd ` S - H"
      then obtain p where "(p, g) \<in> S" by auto
      from first_pos_mem[OF assms(2) this] g assms(3,4) show "g \<in> snd ` set ?m" by force
    qed
  qed
  finally show ?thesis .
qed

lemma enough_slots:
  assumes "row_ok c dgi lru" and "distinct refs" and "fst ` set first = snd ` set refs" and "card (snd ` set refs) \<le> rc_hot c"
    and "scan_lru c dgi first lru Map.empty [] [] = (sm, h, e)"
  shows "length (filter (\<lambda>(p, g). sm g = None \<and> p = first_pos (set refs) g) refs) \<le> length e"
proof -
  let ?K = "snd ` set refs"
  let ?H = "cached_row c dgi ` {s \<in> set lru. hit_in c dgi ?K s}"
  have sm: "sm = fold (\<lambda>s m. if hit_in c dgi ?K s then m(cached_row c dgi s \<mapsto> Hit s) else m) lru Map.empty"
    and h: "h = filter (hit_in c dgi ?K) lru" and e: "e = filter (\<lambda>s. \<not> hit_in c dgi ?K s) lru"
    using assms(5) by (simp_all add: scan_lru_eq assms(3))
  have none: "sm g = None \<longleftrightarrow> g \<notin> ?H" for g unfolding sm hit_fold_iff by auto
  have "card ?H = card {s \<in> set lru. hit_in c dgi ?K s}" by (rule card_image[OF row_ok_cached_inj[OF assms(1)]])
  also have "\<dots> = length h" using assms(1) unfolding h row_ok_def by (metis distinct_card distinct_filter set_filter)
  finally have H: "card ?H = length h" .
  have "?H \<subseteq> ?K" by (auto simp: hit_in_def)
  then have "card (?K - ?H) = card ?K - length h" using H by (simp add: card_Diff_subset finite_subset)
  moreover have "length h + length e = length lru" unfolding h e by (simp add: sum_length_filter_compl)
  moreover have "length lru = rc_hot c" using assms(1) by (metis row_ok_def distinct_card card_image inj_on_of_nat card_atLeastLessThan diff_zero)
  ultimately show ?thesis using assms(4) miss_count[OF assms(2) _ refl none] by simp
qed

section \<open>Equivalence\<close>

text \<open>A run the wrapper and the runtime allow: the region fits the 14-bit entries and the buffer chunks, the distinct host rows fit the
  union, the positions of the insertion order are the host references.\<close>

definition run_ok :: "rcfg \<Rightarrow> int \<Rightarrow> int \<Rightarrow> nat \<Rightarrow> int list \<Rightarrow> (nat \<times> int) list \<Rightarrow> bool" where
  "run_ok c rid st n toks ord \<longleftrightarrow>
     (let refs = host_refs (map (translate_topk_entry c rid st) toks)
      in host_backed c st \<and> fits (int (rc_hash c) - 1) (int (rc_hot c)) (2 ^ 30) \<and> n * rc_top_k c \<le> (rc_hot c + 31) div 32 * 32 \<and>
         length toks = n * rc_top_k c \<and> set ord = set refs \<and> card (snd ` set refs) < rc_hash c)"

lemma fits_caps:
  assumes "fits (int h - 1) (int hot) available"
  shows "(hot + 31) div 32 * 32 < 16383" "h \<le> hot + 1"
proof -
  have "- ((- int hot) div 32) = int ((hot + 31) div 32)" by (simp add: zdiv_int)
  then have "int ((hot + 31) div 32) * 32 < 16383" using assms by (simp add: fits_def POS_LIMIT_def)
  then show "(hot + 31) div 32 * 32 < 16383" by linarith
  show "h \<le> hot + 1" using assms by (simp add: fits_def)
qed

lemma host_refs_distinct: "distinct (host_refs ents)"
proof -
  have "distinct (map fst (host_refs ents))"
    using host_refs_sorted[of ents] by (simp add: strict_sorted_iff)
  then show ?thesis by (simp add: distinct_map)
qed

lemma host_refs_bound: "(p, g) \<in> set (host_refs ents) \<Longrightarrow> p < length ents \<and> 0 \<le> g"
  by (simp add: host_refs_mem)

lemma map_of_refs:
  assumes "(p, g) \<in> set (host_refs ents)"
  shows "map_of (map (\<lambda>x. (fst x, f x)) (map (\<lambda>(p, g). (p, g, idx g)) (host_refs ents))) p = Some (f (p, g, idx g))"
proof (rule map_of_is_SomeI)
  have "map fst (map (\<lambda>x. (fst x, f x)) (map (\<lambda>(p, g). (p, g, idx g)) (host_refs ents))) = map fst (host_refs ents)"
    by (simp add: case_prod_unfold)
  then show "distinct (map fst (map (\<lambda>x. (fst x, f x)) (map (\<lambda>(p, g). (p, g, idx g)) (host_refs ents))))"
    using host_refs_sorted[of ents] by (simp only: strict_sorted_iff)
  show "(p, f (p, g, idx g)) \<in> set (map (\<lambda>x. (fst x, f x)) (map (\<lambda>(p, g). (p, g, idx g)) (host_refs ents)))"
    using assms by force
qed

lemma kern_rows:
  assumes "\<And>p g. (p, g) \<in> set (host_refs ents) \<Longrightarrow> map_option (write_entry_index c rid) (entry p) = Some (hot_of c rid (slots g))"
  shows "map (kern_row c rid entry) (enumerate 0 ents) = map (\<lambda>e. Some (ref_row c rid slots e)) ents"
proof (rule nth_equalityI)
  fix i assume "i < length (map (kern_row c rid entry) (enumerate 0 ents))"
  then have i: "i < length ents" by simp
  obtain res g where e: "ents ! i = (res, g)" by (cases "ents ! i")
  have "0 \<le> res \<or> g < 0 \<or> (i, g) \<in> set (host_refs ents)" using i e by (auto simp: host_refs_mem)
  with assms[of i g] i e show "map (kern_row c rid entry) (enumerate 0 ents) ! i = map (\<lambda>e. Some (ref_row c rid slots e)) ents ! i"
    by (auto simp: nth_enumerate_eq kern_row_def ref_row_def)
qed simp

lemma lru_rotation:
  assumes "length hits + length evict = n" and "m \<le> length evict"
  shows "map (\<lambda>i. if i < n - length hits - m then (hits @ rev evict) ! (n - 1 - m - i)
                  else if i < n - length hits - m + m then (hits @ rev evict) ! (n - 1 - (i - (n - length hits - m)))
                  else (hits @ rev evict) ! (i - (n - length hits - m) - m)) [0..<n] =
         drop m evict @ take m evict @ hits" (is "?l = ?r")
proof (rule nth_equalityI)
  show "length ?l = length ?r" using assms by simp
  fix i assume "i < length ?l"
  then have i: "i < n" by simp
  have ev: "n - length hits = length evict" using assms(1) by simp
  consider "i < length evict - m" | "length evict - m \<le> i" "i < length evict" | "length evict \<le> i" by linarith
  then show "?l ! i = ?r ! i"
  proof cases
    case 1
    then have "(hits @ rev evict) ! (n - 1 - (m + i)) = evict ! (m + i)" by (intro lru_out_back assms(1)) simp
    then show ?thesis using 1 i ev assms(2) by (simp add: nth_append)
  next
    case 2
    obtain k where k: "i = length evict - m + k" using 2(1) le_Suc_ex by blast
    then have km: "k < m" using 2(2) assms(2) by simp
    have "(hits @ rev evict) ! (n - 1 - k) = evict ! k" using km assms by (intro lru_out_back) simp_all
    moreover have c: "\<not> i < n - length hits - m" "i < n - length hits - m + m" "i - (n - length hits - m) = k"
      using k km ev assms(2) by simp_all
    moreover have "?l ! i = (hits @ rev evict) ! (n - 1 - (i - (n - length hits - m)))"
      using i c(1,2) by (simp only: nth_map length_upt nth_upt add_0 diff_zero if_False if_True not_False_eq_True)
    moreover have "?r ! i = evict ! k"
    proof -
      have "?r ! i = (drop m evict @ (take m evict @ hits)) ! (length (drop m evict) + k)" using k by simp
      also have "\<dots> = (take m evict @ hits) ! k" by (rule nth_append_length_plus)
      finally show ?thesis using km assms(2) by (simp add: nth_append)
    qed
    ultimately show ?thesis by (simp only:)
  next
    case 3
    then obtain k where k: "i = length evict + k" using le_Suc_ex by blast
    have kh: "k < length hits" using k i assms(1) by simp
    have c: "\<not> i < n - length hits - m" "\<not> i < n - length hits - m + m" "i - (n - length hits - m) - m = k"
      using k ev assms(2) by simp_all
    have "?l ! i = (hits @ rev evict) ! (i - (n - length hits - m) - m)"
      using i c(1,2) by (simp only: nth_map length_upt nth_upt add_0 diff_zero if_False)
    moreover have "(hits @ rev evict) ! k = hits ! k" using kh by (simp add: nth_append)
    moreover have "?r ! i = hits ! k"
    proof -
      have "?r ! i = ((drop m evict @ take m evict) @ hits) ! (length (drop m evict @ take m evict) + k)" using k assms(2) by simp
      then show ?thesis by (simp only: nth_append_length_plus)
    qed
    ultimately show ?thesis using c(3) by (simp only:)
  qed
qed

lemma filter_len_diff:
  "(\<And>x. x \<in> set xs \<Longrightarrow> Q x \<Longrightarrow> P x) \<Longrightarrow> length (filter P xs) - length (filter Q xs) = length (filter (\<lambda>x. P x \<and> \<not> Q x) xs)"
proof (induction xs)
  case (Cons x xs)
  have "length (filter Q xs) \<le> length (filter P xs)"
    using Cons.prems by (metis (mono_tags, lifting) filter_cong filter_filter length_filter_le list.set_intros(2))
  with Cons show ?case by (auto simp: Suc_diff_le)
qed simp

lemma kern_matches_ref:
  assumes ok: "run_ok c rid st n toks ord" and row: "row_ok c dgi lru"
    and rows: "1 < n \<or> distinct (map snd (host_refs (map (translate_topk_entry c rid st) toks)))"
  shows "\<exists>out. ref_run c rid st n toks dgi lru = Some out \<and> kern_run c rid st n toks ord sees dgi lru = Some out"
proof -
  define ents where "ents = map (translate_topk_entry c rid st) toks"
  define refs where "refs = host_refs ents"
  define S where "S = set refs"
  define T where "T = table_size c n"
  define tab where "tab = fold (kern_insert c) ord (ktab_init T)"
  define keys where "keys = kt_keys tab"
  define idx where "idx g = the (slot_in keys g)" for g
  have cap: "(rc_hot c + 31) div 32 * 32 < 16383" "rc_hash c \<le> rc_hot c + 1" "n * rc_top_k c \<le> (rc_hot c + 31) div 32 * 32"
    "length toks = n * rc_top_k c" "set ord = S" "card (snd ` S) < rc_hash c" and backed: "host_backed c st"
    using ok fits_caps[of "rc_hash c" "rc_hot c" "2 ^ 30"] by (simp_all add: run_ok_def Let_def ents_def[symmetric] refs_def[symmetric] S_def[symmetric])
  have fin: "finite S" by (simp add: S_def)
  have bnd: "\<forall>(p, g) \<in> S. p < 16383 \<and> 0 \<le> g"
    using host_refs_bound[of _ _ ents] cap(1,3,4) by (fastforce simp: S_def refs_def ents_def)
  have hot: "rc_hot c < 16384" using cap(1) by simp
  have cardS: "card (snd ` S) \<le> n * rc_top_k c"
  proof -
    have "length refs \<le> length ents" unfolding refs_def host_refs_def
      by (metis length_enumerate length_filter_le length_map)
    then show ?thesis using cap(4) card_length[of "map snd refs"] by (simp add: S_def ents_def)
  qed
  show ?thesis
  proof (cases "refs = []")
    case True
    have k0: "kern_row c rid (\<lambda>_. None) = kern_row c rid (\<lambda>_. None)" ..
    have "map (kern_row c rid (\<lambda>_. None)) (enumerate 0 ents) = map (\<lambda>e. Some (ref_row c rid Map.empty e)) ents"
      by (rule kern_rows) (use True refs_def in simp)
    moreover from this have "map (map_option (attn_of c) \<circ> kern_row c rid (\<lambda>_. None)) (enumerate 0 ents) = map (\<lambda>e. Some (attn_of c (ref_row c rid Map.empty e))) ents"
      by (simp add: map_map[symmetric] del: map_map) simp
    moreover have "ord = []" "0 < rc_hash c" using cap(5,6) True by (simp_all add: S_def)
    ultimately show ?thesis using True
      by (simp add: ref_entry_eq[OF backed] ref_run_def kern_run_def Let_def ents_def[symmetric] refs_def[symmetric] firsts_empty ktab_init_def)
  next
    case False
    have "S \<noteq> {}" using False by (simp add: S_def)
    then have posS: "0 < card (snd ` S)" using fin by (simp add: card_gt_0_iff)
    then have room: "card (snd ` S) < T" using cap(6) cardS by (simp add: T_def table_size_def)
    have tab: "tab_ok T S tab"
      using kern_insert_fold[OF tab_ok_init[of T], where ord = ord and c = c] room bnd cap(5) by (simp add: tab_def)
    have keys: "keys_ok (snd ` S) keys" unfolding keys_def by (rule keys_ok_tab[OF tab room]) (use bnd in force)
    have v1: "vals_rel keys S Map.empty (kt_vals tab)"
      unfolding vals_rel_def
    proof (intro conjI allI impI)
      show "length (kt_vals tab) = length keys" using tab_okD(1,2)[OF tab] by (simp add: keys_def)
      fix a assume a: "a < length keys" "keys ! a \<noteq> -1"
      then have "unat (kt_vals tab ! a) = first_pos S (keys ! a)" using tab_okD(1)[OF tab] tab_okD(6)[OF tab, of a] by (simp add: keys_def)
      then show "kt_vals tab ! a = enc S Map.empty (keys ! a)" by (simp add: enc_def) (metis of_nat_unat ucast_id)
    qed
    have fk: "fst ` set (firsts refs []) = snd ` S" by (simp add: firsts_keys S_def)
    obtain sm2 hits evict where scan: "scan_lru c dgi (firsts refs []) lru Map.empty [] [] = (sm2, hits, evict)" by (metis prod_cases3)
    with kern_scan_sim[OF v1 keys fk, of c dgi lru "[]" "[]"] obtain vals2 where
      kscan: "kern_scan c dgi keys lru (kt_vals tab) [] [] = Some (vals2, hits, evict)" and v2: "vals_rel keys S sm2 vals2" by auto
    have pl2: "\<forall>g. place_in (rc_hot c) (sm2 g) \<and> (sm2 g = None \<or> (\<exists>s. sm2 g = Some (Hit s)))"
      by (rule scan_lru_places[OF _ scan]) (simp add: place_in_def)
    have split: "length hits + length evict = rc_hot c"
      using scan_lru_split[OF scan] row by (simp add: row_ok_def) (metis card_image card_atLeastLessThan diff_zero distinct_card inj_on_of_nat)
    have seek: "seek_all keys refs = Some (map (\<lambda>(p, g). (p, g, idx g)) refs)"
      unfolding idx_def by (rule seek_all_keys[OF keys]) (use bnd in \<open>auto simp: S_def\<close>)
    define misses where "misses = filter (\<lambda>(p, g). sm2 g = None \<and> p = first_pos S g) refs"
    have few: "length misses \<le> length evict"
      unfolding misses_def S_def
      by (rule enough_slots[OF row _ _ _ scan]) (use fk cap(2,6) in \<open>simp_all add: S_def refs_def host_refs_distinct\<close>)
    have rmiss: "sort_key fst (map (\<lambda>(g, p). (p, g)) (filter (\<lambda>(g, p). sm2 g = None) (firsts refs []))) = misses"
      unfolding misses_def S_def refs_def by (rule ref_misses)
    have msub: "set misses \<subseteq> S" by (auto simp: misses_def S_def)
    have "\<exists>sm' sw' d' vals'. load_misses c rid misses (drop 0 evict) sm2 [] dgi = Some (sm', sw', d') \<and>
       kern_load c rid (hits @ rev evict) 0 (map (\<lambda>(p, g). (p, g, idx g)) misses) vals2 [] dgi = (vals', sw', d') \<and> vals_rel keys S sm' vals'"
      unfolding idx_def by (rule kern_load_sim[OF keys split v2]) (use msub bnd few in auto)
    then obtain sm3 swap dgi' vals3 where
      load: "load_misses c rid misses evict sm2 [] dgi = Some (sm3, swap, dgi')" and
      kload: "kern_load c rid (hits @ rev evict) 0 (map (\<lambda>(p, g). (p, g, idx g)) misses) vals2 [] dgi = (vals3, swap, dgi')" and
      v3: "vals_rel keys S sm3 vals3"
      unfolding drop_0 by blast
    have pl3: "(\<forall>g. place_in (rc_hot c) (sm3 g)) \<and> (\<forall>g. g \<notin> snd ` set misses \<longrightarrow> sm3 g = sm2 g) \<and> (\<forall>g \<in> snd ` set misses. sm3 g \<noteq> None)"
      by (rule load_misses_places[OF load]) (simp add: pl2)
    have miss_iff: "p \<in> fst ` set misses \<longleftrightarrow> sm2 g = None \<and> p = first_pos S g" if "(p, g) \<in> S" for p g
    proof -
      have "p \<in> fst ` set misses \<longleftrightarrow> (\<exists>k. (p, k) \<in> S \<and> sm2 k = None \<and> p = first_pos S k)"
        unfolding misses_def S_def by (auto simp: image_iff)
      moreover have "(p, k) \<in> S \<Longrightarrow> k = g" for k using host_refs_pos_unique[of p k ents g] that by (simp add: S_def refs_def)
      ultimately show ?thesis using that by blast
    qed
    have some3: "sm3 g \<noteq> None" "sm2 g \<noteq> None \<Longrightarrow> sm3 g = sm2 g" if g: "(p, g) \<in> S" for p g
    proof -
      have "g \<in> snd ` set misses" if "sm2 g = None"
      proof -
        have "(first_pos S g, g) \<in> set misses" using first_pos_mem[OF fin g] that unfolding misses_def S_def by simp
        then show ?thesis by (rule image_eqI[rotated]) simp
      qed
      moreover have "sm3 g = sm2 g" if "g \<notin> snd ` set misses" using pl3 that by blast
      ultimately show "sm3 g \<noteq> None" using pl3 by metis
      have "sm2 g \<noteq> None \<Longrightarrow> g \<notin> snd ` set misses" by (auto simp: misses_def)
      then show "sm2 g \<noteq> None \<Longrightarrow> sm3 g = sm2 g" using pl3 by blast
    qed
    have fp: "1 < n \<or> p = first_pos S g" if "(p, g) \<in> S" for p g
    proof -
      have "p = first_pos S g" if d: "distinct (map snd refs)"
      proof -
        have "{q. (q, g) \<in> S} = {p}" using \<open>(p, g) \<in> S\<close> inj_onD[of snd "set refs"] d by (fastforce simp: S_def distinct_map)
        then show ?thesis by simp
      qed
      then show ?thesis using rows by (auto simp: refs_def ents_def)
    qed
    have places: "\<forall>k. place_in (rc_hot c) (sm2 k)" "\<forall>k. place_in (rc_hot c) (sm3 k)" using pl2 pl3 by simp_all
    have ent: "entry_at n sees vals2 vals3 (p, g, idx g) = Some (enc S sm3 g)"
      "vals2 ! idx g = word_of_nat p \<longleftrightarrow> sm2 g = None \<and> p = first_pos S g" "vals3 ! idx g = enc S sm3 g" if "(p, g) \<in> S" for p g
      unfolding idx_def by (rule kern_entry[OF v2 v3 keys that bnd fin hot places some3(2)[OF that] some3(1)[OF that] fp[OF that]], assumption)+
    define entry_of where "entry_of p = (case map_of (map (\<lambda>x. (fst x, entry_at n sees vals2 vals3 x)) (map (\<lambda>(p, g). (p, g, idx g)) refs)) p of Some (Some e) \<Rightarrow> Some e | _ \<Rightarrow> None)" for p
    have entry_of: "entry_of p = Some (enc S sm3 g)" if "(p, g) \<in> S" for p g
      unfolding entry_of_def refs_def map_of_refs[OF that[unfolded S_def refs_def]] ent(1)[OF that] option.case ..
    have dec: "write_entry_index c rid (enc S sm3 g) = hot_of c rid (sm3 g)"
      "enc S sm3 g AND kTagMask = kTagInvalid \<longleftrightarrow> sm3 g = Some Invalid" "enc S sm3 g AND kTagMask = kTagMiss \<longleftrightarrow> is_missed (sm3 g)"
      if "(p, g) \<in> S" for p g
      by (rule enc_decode[where c = c and sm = sm3 and g = g, OF places(2)[rule_format] hot some3(1)[OF that]])+
    have hotrows: "map (kern_row c rid entry_of) (enumerate 0 ents) = map (\<lambda>e. Some (ref_row c rid sm3 e)) ents"
      by (rule kern_rows) (use entry_of dec(1) in \<open>simp add: S_def refs_def\<close>)
    then have attnrows: "map (map_option (attn_of c) \<circ> kern_row c rid entry_of) (enumerate 0 ents) = map (\<lambda>e. Some (attn_of c (ref_row c rid sm3 e))) ents"
      by (simp add: map_map[symmetric] del: map_map) simp
    have kmiss: "filter (\<lambda>(p, g, h). vals2 ! h = word_of_nat p) (map (\<lambda>(p, g). (p, g, idx g)) refs) = map (\<lambda>(p, g). (p, g, idx g)) misses"
      unfolding misses_def filter_map by (rule arg_cong[of _ _ "map _"], rule filter_cong) (use ent(2) in \<open>auto simp: S_def\<close>)
    let ?good = "filter (\<lambda>(p, g, h). case entry_of p of Some e \<Rightarrow> e AND kTagMask \<noteq> kTagInvalid | None \<Rightarrow> False) (map (\<lambda>(p, g). (p, g, idx g)) refs)"
    let ?loaded = "filter (\<lambda>(p, g, h). vals2 ! h = word_of_nat p \<and> vals3 ! h AND kTagMask = kTagMiss) ?good"
    have good: "?good = map (\<lambda>(p, g). (p, g, idx g)) (filter (\<lambda>(p, g). sm3 g \<noteq> Some Invalid) refs)"
      unfolding filter_map by (rule arg_cong[of _ _ "map _"], rule filter_cong) (use entry_of dec(2) in \<open>auto simp: S_def\<close>)
    have loaded: "?loaded = map (\<lambda>(p, g). (p, g, idx g)) (filter (\<lambda>(p, g). is_missed (sm3 g) \<and> p \<in> fst ` set misses) (filter (\<lambda>(p, g). sm3 g \<noteq> Some Invalid) refs))"
    proof -
      have "((\<lambda>(p, g, h). vals2 ! h = word_of_nat p \<and> vals3 ! h AND kTagMask = kTagMiss) \<circ> (\<lambda>(p, g). (p, g, idx g))) x =
        (\<lambda>(p, g). is_missed (sm3 g) \<and> p \<in> fst ` set misses) x" if "x \<in> set (filter (\<lambda>(p, g). sm3 g \<noteq> Some Invalid) refs)" for x
      proof -
        obtain p g where x0: "x = (p, g)" by (cases x)
        with that have x: "x = (p, g)" "(p, g) \<in> S" unfolding S_def by simp_all
        show ?thesis unfolding x(1) o_apply prod.case ent(2)[OF x(2)] ent(3)[OF x(2)] dec(3)[OF x(2)] miss_iff[OF x(2)] by blast
      qed
      then show ?thesis unfolding good unfolding filter_map by (intro arg_cong[of _ _ "map _"] filter_cong) simp_all
    qed
    have nload: "length ?loaded = length (filter (\<lambda>(p, g). is_missed (sm3 g) \<and> p \<in> fst ` set misses) refs)"
      unfolding loaded unfolding length_map filter_filter
      by (intro arg_cong[of _ _ length] filter_cong) (auto simp: is_missed_def split: option.splits place.splits)
    have nhit: "length ?good - length ?loaded = length (filter (\<lambda>(p, g). sm3 g \<noteq> Some Invalid \<and> \<not> (is_missed (sm3 g) \<and> p \<in> fst ` set misses)) refs)"
      unfolding nload unfolding good length_map
      by (subst filter_len_diff) (auto simp: is_missed_def case_prod_unfold split: option.splits place.splits)
    note lru = lru_rotation[OF split few]
    have count: "kt_count tab = card (snd ` S)" by (rule tab_okD(4)[OF tab])
    have ne: "firsts refs [] \<noteq> []" using False by (simp add: firsts_empty)
    have ref: "ref_run c rid st n toks dgi lru = Some
       \<lparr>ro_hot = map (\<lambda>e. Some (ref_row c rid sm3 e)) ents, ro_attn = map (\<lambda>e. Some (attn_of c (ref_row c rid sm3 e))) ents,
        ro_valid = valid_of c ents n, ro_swap = swap, ro_cnt = swap_cnt c n (length misses),
        ro_hits = length (filter (\<lambda>(p, g). sm3 g \<noteq> Some Invalid \<and> \<not> (is_missed (sm3 g) \<and> p \<in> fst ` set misses)) refs),
        ro_misses = length (filter (\<lambda>(p, g). is_missed (sm3 g) \<and> p \<in> fst ` set misses) refs),
        ro_dgi = dgi', ro_lru = drop (length misses) evict @ take (length misses) evict @ hits\<rparr>"
      unfolding ref_run_def ref_entry_eq[OF backed] ents_def[symmetric] refs_def[symmetric] Let_def if_not_P[OF ne] scan prod.case rmiss load option.case ..
    have c1: "\<not> rc_hash c \<le> kt_count tab" "kt_count tab \<noteq> 0" "\<not> (rc_hot c + 31) div 32 * 32 < n * rc_top_k c"
      using count cap(3,6) posS by simp_all
    have kern: "kern_run c rid st n toks ord sees dgi lru = Some
       \<lparr>ro_hot = map (kern_row c rid entry_of) (enumerate 0 ents), ro_attn = map (map_option (attn_of c) \<circ> kern_row c rid entry_of) (enumerate 0 ents),
        ro_valid = valid_of c ents n, ro_swap = swap, ro_cnt = swap_cnt c n (length misses),
        ro_hits = length ?good - length ?loaded, ro_misses = length ?loaded, ro_dgi = dgi',
        ro_lru = drop (length misses) evict @ take (length misses) evict @ hits\<rparr>"
      unfolding kern_run_def kern_lru_def ents_def[symmetric] refs_def[symmetric] Let_def T_def[symmetric] tab_def[symmetric] keys_def[symmetric]
        if_not_P[OF c1(1)] if_not_P[OF c1(2)] if_not_P[OF c1(3)] kscan seek prod.case option.case kmiss length_map kload entry_of_def[symmetric] lru ..
    have "kern_run c rid st n toks ord sees dgi lru = ref_run c rid st n toks dgi lru"
      unfolding kern hotrows attnrows nhit unfolding nload ref ..
    then show ?thesis using ref by (intro exI conjI) simp_all
  qed
qed

section \<open>The 16-bit minimum\<close>

lemma half_bits: "bit (half w idx) n \<longleftrightarrow> n < 16 \<and> bit w (idx mod 2 * 16 + n)"
  by (auto simp: half_def bit_simps ac_simps dest: bit_imp_le_length)

lemma mask16: "(0xFFFF :: 32 word) = mask 16"
  by (simp add: mask_eq_exp_minus_1)

lemma half_ucast: "ucast (half w idx) = drop_bit (idx mod 2 * 16) w AND (0xFFFF :: 32 word)"
  unfolding mask16 by (rule bit_word_eqI) (auto simp: half_bits bit_simps ac_simps)

lemma unat_up: "unat (ucast (v :: 16 word) :: 32 word) = unat v"
proof -
  have "unat v < 2 ^ 16" using unsigned_less[of v] by simp
  then show ?thesis by (simp add: unsigned_ucast_eq take_bit_nat_eq_self)
qed

text \<open>The swap takes the minimum of its own half and leaves the other half of the word alone.\<close>

lemma atomic_min_own: "half (atomic_min_u16 w idx v) idx = min (half w idx) v"
proof (cases "half w idx \<le> v")
  case True
  then have "(ucast (half w idx) :: 32 word) \<le> ucast v" by (simp add: word_le_nat_alt unat_up)
  then show ?thesis using True by (simp add: atomic_min_u16_def Let_def half_ucast min_def)
next
  case False
  then have "\<not> (ucast (half w idx) :: 32 word) \<le> ucast v" by (simp add: word_le_nat_alt unat_up)
  then have eq: "atomic_min_u16 w idx v = (w AND NOT (push_bit (idx mod 2 * 16) 0xFFFF)) OR push_bit (idx mod 2 * 16) (ucast v)"
    by (simp add: atomic_min_u16_def Let_def half_ucast)
  have "half (atomic_min_u16 w idx v) idx = v"
    unfolding eq mask16 by (rule bit_word_eqI) (auto simp: half_bits bit_simps)
  then show ?thesis using False by (simp add: min_def)
qed

lemma atomic_min_other: "idx mod 2 \<noteq> j mod 2 \<Longrightarrow> half (atomic_min_u16 w idx v) j = half w j"
  unfolding atomic_min_u16_def Let_def mask16
  by (rule bit_word_eqI) (auto simp: half_bits bit_simps dest: bit_imp_le_length)

end
