(* ===== verification/ResidencySafe.thy ===== *)
theory ResidencySafe
  imports Residency
begin

text \<open>
  What the residency resolver promises to its caller: a state row stays well formed, the hot copy of every
  resolved host row is current through loads, host writes and invalidations, and loads evict the least
  recently used slots a run does not reference. The kernel enters through its equivalence with the reference.
\<close>

section \<open>Loads over the evictable slots\<close>

lemma load_misses_zip:
  assumes "length ms \<le> length ev" and "\<forall>s \<in> set ev. 0 \<le> s \<and> s < int (rc_hot c)"
  shows "load_misses c rid ms ev sm sw dgi =
    Some (fold (\<lambda>(x, s) m. m(snd x \<mapsto> Miss s)) (zip ms ev) sm, sw @ map (\<lambda>(x, s). (snd x, get_physical_hot_row c rid s)) (zip ms ev),
          fold (\<lambda>(x, s) d. d[nat s := snd x]) (zip ms ev) dgi)"
  using assms
proof (induction c rid ms ev sm sw dgi rule: load_misses.induct)
  case (3 c rid p g ms s evict sm sw dgi)
  then show ?case by (simp del: fun_upd_apply)
qed simp_all

lemma fold_update_nth:
  assumes "length ms \<le> length ev" and "distinct ev" and "\<forall>s \<in> set ev. 0 \<le> s \<and> s < int (length dgi)"
  shows "i < length ms \<Longrightarrow> fold (\<lambda>(x, s) d. d[nat s := snd x]) (zip ms ev) dgi ! nat (ev ! i) = snd (ms ! i)"
    "t < length dgi \<Longrightarrow> int t \<notin> set (take (length ms) ev) \<Longrightarrow> fold (\<lambda>(x, s) d. d[nat s := snd x]) (zip ms ev) dgi ! t = dgi ! t"
    "length (fold (\<lambda>(x, s) d. d[nat s := snd x]) (zip ms ev) dgi) = length dgi"
proof -
  show "t < length dgi \<Longrightarrow> int t \<notin> set (take (length ms) ev) \<Longrightarrow> fold (\<lambda>(x, s) d. d[nat s := snd x]) (zip ms ev) dgi ! t = dgi ! t"
    using assms
  proof (induction ms arbitrary: ev dgi)
    case (Cons x ms)
    obtain s ev' where ev: "ev = s # ev'" using Cons.prems(3) by (cases ev) auto
    have "fold (\<lambda>(x, s) d. d[nat s := snd x]) (zip ms ev') (dgi[nat s := snd x]) ! t = dgi[nat s := snd x] ! t"
      by (rule Cons.IH) (use Cons.prems ev in auto)
    moreover have "nat s \<noteq> t" using Cons.prems(2,5) ev by auto
    ultimately show ?case by (simp add: ev)
  qed simp
  show "length (fold (\<lambda>(x, s) d. d[nat s := snd x]) (zip ms ev) dgi) = length dgi"
    by (induction ms ev arbitrary: dgi rule: list_induct2') auto
  show "i < length ms \<Longrightarrow> fold (\<lambda>(x, s) d. d[nat s := snd x]) (zip ms ev) dgi ! nat (ev ! i) = snd (ms ! i)"
    using assms
  proof (induction ms arbitrary: ev dgi i)
    case (Cons x ms)
    obtain s ev' where ev: "ev = s # ev'" using Cons.prems(2) by (cases ev) auto
    show ?case
    proof (cases i)
      case 0
      have "fold (\<lambda>(x, s) d. d[nat s := snd x]) (zip ms ev') (dgi[nat s := snd x]) ! nat s = dgi[nat s := snd x] ! nat s"
      proof -
        have "fold (\<lambda>(x, s) d. d[nat s := snd x]) (zip ms' ev'') d ! t = d ! t"
          if "t < length d" "int t \<notin> set ev''" "\<forall>s \<in> set ev''. 0 \<le> s" for ms' ev'' d t
          using that by (induction ms' ev'' arbitrary: d rule: list_induct2') auto
        from this[of "nat s" "dgi[nat s := snd x]" ev'] show ?thesis using Cons.prems ev by (auto simp: nat_less_iff)
      qed
      then show ?thesis using 0 Cons.prems ev by (simp add: nat_less_iff)
    next
      case (Suc j)
      have "fold (\<lambda>(x, s) d. d[nat s := snd x]) (zip ms ev') (dgi[nat s := snd x]) ! nat (ev' ! j) = snd (ms ! j)"
        by (rule Cons.IH) (use Cons.prems Suc ev in auto)
      then show ?thesis using Suc ev by simp
    qed
  qed simp
qed

lemma fold_map_nth:
  assumes "length ms \<le> length ev" and "distinct (map snd ms)"
  shows "i < length ms \<Longrightarrow> fold (\<lambda>(x, s) m. m(snd x \<mapsto> Miss s)) (zip ms ev) sm (snd (ms ! i)) = Some (Miss (ev ! i))"
    "g \<notin> snd ` set ms \<Longrightarrow> fold (\<lambda>(x, s) m. m(snd x \<mapsto> Miss s)) (zip ms ev) sm g = sm g"
proof -
  have other: "g \<notin> snd ` set ms \<Longrightarrow> fold (\<lambda>(x, s) m. m(snd x \<mapsto> Miss s)) (zip ms ev) sm g = sm g" for g ms ev sm
    by (induction ms ev arbitrary: sm rule: list_induct2') auto
  show "g \<notin> snd ` set ms \<Longrightarrow> fold (\<lambda>(x, s) m. m(snd x \<mapsto> Miss s)) (zip ms ev) sm g = sm g" by (rule other)
  show "i < length ms \<Longrightarrow> fold (\<lambda>(x, s) m. m(snd x \<mapsto> Miss s)) (zip ms ev) sm (snd (ms ! i)) = Some (Miss (ev ! i))"
    using assms
  proof (induction ms arbitrary: ev sm i)
    case (Cons x ms)
    obtain s ev' where ev: "ev = s # ev'" using Cons.prems(2) by (cases ev) auto
    show ?case
    proof (cases i)
      case 0
      have "fold (\<lambda>(x, s) m. m(snd x \<mapsto> Miss s)) (zip ms ev') (sm(snd x \<mapsto> Miss s)) (snd x) = (sm(snd x \<mapsto> Miss s)) (snd x)"
        by (rule other) (use Cons.prems in auto)
      then show ?thesis using 0 ev by (simp del: fun_upd_apply) simp
    next
      case (Suc j)
      have "fold (\<lambda>(x, s) m. m(snd x \<mapsto> Miss s)) (zip ms ev') (sm(snd x \<mapsto> Miss s)) (snd (ms ! j)) = Some (Miss (ev' ! j))"
        by (rule Cons.IH) (use Cons.prems Suc ev in auto)
      then show ?thesis using Suc ev by (simp del: fun_upd_apply)
    qed
  qed simp
qed

section \<open>One run\<close>

text \<open>The host rows a run references, and what the scan makes of a well-formed row.\<close>

definition run_refs :: "rcfg \<Rightarrow> int \<Rightarrow> int \<Rightarrow> int list \<Rightarrow> (nat \<times> int) list" where
  "run_refs c rid st toks = host_refs (map (translate_topk_entry c rid st) toks)"

abbreviation lru_hits :: "rcfg \<Rightarrow> int list \<Rightarrow> int set \<Rightarrow> int list \<Rightarrow> int list" where
  "lru_hits c dgi K lru \<equiv> filter (hit_in c dgi K) lru"

abbreviation lru_evict :: "rcfg \<Rightarrow> int list \<Rightarrow> int set \<Rightarrow> int list \<Rightarrow> int list" where
  "lru_evict c dgi K lru \<equiv> filter (\<lambda>s. \<not> hit_in c dgi K s) lru"

definition run_misses :: "rcfg \<Rightarrow> int list \<Rightarrow> int list \<Rightarrow> (nat \<times> int) list \<Rightarrow> (nat \<times> int) list" where
  "run_misses c dgi lru refs =
     filter (\<lambda>(p, g). g \<notin> cached_row c dgi ` set (lru_hits c dgi (snd ` set refs) lru) \<and> p = first_pos (set refs) g) refs"

lemma run_misses_distinct:
  assumes "distinct refs"
  shows "distinct (map snd (run_misses c dgi lru refs))"
  unfolding distinct_map
proof
  show "distinct (run_misses c dgi lru refs)" using assms by (simp add: run_misses_def)
  show "inj_on snd (set (run_misses c dgi lru refs))"
  proof (rule inj_onI)
    fix x y assume xy: "x \<in> set (run_misses c dgi lru refs)" "y \<in> set (run_misses c dgi lru refs)" "snd x = snd y"
    have "fst z = first_pos (set refs) (snd z)" if "z \<in> set (run_misses c dgi lru refs)" for z
      using that unfolding run_misses_def by (simp add: case_prod_unfold)
    from this[OF xy(1)] this[OF xy(2)] xy(3) show "x = y" by (simp add: prod_eq_iff)
  qed
qed

text \<open>The run's result over a well-formed row, without the loops: each referenced host row has a place, and the
  index of the row records it.\<close>

lemma ref_run_result:
  assumes row: "row_ok c dgi lru" and cap: "host_backed c st" "card (snd ` set (run_refs c rid st toks)) \<le> rc_hot c" and ref: "ref_run c rid st n toks dgi lru = Some out"
  defines "refs \<equiv> run_refs c rid st toks"
  defines "K \<equiv> snd ` set refs"
  defines "ms \<equiv> run_misses c dgi lru refs" and "ev \<equiv> lru_evict c dgi K lru"
  obtains slots where
    "ro_hot out = map (\<lambda>e. Some (ref_row c rid slots e)) (map (translate_topk_entry c rid st) toks)"
    "ro_swap out = map (\<lambda>(x, s). (snd x, get_physical_hot_row c rid s)) (zip ms ev)"
    "ro_dgi out = fold (\<lambda>(x, s) d. d[nat s := snd x]) (zip ms ev) dgi"
    "ro_lru out = drop (length ms) ev @ take (length ms) ev @ lru_hits c dgi K lru"
    "length ms \<le> length ev"
    "\<forall>g \<in> K. \<exists>s. (slots g = Some (Hit s) \<or> slots g = Some (Miss s)) \<and> 0 \<le> s \<and> s < int (rc_hot c) \<and> ro_dgi out ! nat s = g"
proof -
  define ents where "ents = map (translate_topk_entry c rid st) toks"
  have refs: "refs = host_refs ents" by (simp add: refs_def run_refs_def ents_def)
  have inS: "\<forall>s \<in> set ev. 0 \<le> s \<and> s < int (rc_hot c)" using row by (auto simp: ev_def row_ok_def)
  have len: "length dgi = rc_hot c" and dlru: "distinct lru" and slru: "set lru = int ` {0..<rc_hot c}" using row by (simp_all add: row_ok_def)
  show ?thesis
  proof (cases "refs = []")
    case True
    then have ms: "ms = []" and K: "K = {}" by (simp_all add: ms_def run_misses_def K_def)
    have out: "out = \<lparr>ro_hot = map (\<lambda>e. Some (ref_row c rid Map.empty e)) ents, ro_attn = map (\<lambda>e. Some (attn_of c (ref_row c rid Map.empty e))) ents,
                    ro_valid = valid_of c ents n, ro_swap = [], ro_cnt = replicate n 0, ro_hits = 0, ro_misses = 0, ro_dgi = dgi, ro_lru = lru\<rparr>"
      using ref True unfolding ref_run_def ref_entry_eq[OF cap(1)] ents_def[symmetric] refs[symmetric] Let_def by (simp add: firsts_empty)
    have nohit: "hit_in c dgi {} s = False" for s by (simp add: hit_in_def)
    have none: "filter (\<lambda>_. False) lru = ([] :: int list)" by simp
    show ?thesis by (rule that[of Map.empty]) (simp_all add: out ms K ev_def ents_def nohit)
  next
    case False
    have fk: "fst ` set (firsts refs []) = K" by (simp add: firsts_keys K_def)
    obtain sm hits evict where scan: "scan_lru c dgi (firsts refs []) lru Map.empty [] [] = (sm, hits, evict)" by (metis prod_cases3)
    have sm: "sm = fold (\<lambda>s m. if hit_in c dgi K s then m(cached_row c dgi s \<mapsto> Hit s) else m) lru Map.empty"
      and hits: "hits = lru_hits c dgi K lru" and evict: "evict = ev"
      using scan by (simp_all add: scan_lru_eq fk ev_def)
    have none: "sm g = None \<longleftrightarrow> g \<notin> cached_row c dgi ` set (lru_hits c dgi K lru)" for g unfolding sm hit_fold_iff by auto
    have ms: "ms = filter (\<lambda>(p, g). sm g = None \<and> p = first_pos (set refs) g) refs"
      unfolding ms_def run_misses_def none K_def ..
    have few: "length ms \<le> length ev"
      unfolding ms evict[symmetric]
      by (rule enough_slots[OF row _ _ _ scan]) (use fk cap(2) in \<open>simp_all add: K_def refs_def[symmetric] refs host_refs_distinct\<close>)
    have rmiss: "sort_key fst (map (\<lambda>(g, p). (p, g)) (filter (\<lambda>(g, p). sm g = None) (firsts refs []))) = ms"
      unfolding ms refs by (rule ref_misses)
    define slots where "slots = fold (\<lambda>(x, s) m. m(snd x \<mapsto> Miss s)) (zip ms ev) sm"
    define d' where "d' = fold (\<lambda>(x, s) d. d[nat s := snd x]) (zip ms ev) dgi"
    have load: "load_misses c rid ms ev sm [] dgi = Some (slots, map (\<lambda>(x, s). (snd x, get_physical_hot_row c rid s)) (zip ms ev), d')"
      unfolding load_misses_zip[OF few inS] slots_def d'_def by simp
    have ne: "firsts refs [] \<noteq> []" using False by (simp add: firsts_empty)
    have out: "ro_hot out = map (\<lambda>e. Some (ref_row c rid slots e)) ents \<and>
       ro_swap out = map (\<lambda>(x, s). (snd x, get_physical_hot_row c rid s)) (zip ms ev) \<and> ro_dgi out = d' \<and>
       ro_lru out = drop (length ms) ev @ take (length ms) ev @ lru_hits c dgi K lru"
      using ref unfolding ref_run_def ref_entry_eq[OF cap(1)] ents_def[symmetric] refs[symmetric] Let_def if_not_P[OF ne] scan prod.case rmiss evict load option.case hits
      by auto
    have dms: "distinct (map snd ms)"
      unfolding ms distinct_map by (auto simp: refs host_refs_distinct inj_on_def)
    have dev: "distinct ev" using dlru by (simp add: ev_def)
    have upd: "i < length ms \<Longrightarrow> d' ! nat (ev ! i) = snd (ms ! i)"
      "t < rc_hot c \<Longrightarrow> int t \<notin> set (take (length ms) ev) \<Longrightarrow> d' ! t = dgi ! t" for i t
      unfolding d'_def using fold_update_nth[OF few dev] inS len by simp_all
    have place: "\<exists>s. (slots g = Some (Hit s) \<or> slots g = Some (Miss s)) \<and> 0 \<le> s \<and> s < int (rc_hot c) \<and> d' ! nat s = g" if g: "g \<in> K" for g
    proof (cases "g \<in> snd ` set ms")
      case True
      then obtain i where i: "i < length ms" "snd (ms ! i) = g" by (metis imageE in_set_conv_nth)
      have "slots g = Some (Miss (ev ! i))" using fold_map_nth(1)[OF few dms i(1), of sm] i(2) by (simp add: slots_def)
      moreover have "ev ! i \<in> set ev" using i(1) few by simp
      ultimately show ?thesis using upd(1)[OF i(1)] i(2) inS by blast
    next
      case miss: False
      have "sm g \<noteq> None"
      proof
        assume n: "sm g = None"
        obtain p where "(p, g) \<in> set refs" using g by (auto simp: K_def)
        from first_pos_mem[OF _ this] have "(first_pos (set refs) g, g) \<in> set refs" by simp
        then have "(first_pos (set refs) g, g) \<in> set ms" using n unfolding ms by simp
        then have "g \<in> snd ` set ms" by (rule image_eqI[rotated]) simp
        with miss show False by blast
      qed
      then obtain pl where "sm g = Some pl" by blast
      with hit_fold_place[of c dgi K lru Map.empty g pl] sm obtain s where
        s: "s \<in> set lru" "hit_in c dgi K s" "cached_row c dgi s = g" "sm g = Some (Hit s)" by auto
      have "slots g = Some (Hit s)" using fold_map_nth(2)[OF few dms miss, of sm] s(4) by (simp add: slots_def)
      moreover have s0: "0 \<le> s" "s < int (rc_hot c)" using s(1) slru by auto
      moreover have "s \<notin> set ev" using s(2) by (simp add: ev_def)
      then have "int (nat s) \<notin> set (take (length ms) ev)" using s0(1) by (auto dest: in_set_takeD)
      then have "d' ! nat s = dgi ! nat s" using upd(2)[of "nat s"] s0 by simp
      moreover have "dgi ! nat s = g" using s(3) s0 by (simp add: cached_row_def)
      ultimately show ?thesis by auto
    qed
    show ?thesis by (rule that[of slots]) (use out few place in \<open>simp_all add: ents_def d'_def\<close>)
  qed
qed

section \<open>Well-formed rows stay well formed\<close>

lemma hits_evict_perm: "set (lru_hits c dgi K lru) \<union> set (lru_evict c dgi K lru) = set lru"
  by auto

lemma run_row_ok:
  assumes row: "row_ok c dgi lru" and cap: "host_backed c st" "card (snd ` set (run_refs c rid st toks)) \<le> rc_hot c" and ref: "ref_run c rid st n toks dgi lru = Some out"
  shows "row_ok c (ro_dgi out) (ro_lru out)"
proof -
  define refs where "refs = run_refs c rid st toks"
  define K where "K = snd ` set refs"
  define ms where "ms = run_misses c dgi lru refs"
  define ev where "ev = lru_evict c dgi K lru"
  define hits where "hits = lru_hits c dgi K lru"
  obtain slots where d: "ro_dgi out = fold (\<lambda>(x, s) d. d[nat s := snd x]) (zip ms ev) dgi"
    and l: "ro_lru out = drop (length ms) ev @ take (length ms) ev @ hits" and few: "length ms \<le> length ev"
    by (rule ref_run_result[OF row cap ref]) (simp add: refs_def K_def ms_def ev_def hits_def)
  have len: "length dgi = rc_hot c" and dlru: "distinct lru" and slru: "set lru = int ` {0..<rc_hot c}"
    and uniq: "\<And>s t. s < rc_hot c \<Longrightarrow> t < rc_hot c \<Longrightarrow> 0 \<le> dgi ! s \<Longrightarrow> dgi ! s = dgi ! t \<Longrightarrow> s = t"
    using row unfolding row_ok_def by blast+
  have inS: "\<forall>s \<in> set ev. 0 \<le> s \<and> s < int (length dgi)" using slru len by (auto simp: ev_def)
  have dev: "distinct ev" using dlru by (simp add: ev_def)
  note upd = fold_update_nth[OF few dev inS, folded d]
  have split: "set (drop (length ms) ev) \<union> set (take (length ms) ev) = set ev"
    by (metis append_take_drop_id set_append sup_commute)
  have disj: "set (drop (length ms) ev) \<inter> set (take (length ms) ev) = {}"
    using dev by (metis append_take_drop_id distinct_append inf_commute)
  have sets: "set (ro_lru out) = set lru" unfolding l set_append using split hits_evict_perm by (auto simp: ev_def hits_def)
  have dist: "distinct (ro_lru out)"
    unfolding l distinct_append using dev dlru disj by (auto simp: hits_def ev_def dest: in_set_takeD in_set_dropD)
  have msref: "set ms \<subseteq> set refs" and fresh: "\<And>x. x \<in> set ms \<Longrightarrow> snd x \<notin> cached_row c dgi ` set hits"
    and first: "\<And>p g. (p, g) \<in> set ms \<Longrightarrow> p = first_pos (set refs) g"
    by (auto simp: ms_def run_misses_def hits_def K_def)
  have distrefs: "distinct refs" by (simp add: refs_def run_refs_def host_refs_distinct)
  have dms: "distinct (map snd ms)"
    unfolding ms_def by (rule run_misses_distinct[OF distrefs])
  have pos: "\<And>x. x \<in> set ms \<Longrightarrow> 0 \<le> snd x" using msref by (auto simp: refs_def run_refs_def host_refs_mem)
  have case_slot: "(\<exists>i < length ms. int s = ev ! i \<and> ro_dgi out ! s = snd (ms ! i)) \<or>
     (int s \<notin> set (take (length ms) ev) \<and> ro_dgi out ! s = dgi ! s)" if "s < rc_hot c" for s
  proof (cases "int s \<in> set (take (length ms) ev)")
    case True
    then obtain i where "i < length ms" "int s = ev ! i" using few by (auto simp: in_set_conv_nth)
    with upd(1)[of i] show ?thesis by (metis nat_int)
  next
    case False with upd(2)[of s] that len show ?thesis by simp
  qed
  have old_new: False if "s < rc_hot c" "i < length ms" "0 \<le> dgi ! s" "dgi ! s = snd (ms ! i)" "int s \<notin> set (take (length ms) ev)" for s i
  proof -
    have m: "ms ! i \<in> set ms" using that(2) by simp
    then have "dgi ! s \<in> K" using that(4) msref unfolding K_def by auto
    then have "hit_in c dgi K (int s)" using that(1,3) by (simp add: hit_in_def cached_row_def)
    moreover have "int s \<in> set lru" using slru that(1) by auto
    ultimately have "cached_row c dgi (int s) \<in> cached_row c dgi ` set hits" by (simp add: hits_def)
    then show False using fresh[OF m] that(1,4) by (simp add: cached_row_def)
  qed
  have "s = t" if st: "s < rc_hot c" "t < rc_hot c" "0 \<le> ro_dgi out ! s" "ro_dgi out ! s = ro_dgi out ! t" for s t
    using case_slot[OF st(1)] case_slot[OF st(2)]
  proof (elim disjE exE conjE)
    fix i j assume ij: "i < length ms" "int s = ev ! i" "ro_dgi out ! s = snd (ms ! i)" "j < length ms" "int t = ev ! j" "ro_dgi out ! t = snd (ms ! j)"
    then have "map snd ms ! i = map snd ms ! j" using st(4) by simp
    then have "i = j" using nth_eq_iff_index_eq[OF dms, of i j] ij(1,4) by simp
    then show ?thesis using ij(2,5) by simp
  next
    fix i assume "i < length ms" "ro_dgi out ! s = snd (ms ! i)" "int t \<notin> set (take (length ms) ev)" "ro_dgi out ! t = dgi ! t"
    then show ?thesis using old_new[of t i] st by metis
  next
    fix j assume "j < length ms" "ro_dgi out ! t = snd (ms ! j)" "int s \<notin> set (take (length ms) ev)" "ro_dgi out ! s = dgi ! s"
    then show ?thesis using old_new[of s j] st by metis
  next
    assume "ro_dgi out ! s = dgi ! s" "ro_dgi out ! t = dgi ! t"
    then show ?thesis using uniq st by metis
  qed
  then show ?thesis unfolding row_ok_def using upd(3) len dist sets slru by auto
qed

section \<open>Hot copies\<close>

text \<open>The copies the runtime makes from a run's swap list, and the promise of the index of a row: a slot that
  names a host row holds its contents.\<close>

definition swap_in :: "(int \<Rightarrow> 'v) \<Rightarrow> (int \<times> int) list \<Rightarrow> (int \<Rightarrow> 'v) \<Rightarrow> int \<Rightarrow> 'v" where
  "swap_in host swap mem = fold (\<lambda>(g, d) m. m(d := host g)) swap mem"

definition coherent :: "rcfg \<Rightarrow> int \<Rightarrow> (int \<Rightarrow> 'v) \<Rightarrow> (int \<Rightarrow> 'v) \<Rightarrow> int list \<Rightarrow> bool" where
  "coherent c rid host mem dgi \<longleftrightarrow>
     (\<forall>s < rc_hot c. 0 \<le> dgi ! s \<longrightarrow> mem (get_physical_hot_row c rid (int s)) = host (dgi ! s))"

definition hot_region :: "rcfg \<Rightarrow> int \<Rightarrow> bool" where
  "hot_region c rid \<longleftrightarrow> inj_on (get_physical_hot_row c rid) (int ` {0..<rc_hot c})"

lemma coherent_load:
  assumes "coherent c rid host mem dgi" and "hot_region c rid" and "length dgi = rc_hot c" and "0 \<le> s" "s < int (rc_hot c)"
  shows "coherent c rid host (mem(get_physical_hot_row c rid s := host g)) (dgi[nat s := g])"
  unfolding coherent_def
proof (intro allI impI)
  fix t assume t: "t < rc_hot c" and v: "0 \<le> dgi[nat s := g] ! t"
  show "(mem(get_physical_hot_row c rid s := host g)) (get_physical_hot_row c rid (int t)) = host (dgi[nat s := g] ! t)"
  proof (cases "int t = s")
    case True then show ?thesis using t assms(3) by auto
  next
    case False
    have "s = int (nat s)" "nat s < rc_hot c" using assms(4,5) by simp_all
    then have "get_physical_hot_row c rid (int t) \<noteq> get_physical_hot_row c rid s"
      using assms(2) False t unfolding hot_region_def inj_on_def by (metis atLeastLessThan_iff imageI le0)
    moreover have "nat s \<noteq> t" using False assms(4) by auto
    ultimately show ?thesis using assms(1) t v by (simp add: coherent_def)
  qed
qed

lemma coherent_swap:
  assumes "coherent c rid host mem dgi" and "hot_region c rid" and "length dgi = rc_hot c" and "\<forall>s \<in> set ev. 0 \<le> s \<and> s < int (rc_hot c)"
  shows "coherent c rid host (swap_in host (map (\<lambda>(x, s). (snd x, get_physical_hot_row c rid s)) (zip ms ev)) mem)
    (fold (\<lambda>(x, s) d. d[nat s := snd x]) (zip ms ev) dgi)"
  using assms(1,3,4)
proof (induction ms ev arbitrary: mem dgi rule: list_induct2')
  case (4 x ms s ev)
  have "coherent c rid host (mem(get_physical_hot_row c rid s := host (snd x))) (dgi[nat s := snd x])"
    by (rule coherent_load) (use 4 assms(2) in auto)
  from 4(1)[OF this] 4(3,4) show ?case by (simp add: swap_in_def del: fun_upd_apply)
qed (simp_all add: swap_in_def)

lemma run_coherent:
  assumes row: "row_ok c dgi lru" and cap: "host_backed c st" "card (snd ` set (run_refs c rid st toks)) \<le> rc_hot c" and ref: "ref_run c rid st n toks dgi lru = Some out"
    and coh: "coherent c rid host mem dgi" and reg: "hot_region c rid"
  shows "coherent c rid host (swap_in host (ro_swap out) mem) (ro_dgi out)"
    "(p, g) \<in> set (run_refs c rid st toks) \<Longrightarrow> \<exists>d. ro_hot out ! p = Some d \<and> swap_in host (ro_swap out) mem d = host g"
proof -
  let ?refs = "run_refs c rid st toks"
  let ?ents = "map (translate_topk_entry c rid st) toks"
  let ?ev = "lru_evict c dgi (snd ` set ?refs) lru"
  obtain slots where
    hot: "ro_hot out = map (\<lambda>e. Some (ref_row c rid slots e)) ?ents" and
    sw: "ro_swap out = map (\<lambda>(x, s). (snd x, get_physical_hot_row c rid s)) (zip (run_misses c dgi lru ?refs) ?ev)" and
    d: "ro_dgi out = fold (\<lambda>(x, s) d. d[nat s := snd x]) (zip (run_misses c dgi lru ?refs) ?ev) dgi" and
    place: "\<forall>g \<in> snd ` set ?refs. \<exists>s. (slots g = Some (Hit s) \<or> slots g = Some (Miss s)) \<and> 0 \<le> s \<and> s < int (rc_hot c) \<and> ro_dgi out ! nat s = g"
    by (rule ref_run_result[OF row cap ref])
  have inS: "\<forall>s \<in> set ?ev. 0 \<le> s \<and> s < int (rc_hot c)" and len: "length dgi = rc_hot c" using row by (auto simp: row_ok_def)
  show c': "coherent c rid host (swap_in host (ro_swap out) mem) (ro_dgi out)"
    unfolding sw d by (rule coherent_swap[OF coh reg len inS])
  assume p: "(p, g) \<in> set ?refs"
  then have g: "g \<in> snd ` set ?refs" by force
  have pe: "p < length ?ents" "snd (?ents ! p) = g" "fst (?ents ! p) < 0" "0 \<le> g"
    using p[unfolded run_refs_def host_refs_mem] by (simp_all only: length_map)
  obtain s where s: "slots g = Some (Hit s) \<or> slots g = Some (Miss s)" "0 \<le> s" "s < int (rc_hot c)" "ro_dgi out ! nat s = g"
    using place g by blast
  have "ro_hot out ! p = Some (get_physical_hot_row c rid s)"
    using pe s(1) unfolding hot by (cases "?ents ! p") (auto simp: ref_row_def hot_of_def)
  moreover have "swap_in host (ro_swap out) mem (get_physical_hot_row c rid (int (nat s))) = host (ro_dgi out ! nat s)"
    using c' s(2,3,4) pe(4) unfolding coherent_def by (metis nat_less_iff)
  ultimately show "\<exists>d. ro_hot out ! p = Some d \<and> swap_in host (ro_swap out) mem d = host g" using s(2,4) by auto
qed

section \<open>Invalidation\<close>

text \<open>One block clears one chunk of 1024 entries of a state row for one written token; the blocks run in any order.\<close>

definition inval_block :: "nat \<Rightarrow> int list \<Rightarrow> (int \<times> int) \<times> nat \<Rightarrow> int list list \<Rightarrow> int list list" where
  "inval_block region states = (\<lambda>((req, slot), y) dgis.
     if req < 0 \<or> int (length states) \<le> req then dgis
     else
       let st = states ! nat req
       in if st < 0 \<or> int (length dgis) \<le> st \<or> slot < 0 then dgis
          else
            let row = dgis ! nat st; start = y * 1024; stop = (if start + 1024 < region then start + 1024 else region)
            in dgis[nat st := map (\<lambda>(o', x). if start \<le> o' \<and> o' < stop \<and> x = slot then -1 else x) (enumerate 0 row)])"

definition inval_grid :: "nat \<Rightarrow> (int \<times> int) list \<Rightarrow> ((int \<times> int) \<times> nat) list" where
  "inval_grid region tokens = List.product tokens [0..<(region + 1023) div 1024]"

definition written_by :: "int list \<Rightarrow> (int \<times> int) set \<Rightarrow> nat \<Rightarrow> int \<Rightarrow> bool" where
  "written_by states tokens st x \<longleftrightarrow> 0 \<le> x \<and> (\<exists>req. 0 \<le> req \<and> req < int (length states) \<and> states ! nat req = int st \<and> (req, x) \<in> tokens)"

lemma inval_block_row:
  assumes "st < length dgis" and "o' < length (dgis ! st)"
  shows "inval_block region states b dgis ! st ! o' =
    (if written_by states {fst b} st (dgis ! st ! o') \<and> snd b * 1024 \<le> o' \<and> o' < min (snd b * 1024 + 1024) region then -1 else dgis ! st ! o')"
    "length (inval_block region states b dgis) = length dgis" "length (inval_block region states b dgis ! st) = length (dgis ! st)"
proof -
  obtain req slot y where b: "b = ((req, slot), y)" by (metis prod.collapse)
  show "inval_block region states b dgis ! st ! o' =
    (if written_by states {fst b} st (dgis ! st ! o') \<and> snd b * 1024 \<le> o' \<and> o' < min (snd b * 1024 + 1024) region then -1 else dgis ! st ! o')"
  proof (cases "0 \<le> req \<and> req < int (length states) \<and> states ! nat req = int st \<and> 0 \<le> slot")
    case True
    then show ?thesis using assms by (auto simp: b inval_block_def Let_def written_by_def nth_enumerate_eq)
  next
    case False
    then have "inval_block region states b dgis ! st = dgis ! st" by (auto simp: b inval_block_def Let_def nth_list_update)
    moreover have "\<not> written_by states {fst b} st (dgis ! st ! o') " using False by (auto simp: b written_by_def)
    ultimately show ?thesis by simp
  qed
  show "length (inval_block region states b dgis) = length dgis" by (simp add: b inval_block_def Let_def)
  show "length (inval_block region states b dgis ! st) = length (dgis ! st)"
    using assms(1) by (cases "nat (states ! nat req) = st") (simp_all add: b inval_block_def Let_def)
qed

lemma inval_fold:
  assumes "st < length dgis" and "o' < length (dgis ! st)"
  shows "fold (inval_block region states) bs dgis ! st ! o' =
    (if \<exists>b \<in> set bs. written_by states {fst b} st (dgis ! st ! o') \<and> snd b * 1024 \<le> o' \<and> o' < min (snd b * 1024 + 1024) region
     then -1 else dgis ! st ! o') \<and>
    length (fold (inval_block region states) bs dgis) = length dgis \<and> length (fold (inval_block region states) bs dgis ! st) = length (dgis ! st)"
  using assms
proof (induction bs arbitrary: dgis)
  case (Cons b bs)
  note row = inval_block_row[OF Cons.prems, of region states b]
  have "st < length (inval_block region states b dgis)" "o' < length (inval_block region states b dgis ! st)" using row(2,3) Cons.prems by simp_all
  note IH = Cons.IH[OF this]
  have neg: "\<not> written_by states X st (-1)" for X by (simp add: written_by_def)
  show ?case
  proof (cases "written_by states {fst b} st (dgis ! st ! o') \<and> snd b * 1024 \<le> o' \<and> o' < min (snd b * 1024 + 1024) region")
    case True
    then have "inval_block region states b dgis ! st ! o' = -1" using row(1) by simp
    then show ?thesis using IH True row(2,3) neg by simp
  next
    case False
    then have "inval_block region states b dgis ! st ! o' = dgis ! st ! o'" using row(1) by argo
    then show ?thesis using IH False row(2,3) by auto
  qed
qed simp

lemma invalidate_row:
  assumes "st < length dgis" and "o' < region" and "length (dgis ! st) = region" and "set bs = set (inval_grid region tokens)"
  shows "fold (inval_block region states) bs dgis ! st ! o' =
    (if written_by states (set tokens) st (dgis ! st ! o') then -1 else dgis ! st ! o')"
proof -
  have "(\<exists>b \<in> set bs. written_by states {fst b} st (dgis ! st ! o') \<and> snd b * 1024 \<le> o' \<and> o' < min (snd b * 1024 + 1024) region) \<longleftrightarrow>
    written_by states (set tokens) st (dgis ! st ! o')" (is "?l \<longleftrightarrow> ?r")
  proof
    assume ?l
    then show ?r using assms(4) by (force simp: inval_grid_def written_by_def)
  next
    assume ?r
    then obtain req where req: "0 \<le> dgis ! st ! o'" "0 \<le> req" "req < int (length states)" "states ! nat req = int st" "(req, dgis ! st ! o') \<in> set tokens"
      by (auto simp: written_by_def)
    have y: "o' div 1024 < (region + 1023) div 1024" using assms(2) by (simp add: less_eq_div_iff_mult_less_eq Suc_le_eq[symmetric] algebra_simps)
    have "((req, dgis ! st ! o'), o' div 1024) \<in> set bs" using req(5) y assms(4) by (simp add: inval_grid_def)
    moreover have "o' div 1024 * 1024 \<le> o'" by (rule div_times_less_eq_dividend)
    moreover have hi: "o' < o' div 1024 * 1024 + 1024" using dividend_less_div_times[of 1024 o'] by simp
    moreover have "written_by states {(req, dgis ! st ! o')} st (dgis ! st ! o')" using req(1-4) by (auto simp: written_by_def)
    moreover have "o' < min (o' div 1024 * 1024 + 1024) region" using assms(2) hi by (simp only: min_less_iff_conj)
    ultimately show ?l by (metis fst_conv snd_conv)
  qed
  then show ?thesis using inval_fold[of st dgis o' region states bs] assms(1-3) by simp
qed

section \<open>The cache of a request over time\<close>

text \<open>The state of one request: its state row, the hot region and the host rows. A step resolves a run and makes its
  swap copies, or writes host rows (the forward pass stores new tokens) and invalidates them.\<close>

record 'v kcache =
  kc_dgi :: "int list"
  kc_lru :: "int list"
  kc_mem :: "int \<Rightarrow> 'v"
  kc_host :: "int \<Rightarrow> 'v"

datatype 'v kop = Resolve nat "int list" "(nat \<times> int) list" "nat \<Rightarrow> bool" | Store "(int \<times> 'v) list" "((int \<times> int) \<times> nat) list"

definition store_host :: "(int \<times> 'v) list \<Rightarrow> (int \<Rightarrow> 'v) \<Rightarrow> int \<Rightarrow> 'v" where
  "store_host ws host = fold (\<lambda>(slot, v) h. if slot < 0 then h else h(slot := v)) ws host"

definition kc_step :: "rcfg \<Rightarrow> int \<Rightarrow> int \<Rightarrow> 'v kop \<Rightarrow> 'v kcache \<Rightarrow> 'v kcache option" where
  "kc_step c rid st op s =
     (case op of
        Resolve n toks ord sees \<Rightarrow>
          (case kern_run c rid st n toks ord sees (kc_dgi s) (kc_lru s) of
             None \<Rightarrow> None
           | Some out \<Rightarrow> Some (s\<lparr>kc_dgi := ro_dgi out, kc_lru := ro_lru out, kc_mem := swap_in (kc_host s) (ro_swap out) (kc_mem s)\<rparr>))
      | Store ws blocks \<Rightarrow>
          Some (s\<lparr>kc_dgi := fold (inval_block (rc_hot c) [0]) blocks [kc_dgi s] ! 0, kc_host := store_host ws (kc_host s)\<rparr>))"

definition kop_ok :: "rcfg \<Rightarrow> int \<Rightarrow> int \<Rightarrow> 'v kop \<Rightarrow> bool" where
  "kop_ok c rid st op \<longleftrightarrow>
     (case op of
        Resolve n toks ord sees \<Rightarrow> run_ok c rid st n toks ord \<and> (1 < n \<or> distinct (map snd (run_refs c rid st toks)))
      | Store ws blocks \<Rightarrow> set blocks = set (inval_grid (rc_hot c) (map (\<lambda>(slot, v). (0, slot)) ws)))"

definition kc_fresh :: "rcfg \<Rightarrow> (int \<Rightarrow> 'v) \<Rightarrow> (int \<Rightarrow> 'v) \<Rightarrow> 'v kcache" where
  "kc_fresh c mem host = \<lparr>kc_dgi = replicate (rc_hot c) (-1), kc_lru = map int [0..<rc_hot c], kc_mem = mem, kc_host = host\<rparr>"

inductive kc_reach :: "rcfg \<Rightarrow> int \<Rightarrow> int \<Rightarrow> 'v kcache \<Rightarrow> bool" for c rid st where
  fresh: "kc_reach c rid st (kc_fresh c mem host)"
| step: "kc_reach c rid st s \<Longrightarrow> kop_ok c rid st op \<Longrightarrow> kc_step c rid st op s = Some s' \<Longrightarrow> kc_reach c rid st s'"

definition kc_inv :: "rcfg \<Rightarrow> int \<Rightarrow> 'v kcache \<Rightarrow> bool" where
  "kc_inv c rid s \<longleftrightarrow> row_ok c (kc_dgi s) (kc_lru s) \<and> coherent c rid (kc_host s) (kc_mem s) (kc_dgi s)"

lemma run_ok_cap:
  assumes "run_ok c rid st n toks ord"
  shows "host_backed c st" "card (snd ` set (run_refs c rid st toks)) \<le> rc_hot c"
  using assms fits_caps[of "rc_hash c" "rc_hot c" "2 ^ 30"] by (auto simp: run_ok_def Let_def run_refs_def)

lemma kern_run_result:
  assumes "run_ok c rid st n toks ord" and "row_ok c dgi lru" and "1 < n \<or> distinct (map snd (run_refs c rid st toks))"
  obtains out where "kern_run c rid st n toks ord sees dgi lru = Some out" "ref_run c rid st n toks dgi lru = Some out"
  using kern_matches_ref[OF assms(1,2), of sees] assms(3) unfolding run_refs_def by blast

lemma store_host_other: "\<forall>(slot, v) \<in> set ws. slot < 0 \<or> slot \<noteq> x \<Longrightarrow> store_host ws host x = host x"
  unfolding store_host_def by (induction ws arbitrary: host) auto

lemma store_inv:
  assumes "kc_inv c rid s" and "set blocks = set (inval_grid (rc_hot c) (map (\<lambda>(slot, v). (0, slot)) ws))"
  shows "kc_inv c rid (s\<lparr>kc_dgi := fold (inval_block (rc_hot c) [0]) blocks [kc_dgi s] ! 0, kc_host := store_host ws (kc_host s)\<rparr>)"
proof -
  let ?d = "fold (inval_block (rc_hot c) [0]) blocks [kc_dgi s] ! 0"
  let ?toks = "map (\<lambda>(slot, v). (0::int, slot)) ws"
  have row: "row_ok c (kc_dgi s) (kc_lru s)" and coh: "coherent c rid (kc_host s) (kc_mem s) (kc_dgi s)" using assms(1) by (simp_all add: kc_inv_def)
  have len: "length (kc_dgi s) = rc_hot c" using row by (simp add: row_ok_def)
  have d: "?d ! t = (if written_by [0] (set ?toks) 0 (kc_dgi s ! t) then -1 else kc_dgi s ! t)" if "t < rc_hot c" for t
    using invalidate_row[of 0 "[kc_dgi s]" t "rc_hot c" blocks ?toks "[0]"] that len assms(2) by simp
  have dlen: "length ?d = rc_hot c"
  proof (cases "rc_hot c")
    case 0
    have "length (fold (inval_block (rc_hot c) [0]) bs dg ! 0) = length (dg ! 0) \<and> length (fold (inval_block (rc_hot c) [0]) bs dg) = length dg"
      if "dg \<noteq> []" for bs dg using that by (induction bs arbitrary: dg) (auto simp: inval_block_def Let_def nth_list_update split: if_splits)
    then show ?thesis using len by simp
  next
    case (Suc k) then show ?thesis using inval_fold[of 0 "[kc_dgi s]" 0 "rc_hot c" "[0]" blocks] len by simp
  qed
  have "row_ok c ?d (kc_lru s)"
    using row dlen unfolding row_ok_def by (auto simp: d split: if_splits)
  moreover have "coherent c rid (store_host ws (kc_host s)) (kc_mem s) ?d"
    unfolding coherent_def
  proof (intro allI impI)
    fix t assume t: "t < rc_hot c" and v: "0 \<le> ?d ! t"
    then have same: "?d ! t = kc_dgi s ! t" and nw: "\<not> written_by [0] (set ?toks) 0 (kc_dgi s ! t)" using d[OF t] by (auto split: if_splits)
    have "\<forall>(slot, v) \<in> set ws. slot < 0 \<or> slot \<noteq> kc_dgi s ! t"
      using nw v same by (force simp: written_by_def)
    then have "store_host ws (kc_host s) (kc_dgi s ! t) = kc_host s (kc_dgi s ! t)" by (rule store_host_other)
    then show "kc_mem s (get_physical_hot_row c rid (int t)) = store_host ws (kc_host s) (?d ! t)"
      using coh t v same by (simp add: coherent_def)
  qed
  ultimately show ?thesis by (simp add: kc_inv_def)
qed

lemma kc_step_inv:
  assumes "kc_inv c rid s" and "kop_ok c rid st op" and "hot_region c rid"
  shows "\<exists>s'. kc_step c rid st op s = Some s' \<and> kc_inv c rid s'"
proof (cases op)
  case (Resolve n toks ord sees)
  have ok: "run_ok c rid st n toks ord" "1 < n \<or> distinct (map snd (run_refs c rid st toks))" using assms(2) by (simp_all add: kop_ok_def Resolve)
  have row: "row_ok c (kc_dgi s) (kc_lru s)" and coh: "coherent c rid (kc_host s) (kc_mem s) (kc_dgi s)" using assms(1) by (simp_all add: kc_inv_def)
  obtain out where out: "kern_run c rid st n toks ord sees (kc_dgi s) (kc_lru s) = Some out" "ref_run c rid st n toks (kc_dgi s) (kc_lru s) = Some out"
    by (rule kern_run_result[OF ok(1) row ok(2)])
  show ?thesis
    using run_row_ok[OF row run_ok_cap[OF ok(1)] out(2)] run_coherent(1)[OF row run_ok_cap[OF ok(1)] out(2) coh assms(3)]
    by (simp add: kc_step_def Resolve out(1) kc_inv_def)
next
  case (Store ws blocks)
  show ?thesis using store_inv[OF assms(1), of blocks ws] assms(2) by (simp add: kc_step_def kop_ok_def Store)
qed

lemma kc_reach_inv: "kc_reach c rid st s \<Longrightarrow> hot_region c rid \<Longrightarrow> kc_inv c rid s"
proof (induction rule: kc_reach.induct)
  case (fresh mem host)
  have "row_ok c (replicate (rc_hot c) (-1)) (map int [0..<rc_hot c])" by (auto simp: row_ok_def distinct_map)
  then show ?case by (simp add: kc_inv_def kc_fresh_def coherent_def)
next
  case (step s op s')
  then show ?case using kc_step_inv[of c rid s st op] by simp
qed

section \<open>Properties\<close>

text \<open>C15: on a well-formed row the kernel, whatever the order in which its threads fill the union and whichever tags its
  threads see in phase 3, returns what the reference semantics returns; in particular it neither traps nor
  loops for ever. A run of a single row must reference its host rows once each.\<close>

theorem kernel_matches_reference:
  assumes "run_ok c rid st n toks ord" and "row_ok c dgi lru" and "1 < n \<or> distinct (map snd (run_refs c rid st toks))"
  shows "\<exists>out. ref_run c rid st n toks dgi lru = Some out \<and> kern_run c rid st n toks ord sees dgi lru = Some out"
  using kern_matches_ref[OF assms(1,2)] assms(3) unfolding run_refs_def by blast

text \<open>C17: in every state a request reaches by resolving runs and writing host rows, the next run is resolved, and the hot row
  it returns for a referenced host row holds, after the swap copies, the current contents of that host row.\<close>

theorem resolved_rows_current:
  assumes "kc_reach c rid st s" and "hot_region c rid" and "kop_ok c rid st (Resolve n toks ord sees :: 'v kop)"
  shows "\<exists>out. kern_run c rid st n toks ord sees (kc_dgi s) (kc_lru s) = Some out \<and>
     (\<forall>(p, g) \<in> set (run_refs c rid st toks). \<exists>d. ro_hot out ! p = Some d \<and> swap_in (kc_host s) (ro_swap out) (kc_mem s) d = kc_host s g)"
proof -
  have inv: "row_ok c (kc_dgi s) (kc_lru s)" "coherent c rid (kc_host s) (kc_mem s) (kc_dgi s)"
    using kc_reach_inv[OF assms(1,2)] by (simp_all add: kc_inv_def)
  have ok: "run_ok c rid st n toks ord" "1 < n \<or> distinct (map snd (run_refs c rid st toks))" using assms(3) by (simp_all add: kop_ok_def)
  obtain out where out: "kern_run c rid st n toks ord sees (kc_dgi s) (kc_lru s) = Some out" "ref_run c rid st n toks (kc_dgi s) (kc_lru s) = Some out"
    by (rule kern_run_result[OF ok(1) inv(1) ok(2)])
  show ?thesis using out(1) run_coherent(2)[OF inv(1) run_ok_cap[OF ok(1)] out(2) inv(2) assms(2)] by blast
qed

text \<open>C30: a kernel run keeps a state row well formed: its LRU order stays a permutation of the region's slots and no two slots
  name the same host row.\<close>

theorem kernel_keeps_row_type:
  assumes "run_ok c rid st n toks ord" and "row_ok c dgi lru" and "1 < n \<or> distinct (map snd (run_refs c rid st toks))"
    and "kern_run c rid st n toks ord sees dgi lru = Some out"
  shows "row_ok c (ro_dgi out) (ro_lru out)"
proof -
  obtain out' where "kern_run c rid st n toks ord sees dgi lru = Some out'" "ref_run c rid st n toks dgi lru = Some out'"
    by (rule kern_run_result[OF assms(1-3)])
  with run_row_ok[OF assms(2) run_ok_cap[OF assms(1)]] assms(4) show ?thesis by simp
qed

text \<open>Loads go over the slots that are least recently used among those the run does not reference, oldest first; in the
  new order the other unreferenced slots come first, then the loaded ones, then the hits, each group in its old order.\<close>

theorem evicts_least_recent:
  assumes "run_ok c rid st n toks ord" and "row_ok c dgi lru" and "1 < n \<or> distinct (map snd (run_refs c rid st toks))"
    and "kern_run c rid st n toks ord sees dgi lru = Some out"
  defines "K \<equiv> snd ` set (run_refs c rid st toks)" and "m \<equiv> length (ro_swap out)"
  shows "map snd (ro_swap out) = map (get_physical_hot_row c rid) (take m (lru_evict c dgi K lru)) \<and>
     ro_lru out = drop m (lru_evict c dgi K lru) @ take m (lru_evict c dgi K lru) @ lru_hits c dgi K lru"
proof -
  let ?ms = "run_misses c dgi lru (run_refs c rid st toks)" and ?ev = "lru_evict c dgi K lru"
  obtain out' where "kern_run c rid st n toks ord sees dgi lru = Some out'" and ref: "ref_run c rid st n toks dgi lru = Some out'"
    by (rule kern_run_result[OF assms(1-3)])
  then have out: "out' = out" using assms(4) by simp
  obtain slots where sw: "ro_swap out = map (\<lambda>(x, s). (snd x, get_physical_hot_row c rid s)) (zip ?ms ?ev)"
    and l: "ro_lru out = drop (length ?ms) ?ev @ take (length ?ms) ?ev @ lru_hits c dgi K lru" and few: "length ?ms \<le> length ?ev"
    using ref_run_result[OF assms(2) run_ok_cap[OF assms(1)] ref[unfolded out]] unfolding K_def by metis
  have m: "m = length ?ms" using few by (simp add: m_def sw)
  have "map snd (ro_swap out) = map (get_physical_hot_row c rid) (map snd (zip ?ms ?ev))" by (simp add: sw case_prod_unfold)
  also have "map snd (zip ?ms ?ev) = take m ?ev" using few by (simp add: m map_snd_zip_take)
  finally show ?thesis using l m by simp
qed

text \<open>The invalidation grid, in any order of its blocks, clears exactly the entries of a state row that name a host row
  written by a token of that state's request.\<close>

theorem invalidate_exact:
  assumes "st < length dgis" and "o' < region" and "length (dgis ! st) = region" and "set bs = set (inval_grid region tokens)"
  shows "fold (inval_block region states) bs dgis ! st ! o' = (if written_by states (set tokens) st (dgis ! st ! o') then -1 else dgis ! st ! o')"
  by (rule invalidate_row[OF assms])

section \<open>A small cache\<close>

definition toy_cfg :: rcfg where
  "toy_cfg = \<lparr>rc_top_k = 2, rc_hot = 4, rc_hash = 5, rc_hot_bs = 1, rc_attn_stride = 1, rc_host_rows = 100, rc_src_bs = 1,
     rc_src_bt = Some [[1, 2, 3]], rc_res_bs = 1, rc_res_bt = None, rc_res_null = 0, rc_hot_bt = [[5, 6, 7, 8]]\<rparr>"

definition toy_ord :: "(nat \<times> int) list" where "toy_ord = [(3, 3), (2, 2), (1, 2), (0, 1)]"

lemma toy_refs: "run_refs toy_cfg 0 0 [0, 1, 1, 2] = [(0, 1), (1, 2), (2, 2), (3, 3)]"
  by code_simp

lemma toy_ok: "run_ok toy_cfg 0 0 2 [0, 1, 1, 2] toy_ord"
proof -
  have r: "host_refs (map (translate_topk_entry toy_cfg 0 0) [0, 1, 1, 2]) = [(0, 1), (1, 2), (2, 2), (3, 3)]"
    using toy_refs unfolding run_refs_def .
  show ?thesis unfolding run_ok_def r Let_def
    by (auto simp: toy_cfg_def toy_ord_def fits_def smem_bytes_def POS_LIMIT_def Let_def)
qed

lemma toy_region: "hot_region toy_cfg 0"
proof -
  have "{0..<4} = {0, 1, 2, 3 :: nat}" by auto
  then have "int ` {0..<rc_hot toy_cfg} = {0, 1, 2, 3}" by (simp add: toy_cfg_def)
  then show ?thesis by (simp add: hot_region_def toy_cfg_def get_physical_hot_row_def)
qed

definition toy_cache :: "int kcache" where
  "toy_cache = kc_fresh toy_cfg (\<lambda>_. 0) (\<lambda>g. 10 * g)"

lemma toy_row: "row_ok toy_cfg (kc_dgi toy_cache) (kc_lru toy_cache)"
  by (auto simp: row_ok_def toy_cache_def kc_fresh_def distinct_map)

lemma toy_run:
  obtains out where "kern_run toy_cfg 0 0 2 [0, 1, 1, 2] toy_ord (\<lambda>_. False) (kc_dgi toy_cache) (kc_lru toy_cache) = Some out"
  by (rule kern_run_result[OF toy_ok toy_row]) auto

lemma kernel_matches_reference_witness:
  "\<exists>out. ref_run toy_cfg 0 0 2 [0, 1, 1, 2] (kc_dgi toy_cache) (kc_lru toy_cache) = Some out \<and>
     kern_run toy_cfg 0 0 2 [0, 1, 1, 2] toy_ord (\<lambda>p. p = 2) (kc_dgi toy_cache) (kc_lru toy_cache) = Some out"
  by (rule kernel_matches_reference[OF toy_ok toy_row]) simp

lemma resolved_rows_current_witness:
  "\<exists>out. kern_run toy_cfg 0 0 2 [0, 1, 1, 2] toy_ord (\<lambda>p. p = 2) (kc_dgi toy_cache) (kc_lru toy_cache) = Some out \<and>
     (\<exists>d. ro_hot out ! 3 = Some d \<and> swap_in (kc_host toy_cache) (ro_swap out) (kc_mem toy_cache) d = 30)"
proof -
  have "kc_reach toy_cfg 0 0 toy_cache" unfolding toy_cache_def by (rule kc_reach.fresh)
  from resolved_rows_current[OF this toy_region, of 2 "[0, 1, 1, 2]" toy_ord "\<lambda>p. p = 2"] obtain out where
    "kern_run toy_cfg 0 0 2 [0, 1, 1, 2] toy_ord (\<lambda>p. p = 2) (kc_dgi toy_cache) (kc_lru toy_cache) = Some out"
    "\<forall>(p, g) \<in> set (run_refs toy_cfg 0 0 [0, 1, 1, 2]). \<exists>d. ro_hot out ! p = Some d \<and> swap_in (kc_host toy_cache) (ro_swap out) (kc_mem toy_cache) d = kc_host toy_cache g"
    using toy_ok by (auto simp: kop_ok_def)
  then show ?thesis unfolding toy_refs by (simp add: toy_cache_def kc_fresh_def)
qed

lemma kernel_keeps_row_type_witness:
  "\<exists>out. kern_run toy_cfg 0 0 2 [0, 1, 1, 2] toy_ord (\<lambda>_. False) (kc_dgi toy_cache) (kc_lru toy_cache) = Some out \<and>
     row_ok toy_cfg (ro_dgi out) (ro_lru out)"
proof -
  obtain out where o': "kern_run toy_cfg 0 0 2 [0, 1, 1, 2] toy_ord (\<lambda>_. False) (kc_dgi toy_cache) (kc_lru toy_cache) = Some out" by (rule toy_run)
  from kernel_keeps_row_type[OF toy_ok toy_row _ o'] o' show ?thesis by simp
qed

lemma evicts_least_recent_witness:
  "\<exists>out. kern_run toy_cfg 0 0 2 [0, 1, 1, 2] toy_ord (\<lambda>_. False) (kc_dgi toy_cache) (kc_lru toy_cache) = Some out \<and>
     ro_lru out = drop (length (ro_swap out)) (kc_lru toy_cache) @ take (length (ro_swap out)) (kc_lru toy_cache)"
proof -
  obtain out where o': "kern_run toy_cfg 0 0 2 [0, 1, 1, 2] toy_ord (\<lambda>_. False) (kc_dgi toy_cache) (kc_lru toy_cache) = Some out" by (rule toy_run)
  have no_hit: "\<not> hit_in toy_cfg (kc_dgi toy_cache) K s" for K s
    by (auto simp: hit_in_def cached_row_def toy_cache_def kc_fresh_def nat_less_iff)
  from evicts_least_recent[OF toy_ok toy_row _ o'] o' no_hit show ?thesis by simp
qed

lemma invalidate_exact_witness:
  "fold (inval_block 2 [0]) (inval_grid 2 [(0, 7)]) [[7, 8]] ! 0 ! 0 = -1 \<and> fold (inval_block 2 [0]) (inval_grid 2 [(0, 7)]) [[7, 8]] ! 0 ! 1 = 8"
  using invalidate_exact[of 0 "[[7, 8]]" 0 2 "inval_grid 2 [(0, 7)]" "[(0, 7)]" "[0]"]
    invalidate_exact[of 0 "[[7, 8]]" 1 2 "inval_grid 2 [(0, 7)]" "[(0, 7)]" "[0]"] by (simp add: written_by_def)

text \<open>A run of one row that names a host row twice: the reference serves both references, the kernel leaves the second
  one unwritten when its thread does not see the tag of the first, because phase 4 is skipped for single rows.\<close>

lemma single_row_repeat:
  "ro_hot (the (ref_run toy_cfg 0 0 1 [0, 0] (kc_dgi toy_cache) (kc_lru toy_cache))) = [Some 5, Some 5]"
  "ro_hot (the (kern_run toy_cfg 0 0 1 [0, 0] [(0, 1), (1, 1)] (\<lambda>_. False) (kc_dgi toy_cache) (kc_lru toy_cache))) = [Some 5, None]"
  by code_simp+

end
