(* ===== verification/ResidencyLaunch.thy ===== *)
theory ResidencyLaunch
  imports ResidencySafe "HOL-Library.Multiset"
begin

text \<open>
  A launch of the residency resolver over the rows of several requests: how the reference cuts the rows into runs,
  how each block of the kernel decides whether it starts a run, padding runs, and that the order in which the
  blocks of different requests execute does not matter.
\<close>

section \<open>Runs of a launch\<close>

type_synonym launch_row = "int \<times> int list"
type_synonym run = "nat \<times> int \<times> nat \<times> int list"

definition state_of :: "int list \<Rightarrow> int \<Rightarrow> int" where
  "state_of states rid = (if 0 \<le> rid \<and> rid < int (length states) then states ! nat rid else -1)"

definition pad_out :: "rcfg \<Rightarrow> nat \<Rightarrow> run_out" where
  "pad_out c n = \<lparr>ro_hot = replicate (n * rc_top_k c) (Some (-1)), ro_attn = replicate (n * rc_top_k c) (Some (-1)), ro_valid = replicate n 0,
     ro_swap = [], ro_cnt = replicate n 0, ro_hits = 0, ro_misses = 0, ro_dgi = [], ro_lru = []\<rparr>"

text \<open>The reference's loop over the rows.\<close>

function group_runs :: "nat \<Rightarrow> launch_row list \<Rightarrow> run list" where
  "group_runs k [] = []"
| "group_runs k (r # rows) =
     (let same = takeWhile (\<lambda>x. fst x = fst r) rows
      in (k, fst r, Suc (length same), concat (map snd (r # same))) # group_runs (k + Suc (length same)) (dropWhile (\<lambda>x. fst x = fst r) rows))"
  by pat_completeness auto
termination by (relation "measure (\<lambda>(k, rows). length rows)") (auto simp: less_Suc_eq_le length_dropWhile_le)

text \<open>What the block of launch row \<open>b\<close> resolves.\<close>

definition block_run :: "launch_row list \<Rightarrow> nat \<Rightarrow> run option" where
  "block_run rows b =
     (let rid = fst (rows ! b)
      in if 0 < b \<and> fst (rows ! (b - 1)) = rid then None
         else
           let same = takeWhile (\<lambda>x. fst x = rid) (drop (Suc b) rows)
           in Some (b, rid, Suc (length same), concat (map snd (rows ! b # same))))"

fun exec_runs :: "(run \<Rightarrow> int \<Rightarrow> int list \<Rightarrow> int list \<Rightarrow> run_out option) \<Rightarrow> rcfg \<Rightarrow> int list \<Rightarrow> run list
    \<Rightarrow> int list list \<times> int list list \<times> (nat \<Rightarrow> run_out option) \<Rightarrow> (int list list \<times> int list list \<times> (nat \<Rightarrow> run_out option)) option" where
  "exec_runs f c states [] acc = Some acc"
| "exec_runs f c states (r # rs) (dgis, lrus, outs) =
     (case r of (b, rid, n, toks) \<Rightarrow>
        let st = state_of states rid
        in if st < 0 then exec_runs f c states rs (dgis, lrus, outs(b \<mapsto> pad_out c n))
           else
             case f r st (dgis ! nat st) (lrus ! nat st) of
               None \<Rightarrow> None
             | Some out \<Rightarrow> exec_runs f c states rs (dgis[nat st := ro_dgi out], lrus[nat st := ro_lru out], outs(b \<mapsto> out)))"

definition ref_launch :: "rcfg \<Rightarrow> int list \<Rightarrow> launch_row list \<Rightarrow> int list list \<Rightarrow> int list list
    \<Rightarrow> (int list list \<times> int list list \<times> (nat \<Rightarrow> run_out option)) option" where
  "ref_launch c states rows dgis lrus =
     exec_runs (\<lambda>(b, rid, n, toks) st. ref_run c rid st n toks) c states (group_runs 0 rows) (dgis, lrus, Map.empty)"

text \<open>The grid, its blocks in the order \<open>blocks\<close>; each block has its own insertion order and visibility.\<close>

definition kern_launch :: "rcfg \<Rightarrow> int list \<Rightarrow> launch_row list \<Rightarrow> nat list \<Rightarrow> (nat \<Rightarrow> (nat \<times> int) list) \<Rightarrow> (nat \<Rightarrow> nat \<Rightarrow> bool)
    \<Rightarrow> int list list \<Rightarrow> int list list \<Rightarrow> (int list list \<times> int list list \<times> (nat \<Rightarrow> run_out option)) option" where
  "kern_launch c states rows blocks ords seen dgis lrus =
     exec_runs (\<lambda>(b, rid, n, toks) st. kern_run c rid st n toks (ords b) (seen b)) c states (List.map_filter (block_run rows) blocks) (dgis, lrus, Map.empty)"

section \<open>Blocks and groups\<close>

lemma takeWhile_nth_len: "i < length (takeWhile P xs) \<Longrightarrow> P (xs ! i)"
  by (metis nth_mem set_takeWhileD takeWhile_nth)

lemma block_run_inside:
  assumes "k < b" and "b \<le> k + length (takeWhile (\<lambda>x. fst x = fst (rows ! k)) (drop (Suc k) rows))"
  shows "block_run rows b = None"
proof -
  let ?P = "\<lambda>x. fst x = fst (rows ! k)" and ?tl = "drop (Suc k) rows"
  have len: "length (takeWhile ?P ?tl) \<le> length ?tl" by (rule length_takeWhile_le)
  have at: "fst (rows ! j) = fst (rows ! k)" if "k \<le> j" "j \<le> k + length (takeWhile ?P ?tl)" for j
  proof (cases "j = k")
    case False
    then have "j - Suc k < length (takeWhile ?P ?tl)" using that by simp
    then have "fst (?tl ! (j - Suc k)) = fst (rows ! k)" by (rule takeWhile_nth_len)
    then show ?thesis using that False len by simp
  qed simp
  have "fst (rows ! b) = fst (rows ! k)" "fst (rows ! (b - 1)) = fst (rows ! k)" using at[of b] at[of "b - 1"] assms by simp_all
  then show ?thesis using assms(1) by (simp add: block_run_def Let_def)
qed

lemma group_runs_blocks:
  assumes "k \<le> length rows" and "0 < k \<Longrightarrow> k < length rows \<Longrightarrow> fst (rows ! (k - 1)) \<noteq> fst (rows ! k)"
  shows "group_runs k (drop k rows) = List.map_filter (block_run rows) [k..<length rows]"
  using assms
proof (induction "length rows - k" arbitrary: k rule: less_induct)
  case less
  show ?case
  proof (cases "k < length rows")
    case True
    let ?P = "\<lambda>x. fst x = fst (rows ! k)" and ?tl = "drop (Suc k) rows"
    let ?m = "length (takeWhile ?P ?tl)"
    have dr: "drop k rows = rows ! k # ?tl" using True by (simp add: Cons_nth_drop_Suc)
    have mle: "k + Suc ?m \<le> length rows" using length_takeWhile_le[of ?P ?tl] True by simp
    have rest: "dropWhile ?P ?tl = drop (k + Suc ?m) rows" by (simp add: dropWhile_eq_drop add.commute)
    have start: "block_run rows k = Some (k, fst (rows ! k), Suc ?m, concat (map snd (rows ! k # takeWhile ?P ?tl)))"
      using less.prems(2) True by (auto simp: block_run_def Let_def)
    have next_start: "fst (rows ! (k + Suc ?m - 1)) \<noteq> fst (rows ! (k + Suc ?m))" if lt: "k + Suc ?m < length rows"
    proof -
      have "fst (rows ! (k + ?m)) = fst (rows ! k)"
      proof (cases ?m)
        case (Suc q)
        then have "fst (?tl ! q) = fst (rows ! k)" by (intro takeWhile_nth_len[of q ?P ?tl]) simp
        then show ?thesis using Suc lt by simp
      qed simp
      moreover have "fst (rows ! (k + Suc ?m)) \<noteq> fst (rows ! k)"
        using nth_length_takeWhile[of ?P ?tl] lt by (simp add: ac_simps)
      ultimately show ?thesis by simp
    qed
    have "group_runs (k + Suc ?m) (drop (k + Suc ?m) rows) = List.map_filter (block_run rows) [k + Suc ?m..<length rows]"
      by (rule less.hyps) (use True mle next_start in auto)
    moreover have "List.map_filter (block_run rows) [Suc k..<k + Suc ?m] = []"
    proof -
      have "block_run rows b = None" if "b \<in> set [Suc k..<k + Suc ?m]" for b
        by (rule block_run_inside[of k]) (use that in auto)
      then show ?thesis by (simp add: map_filter_def filter_empty_conv del: upt_Suc set_upt)
    qed
    moreover have "[k..<length rows] = k # [Suc k..<k + Suc ?m] @ [k + Suc ?m..<length rows]"
    proof -
      obtain d where d: "length rows = k + Suc ?m + d" using mle le_Suc_ex by blast
      have "[Suc k..<k + Suc ?m + d] = [Suc k..<k + Suc ?m] @ [k + Suc ?m..<k + Suc ?m + d]" by (rule upt_add_eq_append) simp
      then show ?thesis using upt_conv_Cons[OF True] unfolding d[symmetric] by simp
    qed
    ultimately show ?thesis unfolding dr group_runs.simps Let_def rest using start by (simp add: map_filter_def)
  next
    case False
    then show ?thesis using less.prems(1) by (simp add: map_filter_def)
  qed
qed

section \<open>Order of the blocks\<close>

definition run_state :: "int list \<Rightarrow> run \<Rightarrow> int" where
  "run_state states r = state_of states (fst (snd r))"

text \<open>The result of the runs \<open>R\<close>, each over the row it found, whatever their order.\<close>

definition served :: "(run \<Rightarrow> int \<Rightarrow> int list \<Rightarrow> int list \<Rightarrow> run_out option) \<Rightarrow> int list \<Rightarrow> int list list \<Rightarrow> int list list
    \<Rightarrow> int list list \<Rightarrow> int list list \<Rightarrow> (nat \<Rightarrow> run_out option) \<Rightarrow> run \<Rightarrow> bool" where
  "served f states dgis lrus dgis' lrus' outs' r \<longleftrightarrow>
     (let st = run_state states r
      in \<exists>out. f r st (dgis ! nat st) (lrus ! nat st) = Some out \<and> outs' (fst r) = Some out \<and> dgis' ! nat st = ro_dgi out \<and> lrus' ! nat st = ro_lru out)"

definition runs_result :: "(run \<Rightarrow> int \<Rightarrow> int list \<Rightarrow> int list \<Rightarrow> run_out option) \<Rightarrow> rcfg \<Rightarrow> int list \<Rightarrow> run set \<Rightarrow> int list list \<Rightarrow> int list list
    \<Rightarrow> (nat \<Rightarrow> run_out option) \<Rightarrow> int list list \<times> int list list \<times> (nat \<Rightarrow> run_out option) \<Rightarrow> bool" where
  "runs_result f c states R dgis lrus outs = (\<lambda>(dgis', lrus', outs').
     length dgis' = length dgis \<and> length lrus' = length lrus \<and>
     (\<forall>r \<in> R. run_state states r < 0 \<longrightarrow> outs' (fst r) = Some (pad_out c (fst (snd (snd r))))) \<and>
     (\<forall>r \<in> R. 0 \<le> run_state states r \<longrightarrow> served f states dgis lrus dgis' lrus' outs' r) \<and>
     (\<forall>t. (\<forall>r \<in> R. run_state states r \<noteq> int t) \<longrightarrow> dgis' ! t = dgis ! t \<and> lrus' ! t = lrus ! t) \<and>
     (\<forall>b. b \<notin> fst ` R \<longrightarrow> outs' b = outs b))"

lemma runs_resultD:
  assumes "runs_result f c states R dgis lrus outs (dgis', lrus', outs')"
  shows "length dgis' = length dgis" "length lrus' = length lrus"
    "r \<in> R \<Longrightarrow> run_state states r < 0 \<Longrightarrow> outs' (fst r) = Some (pad_out c (fst (snd (snd r))))"
    "r \<in> R \<Longrightarrow> 0 \<le> run_state states r \<Longrightarrow> served f states dgis lrus dgis' lrus' outs' r"
    "(\<And>r. r \<in> R \<Longrightarrow> run_state states r \<noteq> int t) \<Longrightarrow> dgis' ! t = dgis ! t"
    "(\<And>r. r \<in> R \<Longrightarrow> run_state states r \<noteq> int t) \<Longrightarrow> lrus' ! t = lrus ! t"
    "b \<notin> fst ` R \<Longrightarrow> outs' b = outs b"
  using assms unfolding runs_result_def prod.case by blast+

lemma served_unique:
  assumes "served f states dgis lrus d1 l1 o1 r" and "served f states dgis lrus d2 l2 o2 r"
  shows "o1 (fst r) = o2 (fst r)" "d1 ! nat (run_state states r) = d2 ! nat (run_state states r)" "l1 ! nat (run_state states r) = l2 ! nat (run_state states r)"
  using assms unfolding served_def Let_def by fastforce+

lemma runs_result_unique:
  assumes "runs_result f c states R dgis lrus outs x" and "runs_result f c states R dgis lrus outs y"
  shows "x = y"
proof -
  obtain d1 l1 o1 where x: "x = (d1, l1, o1)" by (metis prod_cases3)
  obtain d2 l2 o2 where y: "y = (d2, l2, o2)" by (metis prod_cases3)
  note X = runs_resultD[OF assms(1)[unfolded x]] and Y = runs_resultD[OF assms(2)[unfolded y]]
  have out: "o1 b = o2 b" for b
  proof (cases "b \<in> fst ` R")
    case True
    then obtain r where r: "r \<in> R" "fst r = b" by blast
    show ?thesis
    proof (cases "run_state states r < 0")
      case True
      then show ?thesis using X(3)[OF r(1)] Y(3)[OF r(1)] r(2) by simp
    next
      case False
      then show ?thesis using served_unique(1)[OF X(4)[OF r(1)] Y(4)[OF r(1)]] r(2) by simp
    qed
  next
    case False
    then show ?thesis using X(7) Y(7) by simp
  qed
  have tab: "d1 ! t = d2 ! t \<and> l1 ! t = l2 ! t" for t
  proof (cases "\<forall>r \<in> R. run_state states r \<noteq> int t")
    case True
    then show ?thesis using X(5,6)[of t] Y(5,6)[of t] by simp
  next
    case False
    then obtain r where r: "r \<in> R" "run_state states r = int t" by blast
    then have s: "served f states dgis lrus d1 l1 o1 r" "served f states dgis lrus d2 l2 o2 r" using X(4) Y(4) by simp_all
    show ?thesis using served_unique(2,3)[OF s] r(2) by simp
  qed
  have "d1 = d2" "l1 = l2" using X(1,2) Y(1,2) tab by (auto intro: nth_equalityI)
  then show ?thesis using out x y by auto
qed

definition runs_ready :: "(run \<Rightarrow> int \<Rightarrow> int list \<Rightarrow> int list \<Rightarrow> run_out option) \<Rightarrow> int list \<Rightarrow> run set \<Rightarrow> int list list \<Rightarrow> int list list \<Rightarrow> bool" where
  "runs_ready f states R dgis lrus \<longleftrightarrow>
     (\<forall>r \<in> R. 0 \<le> run_state states r \<longrightarrow> nat (run_state states r) < length dgis \<and> nat (run_state states r) < length lrus \<and>
        f r (run_state states r) (dgis ! nat (run_state states r)) (lrus ! nat (run_state states r)) \<noteq> None)"

text \<open>Runs over different state rows, in any order.\<close>

lemma exec_runs_result:
  assumes "runs_ready f states (set rs) dgis lrus" and "distinct (map fst rs)"
    and "distinct (filter (\<lambda>st. 0 \<le> st) (map (run_state states) rs))"
  shows "\<exists>res. exec_runs f c states rs (dgis, lrus, outs) = Some res \<and> runs_result f c states (set rs) dgis lrus outs res"
  using assms
proof (induction rs arbitrary: dgis lrus outs)
  case Nil
  then show ?case by (simp add: runs_result_def)
next
  case (Cons r rs)
  obtain b rid n toks where r: "r = (b, rid, n, toks)" by (metis prod_cases4)
  have st: "run_state states r = state_of states rid" by (simp add: run_state_def r)
  have fb: "b \<notin> fst ` set rs" using Cons.prems(2) r by simp
  show ?case
  proof (cases "state_of states rid < 0")
    case True
    have ready: "runs_ready f states (set rs) dgis lrus" using Cons.prems(1) by (simp add: runs_ready_def)
    have dist: "distinct (filter (\<lambda>st. 0 \<le> st) (map (run_state states) rs))" using Cons.prems(3) by (simp split: if_splits)
    have "distinct (map fst rs)" using Cons.prems(2) by simp
    from Cons.IH[OF ready this dist, of "outs(b \<mapsto> pad_out c n)"] obtain d l out' where
      e: "exec_runs f c states rs (dgis, lrus, outs(b \<mapsto> pad_out c n)) = Some (d, l, out')"
      and res: "runs_result f c states (set rs) dgis lrus (outs(b \<mapsto> pad_out c n)) (d, l, out')" by (metis prod_cases3)
    have ob: "out' b = Some (pad_out c n)" using res fb unfolding runs_result_def by auto
    have "runs_result f c states (set (r # rs)) dgis lrus outs (d, l, out')"
      using runs_resultD[OF res] ob True st r unfolding runs_result_def prod.case by auto
    then show ?thesis using e True r by (simp add: Let_def)
  next
    case False
    let ?st = "state_of states rid"
    from Cons.prems(1) False st obtain out where f: "f r ?st (dgis ! nat ?st) (lrus ! nat ?st) = Some out"
      and len: "nat ?st < length dgis" "nat ?st < length lrus" by (auto simp: runs_ready_def)
    have others: "run_state states q \<noteq> ?st" if "q \<in> set rs" for q
    proof -
      have "?st \<notin> run_state states ` set rs" using Cons.prems(3) False st by (simp split: if_splits)
      then show ?thesis using that by (metis imageI)
    qed
    have nat_ne: "nat (run_state states q) \<noteq> nat ?st" if "q \<in> set rs" "0 \<le> run_state states q" for q
      using others[OF that(1)] that(2) False by auto
    have ready: "runs_ready f states (set rs) (dgis[nat ?st := ro_dgi out]) (lrus[nat ?st := ro_lru out])"
      using Cons.prems(1) nat_ne unfolding runs_ready_def by (auto simp: nth_list_update_neq[OF not_sym])
    have dist: "distinct (filter (\<lambda>st. 0 \<le> st) (map (run_state states) rs))" using Cons.prems(3) by (simp split: if_splits)
    have "distinct (map fst rs)" using Cons.prems(2) by simp
    from Cons.IH[OF ready this dist, of "outs(b \<mapsto> out)"] obtain d l out' where
      e: "exec_runs f c states rs (dgis[nat ?st := ro_dgi out], lrus[nat ?st := ro_lru out], outs(b \<mapsto> out)) = Some (d, l, out')"
      and res: "runs_result f c states (set rs) (dgis[nat ?st := ro_dgi out]) (lrus[nat ?st := ro_lru out]) (outs(b \<mapsto> out)) (d, l, out')"
      by (metis prod_cases3)
    note R = runs_resultD[OF res]
    have ob: "out' b = Some out" using R(7)[OF fb] by simp
    have ns: "\<And>q. q \<in> set rs \<Longrightarrow> run_state states q \<noteq> int (nat ?st)" using others False by simp
    have own: "d ! nat ?st = ro_dgi out" "l ! nat ?st = ro_lru out" using R(5,6)[OF ns] len by simp_all
    have "runs_result f c states (set (r # rs)) dgis lrus outs (d, l, out')"
      unfolding runs_result_def prod.case
    proof (intro conjI ballI allI impI)
      show "length d = length dgis" "length l = length lrus" using R(1,2) by simp_all
      fix q assume q: "q \<in> set (r # rs)"
      show "run_state states q < 0 \<Longrightarrow> out' (fst q) = Some (pad_out c (fst (snd (snd q))))" using q R(3)[of q] st False by (cases "q = r") simp_all
      assume pos: "0 \<le> run_state states q"
      show "served f states dgis lrus d l out' q"
      proof (cases "q \<in> set rs")
        case True
        have "nat ?st \<noteq> nat (run_state states q)" using nat_ne[OF True pos] by simp
        with R(4)[OF True pos] show ?thesis by (simp add: served_def Let_def)
      next
        case no: False
        then have "q = r" using q by simp
        then show ?thesis using f ob own st r by (simp add: served_def Let_def)
      qed
    next
      fix t assume t: "\<forall>q \<in> set (r # rs). run_state states q \<noteq> int t"
      then have "nat ?st \<noteq> t" using False st by auto
      then show "d ! t = dgis ! t" "l ! t = lrus ! t" using R(5,6)[of t] t by simp_all
    next
      fix b' assume "b' \<notin> fst ` set (r # rs)"
      then show "out' b' = outs b'" using R(7)[of b'] r by auto
    qed
    then show ?thesis using e False r f by (simp add: Let_def)
  qed
qed

section \<open>Property\<close>

text \<open>A launch the runtime makes: its blocks are the rows of the grid in some order, real runs have state rows of their
  own, and each is a run the kernel serves.\<close>

definition launch_ok :: "rcfg \<Rightarrow> int list \<Rightarrow> launch_row list \<Rightarrow> nat list \<Rightarrow> (nat \<Rightarrow> (nat \<times> int) list) \<Rightarrow> int list list \<Rightarrow> int list list \<Rightarrow> bool" where
  "launch_ok c states rows blocks ords dgis lrus \<longleftrightarrow>
     mset blocks = mset [0..<length rows] \<and>
     distinct (filter (\<lambda>st. 0 \<le> st) (map (run_state states) (group_runs 0 rows))) \<and>
     list_all (\<lambda>(b, rid, n, toks). let st = state_of states rid in 0 \<le> st \<longrightarrow>
        nat st < length dgis \<and> nat st < length lrus \<and> run_ok c rid st n toks (ords b) \<and> row_ok c (dgis ! nat st) (lrus ! nat st) \<and>
        (1 < n \<or> distinct (map snd (run_refs c rid st toks)))) (group_runs 0 rows)"

lemma map_filter_mset: "mset (List.map_filter f xs) = image_mset (the \<circ> f) (filter_mset (\<lambda>x. f x \<noteq> None) (mset xs))"
  by (simp add: map_filter_def)

lemma block_starts: "map fst (List.map_filter (block_run rows) bs) = filter (\<lambda>b. block_run rows b \<noteq> None) bs"
proof (induction bs)
  case (Cons b bs)
  show ?case
  proof (cases "block_run rows b")
    case None
    then show ?thesis using Cons by (simp add: map_filter_def)
  next
    case (Some x)
    then have "fst x = b" unfolding block_run_def Let_def by (metis fst_conv option.distinct(1) option.inject)
    then show ?thesis using Cons Some by (simp add: map_filter_def)
  qed
qed (simp add: map_filter_def)

text \<open>C35: a launch returns the reference's result, over all requests and padding runs, in whatever order the grid's blocks
  execute and whatever order and visibility their threads have.\<close>

theorem launch_order_irrelevant:
  assumes "launch_ok c states rows blocks ords dgis lrus"
  shows "\<exists>res. ref_launch c states rows dgis lrus = Some res \<and> kern_launch c states rows blocks ords seen dgis lrus = Some res"
proof -
  let ?g = "group_runs 0 rows" and ?k = "List.map_filter (block_run rows) blocks"
  let ?fr = "\<lambda>(b, rid, n, toks) st. ref_run c rid st n toks" and ?fk = "\<lambda>(b, rid, n, toks) st. kern_run c rid st n toks (ords b) (seen b)"
  have perm: "mset blocks = mset [0..<length rows]" using assms by (simp add: launch_ok_def)
  have g: "?g = List.map_filter (block_run rows) [0..<length rows]" using group_runs_blocks[of 0 rows] by simp
  have ms: "mset ?k = mset ?g" unfolding g map_filter_mset perm ..
  have sets: "set ?k = set ?g" using ms by (metis set_mset_mset)
  have dg: "distinct (map fst ?g)" unfolding g block_starts by simp
  have dk: "distinct (map fst ?k)" using dg ms by (metis mset_eq_imp_distinct_iff mset_map)
  have sg: "distinct (filter (\<lambda>st. 0 \<le> st) (map (run_state states) ?g))" using assms by (simp add: launch_ok_def)
  have sk: "distinct (filter (\<lambda>st. 0 \<le> st) (map (run_state states) ?k))"
    using sg ms by (metis mset_eq_imp_distinct_iff mset_filter mset_map)
  have each: "nat (run_state states r) < length dgis \<and> nat (run_state states r) < length lrus \<and>
     (\<exists>out. ?fr r (run_state states r) (dgis ! nat (run_state states r)) (lrus ! nat (run_state states r)) = Some out \<and>
        ?fk r (run_state states r) (dgis ! nat (run_state states r)) (lrus ! nat (run_state states r)) = Some out)"
    if r: "r \<in> set ?g" "0 \<le> run_state states r" for r
  proof -
    obtain b rid n toks where e: "r = (b, rid, n, toks)" by (metis prod_cases4)
    have ok: "nat (state_of states rid) < length dgis" "nat (state_of states rid) < length lrus" "run_ok c rid (state_of states rid) n toks (ords b)"
      "row_ok c (dgis ! nat (state_of states rid)) (lrus ! nat (state_of states rid))" "1 < n \<or> distinct (map snd (run_refs c rid (state_of states rid) toks))"
      using assms r unfolding launch_ok_def list_all_iff e run_state_def Let_def by auto
    from kern_matches_ref[OF ok(3,4), of "seen b"] ok(1,2,5) show ?thesis by (simp add: e run_state_def run_refs_def)
  qed
  have rr: "runs_ready ?fr states (set ?g) dgis lrus" and rk: "runs_ready ?fk states (set ?k) dgis lrus"
    unfolding runs_ready_def sets using each by fastforce+
  obtain res where res: "exec_runs ?fr c states ?g (dgis, lrus, Map.empty) = Some res" "runs_result ?fr c states (set ?g) dgis lrus Map.empty res"
    using exec_runs_result[OF rr dg sg] by blast
  obtain res' where res': "exec_runs ?fk c states ?k (dgis, lrus, Map.empty) = Some res'" "runs_result ?fk c states (set ?g) dgis lrus Map.empty res'"
    using exec_runs_result[OF rk dk sk] unfolding sets by blast
  obtain d l o' where r3: "res' = (d, l, o')" by (metis prod_cases3)
  note R = runs_resultD[OF res'(2)[unfolded r3]]
  have "served ?fr states dgis lrus d l o' r" if "r \<in> set ?g" "0 \<le> run_state states r" for r
    using R(4)[OF that] each[OF that] unfolding served_def Let_def by auto
  then have "runs_result ?fr c states (set ?g) dgis lrus Map.empty res'"
    unfolding r3 runs_result_def prod.case using R by auto
  from runs_result_unique[OF res(2) this] res(1) res'(1) show ?thesis unfolding ref_launch_def kern_launch_def by (intro exI[of _ res']) simp
qed

lemma launch_order_irrelevant_witness:
  "\<exists>res. ref_launch toy_cfg [0] [(0, [0, 1]), (0, [1, 2]), (-1, [0, 0])] [kc_dgi toy_cache] [kc_lru toy_cache] = Some res \<and>
     kern_launch toy_cfg [0] [(0, [0, 1]), (0, [1, 2]), (-1, [0, 0])] [2, 1, 0] (\<lambda>_. toy_ord) (\<lambda>_ _. False) [kc_dgi toy_cache] [kc_lru toy_cache] = Some res"
proof (rule launch_order_irrelevant)
  have g: "group_runs 0 [(0, [0, 1]), (0, [1, 2]), (-1, [0, 0])] = [(0, 0, 2, [0, 1, 1, 2]), (2, -1, 1, [0, 0])]" by simp
  have u: "mset [2, 1, 0] = mset [0..<length [(0, [0, 1]), (0, [1, 2]), (-1, [0, 0 :: int])]]" by (simp add: upt_rec)
  show "launch_ok toy_cfg [0] [(0, [0, 1]), (0, [1, 2]), (-1, [0, 0])] [2, 1, 0] (\<lambda>_. toy_ord) [kc_dgi toy_cache] [kc_lru toy_cache]"
    unfolding launch_ok_def g using toy_ok toy_row u by (simp add: run_state_def state_of_def)
qed

end
