(* ===== verification/SpecInstall.thy ===== *)
theory SpecInstall
  imports NativeHook Mixer AsyncSpec SuffixOnly
begin

text \<open>
  Installing the V2 hook (\<open>suffix_hybrid/wrap_v2.py\<close>: \<open>install_v2\<close> and the \<open>load_model\<close> it puts
  in place, \<open>_check_speculator_capability\<close>, \<open>_call_original\<close>, the set-up parts of
  \<open>_suffix_only_wrap\<close>, \<open>_wrap_propose\<close> and \<open>_wrap_rejection_sampler\<close>, \<open>_patch_get_draft_tokens\<close>;
  \<open>async_spec.install\<close>). The state \<open>inst\<close> is what the hook leaves on the runner; a statement that
  raises keeps what it wrote before, as the \<open>except\<close> of \<open>load_model\<close> finds it. The installed hook
  carries the configuration and the fresh state its component starts from, so the properties of
  the components apply to what a load installs.
\<close>

section \<open>The speculator and the runner as the installer sees them\<close>

text \<open>\<open>propose\<close> of the speculator's class: missing, without a readable signature, or with these
  parameters.\<close>

datatype signature = NotCallable | Unreadable | Params "string list"

record draft_buf =
  db_rows :: nat
  db_cols :: "nat option"
  db_int64 :: bool

record speculator =
  sp_class :: string
  sp_draft_model :: bool
  sp_propose :: signature
  sp_steps :: int
  sp_max_len :: int
  sp_logits :: bool
  sp_draft_tokens :: "draft_buf option"
  sp_drafts :: "draft_buf option"
  sp_max_reqs :: nat

record runner =
  rn_spec :: "speculator option"
  rn_group :: "(int \<times> nat) res"
  rn_handler :: bool
  rn_sampler :: "bool option"
  rn_uva :: bool
  rn_rows :: nat
  rn_row_len :: nat
  rn_sched :: sched_attr
  rn_pp :: int
  rn_cuda :: bool

definition ACCEPT_SPECULATORS :: "string list" where
  "ACCEPT_SPECULATORS = [''MTPSpeculator'', ''EagleSpeculator'', ''DFlashSpeculator'', ''DFlash2Speculator'',
     ''DSparkSpeculator'', ''MultiModuleMTPSpeculator'', ''Gemma4Speculator'', ''NgramGPUSpeculator'']"

definition REQUIRED_PROPOSE_PARAMS :: "string list" where
  "REQUIRED_PROPOSE_PARAMS = [''input_batch'', ''attn_metadata'', ''slot_mappings'', ''last_hidden_states'',
     ''aux_hidden_states'', ''num_sampled'', ''num_rejected'', ''last_sampled'', ''next_prefill_tokens'',
     ''temperature'', ''seeds'']"

definition check_speculator_capability :: "signature \<Rightarrow> unit res" where
  "check_speculator_capability sg = (case sg of
      NotCallable \<Rightarrow> Inl RuntimeError
    | Unreadable \<Rightarrow> Inr ()
    | Params ps \<Rightarrow> if list_all (\<lambda>p. p \<in> set ps) REQUIRED_PROPOSE_PARAMS then Inr () else Inl RuntimeError)"

text \<open>The keywords \<open>_call_original\<close> adds for the native call, from the three it takes out of the
  caller's.\<close>

definition forward_extra :: "string list \<Rightarrow> 'v option \<Rightarrow> 'v option \<Rightarrow> 'v option \<Rightarrow> (string, 'v option) dict" where
  "forward_extra params dp_state dp_legacy nst =
     (if ''dp_sync_state'' \<in> set params
      then [(''dp_sync_state'', if dp_state \<noteq> None then dp_state else dp_legacy)]
      else if ''dp_sync'' \<in> set params
      then [(''dp_sync'', if dp_legacy \<noteq> None then dp_legacy else dp_state)]
      else []) @
     (if nst \<noteq> None \<and> ''num_speculative_tokens'' \<in> set params then [(''num_speculative_tokens'', nst)] else [])"

section \<open>What a load leaves behind\<close>

datatype spec_hook =
    NativePropose
  | SuffixHook so_cfg pcfg proposer so_state
  | AsyncHook async_cfg pcfg proposer async_st
  | MixHook hook_cfg mcfg hmixer

datatype msg = NoSpeculator | ScaffoldNative | NotDraftModel | Unaccepted | NoSteps | GreedyOnly
  | AsyncRefused | AsyncInstalled | SuffixOnlyInstalled bool bool | Installed | NoCall | InstallFailed pyerr

text \<open>\<open>in_spec\<close> is the speculator of the runner, on which the hook sits.\<close>

record inst =
  in_spec :: "speculator option"
  in_hook :: spec_hook
  in_ragged :: bool
  in_vtrace :: nat
  in_trim :: nat
  in_msgs :: "msg list"

definition say :: "msg \<Rightarrow> (inst, unit) stmt" where
  "say m s = (Inr (), s\<lparr>in_msgs := in_msgs s @ [m]\<rparr>)"

definition lift_res :: "'a res \<Rightarrow> ('s, 'a) stmt" where
  "lift_res r s = (r, s)"

definition set_hook :: "spec_hook \<Rightarrow> (inst, unit) stmt" where
  "set_hook h s = (Inr (), s\<lparr>in_hook := h\<rparr>)"

text \<open>\<open>int(..)\<close> of an environment value, and the conversion of a Python integer to a Rust \<open>usize\<close>.\<close>

definition parsed :: "int option \<Rightarrow> int res" where
  "parsed v = (case v of None \<Rightarrow> Inl ValueError | Some n \<Rightarrow> Inr n)"

definition usize :: "int \<Rightarrow> nat res" where
  "usize n = (if 0 \<le> n \<and> n < 2 ^ 64 then Inr (nat n) else Inl OtherError)"

definition max_len_or :: "speculator \<Rightarrow> int" where
  "max_len_or sp = (if sp_max_len sp = 0 then 32768 else sp_max_len sp)"

definition suffix_min :: "environ \<Rightarrow> nat res" where
  "suffix_min e = rbind (parsed (env_int e ''SUFFIX_HYBRID_SUFFIX_MIN'' ''1'')) (\<lambda>n. usize (max n 1))"

section \<open>Suffix-only mode\<close>

definition sp_buf :: "speculator \<Rightarrow> draft_buf option" where
  "sp_buf sp = (case sp_draft_tokens sp of None \<Rightarrow> sp_drafts sp | Some b \<Rightarrow> Some b)"

definition usable_buf :: "nat \<Rightarrow> draft_buf option \<Rightarrow> bool" where
  "usable_buf k b = (case b of None \<Rightarrow> False | Some b \<Rightarrow> db_cols b = Some k \<and> db_int64 b)"

definition width_gate :: "environ \<Rightarrow> bool" where
  "width_gate e \<longleftrightarrow> py_strip (env_get e ''SUFFIX_HYBRID_EWMA_WIDTH'' ''0'') \<notin> {[], ''0'', ''false''}"

definition so_start :: "runner \<Rightarrow> pipe \<Rightarrow> so_state" where
  "so_start rn pp = \<lparr>seen = [], so_pipe = pp,
     tok_mirror = (if rn_uva rn then [] else replicate (rn_rows rn) (replicate (rn_row_len rn) 0)),
     fast_steps = 0, ghosts_fed = 0, ghosts_dropped = 0, ghosts_pending = 0, drop_reset = 0, drop_fp = 0,
     skip_upload = 0, so_errors = 0\<rparr>"

definition suffix_only_wrap :: "environ \<Rightarrow> cache_cfg \<Rightarrow> nat \<Rightarrow> speculator \<Rightarrow> runner \<Rightarrow> spec_hook res" where
  "suffix_only_wrap e cc k sp rn =
     rbind (parsed (env_int e ''SUFFIX_HYBRID_LOG_INTERVAL'' ''0'')) (\<lambda>_.
     rbind (suffix_min e) (\<lambda>ml.
     rbind (usize (max_len_or sp)) (\<lambda>len.
     rbind (proposer_new k len ml (env_is e ''SUFFIX_HYBRID_UNIFORM_K'' ''1'') (width_gate e) cc) (\<lambda>(pc, p).
     if \<not> usable_buf k (sp_buf sp) then Inl RuntimeError
     else rbind (pipe_install e (rn_sched rn) (rn_cuda rn) (if sp_max_reqs sp = 0 then 32 else sp_max_reqs sp)) (\<lambda>pp.
     rbind (parsed (env_int e ''SUFFIX_HYBRID_TRACE_MAX'' ''200'')) (\<lambda>_.
     Inr (SuffixHook \<lparr>so_k = k, w0_fast = (py_strip (env_get e ''SUFFIX_HYBRID_W0_FASTPATH'' ''1'') \<noteq> ''0''),
                      dense = (\<not> rn_uva rn)\<rparr> pc p (so_start rn pp))))))))"

definition patch_get_draft_tokens :: "environ \<Rightarrow> runner \<Rightarrow> (inst, bool) stmt" where
  "patch_get_draft_tokens e rn =
     (if \<not> rn_handler rn then seq_ret False
      else seq_bind (lift_res (parsed (env_int e ''SUFFIX_HYBRID_TRACE_VERIFY_MAX'' ''12''))) (\<lambda>_ s.
             (Inr True, s\<lparr>in_ragged := True\<rparr>)))"

definition wrap_rejection_sampler :: "environ \<Rightarrow> runner \<Rightarrow> (inst, bool) stmt" where
  "wrap_rejection_sampler e rn = (case rn_sampler rn of
      None \<Rightarrow> seq_ret False
    | Some has_call \<Rightarrow>
        if env_is e ''SUFFIX_HYBRID_TRACE_VERIFY2'' [] then seq_ret False
        else seq_bind (lift_res (parsed (env_int e ''SUFFIX_HYBRID_TRACE_VERIFY2_MAX'' ''24''))) (\<lambda>_.
          if \<not> has_call then seq_bind (say NoCall) (\<lambda>_. seq_ret False)
          else (\<lambda>s. (Inr True, s\<lparr>in_vtrace := Suc (in_vtrace s)\<rparr>))))"

definition arm_suffix_only :: "environ \<Rightarrow> cache_cfg \<Rightarrow> nat \<Rightarrow> speculator \<Rightarrow> runner \<Rightarrow> (inst, unit) stmt" where
  "arm_suffix_only e cc k sp rn =
     (if sp_logits sp then say GreedyOnly
      else seq_bind (lift_res (suffix_only_wrap e cc k sp rn)) (\<lambda>h.
           seq_bind (set_hook h) (\<lambda>_.
           seq_bind (patch_get_draft_tokens e rn) (\<lambda>patched.
           seq_bind (wrap_rejection_sampler e rn) (\<lambda>v2.
             say (SuffixOnlyInstalled patched v2))))))"

section \<open>Asynchronous mode\<close>

text \<open>\<open>async_spec.install\<close> around its guards and switches (\<^const>\<open>async_install\<close>): the proposer is
  built after the guards and before the other switches are read; the drafter needs the host view
  of the token rows and the buffer \<open>draft_tokens\<close>, and raises without them.\<close>

definition async_hook :: "environ \<Rightarrow> cache_cfg \<Rightarrow> nat \<Rightarrow> speculator \<Rightarrow> runner \<Rightarrow> int \<times> nat \<Rightarrow>
    (spec_hook \<times> bool) option res" where
  "async_hook e cc k sp rn = (\<lambda>(tp, rk).
     case async_install e k (rn_pp rn) tp (sp_logits sp) rk of
       Inr None \<Rightarrow> Inr None
     | r \<Rightarrow>
         rbind (suffix_min e) (\<lambda>ml.
         rbind (usize (max_len_or sp)) (\<lambda>len.
         rbind (proposer_new (2 * k + 1) len ml False False cc) (\<lambda>(pc, p).
         rbind r (\<lambda>ao.
         rbind (parsed (env_int e ''SUFFIX_HYBRID_LOG_INTERVAL'' ''0'')) (\<lambda>_.
         case sp_draft_tokens sp of
           None \<Rightarrow> Inl OtherError
         | Some b \<Rightarrow> if \<not> rn_uva rn then Inl OtherError
             else Inr (map_option (\<lambda>(c, do_trim). (AsyncHook c pc p (async_new (db_rows b)), do_trim)) ao)))))))"

definition arm_async :: "environ \<Rightarrow> cache_cfg \<Rightarrow> nat \<Rightarrow> speculator \<Rightarrow> runner \<Rightarrow> int \<times> nat \<Rightarrow> (inst, unit) stmt" where
  "arm_async e cc k sp rn g =
     seq_bind (lift_res (async_hook e cc k sp rn g)) (\<lambda>r. case r of
        None \<Rightarrow> say AsyncRefused
      | Some (h, do_trim) \<Rightarrow>
          seq_bind (set_hook h) (\<lambda>_.
          seq_bind (\<lambda>s. (Inr (), s\<lparr>in_trim := in_trim s + (if do_trim then 1 else 0)\<rparr>)) (\<lambda>_.
            say AsyncInstalled)))"

section \<open>Around the native drafter\<close>

definition wrap_propose :: "environ \<Rightarrow> bool \<Rightarrow> bool \<Rightarrow> int \<times> nat \<Rightarrow> hook_cfg res" where
  "wrap_propose e prob has_cuda g =
     rbind (parsed (env_int e ''SUFFIX_HYBRID_LOG_INTERVAL'' ''0'')) (\<lambda>_.
       Inr \<lparr>probabilistic = prob, verifier_win = env_is e ''SUFFIX_HYBRID_VERIFIER_WIN'' ''1'',
            split_diverge = env_is e ''SUFFIX_HYBRID_SPLIT'' ''diverge'',
            zero_op = env_is e ''SUFFIX_HYBRID_ZERO_OP'' ''1'', cuda = has_cuda,
            world_size = fst g, rank = snd g\<rparr>)"

definition arm_native :: "environ \<Rightarrow> speculator \<Rightarrow> runner \<Rightarrow> int \<times> nat \<Rightarrow> mcfg \<times> hmixer \<Rightarrow> (inst, unit) stmt" where
  "arm_native e sp rn g = (\<lambda>(mc, m).
     seq_bind (lift_res (wrap_propose e (sp_logits sp) (rn_cuda rn) g)) (\<lambda>c.
     seq_bind (set_hook (MixHook c mc m)) (\<lambda>_. say Installed)))"

section \<open>The load hook\<close>

text \<open>The marker \<open>_suffix_hybrid_hook\<close> of an installed \<open>propose\<close>.\<close>

fun is_hooked :: "spec_hook \<Rightarrow> bool" where
  "is_hooked NativePropose = False"
| "is_hooked (SuffixHook _ _ _ _) = True"
| "is_hooked (AsyncHook _ _ _ _) = True"
| "is_hooked (MixHook _ _ _) = True"

lemma is_hooked_iff [simp]: "is_hooked h \<longleftrightarrow> h \<noteq> NativePropose"
  by (cases h) auto

definition arm_mode :: "environ \<Rightarrow> cache_cfg \<Rightarrow> nat \<Rightarrow> speculator \<Rightarrow> runner \<Rightarrow> int \<times> nat \<Rightarrow> mcfg \<times> hmixer \<Rightarrow>
    (inst, unit) stmt" where
  "arm_mode e cc k sp rn g mix = seq_get (\<lambda>s.
     if is_hooked (in_hook s) then seq_ret ()
     else if env_is e ''SUFFIX_HYBRID_ASYNC'' ''1'' then arm_async e cc k sp rn g
     else if env_is e ''SUFFIX_HYBRID_SUFFIX_ONLY'' ''1'' then arm_suffix_only e cc k sp rn
     else arm_native e sp rn g mix)"

definition arm_speculator :: "environ \<Rightarrow> cache_cfg \<Rightarrow> speculator \<Rightarrow> runner \<Rightarrow> (inst, unit) stmt" where
  "arm_speculator e cc sp rn =
     (if sp_class sp \<notin> set ACCEPT_SPECULATORS then say Unaccepted
      else seq_bind (lift_res (check_speculator_capability (sp_propose sp))) (\<lambda>_.
        if sp_steps sp \<le> 0 then say NoSteps
        else seq_bind (lift_res (rbind (usize (sp_steps sp)) (\<lambda>k. rbind (usize (sp_max_len sp)) (\<lambda>len.
               rbind (hmixer_new k len cc) (\<lambda>mix. Inr (k, mix)))))) (\<lambda>(k, mix).
             seq_bind (lift_res (rn_group rn)) (\<lambda>g. arm_mode e cc k sp rn g mix))))"

definition arm :: "environ \<Rightarrow> cache_cfg \<Rightarrow> runner \<Rightarrow> (inst, unit) stmt" where
  "arm e cc rn = (case rn_spec rn of
      None \<Rightarrow> say NoSpeculator
    | Some sp \<Rightarrow>
        let scaffold = (\<not> sp_draft_model sp \<and> sp_class sp = ''NgramGPUSpeculator'')
        in if scaffold \<and> \<not> env_is e ''SUFFIX_HYBRID_SUFFIX_ONLY'' ''1'' then say ScaffoldNative
           else if \<not> sp_draft_model sp \<and> \<not> scaffold then say NotDraftModel
           else arm_speculator e cc sp rn)"


text \<open>\<open>install_v2\<close> over the number of times \<open>GPUModelRunner.load_model\<close> has been wrapped; a wrapped
  one carries the marker.\<close>

definition install_v2 :: "environ \<Rightarrow> bool \<Rightarrow> bool \<Rightarrow> nat \<Rightarrow> bool res \<times> nat" where
  "install_v2 e has_runner has_parts wraps =
     (if \<not> env_is e ''SUFFIX_HYBRID_WRAP'' ''1'' then (Inr False, wraps)
      else if \<not> has_runner then (Inr False, wraps)
      else if \<not> has_parts then (Inl RuntimeError, wraps)
      else if 0 < wraps then (Inr True, wraps)
      else (Inr True, Suc wraps))"

section \<open>Ragged rows for the scheduler\<close>




section \<open>Warm start\<close>



section \<open>What a load installs is ready to serve\<close>

text \<open>The hook against the speculator it sits on. Drafts that replace the native ones outright (suffix-only
  mode) need a speculator without draft logits, a 64-bit buffer of k columns to be written to, and k
  drafts a step; the asynchronous proposer asks for the 2k+1 tokens it resolves and replaces
  probabilistic drafts only with their distribution; the hook around the native drafter knows whether
  the drafts are probabilistic.\<close>

definition hook_ready :: "cache_cfg \<Rightarrow> speculator option \<Rightarrow> spec_hook \<Rightarrow> bool" where
  "hook_ready cc osp h = (case h of
      NativePropose \<Rightarrow> True
    | SuffixHook c pc p st \<Rightarrow> proposer_ok pc p \<and> so_k c = pk pc \<and> pk pc \<in> {1..64} \<and> p_cc pc = cc \<and>
        (case osp of None \<Rightarrow> False
         | Some sp \<Rightarrow> \<not> sp_logits sp \<and> usable_buf (so_k c) (sp_buf sp) \<and> int (so_k c) = sp_steps sp)
    | AsyncHook c pc p st \<Rightarrow> proposer_ok pc p \<and> pk pc = as_lc c \<and> pk pc \<in> {3..64} \<and> p_cc pc = cc \<and>
        \<not> p_uniform pc \<and> \<not> (as_probabilistic c \<and> \<not> as_hybrid c) \<and>
        (case osp of None \<Rightarrow> False
         | Some sp \<Rightarrow> as_probabilistic c = sp_logits sp \<and> sp_draft_tokens sp \<noteq> None \<and> int (as_k c) = sp_steps sp)
    | MixHook c mc m \<Rightarrow> mixer_run mc m \<and> mc_k mc \<in> {1..64} \<and>
        (case osp of None \<Rightarrow> False
         | Some sp \<Rightarrow> probabilistic c = sp_logits sp \<and> int (mc_k mc) = sp_steps sp))"

lemma hook_ready_native [simp]: "hook_ready cc osp NativePropose"
  by (simp add: hook_ready_def)

lemma proposer_new_ok:
  "proposer_new k len ml uni gated cc = Inr (pc, p) \<Longrightarrow>
   proposer_ok pc p \<and> pk pc = k \<and> k \<in> {1..64} \<and> p_cc pc = cc \<and> p_uniform pc = uni \<and> p_widths p = []"
  by (auto simp: proposer_new_def proposer_ok_def widths_ok_def cache_ok_new split: if_splits)

lemma suffix_only_wrap_ready:
  "suffix_only_wrap e cc k sp rn = Inr h \<Longrightarrow> \<exists>c pc p st. h = SuffixHook c pc p st \<and>
     (\<not> sp_logits sp \<and> int k = sp_steps sp \<longrightarrow> hook_ready cc (Some sp) h) \<and>
     so_k c = k \<and> pipe_reach None (so_pipe st) \<and> seen st = [] \<and> p_widths p = []"
  by (fastforce simp: suffix_only_wrap_def rbind_eq_Inr hook_ready_def so_start_def
      dest: proposer_new_ok intro: pipe_reach.installed split: if_splits)




lemma preserves_lift: "(\<And>x. r = Inr x \<Longrightarrow> preserves P (f x)) \<Longrightarrow> preserves P (seq_bind (lift_res r) f)"
  by (cases r) (auto simp: preserves_def seq_bind_def lift_res_def)


text \<open>On a runner with this speculator, the hook satisfies \<open>P\<close>.\<close>

definition on_hook :: "speculator option \<Rightarrow> (spec_hook \<Rightarrow> bool) \<Rightarrow> inst \<Rightarrow> bool" where
  "on_hook osp P s \<longleftrightarrow> in_spec s = osp \<and> P (in_hook s)"

named_theorems hook_keeps \<open>statements of the installer that keep the speculator and a predicate of the hook\<close>


lemma patch_keeps [hook_keeps]: "preserves (on_hook osp P) (patch_get_draft_tokens e rn)"
  by (auto simp: preserves_def on_hook_def patch_get_draft_tokens_def seq_bind_def lift_res_def seq_ret_def
      split: sum.splits if_splits)

lemma sampler_keeps [hook_keeps]: "preserves (on_hook osp P) (wrap_rejection_sampler e rn)"
  by (auto simp: preserves_def on_hook_def wrap_rejection_sampler_def seq_bind_def lift_res_def seq_ret_def say_def
      split: sum.splits if_splits option.splits)


lemma count_trim_keeps [hook_keeps]: "preserves (on_hook osp P) (\<lambda>s. (Inr (), s\<lparr>in_trim := in_trim s + n\<rparr>))"
  by (auto simp: preserves_def on_hook_def)



text \<open>The asynchronous drafter keeps the proposer's invariant too.\<close>

context suffix_proposer
begin

lemma async_propose_inv:
  assumes "api_call api = call" and "inv p" and "async_propose c api inp (st, p) = (out, st', p')"
  shows "inv p'"
proof -
  have look: "inv p2" if "inv p1" "lookup_resolve c api k inp sel (st1, p1) = (r, st2, p2)" for p1 k sel st1 r st2 p2
    using that by (auto simp: lookup_resolve_def Let_def assms(1) split: sum.splits prod.splits dest: inv_call)
  have "inv p2" if "async_step c api inp (st, p) = (r, st2, p2)" for r st2 p2
    using that assms(2) by (auto simp: async_step_def Let_def split: prod.splits dest: look)
  with assms show ?thesis
    by (auto simp: async_propose_def split: if_splits sum.splits prod.splits)
qed

end








text \<open>A load on a runner whose hook is active changes nothing but the messages.\<close>

lemma arm_again:
  assumes "in_hook s \<noteq> NativePropose" and "arm e cc rn s = (r, s')"
  shows "s' = s\<lparr>in_msgs := in_msgs s'\<rparr>"
proof -
  let ?P = "\<lambda>t. \<exists>ms. t = s\<lparr>in_msgs := ms\<rparr>"
  have say: "preserves ?P (say m)" for m
    by (auto simp: preserves_def say_def)
  have mode: "preserves ?P (arm_mode e cc k sp rn g mix)" for k sp g mix
    by (rule preservesI) (use assms(1) in \<open>auto simp: arm_mode_def seq_get_def seq_ret_def\<close>)
  have "preserves ?P (arm e cc rn)"
    unfolding arm_def arm_speculator_def Let_def
    by (intro preserves_option preserves_if preserves_lift preserves_prod say mode)
  moreover have "?P s" by (intro exI[of _ "in_msgs s"]) simp
  ultimately have "?P s'" by (rule preservesD) (rule assms(2))
  then show ?thesis by auto
qed

section \<open>Errors during a load\<close>

named_theorems runs \<open>what a statement does before the rest of its block\<close>

lemma lift_bind [runs]: "seq_bind (lift_res r) f s = (case r of Inl x \<Rightarrow> (Inl x, s) | Inr y \<Rightarrow> f y s)"
  by (simp add: seq_bind_def lift_res_def)

lemma ret_bind [runs]: "seq_bind (seq_ret x) f s = f x s"
  by (simp add: seq_bind_def seq_ret_def)

lemma say_bind [runs]: "seq_bind (say m) f s = f () (s\<lparr>in_msgs := in_msgs s @ [m]\<rparr>)"
  by (simp add: seq_bind_def say_def)

lemma set_hook_bind [runs]: "seq_bind (set_hook h) f s = f () (s\<lparr>in_hook := h\<rparr>)"
  by (simp add: seq_bind_def set_hook_def)

lemma put_bind [runs]: "seq_bind (\<lambda>s. (Inr x, g s)) f s = f x (g s)"
  by (simp add: seq_bind_def)

lemma patch_bind [runs]:
  "seq_bind (patch_get_draft_tokens e rn) f s =
     (if \<not> rn_handler rn then f False s
      else case parsed (env_int e ''SUFFIX_HYBRID_TRACE_VERIFY_MAX'' ''12'') of
             Inl x \<Rightarrow> (Inl x, s) | Inr _ \<Rightarrow> f True (s\<lparr>in_ragged := True\<rparr>))"
  by (simp add: seq_bind_def patch_get_draft_tokens_def seq_ret_def lift_res_def split: sum.split)

lemma sampler_bind [runs]:
  "seq_bind (wrap_rejection_sampler e rn) f s =
     (case rn_sampler rn of
        None \<Rightarrow> f False s
      | Some has_call \<Rightarrow>
          if env_is e ''SUFFIX_HYBRID_TRACE_VERIFY2'' [] then f False s
          else case parsed (env_int e ''SUFFIX_HYBRID_TRACE_VERIFY2_MAX'' ''24'') of
                 Inl x \<Rightarrow> (Inl x, s)
               | Inr _ \<Rightarrow> if has_call then f True (s\<lparr>in_vtrace := Suc (in_vtrace s)\<rparr>)
                          else f False (s\<lparr>in_msgs := in_msgs s @ [NoCall]\<rparr>))"
  by (simp add: seq_bind_def wrap_rejection_sampler_def seq_ret_def lift_res_def say_def split: sum.split option.split)

lemma parsed_Inl: "parsed v = Inl x \<longleftrightarrow> v = None \<and> x = ValueError"
  by (auto simp: parsed_def split: option.splits)

definition trace_error :: "environ \<Rightarrow> runner \<Rightarrow> bool" where
  "trace_error e rn \<longleftrightarrow>
     (rn_handler rn \<and> env_int e ''SUFFIX_HYBRID_TRACE_VERIFY_MAX'' ''12'' = None) \<or>
     (rn_sampler rn \<noteq> None \<and> \<not> env_is e ''SUFFIX_HYBRID_TRACE_VERIFY2'' [] \<and>
      env_int e ''SUFFIX_HYBRID_TRACE_VERIFY2_MAX'' ''24'' = None)"

lemma arm_async_raises: "arm_async e cc k sp rn g s = (Inl x, s') \<Longrightarrow> s' = s"
  by (auto simp: arm_async_def runs say_def split: sum.splits option.splits prod.splits)

lemma arm_native_raises: "arm_native e sp rn g mix s = (Inl x, s') \<Longrightarrow> s' = s"
  by (cases mix) (auto simp: arm_native_def runs say_def split: sum.splits)

lemma arm_suffix_only_raises:
  assumes "arm_suffix_only e cc k sp rn s = (Inl x, s')"
  shows "s' = s \<or> (suffix_only_wrap e cc k sp rn = Inr (in_hook s') \<and> x = ValueError \<and> trace_error e rn)"
  using assms
  by (auto simp: arm_suffix_only_def runs say_def trace_error_def parsed_Inl split: sum.splits option.splits if_splits)

lemma arm_raises:
  assumes "arm e cc rn s = (Inl x, s')"
  shows "s' = s \<or> (\<exists>k sp. rn_spec rn = Some sp \<and> suffix_only_wrap e cc k sp rn = Inr (in_hook s') \<and>
     x = ValueError \<and> trace_error e rn \<and> env_is e ''SUFFIX_HYBRID_SUFFIX_ONLY'' ''1'' \<and>
     \<not> env_is e ''SUFFIX_HYBRID_ASYNC'' ''1'')"
proof -
  have mode: "s' = s \<or> (suffix_only_wrap e cc k sp rn = Inr (in_hook s') \<and> x = ValueError \<and> trace_error e rn \<and>
      env_is e ''SUFFIX_HYBRID_SUFFIX_ONLY'' ''1'' \<and> \<not> env_is e ''SUFFIX_HYBRID_ASYNC'' ''1'')"
    if "arm_mode e cc k sp rn g mix s = (Inl x, s')" for k sp g mix
    using that
    by (auto simp: arm_mode_def seq_get_def seq_ret_def
        dest: arm_async_raises arm_native_raises arm_suffix_only_raises split: if_splits)
  show ?thesis using assms
    by (auto simp: arm_def arm_speculator_def Let_def runs say_def
        dest!: mode split: option.splits if_splits sum.splits prod.splits)
qed

section \<open>Properties\<close>

text \<open>A runner with a one-step-per-request draft buffer of three columns and one rank.\<close>

definition demo_spec :: speculator where
  "demo_spec = \<lparr>sp_class = ''MTPSpeculator'', sp_draft_model = True, sp_propose = Params REQUIRED_PROPOSE_PARAMS,
     sp_steps = 3, sp_max_len = 64, sp_logits = False,
     sp_draft_tokens = Some \<lparr>db_rows = 4, db_cols = Some 3, db_int64 = True\<rparr>, sp_drafts = None, sp_max_reqs = 4\<rparr>"

definition demo_runner :: runner where
  "demo_runner = \<lparr>rn_spec = Some demo_spec, rn_group = Inr (1, 0), rn_handler = True, rn_sampler = Some True,
     rn_uva = True, rn_rows = 4, rn_row_len = 64, rn_sched = AttrBool False, rn_pp = 1, rn_cuda = False\<rparr>"

definition demo_inst :: inst where
  "demo_inst = \<lparr>in_spec = None, in_hook = NativePropose, in_ragged = False, in_vtrace = 0, in_trim = 0, in_msgs = []\<rparr>"

definition suffix_env :: environ where
  "suffix_env = [(''SUFFIX_HYBRID_SUFFIX_ONLY'', ''1'')]"



text \<open>C36: a load that raises, and so reports that this worker stays native-only, leaves the speculator
  as it was, with one exception: in suffix-only mode an unreadable trace budget
  (\<open>SUFFIX_HYBRID_TRACE_VERIFY_MAX\<close>, or \<open>SUFFIX_HYBRID_TRACE_VERIFY2_MAX\<close> when that trace is on)
  raises after the suffix-only hook is in place, which then serves.\<close>

theorem failed_load_stays_native:
  assumes "in_hook s = NativePropose" and "arm e cc rn s = (Inl x, s')"
  shows "in_hook s' = NativePropose \<or>
    (\<exists>c pc p st. in_hook s' = SuffixHook c pc p st) \<and> x = ValueError \<and> trace_error e rn \<and>
    env_is e ''SUFFIX_HYBRID_SUFFIX_ONLY'' ''1'' \<and> \<not> env_is e ''SUFFIX_HYBRID_ASYNC'' ''1''"
  using arm_raises[OF assms(2)] assms(1) suffix_only_wrap_ready by fastforce

lemma failed_load_stays_native_witness:
  "let (r, s') = arm ((''SUFFIX_HYBRID_TRACE_VERIFY_MAX'', ''many'') # suffix_env) demo_cache_cfg demo_runner demo_inst
   in in_hook s' \<noteq> NativePropose \<and> in_ragged s' = False \<and> r = Inl ValueError"
proof -
  let ?e = "(''SUFFIX_HYBRID_TRACE_VERIFY_MAX'', ''many'') # suffix_env"
  obtain x s' where a: "arm ?e demo_cache_cfg demo_runner demo_inst = (x, s')" by fastforce
  have "(case fst (arm ?e demo_cache_cfg demo_runner demo_inst) of Inl _ \<Rightarrow> True | Inr _ \<Rightarrow> False) \<and>
      (case in_hook (snd (arm ?e demo_cache_cfg demo_runner demo_inst)) of SuffixHook _ _ _ _ \<Rightarrow> True | _ \<Rightarrow> False) \<and>
      \<not> in_ragged (snd (arm ?e demo_cache_cfg demo_runner demo_inst))" by code_simp
  then obtain y where x: "x = Inl y" and h: "in_hook s' \<noteq> NativePropose" "\<not> in_ragged s'"
    unfolding a by (cases x) (auto split: spec_hook.splits)
  have "y = ValueError" using failed_load_stays_native[OF _ a[unfolded x]] h by (simp add: demo_inst_def)
  then show ?thesis using x h by (simp add: a)
qed









end
