(* ===== verification/FastPath.thy ===== *)
theory FastPath
  imports SuffixOnly
begin

text \<open>
  The fast path of the suffix-only mode (\<open>suffix_hybrid/wrap_v2.py\<close>, the "W0 fast-path disjunct (A)"
  of \<open>_suffix_only_wrap\<close>): on an empty corpus a step publishes zeros without calling the proposer.
  The source claims that the stock call would have ingested nothing and published the same. The claim
  rests on the attendance ledger: every request the proposer tracks with a row long enough to be
  ingested is recorded, so that its departure keeps the step off the fast path. That is the invariant
  proved here over runs of the mode.
\<close>

section \<open>What a call leaves in the mirror\<close>

lemma sync_tracked_length:
  "map_of (p_mirror (sync_tracked r n row p)) r = Some t \<Longrightarrow> length t \<le> n"
  by (auto simp: sync_tracked_def dict_simps row_continues_def Let_def split: option.splits if_splits)

lemma row_step_mirror:
  assumes "row_step cfg toks (r, j, tt) p = (ans, p')" and "map_of (p_mirror p') s = Some t"
  shows "s = r \<and> length t \<le> nat tt \<or> map_of (p_mirror p) s = Some t \<and> (s = r \<longrightarrow> (\<exists>e. ans = Inl e))"
proof (cases ans)
  case (Inl e)
  then have "p' = p" using assms(1) by (auto simp: row_step_def Let_def split: if_splits prod.splits)
  with assms(2) Inl show ?thesis by simp
next
  case (Inr x)
  note m = row_step_answer[OF assms(1)[unfolded Inr]]
  show ?thesis
  proof (cases "s = r")
    case True
    then show ?thesis using m assms(2) sync_tracked_length[of r "nat tt" "toks ! j" p t] by simp
  next
    case False
    then show ?thesis using row_step_frame(2)[OF assms(1) False] assms(2) by simp
  qed
qed

lemma row_steps_mirror:
  assumes "row_steps cfg toks xs p = (ans, p')" and "map_of (p_mirror p') s = Some t"
  shows "(\<exists>j tt. (s, j, tt) \<in> set xs \<and> length t \<le> nat tt) \<or>
     map_of (p_mirror p) s = Some t \<and> (s \<in> fst ` set xs \<longrightarrow> (\<exists>e. ans = Inl e))"
  using assms
proof (induction xs arbitrary: p ans)
  case Nil
  then show ?case by simp
next
  case (Cons x xs)
  obtain r j tt where x: "x = (r, j, tt)" by (cases x) auto
  obtain a p1 where st: "row_step cfg toks (r, j, tt) p = (a, p1)" by fastforce
  show ?case
  proof (cases a)
    case (Inl e)
    with Cons.prems st x have "p' = p1" "ans = Inl e" by auto
    with row_step_mirror[OF st, of s t] Cons.prems(2) x show ?thesis by auto
  next
    case (Inr y)
    obtain b p2 where rest: "row_steps cfg toks xs p1 = (b, p2)" by fastforce
    with Cons.prems(1) st Inr x have p2: "p2 = p'" and b: "(\<exists>e. b = Inl e) \<Longrightarrow> (\<exists>e. ans = Inl e)"
      by (auto split: sum.splits)
    from Cons.IH[OF rest[unfolded p2] Cons.prems(2)] show ?thesis
    proof
      assume "\<exists>j tt. (s, j, tt) \<in> set xs \<and> length t \<le> nat tt"
      then show ?thesis by auto
    next
      assume "map_of (p_mirror p1) s = Some t \<and> (s \<in> fst ` set xs \<longrightarrow> (\<exists>e. b = Inl e))"
      with row_step_mirror[OF st, of s t] Inr b x show ?thesis by auto
    qed
  qed
qed

text \<open>A tracked row after a call: one of the batch, no longer than its total, or, when the call raised,
  a row from before.\<close>

lemma call_mirror:
  assumes "propose_suffix_only pc ids idx tots toks p = (ans, p')" and "map_of (p_mirror p') s = Some t"
  shows "(\<exists>j tt. (s, j, tt) \<in> set (zip ids (zip idx tots)) \<and> length t \<le> nat tt) \<or>
     (\<exists>e. ans = Inl e) \<and> map_of (p_mirror p) s = Some t"
proof (cases "length tots < length ids \<or> length idx < length ids")
  case True
  with assms show ?thesis by (auto simp: propose_suffix_only_def)
next
  case False
  let ?f = "forget_gone (p_cc pc) ids p"
  obtain a q where q: "row_steps pc toks (zip ids (zip idx tots)) ?f = (a, q)" by fastforce
  with assms(1) False have m: "p_mirror p' = p_mirror q" and a: "(\<exists>e. a = Inl e) \<longleftrightarrow> (\<exists>e. ans = Inl e)"
    by (auto simp: propose_suffix_only_def split: sum.splits)
  have ids: "fst ` set (zip ids (zip idx tots)) = set ids"
    using False by (simp flip: set_map add: map_fst_zip_take)
  have f: "s \<in> set ids \<and> map_of (p_mirror p) s = Some t" if "map_of (p_mirror ?f) s = Some t"
    using that forget_gone_none[of s ids "p_cc pc" p] forget_gone_live[of s ids "p_cc pc" p]
    by (cases "s \<in> set ids") auto
  from row_steps_mirror[OF q] assms(2) m have
    "(\<exists>j tt. (s, j, tt) \<in> set (zip ids (zip idx tots)) \<and> length t \<le> nat tt) \<or>
     map_of (p_mirror ?f) s = Some t \<and> (s \<in> fst ` set (zip ids (zip idx tots)) \<longrightarrow> (\<exists>e. a = Inl e))" by simp
  then show ?thesis using f unfolding ids a by blast
qed

section \<open>Every tracked request is in the ledger\<close>

definition gate_live :: "so_cfg \<Rightarrow> so_state \<Rightarrow> bool" where
  "gate_live cfg st \<longleftrightarrow> w0_fast cfg \<or> pipe_live st"

text \<open>Departed requests settled so far: re-fed or dropped.\<close>

definition settled :: "so_state \<Rightarrow> nat" where
  "settled st = ghosts_fed st + ghosts_dropped st"

text \<open>Rows of at most 8 tokens are never ingested.\<close>

definition ledgered :: "so_state \<Rightarrow> (rid, ledger) dict \<Rightarrow> proposer \<Rightarrow> bool" where
  "ledgered st popped p \<longleftrightarrow> (\<forall>r t. map_of (p_mirror p) r = Some t \<longrightarrow> 8 < length t \<longrightarrow>
     map_of (seen st) r \<noteq> None \<or> map_of popped r \<noteq> None)"

lemma ledgered_mono:
  assumes "ledgered st popped p"
    and "\<And>r t. map_of (p_mirror p') r = Some t \<Longrightarrow> 8 < length t \<Longrightarrow>
      map_of (p_mirror p) r = Some t \<or> map_of (seen st') r \<noteq> None \<or> map_of popped' r \<noteq> None"
    and "\<And>r. map_of (seen st) r \<noteq> None \<or> map_of popped r \<noteq> None \<Longrightarrow>
      map_of (seen st') r \<noteq> None \<or> map_of popped' r \<noteq> None"
  shows "ledgered st' popped' p'"
  using assms unfolding ledgered_def by metis

text \<open>What a step keeps until a departed request is settled.\<close>

definition known :: "so_cfg \<Rightarrow> nat \<Rightarrow> proposer so_frame \<Rightarrow> bool" where
  "known cfg n = (\<lambda>(st, p, popped). n \<le> settled st \<and>
     (gate_live cfg st \<and> settled st = n \<longrightarrow> ledgered st popped p))"

lemma known_frame:
  assumes "known cfg n (st, p, popped)" and "settled st' = settled st" and "gate_live cfg st' \<Longrightarrow> gate_live cfg st"
    and "ledgered st popped p \<Longrightarrow> ledgered st' popped' p'"
  shows "known cfg n (st', p', popped')"
  using assms by (auto simp: known_def)

text \<open>The pipeline never comes back once it has fallen back.\<close>

lemma pipe_enqueue_live: "pipe_enqueue gpu idx p = (r, q) \<Longrightarrow> pp_on q = pp_on p \<and> pp_fallback q = pp_fallback p"
  by (auto simp: pipe_enqueue_def split: sum.splits)

lemma pipe_serve_live: "pipe_serve cap gpu ids idx p = (r, q) \<Longrightarrow> pp_on q = pp_on p \<and> pp_fallback q = pp_fallback p"
  by (auto simp: pipe_serve_def Let_def split: if_splits prod.splits sum.splits dest!: block_read_fields)

lemma totals_now_live: "totals_now gpu idx p = (r, q) \<Longrightarrow> pp_on q = pp_on p \<and> pp_fallback q = pp_fallback p"
  by (auto simp: totals_now_def split: sum.splits)

lemma pipe_get_last:
  assumes "pipe_get cap gpu ids idx p = (r, q)"
  obtains (kept) x where "pp_on x = pp_on p" "pp_fallback x = pp_fallback p" "q = x"
  | (failed) x er y z where "pp_on x = pp_on p" "block_read gpu idx (pipe_fail er (x\<lparr>pp_pending := None\<rparr>)) = (y, z)"
      "q = z \<or> q = z\<lparr>pp_block_steps := Suc (pp_block_steps z)\<rparr>"
proof -
  obtain a p1 where s: "pipe_serve cap gpu ids idx p = (a, p1)" by fastforce
  obtain b p2 where e: "pipe_enqueue gpu idx p1 = (b, p2)" by fastforce
  note live = pipe_serve_live[OF s] pipe_enqueue_live[OF e]
  have fin: thesis if on: "pp_on x = pp_on p" and g: "(case block_read gpu idx (pipe_fail er (x\<lparr>pp_pending := None\<rparr>)) of
      (Inl e', p3) \<Rightarrow> (Inl e', p3) | (Inr s, p3) \<Rightarrow> (Inr (s, False), p3\<lparr>pp_block_steps := Suc (pp_block_steps p3)\<rparr>)) = (r, q)"
    for x er
  proof -
    obtain y z where z: "block_read gpu idx (pipe_fail er (x\<lparr>pp_pending := None\<rparr>)) = (y, z)" by fastforce
    from g have "q = z \<or> q = z\<lparr>pp_block_steps := Suc (pp_block_steps z)\<rparr>" unfolding z by (cases y) auto
    with on z show thesis by (rule failed)
  qed
  show thesis
  proof (cases a)
    case (Inl er)
    show thesis by (rule fin[of p1 er]) (use assms s Inl live in \<open>simp_all add: pipe_get_def Let_def\<close>)
  next
    case a: (Inr sv)
    show thesis
    proof (cases b)
      case (Inl er)
      show thesis by (rule fin[of p2 er]) (use assms s e a Inl live in \<open>simp_all add: pipe_get_def Let_def\<close>)
    next
      case (Inr u)
      show thesis by (rule kept[of q]) (use assms s e a Inr live in \<open>auto simp: pipe_get_def Let_def\<close>)
    qed
  qed
qed

lemma pipe_get_live:
  assumes "pipe_get cap gpu ids idx p = (r, q)"
  shows "pp_on q = pp_on p \<and> (pp_fallback p \<longrightarrow> pp_fallback q)"
  using assms
proof (cases rule: pipe_get_last)
  case (failed x er y z)
  with block_read_fields[OF failed(2)] show ?thesis by auto
qed simp

lemma known_reads:
  "preserves (known cfg n) (so_pipe_get inp idx)" "preserves (known cfg n) (so_read inp idx)"
  "preserves (known cfg n) (dense_refresh cfg inp idx tots)"
proof -
  show "preserves (known cfg n) (so_pipe_get inp idx)"
    by (auto simp: preserves_def so_pipe_get_def ledgered_def gate_live_def pipe_live_def settled_def
        split: prod.splits dest!: pipe_get_live elim!: known_frame)
  show "preserves (known cfg n) (so_read inp idx)"
    by (auto simp: preserves_def so_read_def ledgered_def gate_live_def pipe_live_def settled_def
        split: prod.splits dest!: totals_now_live elim!: known_frame)
  show "preserves (known cfg n) (dense_refresh cfg inp idx tots)"
    by (auto simp: preserves_def dense_refresh_def Let_def ledgered_def gate_live_def pipe_live_def settled_def
        split: prod.splits if_splits elim!: known_frame)
qed

lemma known_ledger: "preserves (known cfg n) (ledger_one rows dirty x)"
  by (auto simp: preserves_def ledger_one_def ledgered_def gate_live_def pipe_live_def settled_def dict_simps
      split: prod.splits if_splits elim!: known_frame)

lemma known_settle:
  assumes "known cfg n (st, p, popped)" and "map_of popped r \<noteq> None"
    and "ghost_settle cfg (rust_api pc) inp r rec g (st, p, popped) = (a, s')"
  shows "known cfg n s'"
proof -
  obtain st' p' popped' where s': "s' = (st', p', popped')" by (cases s')
  from assms(3) consider
      (raise) "st' = st" "popped' = popped" "p' = p \<or>
        (\<exists>e. propose_suffix_only pc [r] [led_idx rec] [g] (cpu_rows cfg inp st) p = (Inl e, p'))"
    | (settles) "settled st' = Suc (settled st)"
    by (auto simp: s' ghost_settle_def Let_def rust_api_def settled_def split: if_splits prod.splits sum.splits)
  then show ?thesis
  proof cases
    case raise
    have "ledgered st popped p \<Longrightarrow> ledgered st popped p'"
    proof (erule ledgered_mono)
      fix s t assume t: "map_of (p_mirror p') s = Some t"
      from raise(3) show "map_of (p_mirror p) s = Some t \<or> map_of (seen st) s \<noteq> None \<or> map_of popped s \<noteq> None"
        using call_mirror[OF _ t] t assms(2) by fastforce
    qed
    with assms(1) raise show ?thesis unfolding s' by (simp add: known_def)
  next
    case settles
    with assms(1) show ?thesis unfolding s' by (auto simp: known_def)
  qed
qed

text \<open>The popped records are left alone by the reads.\<close>

definition on_popped :: "((rid, ledger) dict \<Rightarrow> bool) \<Rightarrow> 'p so_frame \<Rightarrow> bool" where
  "on_popped Q s = Q (snd (snd s))"

lemma popped_reads:
  "preserves (on_popped Q) (so_pipe_get inp idx)" "preserves (on_popped Q) (so_read inp idx)"
  "preserves (on_popped Q) (dense_refresh cfg inp idx tots)"
proof -
  show "preserves (on_popped Q) (so_pipe_get inp idx)"
    by (rule preservesI) (auto simp: on_popped_def so_pipe_get_def split: prod.splits)
  show "preserves (on_popped Q) (so_read inp idx)"
    by (rule preservesI) (auto simp: on_popped_def so_read_def split: prod.splits)
  show "preserves (on_popped Q) (dense_refresh cfg inp idx tots)"
    by (rule preservesI) (auto simp: on_popped_def dense_refresh_def Let_def split: prod.splits if_splits)
qed

lemma known_ghost: "preserves (known cfg n) (ghost_one cfg (rust_api pc) inp d r)"
proof -
  let ?K = "\<lambda>s. known cfg n s \<and> on_popped (\<lambda>popped. map_of popped r \<noteq> None) s"
  have same: "preserves ?K (so_read inp idx)" "preserves ?K (dense_refresh cfg inp idx tots)" for idx tots
    by (intro preserves_conj known_reads popped_reads)+
  have tail: "known cfg n s'" if "?K s" "seq_bind (ghost_total inp d rec) (\<lambda>g. seq_bind (dense_refresh cfg inp [led_idx rec] [max g 1])
      (\<lambda>_. ghost_settle cfg (rust_api pc) inp r rec g)) s = (a, s')" for rec s a s'
    using that(2)
  proof (cases rule: seq_bind_cases)
    case (raise e)
    with preservesD[OF ghost_total_keeps[of ?K, OF same(1)] that(1) raise(1)] show ?thesis by auto
  next
    case (go g s1)
    have K1: "?K s1" by (rule preservesD[OF ghost_total_keeps[of ?K, OF same(1)] that(1) go(1)])
    from go(2) show ?thesis
    proof (cases rule: seq_bind_cases)
      case (raise e)
      with preservesD[OF same(2) K1 raise(1)] show ?thesis by auto
    next
      case (go u s2)
      have "?K s2" by (rule preservesD[OF same(2) K1 go(1)])
      with go(2) show ?thesis by (cases s2) (auto simp: on_popped_def intro: known_settle)
    qed
  qed
  show ?thesis
  proof (rule preservesI)
    fix s a s' assume k: "known cfg n s" and g: "ghost_one cfg (rust_api pc) inp d r s = (a, s')"
    obtain st p popped where s: "s = (st, p, popped)" by (cases s)
    show "known cfg n s'"
    proof (cases "map_of (seen st) r")
      case None
      with k g s show ?thesis by (simp add: ghost_one_def)
    next
      case (Some rec)
      let ?s1 = "(st\<lparr>seen := AList.delete r (seen st)\<rparr>, p, AList.update r rec popped)"
      have "known cfg n ?s1" using k unfolding s
        by (rule known_frame) (auto simp: settled_def gate_live_def pipe_live_def ledgered_def dict_simps)
      then have K: "?K ?s1" by (simp add: on_popped_def dict_simps)
      show ?thesis using g Some K tail[OF K] unfolding s
        by (simp add: ghost_one_def Let_def split: if_splits)
    qed
  qed
qed

section \<open>Publishing\<close>

lemma seen_self: "\<exists>sn. st = st\<lparr>seen := sn\<rparr>"
  by (rule exI[of _ "seen st"]) simp

text \<open>A ledger refresh only writes the ledger, and records every request with a positive total.\<close>

lemma ledger_iter_records:
  assumes "seq_iter (ledger_one rows d) xs (st, p, popped) = (a, st', p', popped')"
  shows "(\<exists>sn. st' = st\<lparr>seen := sn\<rparr>) \<and> p' = p \<and> popped' = popped \<and>
    (\<forall>r. map_of (seen st) r \<noteq> None \<longrightarrow> map_of (seen st') r \<noteq> None) \<and>
    (a = Inr () \<longrightarrow> (\<forall>(r, j, t) \<in> set xs. 0 < t \<longrightarrow> map_of (seen st') r \<noteq> None))"
  using assms
proof (induction xs arbitrary: st)
  case Nil
  then show ?case using seen_self[of st] by (simp add: seq_ret_def)
next
  case (Cons x xs)
  obtain r j t where x: "x = (r, j, t)" by (cases x) auto
  obtain b st1 p1 popped1 where o: "ledger_one rows d (r, j, t) (st, p, popped) = (b, st1, p1, popped1)"
    by (metis prod_cases4)
  then have one: "(\<exists>sn. st1 = st\<lparr>seen := sn\<rparr>) \<and> p1 = p \<and> popped1 = popped \<and>
      (\<forall>r. map_of (seen st) r \<noteq> None \<longrightarrow> map_of (seen st1) r \<noteq> None) \<and>
      (b = Inr () \<longrightarrow> 0 < t \<longrightarrow> map_of (seen st1) r \<noteq> None)"
    using seen_self[of st] by (auto simp: ledger_one_def dict_simps split: if_splits)
  show ?case
  proof (cases b)
    case (Inl e)
    with Cons.prems o x one show ?thesis by (auto simp: seq_bind_def)
  next
    case (Inr u)
    with Cons.prems o x one have "seq_iter (ledger_one rows d) xs (st1, p, popped) = (a, st', p', popped')"
      by (simp add: seq_bind_def)
    note IH = Cons.IH[OF this]
    with IH one Inr x show ?thesis by auto
  qed
qed

lemma ledger_refresh_records:
  assumes "ledger_refresh cfg inp idx tots d (st, p, popped) = (a, st', p', popped')"
  shows "(\<exists>sn. st' = st\<lparr>seen := sn\<rparr>) \<and> p' = p \<and> popped' = popped \<and>
    (\<forall>r. map_of (seen st) r \<noteq> None \<longrightarrow> map_of (seen st') r \<noteq> None) \<and>
    (a = Inr () \<longrightarrow> gate_live cfg st \<longrightarrow>
      (\<forall>(r, j, t) \<in> set (zip (so_ids inp) (zip idx tots)). 0 < t \<longrightarrow> map_of (seen st') r \<noteq> None))"
proof (cases "gate_live cfg st")
  case True
  with assms have "seq_iter (ledger_one (cpu_rows cfg inp st) d) (zip (so_ids inp) (zip idx tots)) (st, p, popped)
      = (a, st', p', popped')" by (auto simp: ledger_refresh_def seq_get_def gate_live_def)
  from ledger_iter_records[OF this] show ?thesis by simp
next
  case False
  with assms seen_self[of st] show ?thesis by (auto simp: ledger_refresh_def seq_get_def gate_live_def seq_ret_def)
qed

lemma gate_live_seen [simp]:
  "gate_live cfg (st\<lparr>seen := sn\<rparr>) = gate_live cfg st" "settled (st\<lparr>seen := sn\<rparr>) = settled st"
  by (simp_all add: gate_live_def pipe_live_def settled_def)

lemma known_seen:
  assumes "known cfg n (st, p, popped)" and "\<forall>r. map_of (seen st) r \<noteq> None \<longrightarrow> map_of sn r \<noteq> None"
  shows "known cfg n (st\<lparr>seen := sn\<rparr>, p, popped)"
  using assms(1)
proof (rule known_frame)
  show "ledgered st popped p \<Longrightarrow> ledgered (st\<lparr>seen := sn\<rparr>) popped p"
    using assms(2) by (auto elim!: ledgered_mono)
qed simp_all

lemma ledger_refresh_known:
  assumes "ledger_refresh cfg inp idx tots d (st, p, popped) = (a, s')"
  shows "known cfg n (st, p, popped) \<longrightarrow> known cfg n s'"
proof -
  obtain st' p' popped' where s': "s' = (st', p', popped')" by (cases s')
  from ledger_refresh_records[OF assms[unfolded s']] obtain sn where
    "st' = st\<lparr>seen := sn\<rparr>" "p' = p" "popped' = popped" "\<forall>r. map_of (seen st) r \<noteq> None \<longrightarrow> map_of sn r \<noteq> None"
    by auto
  then show ?thesis using known_seen s' by metis
qed

text \<open>The stock path: after the proposer has seen the whole batch, whatever it tracks is in the ledger or
  short, whatever was known before.\<close>

lemma stock_call_known:
  assumes "stock_call cfg (rust_api pc) inp idx tots (st, p, popped) = (a, st', p', popped')"
    and rec: "gate_live cfg st \<Longrightarrow> \<forall>(r, j, t) \<in> set (zip (so_ids inp) (zip idx tots)). 0 < t \<longrightarrow> map_of (seen st) r \<noteq> None"
  shows "st' = st \<and> (known cfg n (st, p, popped) \<longrightarrow> known cfg n (st', p', popped')) \<and>
    ((\<exists>x. a = Inr x) \<longrightarrow> popped' = [] \<and> (gate_live cfg st \<longrightarrow> ledgered st [] p'))"
proof -
  obtain b p1 where c: "propose_suffix_only pc (so_ids inp) idx tots (cpu_rows cfg inp st) p = (b, p1)" by fastforce
  have new: "map_of (seen st) r \<noteq> None"
    if "gate_live cfg st" "(r, j, t) \<in> set (zip (so_ids inp) (zip idx tots))" "length u \<le> nat t" "8 < length u" for r j t u
    using rec[OF that(1)] that(2-4) by fastforce
  have led: "ledgered st [] p1" if "gate_live cfg st" "\<And>e. b \<noteq> Inl e"
    unfolding ledgered_def using call_mirror[OF c] new[OF that(1)] that(2) by blast
  show ?thesis
  proof (cases b)
    case (Inl e)
    then have s': "st' = st" "p' = p1" "popped' = popped" "a = Inl e"
      using assms(1) c by (auto simp: stock_call_def rust_api_def)
    have "ledgered st popped p1" if "gate_live cfg st" "ledgered st popped p"
      using that(2) call_mirror[OF c] new[OF that(1)] unfolding ledgered_def by metis
    then show ?thesis using s' by (auto simp: known_def)
  next
    case (Inr x)
    then have s': "st' = st" "p' = p1" "popped' = []" using assms(1) c by (auto simp: stock_call_def rust_api_def)
    with led Inr show ?thesis by (auto simp: known_def)
  qed
qed

lemma upload_frame:
  "upload cfg inp packed ws (st, p, popped) = (a, st', p', popped') \<Longrightarrow>
   (\<exists>n. st' = st\<lparr>skip_upload := n\<rparr>) \<and> p' = p \<and> popped' = popped"
  by (cases st) (auto simp: upload_def Let_def split: if_splits)

lemma stock_publish_known:
  assumes "stock_publish cfg (rust_api pc) inp idx tots (st, p, popped) = (a, st', p', popped')"
  shows "(known cfg n (st, p, popped) \<longrightarrow> known cfg n (st', p', popped')) \<and> fast_steps st' = fast_steps st \<and>
    ((\<exists>x. a = Inr x) \<longrightarrow> popped' = [] \<and> (gate_live cfg st' \<longrightarrow> ledgered st' [] p'))"
  using assms unfolding stock_publish_def
proof (cases rule: seq_bind_cases)
  case (raise e)
  from ledger_refresh_records[OF raise(1)] ledger_refresh_known[OF raise(1)] raise(2) show ?thesis by auto
next
  case (go u s1)
  obtain st1 p1 popped1 where s1: "s1 = (st1, p1, popped1)" by (cases s1)
  note l = ledger_refresh_records[OF go(1)[unfolded s1]]
  note k1 = ledger_refresh_known[OF go(1), of n]
  have f1: "fast_steps st1 = fast_steps st" "gate_live cfg st1 = gate_live cfg st" using l by auto
  from go(2) show ?thesis
  proof (cases rule: seq_bind_cases)
    case (raise e)
    from stock_call_known[OF raise(1)[unfolded s1], of n] l k1 f1 raise(2) show ?thesis by (auto simp: s1)
  next
    case (go x s2)
    obtain st2 p2 popped2 where s2: "s2 = (st2, p2, popped2)" by (cases s2)
    obtain packed ws where x: "x = (packed, ws)" by (cases x)
    note sc = stock_call_known[OF go(1)[unfolded s1 s2], of n]
    from upload_frame[OF go(2)[unfolded s2 x prod.case]] obtain m where
      u: "st' = st2\<lparr>skip_upload := m\<rparr>" "p' = p2" "popped' = popped2" by auto
    have same: "gate_live cfg st' = gate_live cfg st2" "settled st' = settled st2" "seen st' = seen st2" "fast_steps st' = fast_steps st2"
      unfolding u by (simp_all add: gate_live_def pipe_live_def settled_def)
    show ?thesis using sc l k1 f1 u(2,3) same unfolding s1 by (auto simp: known_def ledgered_def)
  qed
qed

lemma fast_publish_known:
  assumes "fast_publish cfg (rust_api pc) inp idx tots (st, p, popped) = (a, st', p', popped')"
  shows "(known cfg n (st, p, popped) \<longrightarrow> known cfg n (st', p', popped')) \<and> popped' = popped \<and>
    ((\<exists>e. a = Inl e) \<longrightarrow> fast_steps st' = fast_steps st \<and> p' = p) \<and>
    ((\<exists>x. a = Inr x) \<longrightarrow> a = Inr (zeros cfg inp) \<and> p' = clear_widths p \<and> settled st' = settled st)"
  using assms unfolding fast_publish_def
proof (cases rule: seq_bind_cases)
  case (raise e)
  from ledger_refresh_records[OF raise(1)] ledger_refresh_known[OF raise(1)] raise(2) show ?thesis by auto
next
  case (go u s1)
  obtain st1 p1 popped1 where s1: "s1 = (st1, p1, popped1)" by (cases s1)
  note l = ledger_refresh_records[OF go(1)[unfolded s1]]
  have e: "a = Inr (zeros cfg inp)" "st' = st1\<lparr>fast_steps := Suc (fast_steps st1)\<rparr>" "p' = clear_widths p1" "popped' = popped1"
    using go(2) by (auto simp: s1 rust_api_def)
  have "known cfg n s1 \<longrightarrow> known cfg n (st', p', popped')"
    unfolding s1 e by (auto simp: known_def ledgered_def clear_widths_def gate_live_def pipe_live_def settled_def)
  moreover have "settled st' = settled st1" by (simp add: e settled_def)
  ultimately show ?thesis using l e ledger_refresh_known[OF go(1), of n] by auto
qed

text \<open>Reads leave the ledger and the counters, and never bring the fast path back.\<close>

definition quiet :: "so_cfg \<Rightarrow> so_state \<Rightarrow> 'p so_frame \<Rightarrow> bool" where
  "quiet cfg st0 s \<longleftrightarrow> seen (fst s) = seen st0 \<and> settled (fst s) = settled st0 \<and> fast_steps (fst s) = fast_steps st0 \<and>
     (gate_live cfg (fst s) \<longrightarrow> gate_live cfg st0)"

lemma quiet_reads:
  "preserves (quiet cfg st0) (so_pipe_get inp idx)" "preserves (quiet cfg st0) (so_read inp idx)"
  "preserves (quiet cfg st0) (dense_refresh cfg inp idx tots)"
proof -
  show "preserves (quiet cfg st0) (so_pipe_get inp idx)"
    by (rule preservesI) (auto simp: quiet_def so_pipe_get_def settled_def gate_live_def pipe_live_def
        split: prod.splits dest!: pipe_get_live)
  show "preserves (quiet cfg st0) (so_read inp idx)"
    by (rule preservesI) (auto simp: quiet_def so_read_def settled_def gate_live_def pipe_live_def
        split: prod.splits dest!: totals_now_live)
  show "preserves (quiet cfg st0) (dense_refresh cfg inp idx tots)"
    by (rule preservesI) (auto simp: quiet_def dense_refresh_def Let_def settled_def gate_live_def pipe_live_def
        split: prod.splits if_splits)
qed

text \<open>Statements that are not the fast path leave its counter.\<close>

definition fast_count :: "nat \<Rightarrow> 'p so_frame \<Rightarrow> bool" where
  "fast_count n s \<longleftrightarrow> fast_steps (fst s) = n"

lemma fast_count_reads:
  "preserves (fast_count n) (so_pipe_get inp idx)" "preserves (fast_count n) (so_read inp idx)"
  "preserves (fast_count n) (dense_refresh cfg inp idx tots)"
proof -
  show "preserves (fast_count n) (so_pipe_get inp idx)"
    by (rule preservesI) (auto simp: fast_count_def so_pipe_get_def split: prod.splits)
  show "preserves (fast_count n) (so_read inp idx)"
    by (rule preservesI) (auto simp: fast_count_def so_read_def split: prod.splits)
  show "preserves (fast_count n) (dense_refresh cfg inp idx tots)"
    by (rule preservesI) (auto simp: fast_count_def dense_refresh_def Let_def split: prod.splits if_splits)
qed

lemma fast_count_ghost: "preserves (fast_count n) (ghost_one cfg api inp d r)"
proof (rule ghost_one_keeps)
  show "preserves (fast_count n) (ghost_settle cfg api inp r rec g)" for rec g
    by (rule preservesI) (auto simp: fast_count_def ghost_settle_def Let_def split: prod.splits sum.splits if_splits)
qed (simp add: fast_count_def | rule fast_count_reads)+

text \<open>A taken fast path: its gate held and the proposer has only had its widths cleared.\<close>

definition took_fast :: "so_cfg \<Rightarrow> so_in \<Rightarrow> rid list \<Rightarrow> proposer so_frame \<Rightarrow> token list list res \<times> proposer so_frame \<Rightarrow> bool" where
  "took_fast cfg inp ghosts s = (\<lambda>(a, st', p', popped'). ghosts = [] \<and> gate_live cfg (fst s) \<and> settled st' = settled (fst s) \<and>
     popped' = snd (snd s) \<and> a = Inr (zeros cfg inp) \<and> p' = clear_widths (fst (snd s)) \<and>
     cached (p_cache (fst (snd s))) = 0 \<and> list_all (\<lambda>r. map_of (p_widths (fst (snd s))) r \<noteq> None) (so_ids inp))"

lemma so_publish_known:
  assumes "so_publish cfg (rust_api pc) inp idx ghosts sv s = (a, st', p', popped')"
  shows "(known cfg n s \<longrightarrow> known cfg n (st', p', popped')) \<and>
    (took_fast cfg inp ghosts s (a, st', p', popped') \<or> fast_steps st' = fast_steps (fst s) \<and>
       ((\<exists>x. a = Inr x) \<longrightarrow> popped' = [] \<and> (gate_live cfg st' \<longrightarrow> ledgered st' [] p')))"
proof -
  let ?tots = "deref (totals_cpu (so_pipe (fst s))) sv"
  let ?rest = "\<lambda>s1. if fast_gate cfg (rust_api pc) inp ghosts s1 then fast_publish cfg (rust_api pc) inp idx ?tots
    else stock_publish cfg (rust_api pc) inp idx ?tots"
  have b: "seq_bind (dense_refresh cfg inp idx ?tots) (\<lambda>_. seq_get ?rest) s = (a, st', p', popped')"
    using assms by (simp add: so_publish_def seq_get_def Let_def)
  have frame: "(known cfg n s \<longrightarrow> known cfg n s1) \<and> quiet cfg (fst s) s1 \<and> snd (snd s1) = snd (snd s) \<and>
      fst (snd s1) = fst (snd s)" if "dense_refresh cfg inp idx ?tots s = (r, s1)" for r s1
    using preservesD[OF known_reads(3) _ that, of n] preservesD[OF quiet_reads(3) _ that, of "fst s"]
      preservesD[OF popped_reads(3) _ that, of "\<lambda>x. x = snd (snd s)"]
      preservesD[OF dense_refresh_keeps _ that, of "\<lambda>x. x = fst (snd s)"]
    by (auto simp: quiet_def on_popped_def on_proposer_def)
  show ?thesis
    using b
  proof (cases rule: seq_bind_cases)
    case (raise e)
    with frame[OF raise(1)] show ?thesis by (auto simp: quiet_def)
  next
    case (go u s1)
    obtain st1 p1 popped1 where s1: "s1 = (st1, p1, popped1)" by (cases s1)
    note f = frame[OF go(1)]
    show ?thesis
    proof (cases "fast_gate cfg (rust_api pc) inp ghosts s1")
      case True
      with go(2) have fp: "fast_publish cfg (rust_api pc) inp idx ?tots (st1, p1, popped1) = (a, st', p', popped')"
        by (simp add: seq_get_def s1)
      from True have g: "ghosts = []" "cached (p_cache p1) = 0" "list_all (\<lambda>r. map_of (p_widths p1) r \<noteq> None) (so_ids inp)"
        "gate_live cfg st1"
        by (simp_all add: fast_gate_def s1 rust_api_def gate_live_def)
      from fast_publish_known[OF fp, of n] f g show ?thesis
        by (cases a) (auto simp: s1 took_fast_def quiet_def)
    next
      case False
      with go(2) have "stock_publish cfg (rust_api pc) inp idx ?tots (st1, p1, popped1) = (a, st', p', popped')"
        by (simp add: seq_get_def s1)
      from stock_publish_known[OF this, of n] f show ?thesis by (auto simp: s1 quiet_def)
    qed
  qed
qed

section \<open>One step\<close>

text \<open>The reads before the ghosts are settled, the reads after it, and what is popped in between.\<close>

lemma so_body_parts:
  assumes "so_body cfg api inp s = (a, s')"
  obtains (raise) e where "a = Inl e" "s' = s \<or> (\<exists>idx. early_read inp idx s = (Inl e, s'))"
  | (ghost) e idx early s1 d where "a = Inl e" "early_read inp idx s = (Inr early, s1)"
      "seq_iter (ghost_one cfg api inp d) (ghost_ids cfg inp (fst s1)) s1 = (Inl e, s')"
  | (late) e idx early s1 d s2 where "a = Inl e" "early_read inp idx s = (Inr early, s1)"
      "seq_iter (ghost_one cfg api inp d) (ghost_ids cfg inp (fst s1)) s1 = (Inr (), s2)" "late_read inp idx early s2 = (Inl e, s')"
  | (pub) idx early s1 d s2 sv s3 where "early_read inp idx s = (Inr early, s1)"
      "seq_iter (ghost_one cfg api inp d) (ghost_ids cfg inp (fst s1)) s1 = (Inr (), s2)" "late_read inp idx early s2 = (Inr sv, s3)"
      "so_publish cfg api inp idx (ghost_ids cfg inp (fst s1)) sv s3 = (a, s')"
proof -
  from assms show thesis unfolding so_body_def
  proof (cases rule: seq_bind_cases)
    case (raise e)
    then show thesis using that(1) by auto
  next
    case (go idx s0)
    then have s0: "s0 = s" by simp
    from go(2)[unfolded s0] show thesis
    proof (cases rule: seq_bind_cases)
      case (raise e)
      then show thesis using that(1) by blast
    next
      case (go early s1)
      note er = go(1)
      from go(2) have "seq_bind (seq_iter (ghost_one cfg api inp (pipe_live (fst s1))) (ghost_ids cfg inp (fst s1)))
          (\<lambda>_. seq_bind (late_read inp idx early) (so_publish cfg api inp idx (ghost_ids cfg inp (fst s1)))) s1 = (a, s')"
        by (simp add: seq_get_def Let_def)
      then show thesis
      proof (cases rule: seq_bind_cases)
        case (raise e)
        then show thesis using ghost er by blast
      next
        case (go u s2)
        have gh: "seq_iter (ghost_one cfg api inp (pipe_live (fst s1))) (ghost_ids cfg inp (fst s1)) s1 = (Inr (), s2)"
          using go(1) by (cases u) simp
        from go(2) show thesis
        proof (cases rule: seq_bind_cases)
          case (raise e)
          then show thesis using late er gh by blast
        next
          case (go sv s3)
          then show thesis using pub er gh by blast
        qed
      qed
    qed
  qed
qed

text \<open>A step from a state whose ledger covers the mirror: it still does after a step that returned, and
  after one that raised before it settled a departed request.\<close>

lemma so_body_known:
  assumes b: "so_body cfg (rust_api pc) inp (st, p, []) = (a, st', p', popped')" and led: "gate_live cfg st \<Longrightarrow> ledgered st [] p"
  shows "known cfg (settled st) (st', p', popped') \<and>
    ((\<exists>x. a = Inr x) \<longrightarrow> popped' = [] \<and> (gate_live cfg st' \<longrightarrow> ledgered st' [] p')) \<and>
    (fast_steps st' \<noteq> fast_steps st \<longrightarrow> gate_live cfg st \<and> ghost_ids cfg inp st = [] \<and> a = Inr (zeros cfg inp) \<and>
       p' = clear_widths p \<and> cached (p_cache p) = 0 \<and> list_all (\<lambda>r. map_of (p_widths p) r \<noteq> None) (so_ids inp))"
proof -
  let ?s = "(st, p, []) :: proposer so_frame" and ?n = "settled st"
  let ?keep = "\<lambda>s. known cfg ?n s \<and> fast_count (fast_steps st) s"
  let ?same = "\<lambda>st0 s. quiet cfg st0 s \<and> on_proposer (\<lambda>q. q = p) s \<and> on_popped (\<lambda>x. x = []) s"
  have k0: "?keep ?s" using led by (simp add: known_def fast_count_def)
  have reads: "preserves ?keep (so_pipe_get inp idx)" "preserves ?keep (so_read inp idx)"
    "preserves (?same st0) (so_pipe_get inp idx)" "preserves (?same st0) (so_read inp idx)" for idx st0
    by (intro preserves_conj known_reads fast_count_reads quiet_reads popped_reads so_keeps)+
  have k1: "?keep s1" if "early_read inp idx ?s = (x, s1)" for idx x s1
    by (rule preservesD[OF early_read_keeps[of ?keep, OF reads(1)] k0 that])
  have k2: "?keep s2" if "?keep s1" "seq_iter (ghost_one cfg (rust_api pc) inp d) gs s1 = (x, s2)" for d gs s1 x s2
  proof -
    have "preserves ?keep (seq_iter (ghost_one cfg (rust_api pc) inp d) gs)"
      by (intro preserves_iter preserves_conj known_ghost fast_count_ghost)
    from preservesD[OF this that] show ?thesis .
  qed
  have k3: "?keep s3" if "?keep s2" "late_read inp idx er s2 = (x, s3)" for idx er s2 x s3
    by (rule preservesD[OF late_read_keeps[of ?keep, OF reads(1,2)] that])
  from b show ?thesis
  proof (cases rule: so_body_parts)
    case (raise e)
    with k0 k1 have "?keep (st', p', popped')" by blast
    with raise show ?thesis by (simp add: fast_count_def)
  next
    case (ghost e idx er s1 d)
    with k2[OF k1] have "?keep (st', p', popped')" by blast
    with ghost show ?thesis by (simp add: fast_count_def)
  next
    case (late e idx er s1 d s2)
    with k3[OF k2[OF k1]] have "?keep (st', p', popped')" by blast
    with late show ?thesis by (simp add: fast_count_def)
  next
    case (pub idx er s1 d s2 sv s3)
    have k: "?keep s3" using k3[OF k2[OF k1]] pub by blast
    note sp = so_publish_known[OF pub(4), of ?n]
    show ?thesis
    proof (cases "took_fast cfg inp (ghost_ids cfg inp (fst s1)) s3 (a, st', p', popped')")
      case False
      with sp k show ?thesis by (auto simp: fast_count_def)
    next
      case True
      then have g: "ghost_ids cfg inp (fst s1) = []" by (simp add: took_fast_def)
      then have s2: "s2 = s1" using pub(2) by (simp add: seq_ret_def)
      have q1: "?same st s1"
        by (rule preservesD[OF early_read_keeps[of "?same st", OF reads(3)] _ pub(1)])
          (simp add: quiet_def on_proposer_def on_popped_def)
      then have "?same (fst s1) s1" by (simp add: quiet_def)
      then have q3: "?same (fst s1) s3"
        by (rule preservesD[OF late_read_keeps[of "?same (fst s1)", OF reads(3,4)] _ pub(3)[unfolded s2]])
      have live: "gate_live cfg (fst s1)" "gate_live cfg st" using True q1 q3 by (auto simp: took_fast_def quiet_def)
      then have "ghost_ids cfg inp st = []" using g q1 by (simp add: ghost_ids_def quiet_def gate_live_def split: if_splits)
      moreover have "known cfg ?n (st', p', popped')" using sp k by blast
      moreover have "settled st' = ?n" using True q1 q3 by (simp add: took_fast_def quiet_def)
      ultimately show ?thesis using True live q3
        by (auto simp: took_fast_def on_proposer_def on_popped_def known_def)
    qed
  qed
qed

section \<open>Runs\<close>

text \<open>Steps of the mode from an empty mirror, with the corpus replaced in between (warm start). A step
  that raised after it had settled a departed request is not admitted: a dropped one is then in the
  mirror but no longer in the ledger.\<close>

inductive so_run :: "so_cfg \<Rightarrow> pcfg \<Rightarrow> so_state \<times> proposer \<Rightarrow> bool" for cfg pc where
  start: "proposer_ok pc p \<Longrightarrow> p_mirror p = [] \<Longrightarrow> so_run cfg pc (st, p)"
| step: "so_run cfg pc (st, p) \<Longrightarrow> so_propose cfg (rust_api pc) inp (st, p) = (out, st', p') \<Longrightarrow>
    (\<And>e s'. so_body cfg (rust_api pc) inp (st, p, []) = (Inl e, s') \<Longrightarrow> settled (fst s') = settled st) \<Longrightarrow>
    so_run cfg pc (st', p')"
| corpus: "so_run cfg pc (st, p) \<Longrightarrow> cache_ok (p_cc pc) c \<Longrightarrow> so_run cfg pc (st, p\<lparr>p_cache := c\<rparr>)"

lemma dict_updates_keys: "map_of (dict_updates d kvs) r = None \<longleftrightarrow> map_of d r = None \<and> map_of kvs r = None"
proof (induction kvs arbitrary: d)
  case (Cons kv kvs)
  then show ?case by (cases kv) (auto simp: dict_updates_def dict_simps)
qed (simp add: dict_updates_def)

lemma so_propose_ledgered:
  assumes "gate_live cfg st \<Longrightarrow> ledgered st [] p" and r: "so_propose cfg (rust_api pc) inp (st, p) = (out, st', p')"
    and quiet: "\<And>e s'. so_body cfg (rust_api pc) inp (st, p, []) = (Inl e, s') \<Longrightarrow> settled (fst s') = settled st"
    and live: "gate_live cfg st'"
  shows "ledgered st' [] p'"
proof (cases "so_skip inp")
  case True
  with assms show ?thesis by (simp add: so_propose_def)
next
  case False
  obtain a st1 p1 popped where b: "so_body cfg (rust_api pc) inp (st, p, []) = (a, st1, p1, popped)"
    by (cases "so_body cfg (rust_api pc) inp (st, p, [])") auto
  note k = so_body_known[OF b assms(1)]
  show ?thesis
  proof (cases a)
    case (Inr o')
    with b r False have "st' = st1" "p' = p1" by (auto simp: so_propose_def)
    with k Inr live show ?thesis by auto
  next
    case (Inl e)
    with b r False have st': "st' = st1\<lparr>seen := dict_updates (seen st1) popped,
        ghosts_pending := ghosts_pending st1 + length popped, so_errors := Suc (so_errors st1)\<rparr>" and p': "p' = clear_widths p1"
      by (auto simp: so_propose_def so_recover_def rust_api_def)
    have "settled st1 = settled st" using quiet b Inl by fastforce
    moreover have "gate_live cfg st1" using live unfolding st' by (simp add: gate_live_def pipe_live_def)
    ultimately have "ledgered st1 popped p1" using k by (simp add: known_def)
    then show ?thesis unfolding st' p' by (auto simp: ledgered_def clear_widths_def dict_updates_keys)
  qed
qed

lemma so_run_ledgered: "so_run cfg pc s \<Longrightarrow> proposer_ok pc (snd s) \<and> (gate_live cfg (fst s) \<longrightarrow> ledgered (fst s) [] (snd s))"
proof (induction rule: so_run.induct)
  case (start p st)
  then show ?case by (simp add: ledgered_def)
next
  case (step st p inp out st' p')
  then show ?case using so_propose_ledgered[OF _ step.hyps(2,3)]
    rust.so_propose_inv[of "rust_api pc" pc p cfg inp st out st' p'] by (simp add: rust_api_def)
next
  case (corpus st p c)
  then show ?case by (auto simp: proposer_ok_def ledgered_def)
qed

section \<open>What a stock call would have done\<close>

text \<open>Requests that are gone and have short rows are forgotten without being ingested.\<close>

lemma forget_short:
  assumes "\<And>r t. map_of (p_mirror p) r = Some t \<Longrightarrow> r \<notin> set ids \<Longrightarrow> length t \<le> 8"
  shows "p_cache (forget_gone cc ids p) = p_cache p"
proof -
  have "p_cache (fold (forget_row cc) rs p) = p_cache p"
    if "\<forall>r \<in> set rs. \<forall>t. map_of (p_mirror p) r = Some t \<longrightarrow> length t \<le> 8" for rs p
    using that
  proof (induction rs arbitrary: p)
    case (Cons r rs)
    have m: "map_of (p_mirror (forget_row cc r p)) s = Some t \<Longrightarrow> map_of (p_mirror p) s = Some t" for s t
      by (cases "s = r") (simp_all add: forget_row_self forget_row_other)
    have "p_cache (forget_row cc r p) = p_cache p"
      using Cons.prems by (auto simp: forget_row_def ingest_def split: option.split)
    with Cons.IH[of "forget_row cc r p"] Cons.prems m show ?case by fastforce
  qed simp
  then show ?thesis unfolding forget_gone_def using assms by auto
qed

text \<open>A call on an empty corpus that ingests nothing proposes nothing.\<close>

lemma empty_corpus_row:
  assumes "propose_suffix_only pc ids idx tots toks p = (Inr (packed, ws), p')" and "distinct ids"
    and "proposer_ok pc p" and "0 < cf_n (p_cc pc)" and "cached (p_cache p) = 0"
    and "p_cache p' = p_cache p" and "\<not> p_uniform pc" and "i < length ids"
  shows "packed ! i = replicate (pk pc) 0 \<and> ws ! i = 0 \<and> map_of (p_widths p') (ids ! i) = Some 0"
proof -
  obtain x q q' where st: "row_step pc toks (ids ! i, idx ! i, tots ! i) q = (Inr x, q')"
    and row: "packed ! i = pack_row (pk pc) x" "ws ! i = out_width x"
    and w: "map_of (p_widths p') (ids ! i) = map_of (p_widths q') (ids ! i)" and c: "p_cache q = p_cache p'"
    using propose_suffix_only_nth[OF assms(1,2,8)] by metis
  have "draft_of pc h (p_cache q) = []" for h
    using empty_speculate[of "p_cc pc" "p_cache p"] assms(3-6) c by (simp add: draft_of_def proposer_ok_def)
  with row_step_answer[OF st] assms(7) have "out_real x = 0" "out_toks x = []" "out_width x = 0" by auto
  with row_step_answer[OF st] row w show ?thesis by (simp add: pack_row_def)
qed

section \<open>Properties\<close>

text \<open>C23: the fast path publishes what the stock path would. Take a run of the mode in which no step
  raised after settling a departed request, with a proposer that is not uniform. Whenever a step takes
  the fast path (its counter moves), a stock call for the same batch that returns, whatever totals and
  rows it is given, answers the rows the step publishes and the widths it leaves in the table for every
  request of the batch, and leaves the same corpus: it would have ingested nothing.\<close>

theorem fast_path_matches_stock:
  assumes "so_run cfg pc (st, p)" and "so_propose cfg (rust_api pc) inp (st, p) = (out, st', p')"
    and "fast_steps st' \<noteq> fast_steps st"
    and "propose_suffix_only pc (so_ids inp) idx tots rows p = (Inr (packed, ws), p2)"
    and "so_k cfg = pk pc" and "0 < cf_n (p_cc pc)" and "\<not> p_uniform pc" and "distinct (so_ids inp)"
  shows "out = packed \<and> p_cache p' = p_cache p2 \<and>
     (\<forall>i < length (so_ids inp). map_of (p_widths p') (so_ids inp ! i) = Some (ws ! i) \<and>
        map_of (p_widths p2) (so_ids inp ! i) = Some (ws ! i))"
proof -
  note run = so_run_ledgered[OF assms(1), simplified]
  obtain a st1 p1 popped where b: "so_body cfg (rust_api pc) inp (st, p, []) = (a, st1, p1, popped)"
    by (cases "so_body cfg (rust_api pc) inp (st, p, [])") auto
  have skip: "\<not> so_skip inp" using assms(2,3) by (auto simp: so_propose_def)
  have "fast_steps st1 \<noteq> fast_steps st"
    using assms(2,3) b skip by (cases a) (auto simp: so_propose_def so_recover_def)
  with so_body_known[OF b] run have fast: "gate_live cfg st" "ghost_ids cfg inp st = []" "a = Inr (zeros cfg inp)"
      "p1 = clear_widths p" "cached (p_cache p) = 0" "list_all (\<lambda>r. map_of (p_widths p) r \<noteq> None) (so_ids inp)" by auto
  then have out: "out = zeros cfg inp" "p' = clear_widths p" using assms(2) b skip by (auto simp: so_propose_def)
  have seen: "r \<in> set (so_ids inp)" if "map_of (seen st) r \<noteq> None" for r
    using fast(1,2) that by (auto simp: ghost_ids_def gate_live_def filter_empty_conv map_of_eq_None_iff split: if_splits)
  have "p_cache (forget_gone (p_cc pc) (so_ids inp) p) = p_cache p"
  proof (rule forget_short)
    fix r t assume m: "map_of (p_mirror p) r = Some t" and r: "r \<notin> set (so_ids inp)"
    have "ledgered st [] p" using run fast(1) by blast
    with m r seen show "length t \<le> 8" unfolding ledgered_def by fastforce
  qed
  then have c: "p_cache p2 = p_cache p" using propose_suffix_only_cache[OF assms(4)] by simp
  have row: "packed ! i = replicate (pk pc) 0 \<and> ws ! i = 0 \<and> map_of (p_widths p2) (so_ids inp ! i) = Some 0"
    if "i < length (so_ids inp)" for i
    by (rule empty_corpus_row[OF assms(4,8) _ assms(6) fast(5) c assms(7) that]) (use run in blast)
  have len: "length packed = length (so_ids inp)" using rust.call_shape[OF _ assms(4)] run by blast
  have "out = packed" unfolding out using len row by (intro nth_equalityI) (auto simp: zeros_def assms(5))
  moreover have "map_of (p_widths (clear_widths p)) (so_ids inp ! i) = Some 0" if "i < length (so_ids inp)" for i
    using fast(6) that by (auto simp: clear_widths_table list_all_length)
  moreover have "p_cache (clear_widths p) = p_cache p" by (simp add: clear_widths_def)
  ultimately show ?thesis using row c out by simp
qed

text \<open>A first step of a request goes the stock way, the second one the fast way.\<close>

definition demo_first :: "so_state \<times> proposer" where
  "demo_first = snd (so_propose demo_so_cfg (rust_api demo_pcfg) demo_so_in
     (demo_so_state\<lparr>seen := []\<rparr>, demo_proposer\<lparr>p_mirror := [], p_widths := []\<rparr>))"

lemma demo_first_run: "so_run demo_so_cfg demo_pcfg demo_first"
proof -
  let ?st = "demo_so_state\<lparr>seen := []\<rparr>" and ?p = "demo_proposer\<lparr>p_mirror := [], p_widths := []\<rparr>"
  obtain out st' p' where r: "so_propose demo_so_cfg (rust_api demo_pcfg) demo_so_in (?st, ?p) = (out, st', p')"
    by (metis surj_pair)
  have "case fst (so_body demo_so_cfg (rust_api demo_pcfg) demo_so_in (?st, ?p, [])) of Inr _ \<Rightarrow> True | Inl _ \<Rightarrow> False"
    by code_simp
  then have ok: "so_body demo_so_cfg (rust_api demo_pcfg) demo_so_in (?st, ?p, []) = (Inl e, s') \<Longrightarrow> False" for e s'
    by simp
  have "so_run demo_so_cfg demo_pcfg (?st, ?p)"
    by (rule so_run.start) (simp_all add: proposer_ok_def demo_proposer_def cache_ok_new widths_ok_def demo_pcfg_def)
  from so_run.step[OF this r] ok have "so_run demo_so_cfg demo_pcfg (st', p')" by blast
  then show ?thesis by (simp add: demo_first_def r)
qed

lemma fast_path_matches_stock_witness:
  "case so_propose demo_so_cfg (rust_api demo_pcfg) demo_so_in demo_first of (out, st', p') \<Rightarrow>
     fast_steps st' = 1 \<and> (case propose_suffix_only demo_pcfg [''a''] [0] [3] [[1, 2, 3, 0]] (snd demo_first) of
       (Inr (packed, ws), p2) \<Rightarrow> out = packed \<and> p_cache p' = p_cache p2 | _ \<Rightarrow> False)"
proof -
  obtain st p where s: "demo_first = (st, p)" by (cases demo_first)
  obtain out st' p' where r: "so_propose demo_so_cfg (rust_api demo_pcfg) demo_so_in (st, p) = (out, st', p')"
    by (metis surj_pair)
  let ?c = "propose_suffix_only demo_pcfg [''a''] [0] [3] [[1, 2, 3, 0]] (snd demo_first)"
  have "fast_steps (fst demo_first) = 0 \<and> (case fst ?c of Inr _ \<Rightarrow> True | Inl _ \<Rightarrow> False) \<and>
      fast_steps (fst (snd (so_propose demo_so_cfg (rust_api demo_pcfg) demo_so_in demo_first))) = 1" by code_simp
  then have f: "fast_steps st = 0" "fast_steps st' = 1" and "case fst ?c of Inr _ \<Rightarrow> True | Inl _ \<Rightarrow> False"
    by (simp_all add: s r)
  then obtain packed ws p2 where c: "?c = (Inr (packed, ws), p2)" by (cases ?c) (auto split: sum.splits)
  have i: "so_ids demo_so_in = [''a'']" by (simp add: demo_so_in_def)
  have k: "so_k demo_so_cfg = pk demo_pcfg" "0 < cf_n (p_cc demo_pcfg)" "\<not> p_uniform demo_pcfg" "distinct (so_ids demo_so_in)"
    by (simp_all add: demo_so_cfg_def demo_pcfg_def demo_cache_cfg_def i)
  have ne: "fast_steps st' \<noteq> fast_steps st" using f by simp
  have cc: "propose_suffix_only demo_pcfg (so_ids demo_so_in) [0] [3] [[1, 2, 3, 0]] p = (Inr (packed, ws), p2)"
    using c by (simp add: i s)
  have "out = packed \<and> p_cache p' = p_cache p2"
    using fast_path_matches_stock[OF demo_first_run[unfolded s] r ne cc k] by blast
  with f show ?thesis by (simp add: s r c[unfolded s snd_conv])
qed

end
