(* ===== verification/SftData.thy ===== *)
theory SftData
  imports Prelude "HOL-Library.Multiset"
begin

text \<open>
  The training data of an in-place fine-tuning request (\<open>suffix_hybrid/sft/api.py\<close>): \<open>encode\<close> turns
  an example into token ids and a loss mask, \<open>pack\<close> groups examples into micro-batches,
  \<open>schedule\<close> draws the example indices of every optimizer step from shuffled epochs. The
  tokenizer, the chat template and the shuffle are arguments. A refused request is the left value
  with its HTTP status.
\<close>

type_synonym 'a hres = "nat + 'a"

definition hbind :: "'a hres \<Rightarrow> ('a \<Rightarrow> 'b hres) \<Rightarrow> 'b hres" where
  "hbind r f = (case r of Inl c \<Rightarrow> Inl c | Inr x \<Rightarrow> f x)"

lemma hbind_Inr: "hbind r f = Inr y \<longleftrightarrow> (\<exists>x. r = Inr x \<and> f x = Inr y)"
  by (cases r) (auto simp: hbind_def)

section \<open>Examples\<close>

text \<open>A chat example is a list of messages with a role, \<^const>\<open>None\<close> where the source finds no list of
  objects; a raw example has a prompt and a completion.\<close>

datatype 'm example = Chat "'m list option" | Raw string string | Malformed

record 'm tokenizer =
  tk_role :: "'m \<Rightarrow> string"
  tk_template :: "'m list \<Rightarrow> bool \<Rightarrow> string"
  tk_encode :: "bool \<Rightarrow> string \<Rightarrow> token list"
  tk_eos :: "token option"

definition OPEN_THINK :: string where "OPEN_THINK = ''<think>''"

definition starts_with :: "string \<Rightarrow> string \<Rightarrow> bool" where
  "starts_with s p \<longleftrightarrow> take (length p) s = p"

definition ends_with :: "string \<Rightarrow> string \<Rightarrow> bool" where
  "ends_with s p \<longleftrightarrow> length p \<le> length s \<and> drop (length s - length p) s = p"

text \<open>The text the loss trains: what the full rendering adds to the prompt, behind a closing tag where
  the prompt opened a thought that the rendered history drops.\<close>

definition completion_tail :: "string \<Rightarrow> string \<Rightarrow> string option" where
  "completion_tail prompt shown =
     (if starts_with shown prompt then Some (drop (length prompt) shown)
      else if ends_with prompt OPEN_THINK \<and> starts_with shown (take (length prompt - length OPEN_THINK) prompt)
      then Some (''</think>'' @ drop (length prompt - length OPEN_THINK) shown)
      else None)"

definition encode_texts :: "'m tokenizer \<Rightarrow> 'm example \<Rightarrow> (token list \<times> token list) hres" where
  "encode_texts tk ex = (case ex of
      Chat None \<Rightarrow> Inl 400
    | Chat (Some msgs) \<Rightarrow>
        if length msgs < 2 \<or> tk_role tk (last msgs) \<noteq> ''assistant'' then Inl 400
        else let prompt = tk_template tk (butlast msgs) True; shown = tk_template tk msgs False
             in (case completion_tail prompt shown of
                   None \<Rightarrow> Inl 400
                 | Some added \<Rightarrow> Inr (tk_encode tk False prompt, tk_encode tk False added))
    | Raw prompt completion \<Rightarrow>
        Inr (tk_encode tk True prompt,
             tk_encode tk False completion @ (case tk_eos tk of None \<Rightarrow> [] | Some t \<Rightarrow> [t]))
    | Malformed \<Rightarrow> Inl 400)"

definition encode :: "'m tokenizer \<Rightarrow> 'm example \<Rightarrow> (token list \<times> nat list) hres" where
  "encode tk ex = hbind (encode_texts tk ex) (\<lambda>(p, c).
     if c = [] \<or> p = [] then Inl 400
     else Inr (p @ c, replicate (length p) 0 @ replicate (length c) 1))"

section \<open>Packing\<close>

type_synonym sft_sample = "token list \<times> nat list"

definition mb_tokens :: "sft_sample list \<Rightarrow> nat" where
  "mb_tokens mb = sum_list (map (\<lambda>(ids, _). length ids) mb)"

fun pack_loop :: "nat \<Rightarrow> sft_sample list \<Rightarrow> sft_sample list \<Rightarrow> sft_sample list list" where
  "pack_loop m cur [] = (if cur = [] then [] else [cur])"
| "pack_loop m cur (e # es) =
     (if cur \<noteq> [] \<and> m < mb_tokens cur + length (fst e) then cur # pack_loop m [e] es
      else pack_loop m (cur @ [e]) es)"

record micro_batch =
  mb_ids :: "token list"
  mb_mask :: "nat list"
  mb_segs :: "nat list"

definition flatten_mb :: "sft_sample list \<Rightarrow> micro_batch" where
  "flatten_mb mb = \<lparr>mb_ids = concat (map fst mb), mb_mask = concat (map snd mb),
                   mb_segs = map (\<lambda>(ids, _). length ids) mb\<rparr>"

definition pack :: "sft_sample list \<Rightarrow> nat \<Rightarrow> micro_batch list" where
  "pack es m = map flatten_mb (pack_loop m [] es)"

lemma mb_tokens_simps [simp]:
  "mb_tokens [] = 0" "mb_tokens (x # xs) = length (fst x) + mb_tokens xs"
  "mb_tokens (xs @ ys) = mb_tokens xs + mb_tokens ys"
  by (auto simp: mb_tokens_def split_beta)

lemma length_mb_ids: "length (mb_ids (flatten_mb mb)) = mb_tokens mb"
  by (induction mb) (auto simp: flatten_mb_def)

lemma pack_loop_concat: "concat (pack_loop m cur es) = cur @ es"
  by (induction m cur es rule: pack_loop.induct) auto

lemma pack_loop_nonempty: "mb \<in> set (pack_loop m cur es) \<Longrightarrow> mb \<noteq> []"
  by (induction m cur es rule: pack_loop.induct) (auto split: if_splits)

lemma pack_loop_bound:
  "mb_tokens cur \<le> m \<Longrightarrow> \<forall>e \<in> set es. length (fst e) \<le> m \<Longrightarrow> mb \<in> set (pack_loop m cur es) \<Longrightarrow> mb_tokens mb \<le> m"
  by (induction m cur es rule: pack_loop.induct) (auto split: if_splits)

lemma pack_loop_hd: "hd (pack_loop m (x # xs) ys) = x # tl (hd (pack_loop m (x # xs) ys))"
proof (induction m "x # xs" ys arbitrary: xs rule: pack_loop.induct)
  case (2 m e es)
  then show ?case by (cases "m < mb_tokens (x # xs) + length (fst e)") auto
qed simp

text \<open>Two neighbouring micro-batches never fit into one.\<close>

lemma pack_loop_greedy:
  "Suc i < length (pack_loop m cur es) \<Longrightarrow>
   m < mb_tokens (pack_loop m cur es ! i) + length (fst (hd (pack_loop m cur es ! Suc i)))"
proof (induction m cur es arbitrary: i rule: pack_loop.induct)
  case (2 m cur e es)
  show ?case
  proof (cases "cur \<noteq> [] \<and> m < mb_tokens cur + length (fst e)")
    case False
    then have s: "pack_loop m cur (e # es) = pack_loop m (cur @ [e]) es" by auto
    show ?thesis using "2.IH"(2)[OF False, of i] "2.prems" unfolding s .
  next
    case True
    have ne: "pack_loop m [e] es \<noteq> []" using pack_loop_concat[of m "[e]" es] by auto
    have h: "hd (pack_loop m [e] es ! 0) = e" using pack_loop_hd[of m e "[]" es] ne by (metis hd_conv_nth list.sel(1))
    show ?thesis
    proof (cases i)
      case 0
      then show ?thesis using True h by simp
    next
      case (Suc j)
      then show ?thesis using True "2.IH"(1)[OF True, of j] "2.prems" by simp
    qed
  qed
qed (auto split: if_splits)

section \<open>The epochs\<close>

text \<open>\<open>random.Random(seed)\<close> is a state; \<open>shuffle\<close> returns the shuffled list and the next state.\<close>

fun draw :: "('g \<Rightarrow> nat list \<Rightarrow> nat list \<times> 'g) \<Rightarrow> nat \<Rightarrow> nat \<Rightarrow> nat list \<times> 'g \<Rightarrow> nat list res \<times> nat list \<times> 'g" where
  "draw shuffle n 0 s = (Inr [], s)"
| "draw shuffle n (Suc k) s =
     (let (order, g) = (if fst s = [] then shuffle (snd s) [0..<n] else s)
      in if order = [] then (Inl IndexError, order, g)
         else case draw shuffle n k (butlast order, g) of
                (Inl e, s') \<Rightarrow> (Inl e, s')
              | (Inr xs, s') \<Rightarrow> (Inr (last order # xs), s'))"

fun draws :: "('g \<Rightarrow> nat list \<Rightarrow> nat list \<times> 'g) \<Rightarrow> nat \<Rightarrow> nat \<Rightarrow> nat \<Rightarrow> nat list \<times> 'g \<Rightarrow> nat list list res" where
  "draws shuffle n bs 0 s = Inr []"
| "draws shuffle n bs (Suc k) s = (case draw shuffle n bs s of
      (Inl e, s') \<Rightarrow> Inl e
    | (Inr b, s') \<Rightarrow> rbind (draws shuffle n bs k s') (\<lambda>rest. Inr (b # rest)))"

definition schedule :: "('g \<Rightarrow> nat list \<Rightarrow> nat list \<times> 'g) \<Rightarrow> 'g \<Rightarrow> nat \<Rightarrow> nat \<Rightarrow> nat \<Rightarrow> nat list list res" where
  "schedule shuffle seed n steps bs = draws shuffle n bs steps ([], seed)"

text \<open>What has been drawn and what is left of the current epoch make up whole epochs.\<close>

definition epochs :: "nat \<Rightarrow> nat \<Rightarrow> nat list \<Rightarrow> nat list \<Rightarrow> bool" where
  "epochs n m drawn order \<longleftrightarrow> mset drawn + mset order = repeat_mset m (mset [0..<n]) \<and>
     (\<exists>rest. mset rest + mset order = mset [0..<n]) \<and> length order < max n 1"

lemma draw_epochs:
  assumes perm: "\<And>g xs. mset (fst (shuffle g xs)) = mset xs" and n: "0 < n"
    and "epochs n m drawn order"
  shows "\<exists>m' xs order' g'. draw shuffle n k (order, g) = (Inr xs, order', g') \<and> length xs = k \<and>
    epochs n m' (drawn @ xs) order'"
  using assms(3)
proof (induction k arbitrary: m drawn order g)
  case 0
  then show ?case by auto
next
  case (Suc k)
  obtain o1 g1 where o1: "(if order = [] then shuffle g [0..<n] else (order, g)) = (o1, g1)" by fastforce
  have full: "length o1 = n" if "order = []"
    using o1 that perm[of g "[0..<n]", THEN mset_eq_length] by simp
  have ne: "o1 \<noteq> []" using o1 full n by (cases "order = []") auto
  let ?x = "last o1"
  have split: "mset o1 = add_mset ?x (mset (butlast o1))"
    using ne by (metis append_butlast_last_id mset.simps union_code add_mset_add_single mset_append)
  have sub: "\<exists>rest. mset rest + mset o1 = mset [0..<n]"
  proof (cases "order = []")
    case True
    then have "mset o1 = mset [0..<n]" using o1 perm[of g "[0..<n]"] by auto
    then show ?thesis by (intro exI[of _ "[]"]) simp
  next
    case False
    then show ?thesis using Suc.prems o1 by (auto simp: epochs_def)
  qed
  then obtain rest where rest: "mset rest + mset o1 = mset [0..<n]" by blast
  have len: "length (butlast o1) < max n 1"
  proof -
    have "size (mset rest + mset o1) = n" unfolding rest by simp
    then have "length o1 \<le> n" by simp
    then show ?thesis using ne by (cases o1 rule: rev_cases) auto
  qed
  obtain m1 where m1: "mset drawn + mset o1 = repeat_mset m1 (mset [0..<n])"
  proof (cases "order = []")
    case True
    then have "mset o1 = mset [0..<n]" using o1 perm[of g "[0..<n]"] by auto
    with Suc.prems True have "mset drawn + mset o1 = repeat_mset (Suc m) (mset [0..<n])"
      by (auto simp: epochs_def)
    then show thesis by (rule that)
  next
    case False
    with Suc.prems o1 show thesis by (intro that[of m]) (auto simp: epochs_def)
  qed
  have "epochs n m1 (drawn @ [?x]) (butlast o1)"
    unfolding epochs_def using m1 len rest split
    by (auto intro!: exI[of _ "?x # rest"] simp: union_assoc[symmetric])
  from Suc.IH[OF this, of g1] obtain m' xs order' g' where
    "draw shuffle n k (butlast o1, g1) = (Inr xs, order', g')" "length xs = k"
    "epochs n m' ((drawn @ [?x]) @ xs) order'" by blast
  then show ?case using ne o1 by (intro exI[of _ m'] exI[of _ "?x # xs"] exI[of _ order'] exI[of _ g']) auto
qed

lemma draws_epochs:
  assumes perm: "\<And>g xs. mset (fst (shuffle g xs)) = mset xs" and n: "0 < n"
  shows "epochs n m drawn order \<Longrightarrow>
    \<exists>bss m' order'. draws shuffle n bs k (order, g) = Inr bss \<and> length bss = k \<and> (\<forall>b \<in> set bss. length b = bs) \<and>
      epochs n m' (drawn @ concat bss) order'"
proof (induction k arbitrary: m drawn order g)
  case 0
  then show ?case by auto
next
  case (Suc k)
  from draw_epochs[where shuffle = shuffle and k = bs and g = g, OF perm n Suc.prems] obtain m1 xs o1 g1 where
    d: "draw shuffle n bs (order, g) = (Inr xs, o1, g1)" "length xs = bs" "epochs n m1 (drawn @ xs) o1" by blast
  from Suc.IH[where g = g1, OF d(3)] obtain bss m' order' where
    "draws shuffle n bs k (o1, g1) = Inr bss" "length bss = k" "\<forall>b \<in> set bss. length b = bs"
    "epochs n m' ((drawn @ xs) @ concat bss) order'" by blast
  then show ?case using d by (intro exI[of _ "xs # bss"] exI[of _ m'] exI[of _ order']) auto
qed

text \<open>Whole epochs minus the unfinished rest: every index has been drawn as often as any other, up to
  one.\<close>

lemma epochs_fair:
  assumes "epochs n m drawn order" and "0 < n" and "i < n"
  shows "count_list drawn i \<in> {length drawn div n, Suc (length drawn div n)} \<and> set drawn \<subseteq> {0..<n}"
proof -
  have e: "mset drawn + mset order = repeat_mset m (mset [0..<n])" and l: "length order < n"
    using assms(1,2) by (auto simp: epochs_def)
  obtain rest where rest: "mset rest + mset order = mset [0..<n]" using assms(1) by (auto simp: epochs_def)
  have one: "count (mset [0..<n]) i = 1" using assms(3) by simp
  have c: "count_list drawn i + count (mset order) i = m"
    using arg_cong[OF e, of "\<lambda>M. count M i"] one by (simp add: count_mset del: mset_upt)
  have le: "count (mset order) i \<le> 1"
    using arg_cong[OF rest, of "\<lambda>M. count M i"] one by simp
  have sz: "length drawn + length order = m * n"
    using arg_cong[OF e, of size] by (simp add: size_repeat_mset del: mset_upt)
  have sub: "set drawn \<subseteq> {0..<n}"
  proof -
    have "set_mset (mset drawn) \<subseteq> set_mset (repeat_mset m (mset [0..<n]))" unfolding e[symmetric] by simp
    also have "\<dots> \<subseteq> {0..<n}" by (induction m) auto
    finally show ?thesis by simp
  qed
  have "count_list drawn i = length drawn div n \<or> count_list drawn i = Suc (length drawn div n)"
  proof (cases "order = []")
    case True
    then have "length drawn div n = m" using sz assms(2) by simp
    then show ?thesis using c True by simp
  next
    case False
    then have "0 < m" using sz l assms(2) by (cases m) auto
    then obtain m' where m': "m = Suc m'" by (cases m) auto
    have "length drawn = m' * n + (n - length order)" using sz l m' by simp
    then have "length drawn div n = m'" using False assms(2) by (simp add: div_nat_eqI)
    then show ?thesis using c le m' by linarith
  qed
  with sub show ?thesis by auto
qed

lemma concat_map_concat: "concat (map f (concat xss)) = concat (map (concat \<circ> map f) xss)"
  by (induction xss) auto

section \<open>Properties\<close>

text \<open>The loss sees exactly the completion. An accepted example keeps its token order, prompt
  first; its mask has the ids' length, is 0 on the prompt and 1 on the completion, both non-empty;
  for a chat whose full rendering continues the prompt, the two texts concatenate to that
  rendering.\<close>

theorem loss_sees_completion:
  assumes "encode tk ex = Inr (ids, msk)"
  shows "\<exists>p c. encode_texts tk ex = Inr (p, c) \<and> ids = p @ c \<and> length msk = length ids \<and> p \<noteq> [] \<and> c \<noteq> [] \<and>
     (\<forall>i < length ids. msk ! i = (if i < length p then 0 else 1)) \<and>
     (\<forall>msgs. ex = Chat (Some msgs) \<and> starts_with (tk_template tk msgs False) (tk_template tk (butlast msgs) True) \<longrightarrow>
        (\<exists>t. c = tk_encode tk False t \<and> tk_template tk (butlast msgs) True @ t = tk_template tk msgs False))"
proof -
  obtain p c where e: "encode_texts tk ex = Inr (p, c)" and ne: "p \<noteq> []" "c \<noteq> []"
    and r: "ids = p @ c" "msk = replicate (length p) 0 @ replicate (length c) 1"
    using assms by (auto simp: encode_def hbind_Inr split: if_splits)
  have chat: "\<exists>t. c = tk_encode tk False t \<and> tk_template tk (butlast msgs) True @ t = tk_template tk msgs False"
    if "ex = Chat (Some msgs)" "starts_with (tk_template tk msgs False) (tk_template tk (butlast msgs) True)" for msgs
    using e that
    by (auto simp: encode_texts_def Let_def completion_tail_def starts_with_def split: if_splits
        intro!: exI[of _ "drop (length (tk_template tk (butlast msgs) True)) (tk_template tk msgs False)"])
      (metis append_take_drop_id)
  show ?thesis using e ne r chat by (intro exI[of _ p] exI[of _ c]) (auto simp: nth_append)
qed

text \<open>Packing keeps every example, in order and whole. The micro-batches concatenate to the
  examples, none is empty, segment lengths add up to the ids and the mask has their length; with
  examples of at most \<open>m\<close> tokens no micro-batch has more, and no two neighbours would fit into
  one, so there are no more micro-batches than the order forces.\<close>

theorem pack_keeps_examples:
  assumes "\<forall>(ids, msk) \<in> set es. length msk = length ids \<and> length ids \<le> m"
  shows "let mbs = pack es m in concat (map mb_ids mbs) = concat (map fst es) \<and>
     concat (map mb_mask mbs) = concat (map snd es) \<and>
     (\<forall>mb \<in> set mbs. mb_segs mb \<noteq> [] \<and> sum_list (mb_segs mb) = length (mb_ids mb) \<and>
        length (mb_mask mb) = length (mb_ids mb) \<and> length (mb_ids mb) \<le> m) \<and>
     (\<forall>i. Suc i < length mbs \<longrightarrow> m < length (mb_ids (mbs ! i)) + hd (mb_segs (mbs ! Suc i)))"
proof -
  let ?g = "pack_loop m [] es"
  have cat: "concat ?g = es" using pack_loop_concat[of m "[]" es] by simp
  have mem: "set mb \<subseteq> set es" if "mb \<in> set ?g" for mb
  proof -
    have "set es = (\<Union>x \<in> set ?g. set x)" by (metis cat set_concat)
    then show ?thesis using that by blast
  qed
  have ids: "concat (map (concat \<circ> map f) ?g) = concat (map f es)" for f :: "sft_sample \<Rightarrow> 'b list"
  proof -
    show ?thesis using concat_map_concat[of f ?g] by (simp only: cat)
  qed
  have seg: "sum_list (mb_segs (flatten_mb mb)) = length (mb_ids (flatten_mb mb))" for mb
    unfolding length_mb_ids by (simp add: flatten_mb_def mb_tokens_def)
  have msk: "length (mb_mask (flatten_mb mb)) = length (mb_ids (flatten_mb mb))" if "mb \<in> set ?g" for mb
  proof -
    have "\<forall>e \<in> set mb. length (snd e) = length (fst e)" using mem[OF that] assms by fastforce
    then show ?thesis by (induction mb) (auto simp: flatten_mb_def)
  qed
  have small: "\<forall>e \<in> set es. length (fst e) \<le> m" using assms by fastforce
  have bound: "mb_tokens mb \<le> m" if "mb \<in> set ?g" for mb
    by (rule pack_loop_bound[OF _ small that]) simp
  have hdm: "hd (mb_segs (flatten_mb mb)) = length (fst (hd mb))" if "mb \<noteq> []" for mb
    using that by (cases mb) (auto simp: flatten_mb_def split_beta)
  have ne: "?g ! j \<noteq> []" if "j < length ?g" for j using that pack_loop_nonempty nth_mem by blast
  show ?thesis unfolding Let_def pack_def
  proof (intro conjI)
    show "concat (map mb_ids (map flatten_mb ?g)) = concat (map fst es)"
      unfolding ids[of fst, symmetric] by (simp add: comp_def flatten_mb_def)
    show "concat (map mb_mask (map flatten_mb ?g)) = concat (map snd es)"
      unfolding ids[of snd, symmetric] by (simp add: comp_def flatten_mb_def)
    show "\<forall>mb \<in> set (map flatten_mb ?g). mb_segs mb \<noteq> [] \<and> sum_list (mb_segs mb) = length (mb_ids mb) \<and>
        length (mb_mask mb) = length (mb_ids mb) \<and> length (mb_ids mb) \<le> m"
      using seg msk bound pack_loop_nonempty[of _ m "[]" es]
      by (auto simp: length_mb_ids) (auto simp: flatten_mb_def)
    show "\<forall>i. Suc i < length (map flatten_mb ?g) \<longrightarrow>
        m < length (mb_ids (map flatten_mb ?g ! i)) + hd (mb_segs (map flatten_mb ?g ! Suc i))"
      using pack_loop_greedy[of _ m "[]" es] ne by (simp add: length_mb_ids hdm)
  qed
qed

text \<open>The schedule is fair. With at least one example and a shuffle that permutes, it returns the
  asked number of batches of the asked size; every index is an example's, and over the whole run
  each example is drawn \<open>t div n\<close> or one more time, where \<open>t\<close> is the number of draws.\<close>

theorem schedule_is_fair:
  assumes "\<And>g xs. mset (fst (shuffle g xs)) = mset xs" and "0 < n"
  shows "\<exists>bss. schedule shuffle seed n steps bs = Inr bss \<and> length bss = steps \<and> (\<forall>b \<in> set bss. length b = bs) \<and>
    (\<forall>i < n. count_list (concat bss) i \<in> {steps * bs div n, Suc (steps * bs div n)}) \<and> set (concat bss) \<subseteq> {0..<n}"
proof -
  have "epochs n 0 [] []" using assms(2) by (auto simp: epochs_def intro: exI[of _ "[0..<n]"])
  from draws_epochs[where shuffle = shuffle and bs = bs and k = steps and g = seed, OF assms this] obtain bss m order where
    d: "draws shuffle n bs steps ([], seed) = Inr bss" "length bss = steps" "\<forall>b \<in> set bss. length b = bs"
    "epochs n m (concat bss) order" by auto
  have "length (concat bss) = steps * bs"
    using d(2,3) by (induction bss arbitrary: steps) auto
  then show ?thesis using d epochs_fair[OF d(4) assms(2)] assms(2) by (auto simp: schedule_def)
qed

section \<open>Concrete inputs\<close>

definition demo_tok :: "(string \<times> string) tokenizer" where
  "demo_tok = \<lparr>tk_role = fst, tk_template = (\<lambda>msgs gen. concat (map snd msgs) @ (if gen then ''>'' else '''')),
     tk_encode = (\<lambda>_. map of_char), tk_eos = None\<rparr>"

lemma loss_sees_completion_witness:
  "\<exists>p c. encode demo_tok (Chat (Some [(''user'', ''hi''), (''assistant'', ''>yo'')])) = Inr (p @ c, [0, 0, 0, 1, 1]) \<and> length p = 3 \<and> length c = 2"
proof -
  have e: "encode demo_tok (Chat (Some [(''user'', ''hi''), (''assistant'', ''>yo'')])) = Inr ([104, 105, 62, 121, 111], [0, 0, 0, 1, 1])"
    by code_simp
  obtain p c where r0: "[104, 105, 62, 121, 111 :: int] = p @ c"
    "\<forall>i < length [104, 105, 62, 121, 111 :: int]. [0, 0, 0, 1, 1 :: nat] ! i = (if i < length p then 0 else 1)"
    using loss_sees_completion[OF e] by blast
  have five: "length [104, 105, 62, 121, 111 :: int] = 5" by simp
  have r: "[104, 105, 62, 121, 111 :: int] = p @ c"
    "\<forall>i < 5. [0, 0, 0, 1, 1 :: nat] ! i = (if i < length p then 0 else 1)" using r0(1) r0(2)[unfolded five] by blast+
  have "length p = 3"
  proof (rule ccontr)
    assume "length p \<noteq> 3"
    then consider "length p < 3" | "3 < length p" by linarith
    then show False
    proof cases
      case 1
      then show ?thesis using r(2)[rule_format, of 2] by simp
    next
      case 2
      then show ?thesis using r(2)[rule_format, of 3] by simp
    qed
  qed
  moreover from this have "length c = 2" using arg_cong[OF r(1), of length] by simp
  ultimately show ?thesis using e unfolding r(1) by blast
qed

lemma pack_keeps_examples_witness:
  "map mb_ids (pack [([1, 2], [0, 1]), ([3], [1]), ([4, 5], [0, 1])] 4) = [[1, 2, 3], [4, 5]] \<and>
   concat (map mb_ids (pack [([1, 2], [0, 1]), ([3], [1]), ([4, 5], [0, 1])] 4)) = [1, 2, 3, 4, 5]"
  using pack_keeps_examples[of "[([1, 2], [0, 1]), ([3], [1]), ([4, 5], [0, 1])]" 4]
  by (simp add: Let_def pack_def flatten_mb_def mb_tokens_def)

lemma schedule_is_fair_witness:
  "\<exists>bss. schedule (\<lambda>g xs. (rev xs, g)) () 3 2 2 = Inr bss \<and> length bss = 2 \<and> count_list (concat bss) 0 \<in> {1, 2}"
proof -
  have "mset (fst ((\<lambda>g xs. (rev xs, g)) (g :: unit) xs)) = mset xs" for g xs by simp
  from schedule_is_fair[where shuffle = "\<lambda>(g :: unit) xs. (rev xs, g)", OF this, of 3 "()" 2 2]
  obtain bss where "schedule (\<lambda>g xs. (rev xs, g)) () 3 2 2 = Inr bss" "length bss = 2"
    "\<forall>i < 3. count_list (concat bss) i \<in> {2 * 2 div 3, Suc (2 * 2 div 3)}" by auto
  moreover from this(3) have "count_list (concat bss) 0 \<in> {2 * 2 div 3, Suc (2 * 2 div 3)}" by simp
  ultimately show ?thesis by (intro exI[of _ bss]) (simp add: numeral_2_eq_2)
qed

end
