(* ===== verification/SftWorker.thy ===== *)
theory SftWorker
  imports Prelude
begin

text \<open>
  The worker side of in-place fine-tuning (\<open>suffix_hybrid/sft/worker.py\<close>): what one tensor-parallel
  rank keeps (the adapters it serves, the working copy of a run, whether the KV cache is mapped)
  and the operations of \<open>suffix_sft\<close>, called on every rank at once behind a vote. Adapters are a
  list of tensors, factor \<open>A\<close> at even and factor \<open>B\<close> at odd positions; \<open>z\<close> is the zero tensor, and a
  rank serves the base model where every \<open>B\<close> is zero. An operation may fail on a rank for reasons
  outside the program (memory, device, file): a fault says which tensors had been copied then.
\<close>

section \<open>One rank\<close>

record 't rank_st =
  rk_live :: "'t list"
  rk_run :: "'t list option"
  rk_kv :: bool
  rk_sft :: bool

record 't wcfg =
  w_zero :: 't
  w_fp :: string
  w_free_kv :: bool

datatype 't shard = Shard "'t list" string

datatype 't sft_op = Info | Begin | Micro | Step "nat \<Rightarrow> nat \<Rightarrow> 't \<Rightarrow> 't" | Eval | Save | Commit | Abort
  | Load "nat \<Rightarrow> 't shard option" | Reset | KvFree | KvRestore

type_synonym fault = "(nat \<Rightarrow> bool) option"

definition needs_run :: "'t sft_op \<Rightarrow> bool" where
  "needs_run op = (case op of Micro \<Rightarrow> True | Step _ \<Rightarrow> True | Commit \<Rightarrow> True | _ \<Rightarrow> False)"

definition keeps_run :: "'t sft_op \<Rightarrow> bool" where
  "keeps_run op = (case op of Info \<Rightarrow> True | Eval \<Rightarrow> True | Save \<Rightarrow> True | _ \<Rightarrow> False)"

text \<open>Tensor by tensor over the old values: all of them, or those copied before the fault.\<close>

definition overlay :: "(nat \<Rightarrow> bool) \<Rightarrow> 't list \<Rightarrow> 't list \<Rightarrow> 't list" where
  "overlay f new old = map (\<lambda>i. if f i then new ! i else old ! i) [0..<length old]"

definition zeroed :: "'t \<Rightarrow> 't list \<Rightarrow> 't list" where
  "zeroed z live = map (\<lambda>i. if odd i then z else live ! i) [0..<length live]"

definition put_live :: "fault \<Rightarrow> 't list \<Rightarrow> 't rank_st \<Rightarrow> bool option \<times> 't rank_st" where
  "put_live ft new s = (case ft of
      None \<Rightarrow> (Some True, s\<lparr>rk_live := new\<rparr>)
    | Some f \<Rightarrow> (None, s\<lparr>rk_live := overlay f new (rk_live s)\<rparr>))"

definition do_load :: "'t wcfg \<Rightarrow> 't shard option \<Rightarrow> fault \<Rightarrow> 't rank_st \<Rightarrow> bool option \<times> 't rank_st" where
  "do_load c sh ft s = (case sh of
      None \<Rightarrow> (None, s)
    | Some (Shard vals fp) \<Rightarrow>
        if fp \<noteq> w_fp c \<or> length vals \<noteq> length (rk_live s) then (None, s) else put_live ft vals s)"

definition do_commit :: "fault \<Rightarrow> 't rank_st \<Rightarrow> bool option \<times> 't rank_st" where
  "do_commit ft s = (case rk_run s of
      None \<Rightarrow> (None, s)
    | Some v \<Rightarrow> (case put_live ft v s of
          (None, s') \<Rightarrow> (None, s')
        | (Some b, s') \<Rightarrow> (Some b, s'\<lparr>rk_run := None\<rparr>)))"

text \<open>\<open>sleep\<close> unmaps the cache and offloads the weights, \<open>wake_up\<close> brings the weights back: an error of
  either is an answer with \<open>ok = False\<close>, not an error of the operation.\<close>

definition do_kv_free :: "'t wcfg \<Rightarrow> fault \<Rightarrow> 't rank_st \<Rightarrow> bool option \<times> 't rank_st" where
  "do_kv_free c ft s =
     (if \<not> w_free_kv c then (Some False, s)
      else case ft of None \<Rightarrow> (Some True, s\<lparr>rk_kv := False\<rparr>)
        | Some f \<Rightarrow> (Some False, if f 0 then s\<lparr>rk_kv := False\<rparr> else s))"

definition do_kv_restore :: "'t wcfg \<Rightarrow> fault \<Rightarrow> 't rank_st \<Rightarrow> bool option \<times> 't rank_st" where
  "do_kv_restore c ft s =
     (if \<not> w_free_kv c then (Some False, s)
      else case ft of None \<Rightarrow> (Some True, s\<lparr>rk_kv := True\<rparr>) | Some _ \<Rightarrow> (Some False, s))"

definition plain_op :: "fault \<Rightarrow> 't rank_st \<Rightarrow> bool option \<times> 't rank_st" where
  "plain_op ft s = (case ft of None \<Rightarrow> (Some True, s) | Some _ \<Rightarrow> (None, s))"

definition op_body :: "'t wcfg \<Rightarrow> nat \<Rightarrow> 't sft_op \<Rightarrow> fault \<Rightarrow> 't rank_st \<Rightarrow> bool option \<times> 't rank_st" where
  "op_body c r op ft s = (case op of
      Info \<Rightarrow> plain_op ft s
    | Begin \<Rightarrow> (case ft of None \<Rightarrow> (Some True, s\<lparr>rk_run := Some (rk_live s)\<rparr>) | Some _ \<Rightarrow> (None, s))
    | Micro \<Rightarrow> plain_op ft s
    | Step upd \<Rightarrow> (case ft of
          None \<Rightarrow> (Some True, s\<lparr>rk_run := map_option (\<lambda>v. map (\<lambda>i. upd r i (v ! i)) [0..<length v]) (rk_run s)\<rparr>)
        | Some _ \<Rightarrow> (None, s))
    | Eval \<Rightarrow> plain_op ft s
    | Save \<Rightarrow> plain_op ft s
    | Commit \<Rightarrow> do_commit ft s
    | Abort \<Rightarrow> plain_op ft (s\<lparr>rk_run := None\<rparr>)
    | Load sh \<Rightarrow> do_load c (sh r) ft s
    | Reset \<Rightarrow> put_live ft (zeroed (w_zero c) (rk_live s)) s
    | KvFree \<Rightarrow> do_kv_free c ft s
    | KvRestore \<Rightarrow> do_kv_restore c ft s)"

text \<open>What \<open>save\<close> writes: the run's values, or the served ones without a run.\<close>

definition shard_of :: "'t wcfg \<Rightarrow> 't rank_st \<Rightarrow> 't shard" where
  "shard_of c s = Shard (case rk_run s of Some v \<Rightarrow> v | None \<Rightarrow> rk_live s) (w_fp c)"

section \<open>All ranks\<close>

definition rank_ready :: "'t sft_op \<Rightarrow> 't rank_st \<Rightarrow> bool" where
  "rank_ready op s \<longleftrightarrow> rk_sft s \<and> (needs_run op \<longrightarrow> rk_run s \<noteq> None)"

definition rank_rpc :: "'t wcfg \<Rightarrow> nat \<Rightarrow> 't sft_op \<Rightarrow> fault \<Rightarrow> 't rank_st \<Rightarrow> bool option \<times> 't rank_st" where
  "rank_rpc c r op ft s = (case op_body c r op ft s of
      (None, s') \<Rightarrow> (None, if keeps_run op then s' else s'\<lparr>rk_run := None\<rparr>)
    | (Some b, s') \<Rightarrow> (Some b, s'))"

definition drop_run :: "'t rank_st \<Rightarrow> 't rank_st" where
  "drop_run s = (if rk_sft s then s\<lparr>rk_run := None\<rparr> else s)"

text \<open>The vote: no rank enters the operation unless every rank can.\<close>

definition group_rpc :: "'t wcfg \<Rightarrow> 't sft_op \<Rightarrow> (nat \<Rightarrow> fault) \<Rightarrow> 't rank_st list \<Rightarrow> bool option list \<times> 't rank_st list" where
  "group_rpc c op ft rs =
     (if list_all (rank_ready op) rs
      then (map (\<lambda>r. fst (rank_rpc c r op (ft r) (rs ! r))) [0..<length rs],
            map (\<lambda>r. snd (rank_rpc c r op (ft r) (rs ! r))) [0..<length rs])
      else (map (\<lambda>_. None) rs, if needs_run op then map drop_run rs else rs))"

definition rpc_ok :: "bool option list \<Rightarrow> bool" where
  "rpc_ok reps \<longleftrightarrow> list_all (\<lambda>r. r \<noteq> None) reps"

section \<open>What the operations change\<close>

lemma length_overlay [simp]: "length (overlay f new old) = length old"
  by (simp add: overlay_def)

lemma length_zeroed [simp]: "length (zeroed z v) = length v"
  by (simp add: zeroed_def)

lemma zeroed_overlay: "zeroed z (overlay f (zeroed z v) v) = zeroed z v"
  by (auto simp: zeroed_def overlay_def intro!: nth_equalityI)

lemma length_group [simp]: "length (snd (group_rpc c op ft rs)) = length rs"
  by (simp add: group_rpc_def)

definition touches_live :: "'t sft_op \<Rightarrow> bool" where
  "touches_live op = (case op of Commit \<Rightarrow> True | Load _ \<Rightarrow> True | Reset \<Rightarrow> True | _ \<Rightarrow> False)"

lemma rank_rpc_live:
  "\<not> touches_live op \<Longrightarrow> rk_live (snd (rank_rpc c r op ft s)) = rk_live s"
  by (cases op; cases ft)
    (auto simp: rank_rpc_def op_body_def plain_op_def do_kv_free_def do_kv_restore_def touches_live_def split: prod.splits)

lemma rank_rpc_sft [simp]: "rk_sft (snd (rank_rpc c r op ft s)) = rk_sft s"
  by (cases op; cases ft)
    (auto simp: rank_rpc_def op_body_def plain_op_def do_kv_free_def do_kv_restore_def do_load_def do_commit_def
      put_live_def split: prod.splits option.splits shard.splits)

definition rank_fit :: "nat \<Rightarrow> 't rank_st \<Rightarrow> bool" where
  "rank_fit n s \<longleftrightarrow> rk_sft s \<and> length (rk_live s) = n \<and> (\<forall>v. rk_run s = Some v \<longrightarrow> length v = n)"

lemma rank_rpc_fit: "rank_fit n s \<Longrightarrow> rank_fit n (snd (rank_rpc c r op ft s))"
  by (cases op; cases ft)
    (auto simp: rank_fit_def rank_rpc_def op_body_def plain_op_def do_kv_free_def do_kv_restore_def do_load_def do_commit_def
      put_live_def split: prod.splits option.splits shard.splits)

lemma group_rpc_fit: "list_all (rank_fit n) rs \<Longrightarrow> list_all (rank_fit n) (snd (group_rpc c op ft rs))"
  by (auto simp: group_rpc_def list_all_length rank_rpc_fit drop_run_def) (simp_all add: rank_fit_def)

text \<open>With adapters on every rank, an operation that needs no run always passes the vote.\<close>

lemma vote_passes: "list_all (rank_fit n) rs \<Longrightarrow> \<not> needs_run op \<Longrightarrow> list_all (rank_ready op) rs"
  by (auto simp: list_all_iff rank_ready_def rank_fit_def)

lemma group_rpc_nth:
  "list_all (rank_ready op) rs \<Longrightarrow> r < length rs \<Longrightarrow>
   snd (group_rpc c op ft rs) ! r = snd (rank_rpc c r op (ft r) (rs ! r))"
  by (simp add: group_rpc_def)

text \<open>An operation that touches no adapter leaves what every rank serves.\<close>

lemma group_rpc_live:
  "\<not> touches_live op \<Longrightarrow> map rk_live (snd (group_rpc c op ft rs)) = map rk_live rs"
  by (auto simp: group_rpc_def rank_rpc_live drop_run_def intro!: nth_equalityI)

text \<open>After an abort no rank has a run, whatever goes wrong in it.\<close>

lemma abort_drops:
  "list_all (rank_fit n) rs \<Longrightarrow> list_all (\<lambda>s. rk_run s = None) (snd (group_rpc c Abort ft rs))"
proof -
  assume f: "list_all (rank_fit n) rs"
  have "rk_run (snd (rank_rpc c r Abort (ft r) s)) = None" for r s
    by (cases "ft r") (auto simp: rank_rpc_def op_body_def plain_op_def)
  then show ?thesis using vote_passes[OF f, of Abort]
    by (simp add: list_all_length group_rpc_nth needs_run_def)
qed

definition serves_base :: "'t \<Rightarrow> 't rank_st \<Rightarrow> bool" where
  "serves_base z s \<longleftrightarrow> (\<forall>i < length (rk_live s). odd i \<longrightarrow> rk_live s ! i = z)"

text \<open>A reset without a fault, or one whose faults only skip what is zero already, leaves every rank on
  the base model.\<close>

lemma reset_base:
  assumes "list_all (rank_fit n) rs" and "\<And>r. ft r = None"
  shows "list_all (serves_base (w_zero c)) (snd (group_rpc c Reset ft rs)) \<and> rpc_ok (fst (group_rpc c Reset ft rs)) \<and>
    map rk_run (snd (group_rpc c Reset ft rs)) = map rk_run rs"
proof -
  note v = vote_passes[OF assms(1), of Reset]
  show ?thesis using v assms(2)
    by (auto simp: group_rpc_def needs_run_def list_all_length rpc_ok_def rank_rpc_def op_body_def put_live_def
        serves_base_def zeroed_def intro!: nth_equalityI)
qed

lemma ok_vote: "rpc_ok (fst (group_rpc c op ft rs)) \<Longrightarrow> rs \<noteq> [] \<Longrightarrow> list_all (rank_ready op) rs"
proof (rule ccontr)
  assume ok: "rpc_ok (fst (group_rpc c op ft rs))" and ne: "rs \<noteq> []" and n: "\<not> list_all (rank_ready op) rs"
  then have "fst (group_rpc c op ft rs) = map (\<lambda>_. None) rs" by (simp add: group_rpc_def)
  with ok ne show False by (cases rs) (simp_all add: rpc_ok_def)
qed

text \<open>An accepted load leaves every rank on its shard.\<close>

lemma load_done:
  assumes "list_all (rank_fit n) rs" and "rpc_ok (fst (group_rpc c (Load sh) ft rs))" and "r < length rs"
  shows "\<exists>v. sh r = Some (Shard v (w_fp c)) \<and> rk_live (snd (group_rpc c (Load sh) ft rs) ! r) = v \<and> length v = n \<and>
    rk_run (snd (group_rpc c (Load sh) ft rs) ! r) = rk_run (rs ! r)"
proof -
  note v = vote_passes[OF assms(1), of "Load sh"]
  have n: "length (rk_live (rs ! r)) = n" using assms(1,3) by (simp add: list_all_length rank_fit_def)
  have "fst (rank_rpc c r (Load sh) (ft r) (rs ! r)) \<noteq> None"
    using assms(2,3) v by (simp add: group_rpc_def needs_run_def rpc_ok_def list_all_length)
  then show ?thesis using v assms(3) n
    by (auto simp: group_rpc_nth needs_run_def rank_rpc_def op_body_def do_load_def put_live_def
        split: option.splits shard.splits if_splits)
qed

text \<open>So does an accepted reset.\<close>

lemma reset_done:
  assumes "list_all (rank_fit n) rs" and "rpc_ok (fst (group_rpc c Reset ft rs))"
  shows "list_all (serves_base (w_zero c)) (snd (group_rpc c Reset ft rs))"
  unfolding list_all_length
proof (intro allI impI)
  fix r assume "r < length (snd (group_rpc c Reset ft rs))"
  then have r: "r < length rs" by simp
  note v = vote_passes[OF assms(1), of Reset]
  have "fst (rank_rpc c r Reset (ft r) (rs ! r)) \<noteq> None"
    using assms(2) r v by (simp add: group_rpc_def needs_run_def rpc_ok_def list_all_length)
  then show "serves_base (w_zero c) (snd (group_rpc c Reset ft rs) ! r)" using v r
    by (auto simp: group_rpc_nth needs_run_def rank_rpc_def op_body_def put_live_def serves_base_def zeroed_def
        split: option.splits)
qed

text \<open>An accepted commit leaves every rank on its run's values, and no run.\<close>

lemma commit_done:
  assumes "rpc_ok (fst (group_rpc c Commit ft rs))" and "r < length rs"
  shows "\<exists>v. rk_run (rs ! r) = Some v \<and> rk_live (snd (group_rpc c Commit ft rs) ! r) = v \<and>
    rk_run (snd (group_rpc c Commit ft rs) ! r) = None"
proof -
  have v: "list_all (rank_ready Commit) rs"
    using ok_vote[OF assms(1)] assms(2) by fastforce
  have "fst (rank_rpc c r Commit (ft r) (rs ! r)) \<noteq> None"
    using assms v by (simp add: group_rpc_def rpc_ok_def list_all_length)
  then show ?thesis using v assms(2)
    by (auto simp: group_rpc_nth rank_rpc_def op_body_def do_commit_def put_live_def split: option.splits prod.splits)
qed

text \<open>The vote keeps the ranks together: where one rank has lost its run, an operation on the run is
  refused on all of them and every other rank drops its run too.\<close>

lemma lost_run_stops_all:
  assumes "list_all (rank_fit n) rs" and "needs_run op" and "r < length rs" and "rk_run (rs ! r) = None"
  shows "\<not> rpc_ok (fst (group_rpc c op ft rs)) \<and> map rk_live (snd (group_rpc c op ft rs)) = map rk_live rs \<and>
    list_all (\<lambda>s. rk_run s = None) (snd (group_rpc c op ft rs))"
proof -
  have "\<not> list_all (rank_ready op) rs" using assms(2-4) by (auto simp: list_all_length rank_ready_def)
  then show ?thesis using assms
    by (auto simp: group_rpc_def rpc_ok_def list_all_length drop_run_def rank_fit_def)
qed

end
