(* ===== verification/SftServer.thy ===== *)
theory SftServer
  imports SftData SftWorker
begin

text \<open>
  The fine-tuning service (\<open>suffix_hybrid/sft/api.py\<close>): \<open>Hub\<close> with its local directory and the
  published repository, and \<open>State\<close> with \<open>restore\<close>, \<open>train\<close> and \<open>load\<close>. A statement that raises
  keeps what it did before; the handler finds the stage it raised in, and may raise itself. What the network, the engine
  and the file system answer is an argument of every request (\<open>answers\<close>); the adapter values a step
  computes are one as well.
\<close>

section \<open>State\<close>

datatype sft_state = Starting | Idle | Training | Loading | Failed | ServeFailedBase | LoadFailed | RestoreFailed
datatype sft_stage = Initialization | TrainingStage | Checkpoint | Upload | Serve

record 't saved_run =
  sr_shards :: "'t shard list"
  sr_fp :: string
  sr_parent :: "string option"

text \<open>\<open>latest.json\<close>: a run, or \<^const>\<open>None\<close> for the base model.\<close>

type_synonym pointer = "string option"

record 't srv =
  sv_state :: sft_state
  sv_ckpt :: "string option"
  sv_started :: nat
  sv_rejected :: bool
  sv_last :: "string option"
  sv_stage :: sft_stage
  sv_local :: "(string, 't saved_run) dict"
  sv_local_ptr :: "pointer option"
  sv_hub :: "(string, 't saved_run) dict"
  sv_hub_ptr :: "pointer option"
  sv_ranks :: "'t rank_st list"

record 't scfg =
  s_worker :: "'t wcfg"
  s_repo :: bool
  s_max_examples :: int
  s_max_steps :: int
  s_max_tokens :: nat

section \<open>Calls\<close>

text \<open>
  What \<open>engine.collective_rpc\<close> makes of a call: the ranks run it and their reports come back; they run
  it and the call raises all the same (a timeout, a lost connection); or it raises before any rank has
  seen it. On each rank the operation may fail with a fault.
\<close>

datatype rpc_ans = Ranks "nat \<Rightarrow> fault" | Lost "nat \<Rightarrow> fault" | Unsent

definition after_rpc :: "'t scfg \<Rightarrow> 't sft_op \<Rightarrow> rpc_ans \<Rightarrow> 't rank_st list \<Rightarrow> 't rank_st list" where
  "after_rpc c op ans rs = (case ans of
      Ranks ft \<Rightarrow> snd (group_rpc (s_worker c) op ft rs)
    | Lost ft \<Rightarrow> snd (group_rpc (s_worker c) op ft rs)
    | Unsent \<Rightarrow> rs)"

definition call :: "'t scfg \<Rightarrow> 't sft_op \<Rightarrow> rpc_ans \<Rightarrow> ('t srv, unit) stmt" where
  "call c op ans s =
     (case ans of
        Ranks ft \<Rightarrow> if rpc_ok (fst (group_rpc (s_worker c) op ft (sv_ranks s))) then Inr () else Inl OtherError
      | _ \<Rightarrow> Inl OtherError,
      s\<lparr>sv_ranks := after_rpc c op ans (sv_ranks s)\<rparr>)"

text \<open>With \<open>check=False\<close> the reports of the ranks are ignored; a call that raises still does.\<close>

definition call_any :: "'t scfg \<Rightarrow> 't sft_op \<Rightarrow> rpc_ans \<Rightarrow> ('t srv, unit) stmt" where
  "call_any c op ans s =
     (case ans of Ranks _ \<Rightarrow> Inr () | _ \<Rightarrow> Inl OtherError, s\<lparr>sv_ranks := after_rpc c op ans (sv_ranks s)\<rparr>)"

definition outside :: "bool \<Rightarrow> ('t srv, unit) stmt" where
  "outside good s = (if good then Inr () else Inl OtherError, s)"

definition at_stage :: "sft_stage \<Rightarrow> ('t srv, unit) stmt" where
  "at_stage st s = (Inr (), s\<lparr>sv_stage := st\<rparr>)"

text \<open>The commit to the repository is one atomic operation against its parent: refused, landed with an
  error on the way back, or landed. The local pointer is written after it.\<close>

datatype pub_out = PubOk | PubRefused | PubLost | PubLocalFailed

definition hub_publish :: "'t scfg \<Rightarrow> pub_out \<Rightarrow> pointer \<Rightarrow> (string \<times> 't saved_run) option \<Rightarrow> ('t srv, unit) stmt" where
  "hub_publish c po ptr files s =
     (if s_repo c \<and> po = PubRefused then (Inl OtherError, s)
      else let s1 = (if s_repo c
             then s\<lparr>sv_hub_ptr := Some ptr,
                    sv_hub := (case files of None \<Rightarrow> sv_hub s | Some (i, r) \<Rightarrow> AList.update i r (sv_hub s))\<rparr>
             else s)
           in if s_repo c \<and> po = PubLost then (Inl OtherError, s1)
              else if po = PubLocalFailed then (Inl OtherError, s1)
              else (Inr (), s1\<lparr>sv_local_ptr := Some ptr\<rparr>))"

definition find_run :: "'t scfg \<Rightarrow> string \<Rightarrow> 't srv \<Rightarrow> 't saved_run option" where
  "find_run c i s = (case map_of (sv_local s) i of
      Some r \<Rightarrow> Some r
    | None \<Rightarrow> if s_repo c then map_of (sv_hub s) i else None)"

definition run_files :: "'t saved_run \<Rightarrow> nat \<Rightarrow> 't shard option" where
  "run_files run r = (if r < length (sr_shards run) then Some (sr_shards run ! r) else None)"

section \<open>Start-up\<close>

definition latest :: "'t scfg \<Rightarrow> 't srv \<Rightarrow> pointer option" where
  "latest c s = (if s_repo c then sv_hub_ptr s else sv_local_ptr s)"

text \<open>Three attempts, each with what the network answers and what its load call does.\<close>

fun restore :: "'t scfg \<Rightarrow> (bool \<times> rpc_ans) list \<Rightarrow> 't srv \<Rightarrow> 't srv" where
  "restore c [] s = s\<lparr>sv_state := RestoreFailed\<rparr>"
| "restore c ((reachable, ans) # rest) s =
     (if \<not> reachable then restore c rest s
      else case latest c s of
          None \<Rightarrow> s\<lparr>sv_state := Idle, sv_ckpt := None\<rparr>
        | Some None \<Rightarrow> s\<lparr>sv_state := Idle, sv_ckpt := None\<rparr>
        | Some (Some i) \<Rightarrow> (case find_run c i s of
              None \<Rightarrow> restore c rest s
            | Some run \<Rightarrow> (case call c (Load (run_files run)) ans s of
                  (Inr _, s1) \<Rightarrow> s1\<lparr>sv_state := Idle, sv_ckpt := Some i\<rparr>
                | (Inl _, s1) \<Rightarrow> restore c rest s1)))"

section \<open>Training\<close>

record ('m, 'g) train_req =
  rq_examples :: "'m example list option"
  rq_steps :: int
  rq_bs :: int
  rq_rates_ok :: bool
  rq_seed :: 'g

fun hmap :: "('a \<Rightarrow> 'b hres) \<Rightarrow> 'a list \<Rightarrow> 'b list hres" where
  "hmap f [] = Inr []"
| "hmap f (x # xs) = hbind (f x) (\<lambda>y. hbind (hmap f xs) (\<lambda>ys. Inr (y # ys)))"

definition validate_req :: "'t scfg \<Rightarrow> 'm tokenizer \<Rightarrow> ('m, 'g) train_req \<Rightarrow> sft_sample list hres" where
  "validate_req c tk rq = (case rq_examples rq of
      None \<Rightarrow> Inl 400
    | Some exs \<Rightarrow>
        if \<not> (1 \<le> int (length exs) \<and> int (length exs) \<le> s_max_examples c) then Inl 400
        else if \<not> (1 \<le> rq_steps rq \<and> rq_steps rq \<le> s_max_steps c) then Inl 400
        else if \<not> (1 \<le> rq_bs rq \<and> rq_bs rq \<le> s_max_examples c) then Inl 400
        else if \<not> rq_rates_ok rq then Inl 400
        else hbind (hmap (encode tk) exs) (\<lambda>data.
               if list_all (\<lambda>(ids, _). length ids \<le> s_max_tokens c) data then Inr data else Inl 400))"

record 't answers =
  or_id :: string
  or_repo :: bool
  or_pre :: rpc_ans
  or_parity :: bool
  or_kv_free :: rpc_ans
  or_begin :: rpc_ans
  or_micro :: "nat \<Rightarrow> nat \<Rightarrow> rpc_ans"
  or_finite :: "nat \<Rightarrow> bool"
  or_step :: "nat \<Rightarrow> rpc_ans"
  or_upd :: "nat \<Rightarrow> nat \<Rightarrow> nat \<Rightarrow> 't \<Rightarrow> 't"
  or_mkdir :: bool
  or_save :: rpc_ans
  or_meta :: bool
  or_pub :: pub_out
  or_kv_restore :: rpc_ans
  or_commit :: rpc_ans
  or_cache :: bool
  or_post :: rpc_ans
  or_rec_kv :: rpc_ans
  or_rec_abort :: rpc_ans
  or_rec_reset :: rpc_ans

fun micros :: "'t scfg \<Rightarrow> 't answers \<Rightarrow> nat \<Rightarrow> nat \<Rightarrow> micro_batch list \<Rightarrow> ('t srv, unit) stmt" where
  "micros c orc i j [] = seq_ret ()"
| "micros c orc i j (mb # mbs) = seq_bind (call c Micro (or_micro orc i j)) (\<lambda>_. micros c orc i (Suc j) mbs)"

fun train_steps :: "'t scfg \<Rightarrow> 't answers \<Rightarrow> sft_sample list \<Rightarrow> nat \<Rightarrow> nat list list \<Rightarrow> ('t srv, unit) stmt" where
  "train_steps c orc data i [] = seq_ret ()"
| "train_steps c orc data i (idx # rest) =
     seq_bind (micros c orc i 0 (pack (map (\<lambda>j. data ! j) idx) (s_max_tokens c))) (\<lambda>_.
     seq_bind (outside (or_finite orc i)) (\<lambda>_.
     seq_bind (call c (Step (or_upd orc i)) (or_step orc i)) (\<lambda>_.
       train_steps c orc data (Suc i) rest)))"

definition saved_of :: "'t scfg \<Rightarrow> 't srv \<Rightarrow> 't saved_run" where
  "saved_of c s = \<lparr>sr_shards = map (shard_of (s_worker c)) (sv_ranks s), sr_fp = w_fp (s_worker c), sr_parent = sv_ckpt s\<rparr>"

definition write_meta :: "'t scfg \<Rightarrow> string \<Rightarrow> ('t srv, 't saved_run) stmt" where
  "write_meta c i s = (Inr (saved_of c s), s\<lparr>sv_local := AList.update i (saved_of c s) (sv_local s)\<rparr>)"

definition prepare_run :: "'t scfg \<Rightarrow> 't answers \<Rightarrow> sft_sample list \<Rightarrow> nat list list \<Rightarrow> ('t srv, unit) stmt" where
  "prepare_run c orc data idxs =
     seq_bind (at_stage Initialization) (\<lambda>_.
     seq_bind (outside (or_repo orc)) (\<lambda>_.
     seq_bind (call c Eval (or_pre orc)) (\<lambda>_.
     seq_bind (outside (or_parity orc)) (\<lambda>_.
     seq_bind (at_stage TrainingStage) (\<lambda>_.
     seq_bind (call c KvFree (or_kv_free orc)) (\<lambda>_.
     seq_bind (call c Begin (or_begin orc)) (\<lambda>_.
       train_steps c orc data 0 idxs)))))))"

definition save_run :: "'t scfg \<Rightarrow> 't answers \<Rightarrow> ('t srv, unit) stmt" where
  "save_run c orc =
     seq_bind (at_stage Checkpoint) (\<lambda>_.
     seq_bind (outside (or_mkdir orc)) (\<lambda>_.
     seq_bind (call c Save (or_save orc)) (\<lambda>_.
     seq_bind (outside (or_meta orc)) (\<lambda>_.
     seq_bind (write_meta c (or_id orc)) (\<lambda>run.
     seq_bind (at_stage Upload) (\<lambda>_.
       hub_publish c (or_pub orc) (Some (or_id orc)) (Some (or_id orc, run))))))))"

definition serve_run :: "'t scfg \<Rightarrow> 't answers \<Rightarrow> ('t srv, unit) stmt" where
  "serve_run c orc =
     seq_bind (at_stage Serve) (\<lambda>_.
     seq_bind (call c KvRestore (or_kv_restore orc)) (\<lambda>_.
     seq_bind (call c Commit (or_commit orc)) (\<lambda>_.
     seq_bind (outside (or_cache orc)) (\<lambda>_.
     seq_bind (call c Eval (or_post orc)) (\<lambda>_ s.
       (Inr (), s\<lparr>sv_state := Idle, sv_last := Some (or_id orc), sv_ckpt := Some (or_id orc)\<rparr>))))))"

definition train_body :: "'t scfg \<Rightarrow> 't answers \<Rightarrow> sft_sample list \<Rightarrow> nat list list \<Rightarrow> ('t srv, unit) stmt" where
  "train_body c orc data idxs =
     seq_bind (seq_bind (prepare_run c orc data idxs) (\<lambda>_. save_run c orc)) (\<lambda>_. serve_run c orc)"

text \<open>
  The \<open>except\<close> block: map the cache back, drop the run, and where serving was touched fall back to
  the base model. The reports of the ranks are not looked at, but a cleanup call that raises leaves
  the block: what comes after it, the status included, does not happen.
\<close>

definition recover :: "'t scfg \<Rightarrow> 't answers \<Rightarrow> ('t srv, unit) stmt" where
  "recover c orc =
     seq_bind (call_any c KvRestore (or_rec_kv orc)) (\<lambda>_.
     seq_bind (call_any c Abort (or_rec_abort orc)) (\<lambda>_ s.
       if sv_stage s = Serve
       then seq_bind (call_any c Reset (or_rec_reset orc)) (\<lambda>_ s. (Inr (), s\<lparr>sv_state := ServeFailedBase\<rparr>)) s
       else (Inr (), s\<lparr>sv_state := Failed\<rparr>)))"

definition attempt :: "'t scfg \<Rightarrow> ('g \<Rightarrow> nat list \<Rightarrow> nat list \<times> 'g) \<Rightarrow> ('m, 'g) train_req \<Rightarrow> 't answers \<Rightarrow> sft_sample list \<Rightarrow>
    ('t srv, unit) stmt" where
  "attempt c shuffle rq orc data s =
     (case schedule shuffle (rq_seed rq) (length data) (nat (rq_steps rq)) (nat (rq_bs rq)) of
        Inl e \<Rightarrow> (Inl e, s)
      | Inr idxs \<Rightarrow> train_body c orc data idxs s)"

datatype train_out = Refused nat | RunFailed sft_stage | Served string

definition train :: "'t scfg \<Rightarrow> ('g \<Rightarrow> nat list \<Rightarrow> nat list \<times> 'g) \<Rightarrow> 'm tokenizer \<Rightarrow> ('m, 'g) train_req \<Rightarrow> 't answers \<Rightarrow>
    't srv \<Rightarrow> train_out \<times> 't srv" where
  "train c shuffle tk rq orc s = (case validate_req c tk rq of
      Inl code \<Rightarrow> (Refused code, s\<lparr>sv_rejected := True\<rparr>)
    | Inr data \<Rightarrow>
        if sv_state s = RestoreFailed then (Refused 409, s\<lparr>sv_rejected := True\<rparr>)
        else
          let s1 = s\<lparr>sv_rejected := False, sv_started := Suc (sv_started s), sv_state := Training, sv_stage := Initialization\<rparr>
          in (case attempt c shuffle rq orc data s1 of
                (Inr _, s2) \<Rightarrow> (Served (or_id orc), s2)
              | (Inl _, s2) \<Rightarrow> (RunFailed (sv_stage s2), snd (recover c orc s2))))"

section \<open>Serving another run\<close>

record load_answers =
  lo_repo :: bool
  lo_fetch :: bool
  lo_load :: rpc_ans
  lo_pub :: pub_out
  lo_cache :: bool
  lo_reset :: rpc_ans

definition bad_id :: "string \<Rightarrow> bool" where
  "bad_id i \<longleftrightarrow> i = [] \<or> CHR ''/'' \<in> set i \<or> (\<exists>j < length i. take 2 (drop j i) = ''..'')"

lemma bad_id_code [code]:
  "bad_id i \<longleftrightarrow> i = [] \<or> CHR ''/'' \<in> set i \<or> list_ex (\<lambda>j. take 2 (drop j i) = ''..'') [0..<length i]"
  by (auto simp: bad_id_def list_ex_iff)

definition pick_run :: "'t scfg \<Rightarrow> load_answers \<Rightarrow> string \<Rightarrow> 't srv \<Rightarrow> 't saved_run option res" where
  "pick_run c lo i s =
     (if \<not> lo_repo lo then Inl OtherError
      else if i = ''base'' then Inr None
      else case find_run c i s of
          None \<Rightarrow> Inl OtherError
        | Some run \<Rightarrow> if sr_fp run \<noteq> w_fp (s_worker c) \<or> \<not> lo_fetch lo then Inl OtherError else Inr (Some run))"

definition apply_run :: "'t scfg \<Rightarrow> load_answers \<Rightarrow> string \<Rightarrow> 't saved_run option \<Rightarrow> ('t srv, unit) stmt" where
  "apply_run c lo i r =
     (let ptr = (case r of None \<Rightarrow> None | Some _ \<Rightarrow> Some i)
      in seq_bind (case r of None \<Rightarrow> call c Reset (lo_load lo) | Some run \<Rightarrow> call c (Load (run_files run)) (lo_load lo)) (\<lambda>_.
         seq_bind (hub_publish c (lo_pub lo) ptr None) (\<lambda>_.
         seq_bind (outside (lo_cache lo)) (\<lambda>_ s.
           (Inr (), s\<lparr>sv_state := Idle, sv_ckpt := ptr\<rparr>)))))"

datatype load_out = LoadRefused | LoadError | NowServing string

definition load_run :: "'t scfg \<Rightarrow> load_answers \<Rightarrow> string \<Rightarrow> 't srv \<Rightarrow> load_out \<times> 't srv" where
  "load_run c lo i s =
     (if bad_id i then (LoadRefused, s\<lparr>sv_rejected := True\<rparr>)
      else let s1 = s\<lparr>sv_rejected := False, sv_started := Suc (sv_started s)\<rparr>
           in case pick_run c lo i s of
                Inl _ \<Rightarrow> (LoadRefused, s1\<lparr>sv_rejected := True\<rparr>)
              | Inr r \<Rightarrow> (case apply_run c lo i r (s1\<lparr>sv_state := Loading\<rparr>) of
                    (Inr _, s2) \<Rightarrow> (NowServing i, s2)
                  | (Inl _, s2) \<Rightarrow> (LoadError, snd (seq_bind (call_any c Reset (lo_reset lo)) (\<lambda>_ s.
                      (Inr (), s\<lparr>sv_state := LoadFailed, sv_ckpt := None\<rparr>)) s2))))"

section \<open>One request at a time\<close>

text \<open>\<open>_exclusive\<close> parses the body, then looks for a running task and starts its own without a pause in
  between; a task runs to its end even when its client has gone.\<close>

datatype gate_event = Arrive bool | Finish

record gate_st =
  g_running :: bool
  g_accepted :: nat
  g_finished :: nat
  g_busy :: nat

fun exclusive_step :: "gate_event \<Rightarrow> gate_st \<Rightarrow> gate_st" where
  "exclusive_step (Arrive ok) g =
     (if \<not> ok then g
      else if g_running g then g\<lparr>g_busy := Suc (g_busy g)\<rparr>
      else g\<lparr>g_running := True, g_accepted := Suc (g_accepted g)\<rparr>)"
| "exclusive_step Finish g = (if g_running g then g\<lparr>g_running := False, g_finished := Suc (g_finished g)\<rparr> else g)"

end
