(* ===== verification/SftSafe.thy ===== *)
theory SftSafe
  imports SftServer
begin

text \<open>
  What the fine-tuning service promises: every tensor-parallel rank serves the same checkpoint, the
  base model or one saved run; a failed request leaves what was served or the base model; what is
  served after a run is what was published; a restart serves the same. The exceptions the code
  has are stated as well.
\<close>

section \<open>Frames\<close>

definition fit :: "nat \<Rightarrow> 't srv \<Rightarrow> bool" where
  "fit n s \<longleftrightarrow> sv_ranks s \<noteq> [] \<and> list_all (rank_fit n) (sv_ranks s)"

definition no_run :: "'t srv \<Rightarrow> bool" where
  "no_run s \<longleftrightarrow> list_all (\<lambda>k. rk_run k = None) (sv_ranks s)"

text \<open>All but the ranks, and all but the new run of the catalogue.\<close>

definition same_runs :: "string \<Rightarrow> 't srv \<Rightarrow> 't srv \<Rightarrow> bool" where
  "same_runs i s0 s \<longleftrightarrow> sv_ckpt s = sv_ckpt s0 \<and> sv_last s = sv_last s0 \<and> sv_state s = sv_state s0 \<and> length (sv_ranks s) = length (sv_ranks s0) \<and>
     (\<forall>j. j \<noteq> i \<longrightarrow> map_of (sv_local s) j = map_of (sv_local s0) j \<and> map_of (sv_hub s) j = map_of (sv_hub s0) j)"

definition untouched :: "nat \<Rightarrow> string \<Rightarrow> 't srv \<Rightarrow> 't srv \<Rightarrow> bool" where
  "untouched n i s0 s \<longleftrightarrow> fit n s \<and> same_runs i s0 s \<and> map rk_live (sv_ranks s) = map rk_live (sv_ranks s0) \<and>
     sv_stage s \<noteq> Serve"

named_theorems sft_keeps \<open>statements of a training run that serving does not notice\<close>

lemma length_ran [simp]: "length (after_rpc c op ans rs) = length rs"
  by (simp add: after_rpc_def split: rpc_ans.split)

lemma ran_Nil [simp]: "after_rpc c op ans rs = [] \<longleftrightarrow> rs = []"
  by (metis length_0_conv length_ran)

lemma ran_fit: "list_all (rank_fit n) rs \<Longrightarrow> list_all (rank_fit n) (after_rpc c op ans rs)"
  by (simp add: after_rpc_def group_rpc_fit split: rpc_ans.split)

lemma ran_live: "\<not> touches_live op \<Longrightarrow> map rk_live (after_rpc c op ans rs) = map rk_live rs"
  by (simp add: after_rpc_def group_rpc_live split: rpc_ans.split)

lemma call_run: "call c op ans s = (a, s') \<Longrightarrow> s' = s\<lparr>sv_ranks := after_rpc c op ans (sv_ranks s)\<rparr>"
  by (simp add: call_def)

text \<open>A call that returns has run on every rank, and every rank has reported success.\<close>

lemma call_done:
  assumes "call c op ans s = (Inr u, s')"
  obtains ft where "ans = Ranks ft" "rpc_ok (fst (group_rpc (s_worker c) op ft (sv_ranks s)))"
    "s' = s\<lparr>sv_ranks := snd (group_rpc (s_worker c) op ft (sv_ranks s))\<rparr>"
  using assms by (auto simp: call_def after_rpc_def split: rpc_ans.splits if_splits)

lemma call_any_run: "call_any c op ans s = (a, s') \<Longrightarrow> s' = s\<lparr>sv_ranks := after_rpc c op ans (sv_ranks s)\<rparr>"
  by (simp add: call_any_def)

lemma length_map_cong: "map f xs = map f ys \<Longrightarrow> length xs = length ys"
  by (metis length_map)

lemma call_fit: "fit n s \<Longrightarrow> call c op ans s = (a, s') \<Longrightarrow> fit n s'"
  by (auto simp: fit_def ran_fit dest!: call_run)

lemma call_untouched [sft_keeps]: "\<not> touches_live op \<Longrightarrow> preserves (untouched n i s0) (call c op ans)"
proof (rule preservesI)
  fix s a s' assume t: "\<not> touches_live op" and u: "untouched n i s0 s" and r: "call c op ans s = (a, s')"
  note s' = call_run[OF r]
  have "fit n s'" by (rule call_fit[OF _ r]) (use u in \<open>simp add: untouched_def\<close>)
  moreover have "same_runs i s0 s'" "sv_stage s' \<noteq> Serve" using u s' by (simp_all add: untouched_def same_runs_def)
  moreover have "map rk_live (sv_ranks s') = map rk_live (sv_ranks s0)"
    using u ran_live[OF t, of c ans "sv_ranks s"] by (simp add: s' untouched_def)
  ultimately show "untouched n i s0 s'" by (simp add: untouched_def)
qed

lemma outside_untouched [sft_keeps]: "preserves (untouched n i s0) (outside b)"
  by (auto simp: preserves_def outside_def)

lemma at_stage_untouched [sft_keeps]: "st \<noteq> Serve \<Longrightarrow> preserves (untouched n i s0) (at_stage st)"
  by (auto simp: preserves_def at_stage_def untouched_def fit_def same_runs_def)

lemma write_meta_untouched [sft_keeps]: "preserves (untouched n i s0) (write_meta c i)"
  by (auto simp: preserves_def write_meta_def untouched_def fit_def same_runs_def dict_simps)

lemma publish_untouched [sft_keeps]: "preserves (untouched n i s0) (hub_publish c po ptr (Some (i, run)))"
  by (auto simp: preserves_def hub_publish_def Let_def untouched_def fit_def same_runs_def dict_simps split: if_splits)

lemma micros_untouched [sft_keeps]: "preserves (untouched n i s0) (micros c orc k j mbs)"
  by (induction mbs arbitrary: j) (auto intro!: sft_keeps simp: touches_live_def)

lemma train_steps_untouched [sft_keeps]: "preserves (untouched n i s0) (train_steps c orc data k idxs)"
  by (induction idxs arbitrary: k) (auto intro!: sft_keeps preserves_bind simp: touches_live_def)

lemma prepare_untouched [sft_keeps]: "preserves (untouched n i s0) (prepare_run c orc data idxs)"
  unfolding prepare_run_def by (intro preserves_bind sft_keeps) (simp_all add: touches_live_def)

lemma save_untouched [sft_keeps]: "preserves (untouched n (or_id orc) s0) (save_run c orc)"
  unfolding save_run_def by (intro preserves_bind sft_keeps) (simp_all add: touches_live_def)

section \<open>A saved run is what the ranks will serve\<close>

text \<open>After the upload the run is in the local catalogue, and in the repository when there is one, and
  both pointers name it; its shards are the working copies of the ranks.\<close>

definition published :: "'t scfg \<Rightarrow> string \<Rightarrow> 't saved_run \<Rightarrow> 't srv \<Rightarrow> bool" where
  "published c i run s \<longleftrightarrow> map_of (sv_local s) i = Some run \<and> sv_local_ptr s = Some (Some i) \<and>
     (s_repo c \<longrightarrow> map_of (sv_hub s) i = Some run \<and> sv_hub_ptr s = Some (Some i))"

lemma save_run_done:
  assumes "save_run c orc s = (Inr (), s')"
  shows "\<exists>run. published c (or_id orc) run s' \<and> sr_shards run = map (shard_of (s_worker c)) (sv_ranks s') \<and>
    sr_fp run = w_fp (s_worker c) \<and> sr_parent run = sv_ckpt s'"
  using assms
  by (auto simp: save_run_def seq_bind_Inr at_stage_def outside_def write_meta_def hub_publish_def published_def Let_def
      saved_of_def dict_simps split: if_splits dest!: call_run)

lemma kv_rank: "op \<in> {KvRestore, Eval} \<Longrightarrow> rk_live (snd (rank_rpc c r op ft k)) = rk_live k \<and>
    rk_run (snd (rank_rpc c r op ft k)) \<in> {rk_run k, None} \<and> (op = KvRestore \<or> rk_run (snd (rank_rpc c r op ft k)) = rk_run k)
    \<and> (op = KvRestore \<longrightarrow> rk_run (snd (rank_rpc c r op ft k)) = rk_run k)"
  by (cases ft) (auto simp: rank_rpc_def op_body_def do_kv_restore_def plain_op_def keeps_run_def split: prod.splits)

lemma kv_group:
  "op \<in> {KvRestore, Eval} \<Longrightarrow> list_all (rank_fit n) rs \<Longrightarrow>
   map rk_live (snd (group_rpc c op ft rs)) = map rk_live rs \<and> map rk_run (snd (group_rpc c op ft rs)) = map rk_run rs"
  using kv_rank[of op] vote_passes[of n rs op]
  by (fastforce simp: group_rpc_nth needs_run_def intro!: nth_equalityI)

lemma serve_run_done:
  assumes "serve_run c orc s = (Inr (), s')" and "fit n s"
  shows "fit n s' \<and> no_run s' \<and> map (\<lambda>k. Some (rk_live k)) (sv_ranks s') = map rk_run (sv_ranks s) \<and>
    sv_local s' = sv_local s \<and> sv_hub s' = sv_hub s \<and> sv_hub_ptr s' = sv_hub_ptr s \<and> sv_local_ptr s' = sv_local_ptr s \<and>
    sv_state s' = Idle \<and> sv_ckpt s' = Some (or_id orc)"
proof -
  obtain s1 s2 s3 where k: "call c KvRestore (or_kv_restore orc) (s\<lparr>sv_stage := Serve\<rparr>) = (Inr (), s1)"
    and cm: "call c Commit (or_commit orc) s1 = (Inr (), s2)"
    and ev: "call c Eval (or_post orc) s2 = (Inr (), s3)"
    and s': "s' = s3\<lparr>sv_state := Idle, sv_last := Some (or_id orc), sv_ckpt := Some (or_id orc)\<rparr>"
    using assms(1) by (auto simp: serve_run_def seq_bind_Inr at_stage_def outside_def)
  have f0: "fit n (s\<lparr>sv_stage := Serve\<rparr>)" using assms(2) by (simp add: fit_def)
  note f1 = call_fit[OF f0 k]
  note f2 = call_fit[OF f1 cm]
  note f3 = call_fit[OF f2 ev]
  obtain g1 where r1: "s1 = s\<lparr>sv_stage := Serve, sv_ranks := snd (group_rpc (s_worker c) KvRestore g1 (sv_ranks s))\<rparr>"
    by (rule call_done[OF k]) simp
  obtain g2 where ok2: "rpc_ok (fst (group_rpc (s_worker c) Commit g2 (sv_ranks s1)))"
    and r2: "s2 = s1\<lparr>sv_ranks := snd (group_rpc (s_worker c) Commit g2 (sv_ranks s1))\<rparr>"
    by (rule call_done[OF cm]) simp
  obtain g3 where r3: "s3 = s2\<lparr>sv_ranks := snd (group_rpc (s_worker c) Eval g3 (sv_ranks s2))\<rparr>"
    by (rule call_done[OF ev]) simp
  have k1: "map rk_run (sv_ranks s1) = map rk_run (sv_ranks s)"
    using kv_group[of KvRestore n "sv_ranks s"] assms(2) r1 by (simp add: fit_def)
  have l2: "length (sv_ranks s2) = length (sv_ranks s1)" using r2 by simp
  have c2: "rk_run (sv_ranks s1 ! r) = Some (rk_live (sv_ranks s2 ! r)) \<and> rk_run (sv_ranks s2 ! r) = None"
    if "r < length (sv_ranks s1)" for r
    using commit_done[OF ok2 that] r2 by auto
  have m2: "map (\<lambda>k. Some (rk_live k)) (sv_ranks s2) = map rk_run (sv_ranks s1)"
    using c2 l2 by (intro nth_equalityI) auto
  have m3: "map rk_live (sv_ranks s3) = map rk_live (sv_ranks s2)" "map rk_run (sv_ranks s3) = map rk_run (sv_ranks s2)"
    using kv_group[of Eval n "sv_ranks s2"] f2 r3 by (simp_all add: fit_def)
  have "map (\<lambda>k. Some (rk_live k)) (sv_ranks s3) = map (\<lambda>k. Some (rk_live k)) (sv_ranks s2)"
    using arg_cong[OF m3(1), of "map Some"] by (simp add: comp_def)
  moreover have "no_run s3"
    using m3(2) c2 l2 unfolding no_run_def list_all_length by (metis length_map nth_map)
  ultimately show ?thesis using s' m2 k1 f3 r1 r2 r3
    by (simp add: fit_def no_run_def)
qed

section \<open>Every rank on one checkpoint\<close>

definition in_catalogue :: "string \<Rightarrow> 't saved_run \<Rightarrow> 't srv \<Rightarrow> bool" where
  "in_catalogue i run s \<longleftrightarrow> map_of (sv_local s) i = Some run \<or> map_of (sv_hub s) i = Some run"

definition serves_run :: "'t scfg \<Rightarrow> 't saved_run \<Rightarrow> 't rank_st list \<Rightarrow> bool" where
  "serves_run c run rs \<longleftrightarrow> (\<forall>r < length rs. run_files run r = Some (Shard (rk_live (rs ! r)) (w_fp (s_worker c))))"

definition all_base :: "'t scfg \<Rightarrow> 't rank_st list \<Rightarrow> bool" where
  "all_base c rs \<longleftrightarrow> list_all (serves_base (w_zero (s_worker c))) rs"

definition consistent :: "'t scfg \<Rightarrow> 't srv \<Rightarrow> bool" where
  "consistent c s \<longleftrightarrow> all_base c (sv_ranks s) \<or> (\<exists>i run. in_catalogue i run s \<and> serves_run c run (sv_ranks s))"


definition unused :: "string \<Rightarrow> 't srv \<Rightarrow> bool" where
  "unused i s \<longleftrightarrow> map_of (sv_local s) i = None \<and> map_of (sv_hub s) i = None"

lemma serves_run_cong: "map rk_live rs = map rk_live rs' \<Longrightarrow> serves_run c run rs = serves_run c run rs'"
  unfolding serves_run_def using length_map_cong[of rk_live rs rs'] by (metis nth_map)

lemma all_base_cong: "map rk_live rs = map rk_live rs' \<Longrightarrow> all_base c rs = all_base c rs'"
  unfolding all_base_def list_all_length serves_base_def using length_map_cong[of rk_live rs rs'] by (metis nth_map)

lemma consistent_frame:
  assumes "consistent c s0" and "map rk_live (sv_ranks s) = map rk_live (sv_ranks s0)"
    and "\<And>i run. in_catalogue i run s0 \<Longrightarrow> in_catalogue i run s"
  shows "consistent c s"
  using assms(1,3) serves_run_cong[OF assms(2), of c] all_base_cong[OF assms(2), of c]
  unfolding consistent_def by metis

lemma same_runs_catalogue:
  "same_runs i s0 s \<Longrightarrow> unused i s0 \<Longrightarrow> in_catalogue j run s0 \<Longrightarrow> in_catalogue j run s"
  by (cases "j = i") (auto simp: same_runs_def unused_def in_catalogue_def)

section \<open>The cleanup\<close>

text \<open>A call that returned; a call that reached a rank without a fault there, returned or not.\<close>

definition returned :: "rpc_ans \<Rightarrow> bool" where
  "returned ans \<longleftrightarrow> (case ans of Ranks _ \<Rightarrow> True | _ \<Rightarrow> False)"

definition reaches :: "rpc_ans \<Rightarrow> nat \<Rightarrow> bool" where
  "reaches ans r \<longleftrightarrow> (case ans of Ranks ft \<Rightarrow> ft r = None | Lost ft \<Rightarrow> ft r = None | Unsent \<Rightarrow> False)"

text \<open>The cleanup got as far as to run the abort, and past it.\<close>

definition aborted :: "'t answers \<Rightarrow> bool" where
  "aborted orc \<longleftrightarrow> returned (or_rec_kv orc) \<and> or_rec_abort orc \<noteq> Unsent"

definition past_abort :: "'t answers \<Rightarrow> bool" where
  "past_abort orc \<longleftrightarrow> returned (or_rec_kv orc) \<and> returned (or_rec_abort orc)"

lemma past_aborted: "past_abort orc \<Longrightarrow> aborted orc"
  by (auto simp: past_abort_def aborted_def returned_def)

lemma call_any_answer: "call_any c op ans s = (a, s') \<Longrightarrow> (\<exists>u. a = Inr u) \<longleftrightarrow> returned ans"
  by (auto simp: call_any_def returned_def split: rpc_ans.splits)

lemma ran_abort: "list_all (rank_fit n) rs \<Longrightarrow> ans \<noteq> Unsent \<Longrightarrow> list_all (\<lambda>k. rk_run k = None) (after_rpc c Abort ans rs)"
  by (cases ans) (simp_all add: after_rpc_def abort_drops)

lemma keeps_no_run:
  assumes "op = Reset \<or> op = KvRestore \<or> (\<exists>sh. op = Load sh)" and "list_all (\<lambda>k. rk_run k = None) rs"
  shows "list_all (\<lambda>k. rk_run k = None) (after_rpc c op ans rs)"
proof -
  have "rk_run (snd (rank_rpc w r op f k)) = None" if "rk_run k = None" for w r f k
    using assms(1) that
    by (auto simp: rank_rpc_def op_body_def do_load_def do_kv_restore_def put_live_def
        split: option.splits shard.splits prod.splits if_splits)
  with assms show ?thesis by (auto simp: after_rpc_def group_rpc_def list_all_length needs_run_def split: rpc_ans.split)
qed

text \<open>A reset leaves every rank it reaches on the base model.\<close>

lemma ran_reset:
  assumes "list_all (rank_fit n) rs" and "r < length rs" and "reaches ans r"
  shows "serves_base (w_zero (s_worker c)) (after_rpc c Reset ans rs ! r)"
proof -
  obtain ft where ft: "ans = Ranks ft \<or> ans = Lost ft" "ft r = None"
    using assms(3) by (auto simp: reaches_def split: rpc_ans.splits)
  then have "after_rpc c Reset ans rs ! r = snd (rank_rpc (s_worker c) r Reset None (rs ! r))"
    using group_rpc_nth[OF vote_passes[OF assms(1)] assms(2), of Reset] by (auto simp: after_rpc_def needs_run_def)
  then show ?thesis by (simp add: rank_rpc_def op_body_def put_live_def serves_base_def zeroed_def)
qed

lemma ran_reset_all:
  assumes "list_all (rank_fit n) rs" and "\<forall>r < length rs. reaches ans r"
  shows "all_base c (after_rpc c Reset ans rs)"
  using ran_reset[OF assms(1)] assms(2) by (simp add: all_base_def list_all_length)

lemma recover_ends:
  assumes "fit n s" and "recover c orc s = (a, s')"
  shows "fit n s' \<and> sv_ckpt s' = sv_ckpt s \<and> sv_local s' = sv_local s \<and> sv_hub s' = sv_hub s \<and>
    sv_local_ptr s' = sv_local_ptr s \<and> sv_hub_ptr s' = sv_hub_ptr s \<and> length (sv_ranks s') = length (sv_ranks s) \<and>
    (aborted orc \<longrightarrow> no_run s') \<and>
    (if sv_stage s = Serve
     then (past_abort orc \<longrightarrow> (\<forall>r < length (sv_ranks s). reaches (or_rec_reset orc) r \<longrightarrow>
             serves_base (w_zero (s_worker c)) (sv_ranks s' ! r))) \<and>
          sv_state s' = (if past_abort orc \<and> returned (or_rec_reset orc) then ServeFailedBase else sv_state s)
     else map rk_live (sv_ranks s') = map rk_live (sv_ranks s) \<and>
          sv_state s' = (if past_abort orc then Failed else sv_state s))"
proof -
  obtain a1 s1 where k: "call_any c KvRestore (or_rec_kv orc) s = (a1, s1)" by fastforce
  note r1 = call_any_run[OF k] and an1 = call_any_answer[OF k]
  have f1: "list_all (rank_fit n) (sv_ranks s1)" "sv_ranks s1 \<noteq> []"
    using assms(1) by (simp_all add: r1 fit_def ran_fit)
  have l1: "map rk_live (sv_ranks s1) = map rk_live (sv_ranks s)" by (simp add: r1 ran_live touches_live_def)
  show ?thesis
  proof (cases a1)
    case (Inl e)
    with assms(2) k an1 f1 l1 show ?thesis
      by (auto simp: recover_def seq_bind_def aborted_def past_abort_def fit_def r1)
  next
    case (Inr u)
    obtain a2 s2 where ab: "call_any c Abort (or_rec_abort orc) s1 = (a2, s2)" by fastforce
    note r2 = call_any_run[OF ab] and an2 = call_any_answer[OF ab]
    have f2: "list_all (rank_fit n) (sv_ranks s2)" "sv_ranks s2 \<noteq> []" using f1 by (simp_all add: r2 ran_fit)
    have l2: "map rk_live (sv_ranks s2) = map rk_live (sv_ranks s)" using l1 by (simp add: r2 ran_live touches_live_def)
    have n2: "aborted orc \<Longrightarrow> no_run s2" using ran_abort[OF f1(1)] by (simp add: aborted_def no_run_def r2)
    show ?thesis
    proof (cases a2)
      case (Inl e)
      with assms(2) k ab Inr an2 f2 l2 n2 show ?thesis
        by (auto simp: recover_def seq_bind_def past_abort_def fit_def r2 r1 no_run_def)
    next
      case (Inr v)
      have past: "past_abort orc" using \<open>a1 = Inr u\<close> Inr an1 an2 by (simp add: past_abort_def)
      show ?thesis
      proof (cases "sv_stage s = Serve")
        case False
        with assms(2) k ab Inr \<open>a1 = Inr u\<close> past f2 l2 n2 show ?thesis
          by (auto simp: recover_def seq_bind_def fit_def r2 r1 no_run_def)
      next
        case True
        obtain a3 s3 where rs: "call_any c Reset (or_rec_reset orc) s2 = (a3, s3)" by fastforce
        note r3 = call_any_run[OF rs] and an3 = call_any_answer[OF rs]
        have b3: "serves_base (w_zero (s_worker c)) (sv_ranks s3 ! r)"
          if "r < length (sv_ranks s)" "reaches (or_rec_reset orc) r" for r
          using ran_reset[OF f2(1) _ that(2)] that(1) by (simp add: r3 r2 r1)
        have n3: "no_run s3" using n2 past_aborted[OF past] keeps_no_run[of Reset "sv_ranks s2"] by (simp add: no_run_def r3)
        have f3: "fit n s3" using f2 by (simp add: fit_def r3 ran_fit)
        have s': "s' = (if returned (or_rec_reset orc) then s3\<lparr>sv_state := ServeFailedBase\<rparr> else s3)"
          using assms(2) k ab Inr \<open>a1 = Inr u\<close> rs True an3
          by (cases a3) (auto simp: recover_def seq_bind_def r2 r1)
        show ?thesis using b3 n3 f3 past True by (simp add: s' fit_def no_run_def r3 r2 r1)
      qed
    qed
  qed
qed

section \<open>A training request\<close>

text \<open>A training run: what it can end in.\<close>

lemma train_body_cases:
  assumes ok: "fit n s" and st: "sv_stage s \<noteq> Serve" and b: "train_body c orc data idxs s = (a, s')"
  obtains (early) x where "a = Inl x" "untouched n (or_id orc) s s'"
  | (late) x run where "a = Inl x" "fit n s'" "same_runs (or_id orc) s s'" "sv_stage s' = Serve" "published c (or_id orc) run s'"
  | (served) run where "a = Inr ()" "fit n s'" "no_run s'" "published c (or_id orc) run s'"
      "serves_run c run (sv_ranks s')" "sv_state s' = Idle" "sv_ckpt s' = Some (or_id orc)"
      "sr_fp run = w_fp (s_worker c)" "sr_parent run = sv_ckpt s"
proof -
  have u0: "untouched n (or_id orc) s s" using ok st by (simp add: untouched_def same_runs_def)
  have pre: "preserves (untouched n (or_id orc) s) (seq_bind (prepare_run c orc data idxs) (\<lambda>_. save_run c orc))"
    by (intro preserves_bind sft_keeps)
  from b show thesis unfolding train_body_def
  proof (cases rule: seq_bind_cases)
    case (raise x)
    from preservesD[OF pre u0 raise(1)] raise(2) show thesis by (rule early[rotated])
  next
    case (go u s1)
    have u1: "untouched n (or_id orc) s s1" by (rule preservesD[OF pre u0 go(1)])
    from go(1) obtain v s0 where "save_run c orc s0 = (Inr (), s1)" by (auto simp: seq_bind_Inr)
    from save_run_done[OF this] obtain run where run: "published c (or_id orc) run s1"
      "sr_shards run = map (shard_of (s_worker c)) (sv_ranks s1)" "sr_fp run = w_fp (s_worker c)" "sr_parent run = sv_ckpt s1"
      by blast
    have f1: "fit n s1" and sr1: "same_runs (or_id orc) s s1" using u1 by (simp_all add: untouched_def)
    show thesis
    proof (cases a)
      case (Inr y)
      then have d: "serve_run c orc s1 = (Inr (), s')" using go(2) by simp
      note sd = serve_run_done[OF d f1]
      have "serves_run c run (sv_ranks s')"
        unfolding serves_run_def
      proof (intro allI impI)
        fix r assume r: "r < length (sv_ranks s')"
        have len: "length (sv_ranks s') = length (sv_ranks s1)" using sd length_map_cong by (metis length_map)
        have "rk_run (sv_ranks s1 ! r) = Some (rk_live (sv_ranks s' ! r))"
          using sd r len by (metis (no_types, lifting) nth_map)
        then show "run_files run r = Some (Shard (rk_live (sv_ranks s' ! r)) (w_fp (s_worker c)))"
          using r len run(2) by (simp add: run_files_def shard_of_def)
      qed
      moreover have "published c (or_id orc) run s'" using run(1) sd by (simp add: published_def)
      moreover have "sr_parent run = sv_ckpt s" using run(4) sr1 by (simp add: same_runs_def)
      ultimately show thesis using served Inr sd run(3) by simp
    next
      case (Inl x)
      let ?P = "\<lambda>t. fit n t \<and> same_runs (or_id orc) s t \<and> sv_stage t = Serve \<and> published c (or_id orc) run t"
      have cl: "preserves ?P (call c op ans)" for op ans
      proof (rule preservesI)
        fix t y t' assume t: "?P t" and r: "call c op ans t = (y, t')"
        with call_fit[of n t c op ans y t'] call_run[OF r] show "?P t'"
          by (simp add: same_runs_def published_def)
      qed
      have os: "preserves ?P (outside b)" for b by (auto simp: preserves_def outside_def)
      obtain s2 where s2: "serve_run c orc s1 = (Inl x, s')" using go(2) Inl by simp
      have "?P (s1\<lparr>sv_stage := Serve\<rparr>)" using f1 sr1 run(1) by (simp add: fit_def same_runs_def published_def)
      moreover have "keeps_on_raise ?P (seq_bind (call c KvRestore (or_kv_restore orc)) (\<lambda>_.
          seq_bind (call c Commit (or_commit orc)) (\<lambda>_. seq_bind (outside (or_cache orc)) (\<lambda>_.
          seq_bind (call c Eval (or_post orc)) (\<lambda>_ s. (Inr (), s\<lparr>sv_state := Idle, sv_last := Some (or_id orc), sv_ckpt := Some (or_id orc)\<rparr>))))))"
        by (intro keeps_on_raise_bind cl os) (simp add: keeps_on_raise_def)
      moreover have "seq_bind (call c KvRestore (or_kv_restore orc)) (\<lambda>_.
          seq_bind (call c Commit (or_commit orc)) (\<lambda>_. seq_bind (outside (or_cache orc)) (\<lambda>_.
          seq_bind (call c Eval (or_post orc)) (\<lambda>_ s. (Inr (), s\<lparr>sv_state := Idle, sv_last := Some (or_id orc), sv_ckpt := Some (or_id orc)\<rparr>)))))
          (s1\<lparr>sv_stage := Serve\<rparr>) = (Inl x, s')"
        using s2 unfolding serve_run_def by (simp add: seq_bind_def[of "at_stage Serve"] at_stage_def)
      ultimately have "?P s'" unfolding keeps_on_raise_def by blast
      then show thesis using late Inl by blast
    qed
  qed
qed


lemma train_run:
  assumes "validate_req c tk rq = Inr data" and "sv_state s \<noteq> RestoreFailed"
    and "attempt c shuffle rq orc data (s\<lparr>sv_rejected := False, sv_started := Suc (sv_started s), sv_state := Training,
      sv_stage := Initialization\<rparr>) = (a, s2)"
  shows "train c shuffle tk rq orc s =
    (case a of Inr _ \<Rightarrow> (Served (or_id orc), s2) | Inl _ \<Rightarrow> (RunFailed (sv_stage s2), snd (recover c orc s2)))"
  using assms by (cases a) (simp_all add: train_def Let_def)

lemma train_cases:
  assumes ok: "fit n s" and t: "train c shuffle tk rq orc s = (out, s')"
  obtains (refused) code where "out = Refused code" "s' = s\<lparr>sv_rejected := True\<rparr>"
  | (early) s2 where "s' = snd (recover c orc s2)" "out = RunFailed (sv_stage s2)" "fit n s2" "sv_stage s2 \<noteq> Serve"
      "sv_state s2 = Training" "same_runs (or_id orc) s (s2\<lparr>sv_state := sv_state s\<rparr>)" "map rk_live (sv_ranks s2) = map rk_live (sv_ranks s)"
  | (late) s2 run where "s' = snd (recover c orc s2)" "out = RunFailed Serve" "fit n s2" "sv_stage s2 = Serve"
      "sv_state s2 = Training" "same_runs (or_id orc) s (s2\<lparr>sv_state := sv_state s\<rparr>)" "published c (or_id orc) run s2"
  | (served) run where "out = Served (or_id orc)" "fit n s'" "no_run s'" "published c (or_id orc) run s'"
      "serves_run c run (sv_ranks s')" "sv_state s' = Idle" "sv_ckpt s' = Some (or_id orc)"
proof -
  note cs = refused early late served
  consider (code) code where "validate_req c tk rq = Inl code"
    | (closed) data where "validate_req c tk rq = Inr data" "sv_state s = RestoreFailed"
    | (go) data where "validate_req c tk rq = Inr data" "sv_state s \<noteq> RestoreFailed"
    by (cases "validate_req c tk rq") auto
  then show thesis
  proof cases
    case code
    with t cs(1) show thesis by (auto simp: train_def)
  next
    case closed
    with t cs(1) show thesis by (auto simp: train_def)
  next
    case go
    define s1 where "s1 = s\<lparr>sv_rejected := False, sv_started := Suc (sv_started s), sv_state := Training, sv_stage := Initialization\<rparr>"
    have f1: "fit n s1" "sv_stage s1 \<noteq> Serve" using ok by (simp_all add: s1_def fit_def)
    have sr: "sv_state u = Training \<and> same_runs (or_id orc) s (u\<lparr>sv_state := sv_state s\<rparr>)" if "same_runs (or_id orc) s1 u" for u
      using that by (auto simp: same_runs_def s1_def)
    obtain a s2 where b: "attempt c shuffle rq orc data s1 = (a, s2)" by fastforce
    have res: "(out, s') = (case a of Inr _ \<Rightarrow> (Served (or_id orc), s2) | Inl _ \<Rightarrow> (RunFailed (sv_stage s2), snd (recover c orc s2)))"
      using train_run[OF go b[unfolded s1_def]] t by simp
    show thesis
    proof (cases "schedule shuffle (rq_seed rq) (length data) (nat (rq_steps rq)) (nat (rq_bs rq))")
      case (Inl e)
      with b have as: "a = Inl e" "s2 = s1" by (simp_all add: attempt_def)
      have "same_runs (or_id orc) s1 s1" by (simp add: same_runs_def)
      with cs(2)[of s1] sr[of s1] f1 as res show thesis by (simp add: s1_def)
    next
      case (Inr idxs)
      with b have tb: "train_body c orc data idxs s1 = (a, s2)" by (simp add: attempt_def)
      from f1 tb show thesis
      proof (cases rule: train_body_cases)
        case (early x)
        then have "same_runs (or_id orc) s1 s2" "fit n s2" "sv_stage s2 \<noteq> Serve"
          "map rk_live (sv_ranks s2) = map rk_live (sv_ranks s)"
          by (auto simp: untouched_def s1_def)
        with cs(2)[of s2] sr[of s2] early(1) res show thesis by simp
      next
        case (late x run)
        with cs(3)[of s2 run] sr[of s2] res show thesis by simp
      next
        case (served run)
        with cs(4)[of run] res show thesis by simp
      qed
    qed
  qed
qed

section \<open>A load request\<close>

text \<open>What the status records is what the ranks serve.\<close>

definition serves_record :: "'t scfg \<Rightarrow> 't srv \<Rightarrow> bool" where
  "serves_record c s \<longleftrightarrow> (case sv_ckpt s of
      None \<Rightarrow> all_base c (sv_ranks s)
    | Some i \<Rightarrow> \<exists>run. in_catalogue i run s \<and> serves_run c run (sv_ranks s))"

lemma serves_record_consistent: "serves_record c s \<Longrightarrow> consistent c s"
  by (auto simp: serves_record_def consistent_def split: option.splits)

lemma load_serves:
  assumes "fit n s" and "call c (Load (run_files run)) ans s = (Inr u, s')"
  shows "serves_run c run (sv_ranks s')"
  unfolding serves_run_def
proof (intro allI impI)
  fix k assume k: "k < length (sv_ranks s')"
  obtain ft where ok: "rpc_ok (fst (group_rpc (s_worker c) (Load (run_files run)) ft (sv_ranks s)))"
    and s': "s' = s\<lparr>sv_ranks := snd (group_rpc (s_worker c) (Load (run_files run)) ft (sv_ranks s))\<rparr>"
    by (rule call_done[OF assms(2)])
  have f: "list_all (rank_fit n) (sv_ranks s)" using assms(1) by (simp add: fit_def)
  show "run_files run k = Some (Shard (rk_live (sv_ranks s' ! k)) (w_fp (s_worker c)))"
    using load_done[OF f ok, of k] k by (auto simp: s')
qed

lemma reset_serves:
  assumes "fit n s" and "call c Reset ans s = (Inr u, s')"
  shows "all_base c (sv_ranks s')"
proof -
  obtain ft where ok: "rpc_ok (fst (group_rpc (s_worker c) Reset ft (sv_ranks s)))"
    and s': "s' = s\<lparr>sv_ranks := snd (group_rpc (s_worker c) Reset ft (sv_ranks s))\<rparr>"
    by (rule call_done[OF assms(2)])
  show ?thesis using reset_done[OF _ ok, of n] assms(1) by (simp add: s' fit_def all_base_def)
qed

lemma publish_frame:
  "hub_publish c po ptr None s = (a, s') \<Longrightarrow> sv_ranks s' = sv_ranks s \<and> sv_local s' = sv_local s \<and> sv_hub s' = sv_hub s \<and> sv_state s' = sv_state s"
  by (auto simp: hub_publish_def Let_def split: if_splits)

lemma load_cases:
  assumes ok: "fit n s" and l: "load_run c lo i s = (out, s')"
  obtains (refused) k where "out = LoadRefused" "s' = s\<lparr>sv_rejected := True, sv_started := k\<rparr>"
  | (failed) "out = LoadError" "fit n s'" "no_run s \<longrightarrow> no_run s'" "length (sv_ranks s') = length (sv_ranks s)"
      "\<forall>r < length (sv_ranks s). reaches (lo_reset lo) r \<longrightarrow> serves_base (w_zero (s_worker c)) (sv_ranks s' ! r)"
      "sv_state s' \<in> {Loading, LoadFailed}"
  | (now) "out = NowServing i" "fit n s'" "no_run s \<longrightarrow> no_run s'" "serves_record c s'" "sv_state s' = Idle"
proof -
  note cs = refused failed now
  define s1 where "s1 = s\<lparr>sv_rejected := False, sv_started := Suc (sv_started s), sv_state := Loading\<rparr>"
  have f1: "fit n s1" using ok by (simp add: s1_def fit_def)
  consider (bad) "bad_id i" | (pick) x where "\<not> bad_id i" "pick_run c lo i s = Inl x"
    | (go) r where "\<not> bad_id i" "pick_run c lo i s = Inr r" by (cases "pick_run c lo i s") auto
  then show thesis
  proof cases
    case bad
    with l have "out = LoadRefused" "s' = s\<lparr>sv_rejected := True, sv_started := sv_started s\<rparr>" by (auto simp: load_run_def)
    then show thesis by (rule cs(1))
  next
    case pick
    with l cs(1)[of "Suc (sv_started s)"] show thesis by (auto simp: load_run_def)
  next
    case go
    obtain a s2 where ap: "apply_run c lo i r s1 = (a, s2)" by fastforce
    define op where "op = (case r of None \<Rightarrow> Reset | Some run \<Rightarrow> Load (run_files run))"
    have op: "op = Reset \<or> op = KvRestore \<or> (\<exists>sh. op = Load sh)" by (simp add: op_def split: option.splits)
    let ?ptr = "case r of None \<Rightarrow> None | Some _ \<Rightarrow> Some i"
    let ?tail = "\<lambda>u. seq_bind (hub_publish c (lo_pub lo) ?ptr None) (\<lambda>_.
        seq_bind (outside (lo_cache lo)) (\<lambda>_ s. (Inr (), s\<lparr>sv_state := Idle, sv_ckpt := ?ptr\<rparr>)))"
    have ap': "seq_bind (call c op (lo_load lo)) ?tail s1 = (a, s2)"
      using ap by (cases r) (simp_all add: apply_run_def op_def Let_def)
    obtain b t where ct: "call c op (lo_load lo) s1 = (b, t)" by fastforce
    note rt = call_run[OF ct]
    have ft: "fit n t" by (rule call_fit[OF f1 ct])
    have nt: "no_run s \<longrightarrow> no_run t" using keeps_no_run[OF op, of "sv_ranks s1"] by (simp add: no_run_def rt s1_def)
    have tail: "sv_ranks y = sv_ranks x \<and> sv_local y = sv_local x \<and> sv_hub y = sv_hub x \<and>
        (case d of Inl _ \<Rightarrow> sv_state y = sv_state x | Inr _ \<Rightarrow> sv_state y = Idle \<and> sv_ckpt y = ?ptr)"
      if "?tail u x = (d, y)" for u x d y
      using that publish_frame[of c "lo_pub lo" ?ptr x]
      by (auto simp: seq_bind_def outside_def split: prod.splits sum.splits if_splits)
    have t2: "sv_ranks s2 = sv_ranks t \<and> sv_local s2 = sv_local s \<and> sv_hub s2 = sv_hub s \<and>
        (case a of Inl _ \<Rightarrow> sv_state s2 = Loading | Inr _ \<Rightarrow> sv_state s2 = Idle \<and> sv_ckpt s2 = ?ptr)"
    proof (cases b)
      case (Inl e)
      with ap' ct show ?thesis by (auto simp: seq_bind_def rt s1_def)
    next
      case (Inr u)
      with ap' ct have "?tail u t = (a, s2)" by (simp add: seq_bind_def)
      with tail[OF this] show ?thesis by (cases a) (simp_all add: rt s1_def)
    qed
    show thesis
    proof (cases a)
      case (Inl x)
      obtain d s3 where rs: "call_any c Reset (lo_reset lo) s2 = (d, s3)" by fastforce
      note r3 = call_any_run[OF rs]
      have s': "out = LoadError" "s' = (case d of Inr _ \<Rightarrow> s3\<lparr>sv_state := LoadFailed, sv_ckpt := None\<rparr> | Inl _ \<Rightarrow> s3)"
        using l go ap Inl rs by (cases d; simp add: load_run_def Let_def s1_def seq_bind_def)+
      have same: "sv_ranks s' = sv_ranks s3" "sv_state s' \<in> {Loading, LoadFailed}"
        using t2 Inl by (cases d; simp add: s' r3)+
      have f2: "list_all (rank_fit n) (sv_ranks s2)" "sv_ranks s2 \<noteq> []" using ft t2 by (simp_all add: fit_def)
      have len: "length (sv_ranks s2) = length (sv_ranks s)" using t2 by (simp add: rt s1_def)
      show thesis
      proof (rule cs(2)[OF s'(1)])
        show "fit n s'" using f2 by (simp add: fit_def same r3 ran_fit)
        show "no_run s \<longrightarrow> no_run s'" using nt t2 keeps_no_run[of Reset "sv_ranks s2"] by (simp add: no_run_def same r3)
        show "length (sv_ranks s') = length (sv_ranks s)" using len by (simp add: same r3)
        show "\<forall>r < length (sv_ranks s). reaches (lo_reset lo) r \<longrightarrow> serves_base (w_zero (s_worker c)) (sv_ranks s' ! r)"
          using ran_reset[OF f2(1)] len by (simp add: same r3)
        show "sv_state s' \<in> {Loading, LoadFailed}" by (rule same(2))
      qed
    next
      case (Inr u)
      then have s': "out = NowServing i" "s' = s2" using l go ap by (simp_all add: load_run_def Let_def s1_def)
      obtain v where b: "b = Inr v" using ap' ct Inr by (cases b) (auto simp: seq_bind_def)
      have "serves_record c s2"
      proof (cases r)
        case None
        with reset_serves[OF f1, of c "lo_load lo" v t] ct b t2 Inr show ?thesis by (simp add: op_def serves_record_def)
      next
        case (Some run)
        have "serves_run c run (sv_ranks t)" using load_serves[OF f1, of c run "lo_load lo" v t] ct b Some by (simp add: op_def)
        moreover have "in_catalogue i run s2"
        proof -
          have "find_run c i s = Some run" using go(2) Some by (auto simp: pick_run_def split: if_splits option.splits)
          then show ?thesis using t2 by (auto simp: find_run_def in_catalogue_def split: option.splits if_splits)
        qed
        ultimately show ?thesis using t2 Inr Some by (auto simp: serves_record_def)
      qed
      with cs(3) s' ft nt t2 Inr show thesis by (simp add: fit_def no_run_def)
    qed
  qed
qed

section \<open>Start-up\<close>

text \<open>
  A load whose faults are clean fails on every rank before it has copied a tensor, or on none; a run is
  uniform when its files fit every rank or no rank. Such a load reaches all ranks or none.
\<close>

definition clean_fault :: "(nat \<Rightarrow> fault) \<Rightarrow> bool" where
  "clean_fault ft \<longleftrightarrow> (\<forall>r. ft r = None) \<or> (\<forall>r. \<exists>f. ft r = Some f \<and> (\<forall>i. \<not> f i))"

definition clean_load :: "rpc_ans \<Rightarrow> bool" where
  "clean_load ans \<longleftrightarrow> (case ans of Ranks ft \<Rightarrow> clean_fault ft | Lost ft \<Rightarrow> clean_fault ft | Unsent \<Rightarrow> True)"

definition shard_fits :: "'t scfg \<Rightarrow> nat \<Rightarrow> 't saved_run \<Rightarrow> nat \<Rightarrow> bool" where
  "shard_fits c n run r \<longleftrightarrow> (\<exists>v. run_files run r = Some (Shard v (w_fp (s_worker c))) \<and> length v = n)"

definition uniform_run :: "'t scfg \<Rightarrow> nat \<Rightarrow> nat \<Rightarrow> 't saved_run \<Rightarrow> bool" where
  "uniform_run c n tp run \<longleftrightarrow> (\<forall>r < tp. shard_fits c n run r) \<or> (\<forall>r < tp. \<not> shard_fits c n run r)"

lemma overlay_none: "(\<And>i. \<not> f i) \<Longrightarrow> overlay f new old = old"
  by (auto simp: overlay_def intro: nth_equalityI)

lemma load_rank_unfit:
  "rank_fit n k \<Longrightarrow> \<not> (\<exists>v. sh r = Some (Shard v (w_fp w)) \<and> length v = n) \<Longrightarrow>
   rank_rpc w r (Load sh) ft k = (None, k\<lparr>rk_run := None\<rparr>)"
  by (auto simp: rank_rpc_def op_body_def do_load_def rank_fit_def keeps_run_def split: option.splits shard.splits)

lemma load_rank_fit:
  "rank_fit n k \<Longrightarrow> sh r = Some (Shard v (w_fp w)) \<Longrightarrow> length v = n \<Longrightarrow>
   rank_rpc w r (Load sh) ft k = (case ft of None \<Rightarrow> (Some True, k\<lparr>rk_live := v\<rparr>)
     | Some f \<Rightarrow> (None, k\<lparr>rk_live := overlay f v (rk_live k), rk_run := None\<rparr>))"
  by (auto simp: rank_rpc_def op_body_def do_load_def rank_fit_def put_live_def keeps_run_def split: option.splits)


lemma clean_load_all:
  assumes f: "fit n s" and u: "uniform_run c n (length (sv_ranks s)) run" and cl: "clean_load ans"
    and r: "call c (Load (run_files run)) ans s = (a, s')"
  shows "map rk_live (sv_ranks s') = map rk_live (sv_ranks s) \<or> serves_run c run (sv_ranks s')"
proof (cases "ans = Unsent")
  case True
  with call_run[OF r] show ?thesis by (simp add: after_rpc_def)
next
  case False
  let ?rs = "sv_ranks s"
  obtain ft where ft: "ans = Ranks ft \<or> ans = Lost ft" and cf: "clean_fault ft"
    using False cl by (cases ans) (auto simp: clean_load_def)
  have fr: "rank_fit n (?rs ! k)" if "k < length ?rs" for k using f that by (simp add: fit_def list_all_length)
  have v: "list_all (rank_ready (Load (run_files run))) ?rs" using f by (intro vote_passes[of n]) (simp_all add: fit_def needs_run_def)
  have len: "length (sv_ranks s') = length ?rs" by (simp add: call_run[OF r])
  have nth: "sv_ranks s' ! k = snd (rank_rpc (s_worker c) k (Load (run_files run)) (ft k) (?rs ! k))" if "k < length ?rs" for k
    using ft group_rpc_nth[OF v that, of "s_worker c" ft] by (auto simp: call_run[OF r] after_rpc_def)
  have fits: "rk_live (sv_ranks s' ! k) = (case ft k of None \<Rightarrow> w | Some g \<Rightarrow> overlay g w (rk_live (?rs ! k)))"
    if "k < length ?rs" "run_files run k = Some (Shard w (w_fp (s_worker c)))" "length w = n" for k w
    using nth[OF that(1)] load_rank_fit[where sh = "run_files run" and ft = "ft k", OF fr[OF that(1)] that(2,3)]
    by (simp split: option.split)
  show ?thesis
  proof (cases "(\<forall>k < length ?rs. shard_fits c n run k) \<and> (\<forall>k. ft k = None)")
    case True
    have "run_files run k = Some (Shard (rk_live (sv_ranks s' ! k)) (w_fp (s_worker c)))" if "k < length ?rs" for k
      using True that fits[OF that] unfolding shard_fits_def by auto
    then show ?thesis by (simp add: serves_run_def len)
  next
    case other: False
    have "rk_live (sv_ranks s' ! k) = rk_live (?rs ! k)" if k: "k < length ?rs" for k
    proof (cases "shard_fits c n run k")
      case False
      then show ?thesis using nth[OF k] load_rank_unfit[where sh = "run_files run" and w = "s_worker c" and ft = "ft k", OF fr[OF k]]
        by (simp add: shard_fits_def)
    next
      case True
      then have "\<not> (\<forall>k. ft k = None)" using other u k by (auto simp: uniform_run_def)
      then obtain g where "ft k = Some g" "\<And>i. \<not> g i" using cf by (metis clean_fault_def)
      then show ?thesis using True fits[OF k] unfolding shard_fits_def by (auto simp: overlay_none)
    qed
    then show ?thesis using len by (intro disjI1 nth_equalityI) simp_all
  qed
qed

text \<open>Every load that fails during start-up has clean faults and a uniform run.\<close>

fun boot_clean :: "'t scfg \<Rightarrow> nat \<Rightarrow> (bool \<times> rpc_ans) list \<Rightarrow> 't srv \<Rightarrow> bool" where
  "boot_clean c n [] s = True"
| "boot_clean c n ((reachable, ans) # rest) s =
     (if \<not> reachable then boot_clean c n rest s
      else case latest c s of
          Some (Some i) \<Rightarrow> (case find_run c i s of
              None \<Rightarrow> boot_clean c n rest s
            | Some run \<Rightarrow> (case call c (Load (run_files run)) ans s of
                  (Inr _, s1) \<Rightarrow> True
                | (Inl _, s1) \<Rightarrow> clean_load ans \<and> uniform_run c n (length (sv_ranks s)) run \<and> boot_clean c n rest s1))
        | _ \<Rightarrow> True)"

text \<open>One attempt, failing or not, changes the ranks only.\<close>

lemma restore_step:
  obtains (skip) "restore c ((reachable, ans) # rest) s = restore c rest s"
      "boot_clean c n ((reachable, ans) # rest) s = boot_clean c n rest s"
  | (base) "latest c s = None \<or> latest c s = Some None"
      "restore c ((reachable, ans) # rest) s = s\<lparr>sv_state := Idle, sv_ckpt := None\<rparr>"
  | (load) i run u s1 where "latest c s = Some (Some i)" "find_run c i s = Some run"
      "call c (Load (run_files run)) ans s = (Inr u, s1)"
      "restore c ((reachable, ans) # rest) s = s1\<lparr>sv_state := Idle, sv_ckpt := Some i\<rparr>"
  | (failed) i run e s1 where "latest c s = Some (Some i)" "find_run c i s = Some run"
      "call c (Load (run_files run)) ans s = (Inl e, s1)"
      "restore c ((reachable, ans) # rest) s = restore c rest s1"
      "boot_clean c n ((reachable, ans) # rest) s \<longleftrightarrow>
         clean_load ans \<and> uniform_run c n (length (sv_ranks s)) run \<and> boot_clean c n rest s1"
proof -
  note cs = skip base load failed
  show thesis
  proof (cases "\<not> reachable \<or> latest c s = None \<or> latest c s = Some None")
    case True
    with cs(1,2) show thesis by (cases reachable) auto
  next
    case False
    then obtain i where re: "reachable" and l: "latest c s = Some (Some i)" by auto
    show thesis
    proof (cases "find_run c i s")
      case None
      with re l cs(1) show thesis by simp
    next
      case (Some run)
      obtain a s1 where ct: "call c (Load (run_files run)) ans s = (a, s1)" by fastforce
      with cs(3,4) re l Some show thesis by (cases a) simp_all
    qed
  qed
qed

lemma find_run_catalogue: "find_run c i s = Some run \<Longrightarrow> in_catalogue i run s"
  by (auto simp: find_run_def in_catalogue_def split: option.splits if_splits)

lemma restore_fit: "fit n s \<Longrightarrow> fit n (restore c tries s) \<and> (no_run s \<longrightarrow> no_run (restore c tries s))"
proof (induction tries arbitrary: s)
  case Nil
  then show ?case by (simp add: fit_def no_run_def)
next
  case (Cons att rest)
  obtain reachable ans where tr: "att = (reachable, ans)" by (cases att)
  have ld: "fit n s1 \<and> (no_run s \<longrightarrow> no_run s1)" if "call c (Load (run_files run)) ans s = (a, s1)" for run a s1
    using call_fit[OF Cons.prems that] keeps_no_run[of "Load (run_files run)" "sv_ranks s"]
    by (simp add: call_run[OF that] no_run_def)
  show ?case
  proof (cases rule: restore_step[of c reachable ans rest s n])
    case skip
    then show ?thesis using Cons by (simp add: tr del: restore.simps boot_clean.simps)
  next
    case base
    then show ?thesis using Cons.prems by (simp add: tr fit_def no_run_def del: restore.simps boot_clean.simps)
  next
    case (load i run u s1)
    then show ?thesis using ld[OF load(3)] by (simp add: tr fit_def no_run_def del: restore.simps boot_clean.simps)
  next
    case (failed i run e s1)
    then show ?thesis using ld[OF failed(3)] Cons.IH[of s1] by (simp add: tr del: restore.simps boot_clean.simps)
  qed
qed

text \<open>A start-up that ends idle serves what it records, whatever its earlier attempts did.\<close>

lemma restore_idle:
  "fit n s \<Longrightarrow> (latest c s = None \<or> latest c s = Some None \<longrightarrow> all_base c (sv_ranks s)) \<Longrightarrow>
   sv_state (restore c tries s) = Idle \<Longrightarrow> serves_record c (restore c tries s)"
proof (induction tries arbitrary: s)
  case Nil
  then show ?case by simp
next
  case (Cons att rest)
  obtain reachable ans where tr: "att = (reachable, ans)" by (cases att)
  from Cons.prems(3) show ?case
  proof (cases rule: restore_step[of c reachable ans rest s n])
    case skip
    then show ?thesis using Cons by (simp add: tr del: restore.simps boot_clean.simps)
  next
    case base
    then show ?thesis using Cons.prems(2) by (simp add: tr serves_record_def del: restore.simps boot_clean.simps)
  next
    case (load i run u s1)
    have "in_catalogue i run s1" using find_run_catalogue[OF load(2)] by (simp add: in_catalogue_def call_run[OF load(3)])
    with load load_serves[OF Cons.prems(1) load(3)] show ?thesis
      by (auto simp: tr serves_record_def in_catalogue_def simp del: restore.simps boot_clean.simps)
  next
    case (failed i run e s1)
    have "latest c s1 = latest c s" by (simp add: latest_def call_run[OF failed(3)])
    with failed Cons.IH[of s1] Cons.prems(3) call_fit[OF Cons.prems(1) failed(3)] show ?thesis by (simp add: tr del: restore.simps boot_clean.simps)
  qed
qed

lemma restore_clean:
  "fit n s \<Longrightarrow> consistent c s \<Longrightarrow> boot_clean c n tries s \<Longrightarrow> consistent c (restore c tries s)"
proof (induction tries arbitrary: s)
  case Nil
  then show ?case by (simp add: consistent_def in_catalogue_def)
next
  case (Cons att rest)
  obtain reachable ans where tr: "att = (reachable, ans)" by (cases att)
  show ?case
  proof (cases rule: restore_step[of c reachable ans rest s n])
    case skip
    then show ?thesis using Cons by (simp add: tr del: restore.simps boot_clean.simps)
  next
    case base
    then show ?thesis using Cons.prems(2) by (simp add: tr consistent_def in_catalogue_def del: restore.simps)
  next
    case (load i run u s1)
    have "in_catalogue i run s1" using find_run_catalogue[OF load(2)] by (simp add: in_catalogue_def call_run[OF load(3)])
    with load load_serves[OF Cons.prems(1) load(3)] show ?thesis
      by (auto simp: tr consistent_def in_catalogue_def simp del: restore.simps)
  next
    case (failed i run e s1)
    have cl: "clean_load ans" "uniform_run c n (length (sv_ranks s)) run" "boot_clean c n rest s1"
      using failed(5) Cons.prems(3) by (simp_all add: tr del: boot_clean.simps)
    have same: "in_catalogue j r s1 = in_catalogue j r s" for j r by (simp add: call_run[OF failed(3)] in_catalogue_def)
    have "consistent c s1"
      using clean_load_all[OF Cons.prems(1) cl(2,1) failed(3)] consistent_frame[OF Cons.prems(2), of s1]
        find_run_catalogue[OF failed(2)] same by (auto simp: consistent_def)
    with failed(4) cl(3) Cons.IH[OF call_fit[OF Cons.prems(1) failed(3)]] show ?thesis
      by (simp add: tr del: restore.simps)
  qed
qed

end
