(* ===== verification/SftService.thy ===== *)
theory SftService
  imports SftSafe
begin

text \<open>
  The promises of the fine-tuning service as theorems on whole histories: requests from start-up on,
  a failed run, a restart from the published repository, and a start-up that fails half way.
\<close>

section \<open>Histories\<close>













section \<open>A restart\<close>

lemma load_all:
  assumes f: "fit n s" and sf: "\<And>r. r < length (sv_ranks s) \<Longrightarrow> shard_fits c n run r" and nf: "\<And>r. ft r = None"
  shows "\<exists>s'. call c (Load (run_files run)) (Ranks ft) s = (Inr (), s')"
proof -
  let ?rs = "sv_ranks s"
  have v: "list_all (rank_ready (Load (run_files run))) ?rs"
    using f by (intro vote_passes[of n]) (simp_all add: fit_def needs_run_def)
  have "fst (rank_rpc (s_worker c) r (Load (run_files run)) (ft r) (?rs ! r)) \<noteq> None" if r: "r < length ?rs" for r
  proof -
    have fr: "rank_fit n (?rs ! r)" using f r by (simp add: fit_def list_all_length)
    obtain vl where "run_files run r = Some (Shard vl (w_fp (s_worker c)))" "length vl = n"
      using sf[OF r] unfolding shard_fits_def by blast
    then show ?thesis
      using load_rank_fit[where sh = "run_files run" and ft = "ft r" and w = "s_worker c" and v = vl, OF fr] nf by simp
  qed
  then have "rpc_ok (fst (group_rpc (s_worker c) (Load (run_files run)) ft ?rs))"
    using v by (simp add: group_rpc_def rpc_ok_def list_all_length)
  then show ?thesis by (simp add: call_def)
qed

lemma serves_same:
  "serves_run c run rs \<Longrightarrow> serves_run c run rs' \<Longrightarrow> length rs = length rs' \<Longrightarrow> map rk_live rs = map rk_live rs'"
  by (auto simp: serves_run_def intro!: nth_equalityI)

section \<open>Properties\<close>


text \<open>C18: A failed training run never changes the recorded checkpoint, whatever fails in its cleanup. Failing
  before the serve stage it leaves every adapter as it was; failing in it, with the run published
  already, every rank the closing reset reaches without a fault serves the base model. No rank holds
  a run once the abort has been run. The status becomes failed, or \<open>serve_failed_base\<close> in the serve
  stage, exactly when no cleanup call raises, and stays at training otherwise: a reset that has failed
  on some rank goes unnoticed.\<close>

theorem failed_run_keeps_serving:
  assumes "fit n s" and "train c shuffle tk rq orc s = (RunFailed st, s')"
  shows "sv_ckpt s' = sv_ckpt s \<and> (aborted orc \<longrightarrow> no_run s') \<and>
    (if st = Serve
     then (\<exists>run. published c (or_id orc) run s') \<and>
          (past_abort orc \<longrightarrow> (\<forall>r < length (sv_ranks s). reaches (or_rec_reset orc) r \<longrightarrow>
             serves_base (w_zero (s_worker c)) (sv_ranks s' ! r))) \<and>
          sv_state s' = (if past_abort orc \<and> returned (or_rec_reset orc) then ServeFailedBase else Training)
     else map rk_live (sv_ranks s') = map rk_live (sv_ranks s) \<and>
          sv_state s' = (if past_abort orc then Failed else Training))"
  using assms
proof (cases rule: train_cases)
  case (early s2)
  obtain a where r: "recover c orc s2 = (a, s')" using early(1) by (cases "recover c orc s2") simp
  from recover_ends[OF early(3) r] early show ?thesis by (simp add: same_runs_def)
next
  case (late s2 run)
  obtain a where r: "recover c orc s2 = (a, s')" using late(1) by (cases "recover c orc s2") simp
  note re = recover_ends[OF late(3) r]
  have "published c (or_id orc) run s'" using re late(7) by (simp add: published_def)
  with re late show ?thesis by (auto simp: same_runs_def)
qed simp_all

text \<open>C25: A new process that finds the repository as a served run left it, and nothing or the same run in its
  directory, comes up on the adapters that were served.\<close>

theorem restart_serves_same:
  assumes "fit n s" and "train c shuffle tk rq orc s = (Served i, s')" and "s_repo c"
    and "fit n t" and "length (sv_ranks t) = length (sv_ranks s')"
    and "sv_hub t = sv_hub s'" and "sv_hub_ptr t = sv_hub_ptr s'"
    and "map_of (sv_local t) i \<in> {None, map_of (sv_local s') i}" and "\<And>r. ft r = None"
  shows "map rk_live (sv_ranks (restore c ((True, Ranks ft) # rest) t)) = map rk_live (sv_ranks s') \<and>
    sv_state (restore c ((True, Ranks ft) # rest) t) = Idle \<and> sv_ckpt (restore c ((True, Ranks ft) # rest) t) = Some i"
proof -
  from assms(1,2) obtain run where sv: "fit n s'" "published c i run s'" "serves_run c run (sv_ranks s')"
    by (cases rule: train_cases) auto
  have l: "latest c t = Some (Some i)" using assms(3,7) sv(2) by (simp add: latest_def published_def)
  have fr: "find_run c i t = Some run" using assms(3,6,8) sv(2) by (auto simp: find_run_def published_def split: option.splits)
  have sf: "shard_fits c n run r" if r: "r < length (sv_ranks t)" for r
  proof -
    have r': "r < length (sv_ranks s')" using r assms(5) by simp
    then have "length (rk_live (sv_ranks s' ! r)) = n" using sv(1) by (simp add: fit_def list_all_length rank_fit_def)
    then show ?thesis using sv(3) r' unfolding shard_fits_def serves_run_def by blast
  qed
  obtain t1 where ct: "call c (Load (run_files run)) (Ranks ft) t = (Inr (), t1)"
  proof -
    have "\<exists>s'. call c (Load (run_files run)) (Ranks ft) t = (Inr (), s')" by (rule load_all[OF assms(4)]) (rule sf, assumption, rule assms(9))
    then show thesis using that by blast
  qed
  have "map rk_live (sv_ranks t1) = map rk_live (sv_ranks s')"
    by (rule serves_same[OF load_serves[OF assms(4) ct] sv(3)]) (simp add: call_run[OF ct] assms(5))
  then show ?thesis by (simp add: l fr ct)
qed

text \<open>C37: A start-up load that reaches some ranks only is not undone: the server reports that the restore has
  failed while the ranks it reached serve the run and the others what they had.\<close>

theorem partial_restore_is_kept:
  assumes "fit n s" and "latest c s = Some (Some i)" and "find_run c i s = Some run"
    and "k < length (sv_ranks s)" and "ft k = Some f" and "r < length (sv_ranks s)"
  shows "sv_state (restore c [(True, Ranks ft), (False, g), (False, h)] s) = RestoreFailed \<and>
    (ft r = None \<and> shard_fits c n run r \<longrightarrow>
       run_files run r = Some (Shard (rk_live (sv_ranks (restore c [(True, Ranks ft), (False, g), (False, h)] s) ! r)) (w_fp (s_worker c)))) \<and>
    (ft r = Some (\<lambda>_. False) \<longrightarrow>
       rk_live (sv_ranks (restore c [(True, Ranks ft), (False, g), (False, h)] s) ! r) = rk_live (sv_ranks s ! r))"
proof -
  let ?op = "Load (run_files run)" and ?rs = "sv_ranks s"
  obtain a s1 where ct: "call c ?op (Ranks ft) s = (a, s1)" by fastforce
  note cr = call_run[OF ct]
  have v: "list_all (rank_ready ?op) ?rs"
    using assms(1) by (intro vote_passes[of n]) (simp_all add: fit_def needs_run_def)
  have fr: "rank_fit n (?rs ! j)" if "j < length ?rs" for j using assms(1) that by (simp add: fit_def list_all_length)
  have failed: "fst (rank_rpc (s_worker c) k ?op (ft k) (?rs ! k)) = None"
    by (simp add: assms(5) rank_rpc_def op_body_def do_load_def put_live_def split: option.splits shard.splits)
  then have "\<not> rpc_ok (fst (group_rpc (s_worker c) ?op ft ?rs))"
    using v assms(4) by (auto simp: group_rpc_def rpc_ok_def list_all_length)
  with ct obtain x where a: "a = Inl x" by (auto simp: call_def)
  have res: "restore c [(True, Ranks ft), (False, g), (False, h)] s = s1\<lparr>sv_state := RestoreFailed\<rparr>"
    using assms(2,3) ct a by simp
  have nth: "sv_ranks s1 ! r = snd (rank_rpc (s_worker c) r ?op (ft r) (?rs ! r))"
    using group_rpc_nth[OF v assms(6)] by (simp add: cr after_rpc_def)
  have fits: "run_files run r = Some (Shard (rk_live (sv_ranks s1 ! r)) (w_fp (s_worker c)))"
    if nf: "ft r = None" and sf: "shard_fits c n run r"
  proof -
    obtain vl where "run_files run r = Some (Shard vl (w_fp (s_worker c)))" "length vl = n"
      using sf unfolding shard_fits_def by blast
    with load_rank_fit[where sh = "run_files run" and ft = "ft r" and w = "s_worker c" and v = vl, OF fr[OF assms(6)]] nth nf
    show ?thesis by simp
  qed
  have skips: "rk_live (sv_ranks s1 ! r) = rk_live (?rs ! r)" if nf: "ft r = Some (\<lambda>_. False)"
    using nth by (simp add: nf rank_rpc_def op_body_def do_load_def put_live_def overlay_none split: option.splits shard.splits)
  show ?thesis using res fits skips by simp
qed

section \<open>Concrete inputs\<close>

text \<open>Two ranks with one adapter pair each; the steps add 1 to every tensor.\<close>

definition demo_scfg :: "nat scfg" where
  "demo_scfg = \<lparr>s_worker = \<lparr>w_zero = 0, w_fp = ''f'', w_free_kv = True\<rparr>, s_repo = True, s_max_examples = 4,
     s_max_steps = 4, s_max_tokens = 8\<rparr>"

definition demo_rank :: "nat \<Rightarrow> nat rank_st" where
  "demo_rank a = \<lparr>rk_live = [a, 0], rk_run = None, rk_kv = True, rk_sft = True\<rparr>"

definition demo_srv :: "nat srv" where
  "demo_srv = \<lparr>sv_state = Idle, sv_ckpt = None, sv_started = 0, sv_rejected = False, sv_last = None,
     sv_stage = Initialization, sv_local = [], sv_local_ptr = None, sv_hub = [], sv_hub_ptr = None,
     sv_ranks = [demo_rank 7, demo_rank 8]\<rparr>"

definition demo_rq :: "(string \<times> string, unit) train_req" where
  "demo_rq = \<lparr>rq_examples = Some [Raw ''a'' ''b''], rq_steps = 1, rq_bs = 1, rq_rates_ok = True, rq_seed = ()\<rparr>"

definition demo_shuffle :: "unit \<Rightarrow> nat list \<Rightarrow> nat list \<times> unit" where
  "demo_shuffle g xs = (rev xs, g)"

definition no_fault :: "nat \<Rightarrow> fault" where "no_fault _ = None"

text \<open>A run in which rank 1 may fail at the commit, after its first tensor.\<close>

definition well :: rpc_ans where "well = Ranks no_fault"

definition demo_answers :: "bool \<Rightarrow> nat answers" where
  "demo_answers bad = \<lparr>or_id = ''x'', or_repo = True, or_pre = well, or_parity = True, or_kv_free = well,
     or_begin = well, or_micro = (\<lambda>_ _. well), or_finite = (\<lambda>_. True), or_step = (\<lambda>_. well),
     or_upd = (\<lambda>_ _ _. Suc), or_mkdir = True, or_save = well, or_meta = True, or_pub = PubOk,
     or_kv_restore = well, or_commit = Ranks (\<lambda>r. if bad \<and> r = 1 then Some (\<lambda>i. i = 0) else None), or_cache = True,
     or_post = well, or_rec_kv = well, or_rec_abort = well, or_rec_reset = well\<rparr>"

abbreviation demo_train :: "bool \<Rightarrow> train_out \<times> nat srv" where
  "demo_train bad \<equiv> train demo_scfg demo_shuffle demo_tok demo_rq (demo_answers bad) demo_srv"

lemma demo_fit: "fit 2 demo_srv" "no_run demo_srv" "all_base demo_scfg (sv_ranks demo_srv)" "unused i demo_srv"
  by (simp_all add: fit_def no_run_def all_base_def demo_srv_def demo_rank_def rank_fit_def serves_base_def demo_scfg_def
      unused_def numeral_2_eq_2 less_Suc_eq)

lemma demo_cleanup: "past_abort (demo_answers bad)" "aborted (demo_answers bad)" "reaches (or_rec_reset (demo_answers bad)) r"
  by (simp_all add: demo_answers_def past_abort_def aborted_def returned_def reaches_def well_def no_fault_def)

lemma demo_served: "fst (demo_train False) = Served ''x'' \<and> map rk_live (sv_ranks (snd (demo_train False))) = [[8, 1], [9, 1]]"
  by code_simp

lemma demo_failed: "fst (demo_train True) = RunFailed Serve" by code_simp




lemma failed_run_keeps_serving_witness:
  "all_base demo_scfg (sv_ranks (snd (demo_train True))) \<and> sv_ckpt (snd (demo_train True)) = sv_ckpt demo_srv \<and>
   sv_state (snd (demo_train True)) = ServeFailedBase"
proof -
  note fr = failed_run_keeps_serving[OF demo_fit(1) surjective_pairing[of "demo_train True", unfolded demo_failed]]
  have "length (sv_ranks (snd (demo_train True))) = length (sv_ranks demo_srv)" by code_simp
  moreover have "returned (or_rec_reset (demo_answers True))" by (simp add: demo_answers_def returned_def well_def)
  ultimately show ?thesis using fr by (simp add: demo_cleanup all_base_def list_all_length demo_scfg_def)
qed

text \<open>A closing reset that fails on rank 0 only: the status says that the base model is served, and rank 0
  serves the run.\<close>

lemma failed_reset_goes_unnoticed:
  "let (out, s) = train demo_scfg demo_shuffle demo_tok demo_rq
         (demo_answers True\<lparr>or_rec_reset := Ranks (\<lambda>r. if r = 0 then Some (\<lambda>_. False) else None)\<rparr>) demo_srv
   in out = RunFailed Serve \<and> sv_state s = ServeFailedBase \<and> map rk_live (sv_ranks s) = [[8, 1], [9, 0]]"
  by code_simp

text \<open>A cleanup call that raises: the run stays on the ranks and the status at training.\<close>

lemma raising_cleanup_keeps_run:
  "let (out, s) = train demo_scfg demo_shuffle demo_tok demo_rq
         (demo_answers False\<lparr>or_save := Lost no_fault, or_rec_kv := Unsent\<rparr>) demo_srv
   in out = RunFailed Checkpoint \<and> sv_state s = Training \<and> map rk_run (sv_ranks s) = [Some [8, 1], Some [9, 1]]"
  by code_simp

lemma restart_serves_same_witness:
  "map rk_live (sv_ranks (restore demo_scfg [(True, well)]
     (demo_srv\<lparr>sv_hub := sv_hub (snd (demo_train False)), sv_hub_ptr := sv_hub_ptr (snd (demo_train False))\<rparr>))) = [[8, 1], [9, 1]]"
proof -
  let ?t = "demo_srv\<lparr>sv_hub := sv_hub (snd (demo_train False)), sv_hub_ptr := sv_hub_ptr (snd (demo_train False))\<rparr>"
  have tr: "demo_train False = (Served ''x'', snd (demo_train False))" using demo_served by (metis prod.collapse)
  have "map rk_live (sv_ranks (restore demo_scfg [(True, Ranks no_fault)] ?t)) = map rk_live (sv_ranks (snd (demo_train False)))"
  proof (rule restart_serves_same[OF demo_fit(1) tr, THEN conjunct1])
    show "s_repo demo_scfg" by (simp add: demo_scfg_def)
    show "fit 2 ?t" using demo_fit(1) by (simp add: fit_def)
    show "length (sv_ranks ?t) = length (sv_ranks (snd (demo_train False)))"
      using arg_cong[OF demo_served[THEN conjunct2], of length] by (simp add: demo_srv_def)
    show "sv_hub ?t = sv_hub (snd (demo_train False))" "sv_hub_ptr ?t = sv_hub_ptr (snd (demo_train False))" by simp_all
    show "map_of (sv_local ?t) ''x'' \<in> {None, map_of (sv_local (snd (demo_train False))) ''x''}" by (simp add: demo_srv_def)
    show "no_fault r = None" for r by (simp add: no_fault_def)
  qed
  then show ?thesis using demo_served by (simp add: well_def)
qed

text \<open>Rank 0 serves the run, rank 1 the base model.\<close>

definition half_srv :: "nat srv" where
  "half_srv = demo_srv\<lparr>sv_hub := [(''x'', \<lparr>sr_shards = [Shard [8, 1] ''f'', Shard [9, 1] ''f''], sr_fp = ''f'', sr_parent = None\<rparr>)],
     sv_hub_ptr := Some (Some ''x'')\<rparr>"

definition half_fault :: "nat \<Rightarrow> fault" where
  "half_fault r = (if r = 1 then Some (\<lambda>_. False) else None)"

lemma partial_restore_is_kept_witness:
  "sv_state (restore demo_scfg [(True, Ranks half_fault), (False, Unsent), (False, Unsent)] half_srv) = RestoreFailed \<and>
   run_files (snd (hd (sv_hub half_srv))) 0 = Some (Shard (rk_live (sv_ranks
     (restore demo_scfg [(True, Ranks half_fault), (False, Unsent), (False, Unsent)] half_srv) ! 0)) ''f'') \<and>
   rk_live (sv_ranks (restore demo_scfg [(True, Ranks half_fault), (False, Unsent), (False, Unsent)] half_srv) ! 1) = [8, 0]"
proof -
  have f: "fit 2 half_srv" using demo_fit(1) by (simp add: half_srv_def fit_def)
  have l: "latest demo_scfg half_srv = Some (Some ''x'')" by (simp add: latest_def demo_scfg_def half_srv_def)
  have r: "find_run demo_scfg ''x'' half_srv = Some (snd (hd (sv_hub half_srv)))"
    by (simp add: find_run_def demo_scfg_def half_srv_def demo_srv_def)
  have n: "0 < length (sv_ranks half_srv)" "1 < length (sv_ranks half_srv)" by (simp_all add: half_srv_def demo_srv_def)
  have h: "half_fault 1 = Some (\<lambda>_. False)" "half_fault 0 = None" by (simp_all add: half_fault_def)
  have sf: "shard_fits demo_scfg 2 (snd (hd (sv_hub half_srv))) 0"
    by (simp add: shard_fits_def half_srv_def run_files_def demo_scfg_def)
  have fp: "w_fp (s_worker demo_scfg) = ''f''" by (simp add: demo_scfg_def)
  have old: "rk_live (sv_ranks half_srv ! 1) = [8, 0]" by (simp add: half_srv_def demo_srv_def demo_rank_def)
  show ?thesis
    using partial_restore_is_kept[where ft = half_fault and g = Unsent and h = Unsent, OF f l r n(2) h(1) n(1)]
      partial_restore_is_kept[where ft = half_fault and g = Unsent and h = Unsent, OF f l r n(2) h(1) n(2)] h sf
    by (simp only: fp old)
qed

end
