(* ===== verification/DsaSelect.thy ===== *)
theory DsaSelect
  imports Prelude "HOL-Library.Multiset" "HOL-Library.Option_ord"
begin

text \<open>
  The warm-start top-k of the sparse indexer (\<open>suffix_hybrid/kernels/dsa_select.py\<close>), row by row: a
  threshold from a sample of positions, the survivors packed in any order, a top-k over them and
  the way back to positions. A logit is a rational or \<^const>\<open>None\<close> for minus infinity, the order is
  the one of \<open>Option_ord\<close>. The widened threshold of the f32 code is the parameter \<open>low\<close>, the race
  of the packing the parameter \<open>race\<close>, the ties of the top-k the parameter \<open>pick\<close>; the locale
  \<open>top_k\<close> is what the pipeline needs of \<open>pick\<close>.
\<close>

type_synonym logit = "rat option"

section \<open>The pipeline\<close>

definition even_positions :: "nat \<Rightarrow> nat \<Rightarrow> int list" where
  "even_positions extra cl = map (\<lambda>j. int (Suc (2 * j) * cl div (2 * max extra 1))) [0..<extra]"

definition kill_repeats :: "int list \<Rightarrow> int list" where
  "kill_repeats pos = map (\<lambda>i. if 0 < i \<and> pos ! i = pos ! (i - 1) \<and> 0 \<le> pos ! i then -1 else pos ! i) [0..<length pos]"

definition warm_positions :: "int list \<Rightarrow> nat \<Rightarrow> nat \<Rightarrow> int list" where
  "warm_positions prev cl extra = kill_repeats (sort (prev @ even_positions extra cl))"

definition warm_logits :: "logit list \<Rightarrow> nat \<Rightarrow> int list \<Rightarrow> logit list" where
  "warm_logits logits cl pos =
     map (\<lambda>p. if 0 \<le> p \<and> p < int cl then logits ! min (nat p) (length logits - 1) else None) pos"

text \<open>The largest finite magnitude, 0 without one.\<close>

definition magnitude :: "logit list \<Rightarrow> rat" where
  "magnitude sub = foldr (\<lambda>v m. case v of None \<Rightarrow> m | Some x \<Rightarrow> max \<bar>x\<bar> m) sub 0"

definition warm_threshold :: "(rat \<Rightarrow> rat \<Rightarrow> rat) \<Rightarrow> nat \<Rightarrow> logit list \<Rightarrow> logit res" where
  "warm_threshold low k sub =
     (if k = 0 \<or> length sub < k then Inl OtherError
      else Inr (case rev (sort sub) ! (k - 1) of None \<Rightarrow> None | Some x \<Rightarrow> Some (low x (magnitude sub))))"

text \<open>Positions of the survivors in the order of the race; both buffers are undefined behind them.\<close>

definition compact :: "(nat list \<Rightarrow> nat list) \<Rightarrow> logit list \<Rightarrow> nat \<Rightarrow> logit \<Rightarrow> nat list" where
  "compact race logits cl thr = race (filter (\<lambda>p. thr \<le> logits ! p) [0..<min cl (length logits)])"

definition padded :: "nat \<Rightarrow> int list \<Rightarrow> int list" where
  "padded k xs = xs @ replicate (k - length xs) (-1)"

definition persistent_topk :: "(logit list \<Rightarrow> nat \<Rightarrow> nat list) \<Rightarrow> logit list \<Rightarrow> nat \<Rightarrow> int list" where
  "persistent_topk pick vs k = padded k (map int (if length vs \<le> k then [0..<length vs] else pick vs k))"

definition remap :: "int list \<Rightarrow> nat list \<Rightarrow> nat \<Rightarrow> int list" where
  "remap slots kept cl =
     map (\<lambda>s. if 0 \<le> s \<and> kept ! nat s < cl then int (kept ! nat s) else -1) slots"

definition select :: "(rat \<Rightarrow> rat \<Rightarrow> rat) \<Rightarrow> (nat list \<Rightarrow> nat list) \<Rightarrow> (logit list \<Rightarrow> nat \<Rightarrow> nat list) \<Rightarrow>
    logit list \<Rightarrow> nat \<Rightarrow> int list \<Rightarrow> nat \<Rightarrow> nat \<Rightarrow> (int list \<times> nat) res" where
  "select low race pick logits cl prev k extra =
     (case warm_threshold low k (warm_logits logits cl (warm_positions prev cl extra)) of
        Inl e \<Rightarrow> Inl e
      | Inr thr \<Rightarrow>
          let kept = compact race logits cl thr
          in Inr (remap (persistent_topk pick (map ((!) logits) kept) k) kept cl, length kept))"

text \<open>The reference top-k.\<close>

definition topk_ref :: "logit list \<Rightarrow> nat \<Rightarrow> nat list" where
  "topk_ref vs k = take k (rev (sort_key ((!) vs) [0..<length vs]))"

section \<open>What a top-k promises\<close>

locale top_k =
  fixes pick :: "logit list \<Rightarrow> nat \<Rightarrow> nat list"
  assumes pick_length: "k \<le> length vs \<Longrightarrow> length (pick vs k) = k"
    and pick_distinct: "distinct (pick vs k)"
    and pick_bound: "i \<in> set (pick vs k) \<Longrightarrow> i < length vs"
    and pick_top: "i \<in> set (pick vs k) \<Longrightarrow> j < length vs \<Longrightarrow> j \<notin> set (pick vs k) \<Longrightarrow> vs ! j \<le> vs ! i"

lemma sort_key_take_drop:
  assumes "i \<in> set (take k (rev (sort_key f xs)))" and "j \<in> set (drop k (rev (sort_key f xs)))"
  shows "f j \<le> f i"
proof -
  let ?ys = "sort_key f xs"
  obtain a where a: "a < length ?ys" "a < k" "i = rev ?ys ! a" using assms(1) by (auto simp: in_set_conv_nth)
  obtain b where "b < length (drop k (rev ?ys))" "drop k (rev ?ys) ! b = j" using assms(2) by (meson in_set_conv_nth)
  then have b: "b + k < length ?ys" "j = rev ?ys ! (b + k)" by (auto simp: add.commute)
  have "sorted (map f ?ys)" by simp
  moreover have "length ?ys - Suc (b + k) \<le> length ?ys - Suc a" "length ?ys - Suc a < length ?ys" using a b by linarith+
  ultimately have "map f ?ys ! (length ?ys - Suc (b + k)) \<le> map f ?ys ! (length ?ys - Suc a)"
    by (intro sorted_nth_mono) (simp_all only: length_map)
  then show ?thesis using a b by (simp add: rev_nth)
qed

interpretation ref: top_k topk_ref
proof
  fix vs :: "logit list" and k i j
  let ?ys = "rev (sort_key ((!) vs) [0..<length vs])"
  show "k \<le> length vs \<Longrightarrow> length (topk_ref vs k) = k" by (simp add: topk_ref_def)
  show "distinct (topk_ref vs k)" by (simp add: topk_ref_def distinct_take)
  show "i < length vs" if "i \<in> set (topk_ref vs k)"
  proof -
    have "i \<in> set ?ys" using that unfolding topk_ref_def by (rule in_set_takeD)
    then show ?thesis by simp
  qed
  show "vs ! j \<le> vs ! i" if "i \<in> set (topk_ref vs k)" "j < length vs" "j \<notin> set (topk_ref vs k)"
  proof -
    have "j \<in> set ?ys" using that(2) by simp
    then have "j \<in> set (take k ?ys) \<union> set (drop k ?ys)" by (metis append_take_drop_id set_append)
    then have "j \<in> set (drop k ?ys)" using that(3) by (simp add: topk_ref_def)
    then show ?thesis using that(1) unfolding topk_ref_def by (intro sort_key_take_drop[where k = k])
  qed
qed

section \<open>The threshold bounds the true k-th largest\<close>

text \<open>Live warm positions are distinct.\<close>

lemma killed_distinct: "sorted pos \<Longrightarrow> distinct (filter (\<lambda>p. 0 \<le> p) (kill_repeats pos))"
proof -
  assume s: "sorted pos"
  have inj: "kill_repeats pos ! i \<noteq> kill_repeats pos ! j"
    if "i < j" "j < length pos" "0 \<le> kill_repeats pos ! j" "0 \<le> kill_repeats pos ! i" for i j
  proof -
    have v: "kill_repeats pos ! j = pos ! j" "kill_repeats pos ! i = pos ! i"
      using that by (auto simp: kill_repeats_def split: if_splits)
    have "pos ! j \<noteq> pos ! (j - 1)" using that by (auto simp: kill_repeats_def split: if_splits)
    moreover have "pos ! (j - 1) \<le> pos ! j" "pos ! i \<le> pos ! (j - 1)" using s that by (auto intro: sorted_nth_mono)
    ultimately show ?thesis using v by linarith
  qed
  have "distinct (map snd (filter (\<lambda>(i, p). 0 \<le> p) (enumerate 0 (kill_repeats pos))))"
    unfolding distinct_map
  proof (intro conjI inj_onI)
    show "distinct (filter (\<lambda>(i, p). 0 \<le> p) (enumerate 0 (kill_repeats pos)))" by (simp add: distinct_enumerate)
    fix x y assume xy: "x \<in> set (filter (\<lambda>(i, p). 0 \<le> p) (enumerate 0 (kill_repeats pos)))"
      "y \<in> set (filter (\<lambda>(i, p). 0 \<le> p) (enumerate 0 (kill_repeats pos)))" and e: "snd x = snd y"
    have len: "length (kill_repeats pos) = length pos" by (simp add: kill_repeats_def)
    from xy have "fst x < length pos" "snd x = kill_repeats pos ! fst x" "0 \<le> snd x"
      "fst y < length pos" "snd y = kill_repeats pos ! fst y" "0 \<le> snd y"
      by (auto simp: in_set_enumerate_eq len)
    with inj[of "fst x" "fst y"] inj[of "fst y" "fst x"] e have "fst x = fst y" by (metis linorder_neqE_nat)
    with e show "x = y" by (simp add: prod_eq_iff)
  qed
  moreover have "map snd (filter (\<lambda>(i, p). 0 \<le> p) (enumerate n ps)) = filter (\<lambda>p. 0 \<le> p) ps" for n and ps :: "int list"
    by (induction ps arbitrary: n) auto
  ultimately show ?thesis by simp
qed

lemma kth_count:
  fixes sub :: "'a::linorder list"
  assumes "0 < k" and "k \<le> length sub" and "rev (sort sub) ! (k - 1) = x"
  shows "k \<le> length (filter (\<lambda>v. x \<le> v) sub)"
proof -
  let ?ys = "rev (sort sub)"
  have "x \<le> v" if v: "v \<in> set (take k ?ys)" for v
  proof -
    obtain a where "a < length (take k ?ys)" "take k ?ys ! a = v" using v by (meson in_set_conv_nth)
    then have a: "a < k" "v = ?ys ! a" by simp_all
    have "sort sub ! (length sub - k) \<le> sort sub ! (length sub - Suc a)"
      using a assms(2) by (intro sorted_nth_mono) auto
    then show ?thesis using a assms by (simp add: rev_nth)
  qed
  then have "filter (\<lambda>v. x \<le> v) (take k ?ys) = take k ?ys" by (simp add: filter_id_conv)
  then have "length (filter (\<lambda>v. x \<le> v) (take k ?ys)) = k" using assms(2) by simp
  moreover have "filter (\<lambda>v. x \<le> v) ?ys = filter (\<lambda>v. x \<le> v) (take k ?ys) @ filter (\<lambda>v. x \<le> v) (drop k ?ys)"
    by (metis append_take_drop_id filter_append)
  ultimately have "k \<le> length (filter (\<lambda>v. x \<le> v) ?ys)" by simp
  moreover have "mset (filter (\<lambda>v. x \<le> v) ?ys) = mset (filter (\<lambda>v. x \<le> v) sub)" by simp
  then have "length (filter (\<lambda>v. x \<le> v) ?ys) = length (filter (\<lambda>v. x \<le> v) sub)" by (metis size_mset)
  ultimately show ?thesis by simp
qed

lemma magnitude_nonneg: "0 \<le> magnitude sub"
  unfolding magnitude_def by (induction sub) (auto split: option.splits)

lemma length_warm: "length (warm_positions prev cl extra) = length prev + extra"
  by (simp add: warm_positions_def kill_repeats_def even_positions_def)

text \<open>With at least \<open>k\<close> sampled positions whose logit is not below \<open>x\<close>, the window has as many.\<close>

lemma enough_survivors:
  assumes cl: "cl \<le> length logits" and k: "0 < k" "k \<le> length prev + extra"
    and kth: "rev (sort (warm_logits logits cl (warm_positions prev cl extra))) ! (k - 1) = Some x" and t: "t \<le> Some x"
  shows "k \<le> length (filter (\<lambda>p. t \<le> logits ! p) [0..<cl])"
proof -
  let ?pos = "warm_positions prev cl extra"
  let ?live = "filter (\<lambda>p. 0 \<le> p \<and> p < int cl \<and> Some x \<le> logits ! nat p) ?pos"
  have "k \<le> length (filter (\<lambda>v. Some x \<le> v) (warm_logits logits cl ?pos))"
    using kth_count[OF k(1) _ kth] k(2) by (simp add: warm_logits_def length_warm)
  also have "length (filter (\<lambda>v. Some x \<le> v) (warm_logits logits cl ?pos)) = length ?live"
  proof -
    have "filter (\<lambda>p. Some x \<le> (if 0 \<le> p \<and> p < int cl then logits ! min (nat p) (length logits - 1) else None)) ?pos = ?live"
    proof (rule filter_cong[OF refl])
      fix p show "(Some x \<le> (if 0 \<le> p \<and> p < int cl then logits ! min (nat p) (length logits - 1) else None)) =
          (0 \<le> p \<and> p < int cl \<and> Some x \<le> logits ! nat p)"
        using cl by (auto simp: min_def)
    qed
    then show ?thesis by (simp add: warm_logits_def filter_map comp_def)
  qed
  also have "length ?live = card (nat ` set ?live)"
  proof -
    have "distinct (filter (\<lambda>p. 0 \<le> p) ?pos)" unfolding warm_positions_def by (rule killed_distinct) simp
    then have "distinct (filter (\<lambda>p. p < int cl \<and> Some x \<le> logits ! nat p) (filter (\<lambda>p. 0 \<le> p) ?pos))" by (rule distinct_filter)
    then have "distinct ?live" by (simp add: filter_filter conj_commute conj_left_commute conj_assoc)
    moreover have "inj_on nat (set ?live)" by (auto simp: inj_on_def)
    ultimately show ?thesis by (simp only: distinct_card card_image)
  qed
  also have "\<dots> \<le> card (set (filter (\<lambda>p. t \<le> logits ! p) [0..<cl]))"
  proof (rule card_mono)
    show "nat ` set ?live \<subseteq> set (filter (\<lambda>p. t \<le> logits ! p) [0..<cl])" using t by auto
  qed simp
  also have "\<dots> = length (filter (\<lambda>p. t \<le> logits ! p) [0..<cl])" by (intro distinct_card distinct_filter distinct_upt)
  finally show ?thesis .
qed

section \<open>The pipeline is a top-k of the window\<close>

definition is_topk :: "logit list \<Rightarrow> nat \<Rightarrow> nat \<Rightarrow> int list \<Rightarrow> bool" where
  "is_topk logits n k out \<longleftrightarrow> length out = k \<and>
     (let res = filter (\<lambda>p. 0 \<le> p) out
      in distinct res \<and> length res = min k n \<and> (\<forall>p \<in> set res. p < int n) \<and>
         (\<forall>p \<in> set res. \<forall>j < n. int j \<notin> set res \<longrightarrow> logits ! j \<le> logits ! nat p))"

lemma filter_padded: "filter (\<lambda>p. 0 \<le> p) (map int xs @ replicate m (-1)) = map int xs"
  by (simp add: filter_map comp_def)

text \<open>Slots of the packed buffer, mapped back to positions.\<close>

lemma remap_slots:
  assumes "\<And>s. s \<in> set ss \<Longrightarrow> s < length kept" and "\<And>p. p \<in> set kept \<Longrightarrow> p < cl"
  shows "remap (map int ss @ replicate m (-1)) kept cl = map (\<lambda>s. int (kept ! s)) ss @ replicate m (-1)"
  using assms by (auto simp: remap_def)

context top_k begin

lemma select_top_k:
  assumes k: "0 < k" "k \<le> length prev + extra" and cl: "cl \<le> length logits"
    and low: "\<And>x m. 0 \<le> m \<Longrightarrow> low x m \<le> x" and race: "\<And>xs. mset (race xs) = mset xs"
  shows "\<exists>out n. select low race pick logits cl prev k extra = Inr (out, n) \<and> is_topk logits cl k out \<and> min k cl \<le> n"
proof -
  let ?sub = "warm_logits logits cl (warm_positions prev cl extra)"
  have m: "length ?sub = length prev + extra" by (simp add: warm_logits_def length_warm)
  obtain thr where t: "warm_threshold low k ?sub = Inr thr" using k m by (simp add: warm_threshold_def)
  define kept where "kept = compact race logits cl thr"
  let ?keep = "filter (\<lambda>p. thr \<le> logits ! p) [0..<cl]"
  have ms: "mset kept = mset ?keep" using cl by (simp add: kept_def compact_def race min_absorb1)
  have d: "distinct kept" using ms by (metis distinct_filter distinct_upt mset_eq_imp_distinct_iff)
  have st: "set kept = {p. p < cl \<and> thr \<le> logits ! p}" using mset_eq_setD[OF ms] by auto
  have len: "length kept = length ?keep" using ms by (metis size_mset)
  have enough: "min k cl \<le> length kept"
  proof (cases "rev (sort ?sub) ! (k - 1)")
    case None
    then have "thr = None" using t k m by (simp add: warm_threshold_def)
    then have "?keep = [0..<cl]" by (simp add: less_eq_option_None)
    then show ?thesis by (simp add: len)
  next
    case (Some x)
    have "0 \<le> magnitude ?sub" by (rule magnitude_nonneg)
    then have lx: "low x (magnitude ?sub) \<le> x" by (rule low)
    have "thr = Some (low x (magnitude ?sub))" using t k m Some by (simp add: warm_threshold_def)
    then have "thr \<le> Some x" using lx by simp
    from enough_survivors[OF cl k Some this] show ?thesis by (simp add: len)
  qed
  define ss where "ss = (if length kept \<le> k then [0..<length kept] else pick (map ((!) logits) kept) k)"
  have ss: "distinct ss" "\<And>s. s \<in> set ss \<Longrightarrow> s < length kept" "length ss = min k (length kept)"
    using pick_distinct pick_bound[of _ "map ((!) logits) kept" k] pick_length[of k "map ((!) logits) kept"]
    by (auto simp: ss_def split: if_splits)
  have top: "logits ! (kept ! j) \<le> logits ! (kept ! i)" if "i \<in> set ss" "j < length kept" "j \<notin> set ss" for i j
    using that pick_top[of i "map ((!) logits) kept" k j] pick_bound[of i "map ((!) logits) kept" k]
    by (auto simp: ss_def split: if_splits)
  define res where "res = map (\<lambda>s. kept ! s) ss"
  define out where "out = map int res @ replicate (k - length ss) (-1)"
  have sel: "select low race pick logits cl prev k extra = Inr (out, length kept)"
  proof -
    have "persistent_topk pick (map ((!) logits) kept) k = map int ss @ replicate (k - length ss) (-1)"
      by (auto simp: persistent_topk_def padded_def ss_def)
    moreover have "remap (map int ss @ replicate (k - length ss) (-1)) kept cl =
        map (\<lambda>s. int (kept ! s)) ss @ replicate (k - length ss) (-1)"
      by (rule remap_slots) (use ss(2) st in auto)
    ultimately have "remap (persistent_topk pick (map ((!) logits) kept) k) kept cl = out"
      by (simp add: out_def res_def comp_def)
    then show ?thesis using t by (simp add: select_def Let_def kept_def)
  qed
  have cnt: "length kept \<le> cl" using len by (metis diff_zero length_filter_le length_upt)
  have fr: "filter (\<lambda>p. 0 \<le> p) out = map int res" by (simp add: out_def filter_padded)
  have dr: "distinct res" unfolding res_def distinct_map using ss d by (auto intro!: inj_onI simp: nth_eq_iff_index_eq)
  have best: "logits ! j \<le> logits ! p" if mem: "p \<in> set res" "j < cl" "j \<notin> set res" for p j
  proof (cases "thr \<le> logits ! j")
    case False
    have "p \<in> set kept" using that(1) ss(2) by (auto simp: res_def)
    then have "thr \<le> logits ! p" using st by simp
    with False show ?thesis by (meson le_cases order_trans)
  next
    case True
    then have "j \<in> set kept" using st that(2) by simp
    then obtain b where b: "b < length kept" "kept ! b = j" by (meson in_set_conv_nth)
    then have "b \<notin> set ss" using that(3) by (auto simp: res_def)
    moreover obtain a where "a \<in> set ss" "p = kept ! a" using mem(1) by (auto simp: res_def)
    ultimately show ?thesis using top b by auto
  qed
  have "is_topk logits cl k out"
    unfolding is_topk_def Let_def fr
  proof (intro conjI ballI allI impI)
    show "length out = k" using ss(3) by (simp add: out_def res_def)
    show "distinct (map int res)" using dr by (simp add: distinct_map)
    show "length (map int res) = min k cl" using ss(3) enough cnt by (simp add: res_def)
    show "p < int cl" if "p \<in> set (map int res)" for p using that ss(2) st nth_mem by (fastforce simp: res_def)
    show "logits ! j \<le> logits ! nat p" if "p \<in> set (map int res)" "j < cl" "int j \<notin> set (map int res)" for p j
    proof -
      have "j \<notin> set res" using that(3) by auto
      moreover have "nat p \<in> set res" using that(1) by auto
      ultimately show ?thesis using best that(2) by blast
    qed
  qed
  with sel enough show ?thesis by blast
qed

end

text \<open>C31: Whatever positions the previous step left and in whatever order the survivors are packed, the selection
  returns a top-k of the window: distinct positions, as many as there are up to \<open>k\<close>, and none left out has
  a larger logit; it suffices that the widening never raises the threshold.\<close>

theorem select_is_topk:
  assumes "0 < k" and "k \<le> length prev + extra" and "cl \<le> length logits"
    and "\<And>x m. 0 \<le> m \<Longrightarrow> low x m \<le> x" and "\<And>xs. mset (race xs) = mset xs"
  shows "\<exists>out n. select low race topk_ref logits cl prev k extra = Inr (out, n) \<and> is_topk logits cl k out \<and> min k cl \<le> n"
  by (rule ref.select_top_k[OF assms])

lemma select_is_topk_witness:
  "\<exists>out n. select (\<lambda>x m. x - m / 100000) rev topk_ref [Some 3, None, Some 5, Some 4] 4 [1, 1] 2 1 = Inr (out, n) \<and>
     is_topk [Some 3, None, Some 5, Some 4] 4 2 out \<and> min 2 4 \<le> n"
  by (rule select_is_topk) auto

lemma select_example:
  "select (\<lambda>x m. x - m / 100000) rev topk_ref [Some 3, None, Some 5, Some 4] 4 [1, 1] 2 1 = Inr ([2, 3], 4)"
  by code_simp

end
