(* ===== verification/DevArgs.thy ===== *)
theory DevArgs
  imports Prelude
begin

text \<open>
  The development switch that edits the command line before it is parsed
  (\<open>suffix_hybrid/dev_args.py\<close>): \<open>_tokenize\<close>, \<open>splice\<close> and \<open>apply_dev_args\<close>. An entry of the file is
  a bare flag, a flag with a value or \<open>null\<close>, or something else; what reading the file gives is an
  argument. The audit copy and the log line are left out.
\<close>

section \<open>Command lines\<close>

datatype dev_entry = Bare string | FlagVal string "string option" | OddEntry

type_synonym arg_group = "string option \<times> string list"

definition is_flag :: "string \<Rightarrow> bool" where "is_flag t \<longleftrightarrow> take 2 t = ''--''"

definition flag_name :: "string \<Rightarrow> string" where "flag_name t = takeWhile (\<lambda>ch. ch \<noteq> CHR ''='') t"

fun tokenize :: "string list \<Rightarrow> arg_group list" where
  "tokenize [] = []"
| "tokenize [t] = (if is_flag t then [(Some (flag_name t), [t])] else [(None, [t])])"
| "tokenize (t # v # rest) =
     (if \<not> is_flag t then (None, [t]) # tokenize (v # rest)
      else if CHR ''='' \<notin> set t \<and> \<not> is_flag v then (Some (flag_name t), [t, v]) # tokenize rest
      else (Some (flag_name t), [t]) # tokenize (v # rest))"

definition RESERVED :: "string list" where
  "RESERVED = [''--model'', ''--model-path'', ''-m'', ''--served-model-name'']"

definition untokenize :: "arg_group list \<Rightarrow> string list" where
  "untokenize ts = concat (map snd ts)"

text \<open>The dictionary from names to positions keeps the last position of a name.\<close>

fun last_index :: "string \<Rightarrow> arg_group list \<Rightarrow> nat option" where
  "last_index f [] = None"
| "last_index f ((n, g) # ts) = (case last_index f ts of
      Some i \<Rightarrow> Some (Suc i) | None \<Rightarrow> if n = Some f then Some 0 else None)"

definition put_group :: "string \<Rightarrow> string list \<Rightarrow> arg_group list \<Rightarrow> arg_group list" where
  "put_group f g ts = (case last_index f ts of Some i \<Rightarrow> ts[i := (Some f, g)] | None \<Rightarrow> ts @ [(Some f, g)])"

definition splice_entry :: "dev_entry \<Rightarrow> arg_group list \<Rightarrow> arg_group list res" where
  "splice_entry e ts = (case e of
      OddEntry \<Rightarrow> Inl ValueError
    | Bare f \<Rightarrow> if \<not> is_flag f \<or> f \<in> set RESERVED then Inl ValueError else Inr (put_group f [f] ts)
    | FlagVal f v \<Rightarrow>
        if \<not> is_flag f \<or> f \<in> set RESERVED then Inl ValueError
        else (case v of None \<Rightarrow> Inr (filter (\<lambda>t. fst t \<noteq> Some f) ts) | Some x \<Rightarrow> Inr (put_group f [f, x] ts)))"

fun splice_groups :: "dev_entry list \<Rightarrow> arg_group list \<Rightarrow> arg_group list res" where
  "splice_groups [] ts = Inr ts"
| "splice_groups (e # es) ts = (case splice_entry e ts of Inl x \<Rightarrow> Inl x | Inr ts' \<Rightarrow> splice_groups es ts')"

definition splice :: "string list \<Rightarrow> dev_entry list \<Rightarrow> string list res" where
  "splice argv es = (case splice_groups es (tokenize argv) of Inl x \<Rightarrow> Inl x | Inr ts \<Rightarrow> Inr (untokenize ts))"

section \<open>Applying them\<close>

definition basename :: "string \<Rightarrow> string" where
  "basename p = rev (takeWhile (\<lambda>ch. ch \<noteq> CHR ''/'') (rev p))"

definition serves_vllm :: "string list \<Rightarrow> bool" where
  "serves_vllm argv \<longleftrightarrow> argv \<noteq> [] \<and> ''serve'' \<in> set (take 3 argv) \<and> take 4 (basename (hd argv)) = ''vllm''"

text \<open>The file: missing, not a list of JSON values, or its entries.\<close>

datatype dev_file = NoFile | Unreadable | Entries "dev_entry list"

datatype dev_out = Untouched | Stopped | Applied "string list"

definition apply_dev_args :: "bool \<Rightarrow> string list \<Rightarrow> dev_file \<Rightarrow> dev_out" where
  "apply_dev_args on argv file =
     (if \<not> on \<or> \<not> serves_vllm argv then Untouched
      else case file of
          NoFile \<Rightarrow> Untouched
        | Unreadable \<Rightarrow> Stopped
        | Entries es \<Rightarrow> (case splice argv es of Inl _ \<Rightarrow> Stopped | Inr out \<Rightarrow> Applied out))"

section \<open>What an entry changes\<close>

fun entry_flag :: "dev_entry \<Rightarrow> string option" where
  "entry_flag (Bare f) = Some f"
| "entry_flag (FlagVal f v) = Some f"
| "entry_flag OddEntry = None"

fun wants :: "dev_entry \<Rightarrow> string list option" where
  "wants (Bare f) = Some [f]"
| "wants (FlagVal f None) = None"
| "wants (FlagVal f (Some x)) = Some [f, x]"
| "wants OddEntry = None"

lemma tokenize_untokenize: "untokenize (tokenize argv) = argv"
  by (induction argv rule: tokenize.induct) (auto simp: untokenize_def)

lemma last_index_Some: "last_index f ts = Some i \<Longrightarrow> i < length ts \<and> fst (ts ! i) = Some f"
  by (induction ts arbitrary: i) (auto split: option.splits if_splits)

lemma last_index_None: "last_index f ts = None \<longleftrightarrow> (\<forall>t \<in> set ts. fst t \<noteq> Some f)"
  by (induction ts) (auto split: option.splits)

lemma filter_update: "i < length ts \<Longrightarrow> \<not> P (ts ! i) \<Longrightarrow> \<not> P t \<Longrightarrow> filter P (ts[i := t]) = filter P ts"
  by (induction ts arbitrary: i) (auto split: nat.splits)

lemma put_group_frame: "\<not> P (Some f) \<Longrightarrow> filter (\<lambda>t. P (fst t)) (put_group f g ts) = filter (\<lambda>t. P (fst t)) ts"
  using last_index_Some[of f ts]
  by (auto simp: put_group_def filter_update split: option.splits)

lemma put_group_mem: "(Some f, g) \<in> set (put_group f g ts)"
  using last_index_Some[of f ts] by (auto simp: put_group_def set_update_memI split: option.splits)

lemma entry_frame:
  "splice_entry e ts = Inr ts' \<Longrightarrow> (\<And>f. entry_flag e = Some f \<Longrightarrow> \<not> P (Some f)) \<Longrightarrow>
   filter (\<lambda>t. P (fst t)) ts' = filter (\<lambda>t. P (fst t)) ts"
proof (cases e)
  case (FlagVal f v)
  assume "splice_entry e ts = Inr ts'" and n: "\<And>f. entry_flag e = Some f \<Longrightarrow> \<not> P (Some f)"
  moreover have "filter (\<lambda>t. P (fst t)) (filter (\<lambda>t. fst t \<noteq> Some f) ts) = filter (\<lambda>t. P (fst t)) ts"
    using n FlagVal by (auto simp: filter_filter intro: filter_cong)
  ultimately show ?thesis using FlagVal by (auto simp: splice_entry_def put_group_frame[where P = P] split: if_splits option.splits)
qed (auto simp: splice_entry_def put_group_frame[where P = P] split: if_splits)

lemma groups_frame:
  "splice_groups es ts = Inr ts' \<Longrightarrow> (\<And>e f. e \<in> set es \<Longrightarrow> entry_flag e = Some f \<Longrightarrow> \<not> P (Some f)) \<Longrightarrow>
   filter (\<lambda>t. P (fst t)) ts' = filter (\<lambda>t. P (fst t)) ts"
proof (induction es arbitrary: ts)
  case Nil
  then show ?case by simp
next
  case (Cons e es)
  then obtain t1 where t1: "splice_entry e ts = Inr t1" "splice_groups es t1 = Inr ts'" by (auto split: sum.splits)
  have "filter (\<lambda>t. P (fst t)) ts' = filter (\<lambda>t. P (fst t)) t1" by (rule Cons.IH[OF t1(2)]) (use Cons.prems(2) in auto)
  also have "\<dots> = filter (\<lambda>t. P (fst t)) ts" by (rule entry_frame[OF t1(1)]) (use Cons.prems(2) in auto)
  finally show ?case .
qed

lemma entries_not_reserved:
  "splice_groups es ts = Inr ts' \<Longrightarrow> e \<in> set es \<Longrightarrow> \<exists>f. entry_flag e = Some f \<and> is_flag f \<and> f \<notin> set RESERVED"
proof (induction es arbitrary: ts)
  case (Cons d es)
  then obtain t1 where t1: "splice_entry d ts = Inr t1" "splice_groups es t1 = Inr ts'" by (auto split: sum.splits)
  then have "\<exists>f. entry_flag d = Some f \<and> is_flag f \<and> f \<notin> set RESERVED"
    by (cases d) (auto simp: splice_entry_def split: if_splits)
  with Cons.IH[OF t1(2)] Cons.prems(2) show ?case by auto
qed simp

text \<open>The last entry for a flag decides.\<close>

lemma groups_effect:
  assumes "splice_groups (es @ e # rest) ts = Inr ts'" and "entry_flag e = Some f"
    and "\<And>d. d \<in> set rest \<Longrightarrow> entry_flag d \<noteq> Some f"
  shows "case wants e of Some g \<Rightarrow> (Some f, g) \<in> set ts' | None \<Rightarrow> (\<forall>t \<in> set ts'. fst t \<noteq> Some f)"
proof -
  have split: "splice_groups (as @ bs) ts = (case splice_groups as ts of Inl x \<Rightarrow> Inl x | Inr t \<Rightarrow> splice_groups bs t)" for as bs ts
    by (induction as arbitrary: ts) (auto split: sum.splits)
  obtain t0 t1 where t: "splice_entry e t0 = Inr t1" "splice_groups rest t1 = Inr ts'"
    using assms(1) by (auto simp: split split: sum.splits)
  have "case wants e of Some g \<Rightarrow> (Some f, g) \<in> set t1 | None \<Rightarrow> (\<forall>t \<in> set t1. fst t \<noteq> Some f)"
    using t(1) assms(2) by (cases e) (auto simp: splice_entry_def put_group_mem split: if_splits option.splits)
  moreover have "filter (\<lambda>t. fst t = Some f) ts' = filter (\<lambda>t. fst t = Some f) t1"
    by (rule groups_frame[OF t(2), where P = "\<lambda>n. n = Some f"]) (use assms(3) in auto)
  then have "t \<in> set ts' \<and> fst t = Some f \<longleftrightarrow> t \<in> set t1 \<and> fst t = Some f" for t
    by (metis (mono_tags, lifting) filter_eq_Cons_iff set_filter mem_Collect_eq)
  ultimately show ?thesis by (fastforce split: option.splits)
qed

section \<open>Properties\<close>

text \<open>An accepted edit leaves every positional argument and every flag it does not name alone, in place and
  with its values, the reserved flags among them; the last entry for a flag puts its group in or
  leaves no group of that name.\<close>

theorem splice_changes_named_flags:
  assumes "splice argv es = Inr out"
  shows "\<exists>ts. out = untokenize ts \<and>
     filter (\<lambda>(n, _). n \<notin> set (map entry_flag es)) ts = filter (\<lambda>(n, _). n \<notin> set (map entry_flag es)) (tokenize argv) \<and>
     filter (\<lambda>(n, _). n = None \<or> n \<in> Some ` set RESERVED) ts = filter (\<lambda>(n, _). n = None \<or> n \<in> Some ` set RESERVED) (tokenize argv) \<and>
     (\<forall>as e bs f. es = as @ e # bs \<and> entry_flag e = Some f \<and> (\<forall>d \<in> set bs. entry_flag d \<noteq> Some f) \<longrightarrow>
        (case wants e of Some g \<Rightarrow> (Some f, g) \<in> set ts | None \<Rightarrow> (\<forall>t \<in> set ts. fst t \<noteq> Some f)))"
proof -
  obtain ts where ts: "splice_groups es (tokenize argv) = Inr ts" "out = untokenize ts"
    using assms by (auto simp: splice_def split: sum.splits)
  have "filter (\<lambda>(n, _). n \<notin> set (map entry_flag es)) ts = filter (\<lambda>(n, _). n \<notin> set (map entry_flag es)) (tokenize argv)"
    using groups_frame[OF ts(1), of "\<lambda>n. n \<notin> set (map entry_flag es)"] by (force simp: case_prod_unfold)
  moreover have "filter (\<lambda>(n, _). n = None \<or> n \<in> Some ` set RESERVED) ts =
      filter (\<lambda>(n, _). n = None \<or> n \<in> Some ` set RESERVED) (tokenize argv)"
    using groups_frame[OF ts(1), of "\<lambda>n. n = None \<or> n \<in> Some ` set RESERVED"] entries_not_reserved[OF ts(1)]
    by (fastforce simp: case_prod_unfold)
  moreover have "case wants e of Some g \<Rightarrow> (Some f, g) \<in> set ts | None \<Rightarrow> (\<forall>t \<in> set ts. fst t \<noteq> Some f)"
    if "es = as @ e # bs" "entry_flag e = Some f" "\<forall>d \<in> set bs. entry_flag d \<noteq> Some f" for as e bs f
    using groups_effect[of as e bs "tokenize argv" ts f] ts(1) that by simp
  ultimately show ?thesis using ts(2) by blast
qed

lemma splice_changes_named_flags_witness:
  "splice [''vllm'', ''serve'', ''/m'', ''--a'', ''1'', ''--b''] [FlagVal ''--a'' (Some ''2''), FlagVal ''--b'' None, Bare ''--c''] =
     Inr [''vllm'', ''serve'', ''/m'', ''--a'', ''2'', ''--c''] \<and>
   (\<exists>ts. [''vllm'', ''serve'', ''/m'', ''--a'', ''2'', ''--c''] = untokenize ts \<and> (Some ''--c'', [''--c'']) \<in> set ts)"
proof -
  have r: "splice [''vllm'', ''serve'', ''/m'', ''--a'', ''1'', ''--b''] [FlagVal ''--a'' (Some ''2''), FlagVal ''--b'' None, Bare ''--c''] =
     Inr [''vllm'', ''serve'', ''/m'', ''--a'', ''2'', ''--c'']" by code_simp
  obtain ts where ts: "[''vllm'', ''serve'', ''/m'', ''--a'', ''2'', ''--c''] = untokenize ts"
    "\<forall>as e bs f. [FlagVal ''--a'' (Some ''2''), FlagVal ''--b'' None, Bare ''--c''] = as @ e # bs \<and> entry_flag e = Some f \<and>
       (\<forall>d \<in> set bs. entry_flag d \<noteq> Some f) \<longrightarrow>
        (case wants e of Some g \<Rightarrow> (Some f, g) \<in> set ts | None \<Rightarrow> (\<forall>t \<in> set ts. fst t \<noteq> Some f))"
    using splice_changes_named_flags[OF r] by blast
  have "(Some ''--c'', [''--c'']) \<in> set ts"
    using ts(2)[rule_format, of "[FlagVal ''--a'' (Some ''2''), FlagVal ''--b'' None]" "Bare ''--c''" "[]" "''--c''"] by simp
  with r ts(1) show ?thesis by blast
qed

text \<open>C39: The guard on reserved flags compares whole entries: a bare entry of the form
  \<open>--model=path\<close> is accepted and ends up last on any command line.\<close>

theorem model_slips_in: "splice argv [Bare (''--model='' @ p)] = Inr (argv @ [''--model='' @ p])"
proof -
  let ?f = "''--model='' @ p"
  have "CHR ''='' \<notin> set n" if "(Some n, g) \<in> set (tokenize ts)" for n g ts
    using that by (induction ts rule: tokenize.induct) (auto simp: flag_name_def dest: set_takeWhileD split: if_splits)
  then have "last_index ?f (tokenize argv) = None" by (fastforce simp: last_index_None)
  then have "put_group ?f [?f] (tokenize argv) = tokenize argv @ [(Some ?f, [?f])]" by (simp add: put_group_def)
  then show ?thesis
    using tokenize_untokenize[of argv]
    by (simp add: splice_def splice_entry_def is_flag_def RESERVED_def untokenize_def)
qed

text \<open>A value-less flag in front of the model path takes the path as its value, so removing the flag removes
  the path; and of two occurrences of a flag the last one is overridden.\<close>

lemma removal_takes_path: "splice [''vllm'', ''serve'', ''--x'', ''/m''] [FlagVal ''--x'' None] = Inr [''vllm'', ''serve'']"
  by code_simp

lemma override_takes_last:
  "splice [''vllm'', ''serve'', ''--a'', ''1'', ''--a'', ''2''] [FlagVal ''--a'' (Some ''3'')] =
   Inr [''vllm'', ''serve'', ''--a'', ''1'', ''--a'', ''3'']"
  by code_simp

text \<open>A rejected file stops the process; without the switch, or in another process, nothing happens.\<close>

lemma apply_cases:
  "apply_dev_args on argv file = Applied out \<longleftrightarrow>
     on \<and> serves_vllm argv \<and> (\<exists>es. file = Entries es \<and> splice argv es = Inr out)"
  by (auto simp: apply_dev_args_def split: dev_file.splits sum.splits)

end
