(* ===== verification/GemmPlan.thy ===== *)
theory GemmPlan
  imports Prelude
begin

text \<open>
  The decode GEMM on 4-bit weights (\<open>suffix_hybrid/kernels/nvfp4_gemm.py\<close>): the launch plan with its
  environment switches, the workspace bound, the placement of the block scales, the rounding to
  4-bit codes and their packing, and the twin of the kernel's split-K fix-up under any order of the
  blocks. Values a kernel adds are of a type parameter, its f32 addition and final rounding are
  arguments, so nothing is assumed of them.
\<close>

unbundle bit_operations_syntax

section \<open>The plan\<close>

definition MAX_SPLITS :: nat where "MAX_SPLITS = 64"
definition TARGET_CTAS :: nat where "TARGET_CTAS = 4 * 188"
definition MIN_KPS :: nat where "MIN_KPS = 2"
definition PARTIAL_DIV :: nat where "PARTIAL_DIV = 128"
definition STAGE_FLOATS :: nat where "STAGE_FLOATS = 4096"
definition FUSED_QUANT_MAX_M :: nat where "FUSED_QUANT_MAX_M = 64"
definition QUANT_SMEM_MAX :: nat where "QUANT_SMEM_MAX = 20 * 1024"
definition PF_MAX :: nat where "PF_MAX = 255"

datatype fmode = FuseAll | FuseReduce | FuseOff

definition lower :: "string \<Rightarrow> string" where
  "lower s = map (\<lambda>ch. let n = of_char ch :: nat in if 65 \<le> n \<and> n \<le> 90 then char_of (n + 32) else ch) s"

definition fused_mode :: "environ \<Rightarrow> fmode res" where
  "fused_mode e =
     (let raw = lower (py_strip (env_get e ''SUFFIX_NVFP4_GEMM_FUSED'' []))
      in if raw = [] \<or> raw = ''1'' then Inr FuseAll
         else if raw = ''0'' then Inr FuseOff
         else if raw = ''reduce'' then Inr FuseReduce
         else Inl ValueError)"

definition fused_max_m :: "environ \<Rightarrow> int res" where
  "fused_max_m e = (case env_int e ''SUFFIX_NVFP4_GEMM_FUSED_MAX_M'' ''1'' of None \<Rightarrow> Inl ValueError | Some v \<Rightarrow> Inr v)"

definition pf_env :: "environ \<Rightarrow> nat option res" where
  "pf_env e =
     (let raw = py_strip (env_get e ''SUFFIX_NVFP4_GEMM_PF'' [])
      in if raw = [] then Inr None
         else if \<not> list_all (\<lambda>ch. digit_val ch \<noteq> None) raw then Inl ValueError
         else (case py_int raw of
                 None \<Rightarrow> Inl ValueError
               | Some v \<Rightarrow> if int PF_MAX < v then Inl ValueError else Inr (Some (nat v))))"

definition tiles_for :: "nat \<Rightarrow> nat" where "tiles_for m = cdivn m 16"

definition splits_for :: "nat \<Rightarrow> nat \<Rightarrow> nat \<Rightarrow> nat" where
  "splits_for n k m =
     (let ctas = cdivn n 32; want = cdivn TARGET_CTAS ctas;
          cap = min MAX_SPLITS (min ((k div 64) div MIN_KPS) (k div (PARTIAL_DIV * tiles_for m)))
      in max 1 (min want cap))"

definition quant_smem :: "nat \<Rightarrow> nat \<Rightarrow> nat" where
  "quant_smem m kps = m * (kps * 32 + 16) + m * 4 * (kps OR 1)"

definition fused_layout :: "nat \<Rightarrow> nat \<Rightarrow> nat \<Rightarrow> nat \<Rightarrow> nat \<times> nat" where
  "fused_layout m kps splits flags =
     (let q = (if bit flags 0 then quant_smem m kps else 0);
          ch = min (max (STAGE_FLOATS div (32 * m) - 1) 1) splits;
          r = (if bit flags 1 \<and> 1 < splits then (ch + 1) * m * 32 * 4 else 0)
      in (16 + max q r, ch))"

record gemm_plan =
  gp_tiles :: nat
  gp_splits :: nat
  gp_kps :: nat
  gp_grid :: "nat \<times> nat"
  gp_fused_entry :: bool
  gp_partial :: nat
  gp_fq :: bool
  gp_fr :: bool
  gp_flags :: nat
  gp_smem :: nat
  gp_ch :: nat
  gp_launches :: nat

definition plan_mode :: "environ \<Rightarrow> fmode option \<Rightarrow> nat \<Rightarrow> fmode res" where
  "plan_mode e fused m = (case fused of
      Some md \<Rightarrow> Inr md
    | None \<Rightarrow> rbind (fused_mode e) (\<lambda>md. rbind (fused_max_m e) (\<lambda>mm. Inr (if mm < int m then FuseOff else md))))"

definition plan_pf :: "environ \<Rightarrow> int option \<Rightarrow> nat res" where
  "plan_pf e pf = (case pf of
      None \<Rightarrow> rbind (pf_env e) (\<lambda>v. Inr (case v of None \<Rightarrow> 0 | Some x \<Rightarrow> x))
    | Some v \<Rightarrow> if 0 \<le> v \<and> v \<le> int PF_MAX then Inr (nat v) else Inl ValueError)"

definition plan_flags :: "bool \<Rightarrow> bool \<Rightarrow> nat \<Rightarrow> nat" where
  "plan_flags fq fr pf = (of_bool fq OR 2 * of_bool fr OR push_bit 8 pf)"

definition build_plan :: "nat \<Rightarrow> nat \<Rightarrow> nat \<Rightarrow> nat \<Rightarrow> fmode \<Rightarrow> bool \<Rightarrow> nat \<Rightarrow> gemm_plan" where
  "build_plan n m s kps md prequant pf =
     (let fq = (md = FuseAll \<and> \<not> prequant \<and> m \<le> FUSED_QUANT_MAX_M \<and> quant_smem m kps \<le> QUANT_SMEM_MAX);
          fr = (md \<noteq> FuseOff \<and> 1 < s);
          flags = plan_flags fq fr pf
      in \<lparr>gp_tiles = tiles_for m, gp_splits = s, gp_kps = kps, gp_grid = (cdivn n 32, s),
          gp_fused_entry = (flags \<noteq> 0), gp_partial = (if 1 < s then s * m * n else 0),
          gp_fq = fq, gp_fr = fr, gp_flags = flags,
          gp_smem = (if flags \<noteq> 0 then fst (fused_layout m kps s flags) else 0), gp_ch = snd (fused_layout m kps s flags),
          gp_launches = 1 + of_bool (\<not> fq \<and> \<not> prequant) + of_bool (1 < s \<and> \<not> fr)\<rparr>)"

text \<open>A size that makes one of Python's divisions by zero raises.\<close>

definition gemm_launch :: "environ \<Rightarrow> nat \<Rightarrow> nat \<Rightarrow> nat \<Rightarrow> nat option \<Rightarrow> fmode option \<Rightarrow> bool \<Rightarrow> int option \<Rightarrow> gemm_plan res" where
  "gemm_launch e n k m splits fused prequant pf =
     (if m = 0 \<or> k < 64 \<or> splits = Some 0 \<or> (n = 0 \<and> splits = None) then Inl OtherError
      else let s0 = (case splits of None \<Rightarrow> splits_for n k m | Some s \<Rightarrow> s);
               kps = cdivn (k div 64) s0; s = cdivn (k div 64) kps
           in rbind (plan_mode e fused m) (\<lambda>md. rbind (plan_pf e pf) (\<lambda>pfv. Inr (build_plan n m s kps md prequant pfv))))"

definition bucket_tops :: "nat \<Rightarrow> nat list" where
  "bucket_tops max_m = map (\<lambda>t. min (16 * t) max_m) [1..<Suc (tiles_for max_m)]"

definition partial_elems :: "environ \<Rightarrow> nat \<Rightarrow> nat \<Rightarrow> nat \<Rightarrow> nat res" where
  "partial_elems e n k max_m =
     rbind (rmap (\<lambda>m. gemm_launch e n k m None None False None) (bucket_tops max_m)) (\<lambda>ps.
       if ps = [] then Inl ValueError else Inr (Max (gp_partial ` set ps)))"

section \<open>What a plan guarantees\<close>

lemma plan_split:
  "gemm_launch e n k m None fused prequant pf = Inr p \<Longrightarrow>
   \<exists>md pfv. p = build_plan n m (cdivn (k div 64) (cdivn (k div 64) (splits_for n k m))) (cdivn (k div 64) (splits_for n k m)) md prequant pfv
     \<and> plan_pf e pf = Inr pfv \<and> 0 < m \<and> 64 \<le> k \<and> 0 < n"
  by (auto simp: gemm_launch_def Let_def rbind_eq_Inr split: if_splits)

lemma build_plan_simps:
  "gp_splits (build_plan n m s kps md pq pf) = s" "gp_kps (build_plan n m s kps md pq pf) = kps"
  "gp_tiles (build_plan n m s kps md pq pf) = tiles_for m" "gp_grid (build_plan n m s kps md pq pf) = (cdivn n 32, s)"
  "gp_partial (build_plan n m s kps md pq pf) = (if 1 < s then s * m * n else 0)"
  by (simp_all add: build_plan_def Let_def)

lemma cdivn_less: "0 < d \<Longrightarrow> 0 < n \<Longrightarrow> (cdivn n d - 1) * d < n"
proof -
  assume d: "0 < d" and n: "0 < n"
  have "(n + d - 1) div d * d \<le> n + d - 1" by simp
  then have "cdivn n d * d < n + d" using d n unfolding cdivn_def by linarith
  then show ?thesis using d n by (simp add: diff_mult_distrib)
qed

lemma flag_bits: "bit (plan_flags fq fr pf) 0 = fq" "bit (plan_flags fq fr pf) (Suc 0) = fr" "drop_bit 8 (plan_flags fq fr pf) = pf"
proof -
  have two: "2 * of_bool fr = (push_bit 1 (of_bool fr) :: nat)" by (simp add: push_bit_eq_mult)
  have b: "bit (plan_flags fq fr pf) i = (i = 0 \<and> fq \<or> i = 1 \<and> fr \<or> 8 \<le> i \<and> bit pf (i - 8))" for i
  proof -
    have o: "bit (of_bool x :: nat) j = (x \<and> j = 0)" for x j by (cases x) (simp_all add: bit_1_iff[where 'a = nat, simplified])
    show ?thesis unfolding plan_flags_def two bit_or_iff bit_push_bit_iff o by auto
  qed
  show "bit (plan_flags fq fr pf) 0 = fq" "bit (plan_flags fq fr pf) (Suc 0) = fr" unfolding b by simp_all
  show "drop_bit 8 (plan_flags fq fr pf) = pf" by (rule bit_eqI) (simp add: bit_drop_bit_eq b)
qed

lemma cdivn_pos: "0 < d \<Longrightarrow> 0 < n \<Longrightarrow> 0 < cdivn n d"
  using cdivn_ge[of d n] by (cases "cdivn n d") auto

lemma splits_for_bounds:
  "0 < splits_for n k m" "splits_for n k m \<le> MAX_SPLITS"
  "1 < splits_for n k m \<Longrightarrow> splits_for n k m * MIN_KPS \<le> k div 64"
  "1 < splits_for n k m \<Longrightarrow> splits_for n k m * (PARTIAL_DIV * tiles_for m) \<le> k"
proof -
  let ?s = "splits_for n k m"
  define a b w where "a = (k div 64) div MIN_KPS" and "b = k div (PARTIAL_DIV * tiles_for m)" and "w = cdivn TARGET_CTAS (cdivn n 32)"
  have s: "?s = max 1 (min w (min MAX_SPLITS (min a b)))" by (simp add: splits_for_def Let_def a_def b_def w_def)
  show "0 < ?s" unfolding s by simp
  show "?s \<le> MAX_SPLITS" unfolding s MAX_SPLITS_def by linarith
  assume "1 < ?s"
  then have "?s \<le> a" "?s \<le> b" unfolding s by linarith+
  then have "?s \<le> (k div 64) div MIN_KPS" "?s \<le> k div (PARTIAL_DIV * tiles_for m)" by (simp_all only: a_def b_def)
  then show "?s * MIN_KPS \<le> k div 64" "?s * (PARTIAL_DIV * tiles_for m) \<le> k"
    by (metis div_times_less_eq_dividend mult_le_mono1 le_trans)+
qed

lemma tiles_ge: "m \<le> tiles_for m * 16"
  unfolding tiles_for_def by (rule cdivn_ge) simp

lemma smem_bound:
  assumes "0 < m" and "m \<le> 64" and "bit flags 0 \<Longrightarrow> quant_smem m kps \<le> QUANT_SMEM_MAX"
  shows "fst (fused_layout m kps s flags) \<le> 16 + QUANT_SMEM_MAX"
proof -
  define ch where "ch = min (max (STAGE_FLOATS div (32 * m) - 1) 1) s"
  have two: "2 \<le> STAGE_FLOATS div (32 * m)"
  proof -
    have "2 * (32 * m) \<le> STAGE_FLOATS" using assms(2) by (simp add: STAGE_FLOATS_def)
    then show ?thesis using assms(1) by (simp add: less_eq_div_iff_mult_less_eq)
  qed
  then have "ch + 1 \<le> STAGE_FLOATS div (32 * m)" unfolding ch_def by linarith
  then have "(ch + 1) * (32 * m) \<le> STAGE_FLOATS" using div_times_less_eq_dividend mult_le_mono1 le_trans by meson
  then have "(ch + 1) * m * 32 * 4 \<le> QUANT_SMEM_MAX" by (simp add: STAGE_FLOATS_def QUANT_SMEM_MAX_def algebra_simps)
  then have "(if bit flags 1 \<and> 1 < s then (ch + 1) * m * 32 * 4 else 0) \<le> QUANT_SMEM_MAX" by simp
  moreover have "(if bit flags 0 then quant_smem m kps else 0) \<le> QUANT_SMEM_MAX" using assms(3) by simp
  ultimately show ?thesis unfolding fused_layout_def Let_def ch_def[symmetric] fst_conv by linarith
qed

text \<open>A plan for up to 64 rows covers the depth with no empty split, keeps at least two steps a split and at
  most 64 splits, its partial sums stay within an eighth of the weights, its shared memory within
  the budget, and the flags the kernel decodes are the decisions of the plan.\<close>

theorem plan_is_launchable:
  assumes "gemm_launch e n k m None fused prequant pf = Inr p" and "m \<le> 64"
  shows "(gp_splits p - 1) * gp_kps p < k div 64 \<and> k div 64 \<le> gp_splits p * gp_kps p \<and>
     1 \<le> gp_splits p \<and> gp_splits p \<le> MAX_SPLITS \<and> (1 < gp_splits p \<longrightarrow> MIN_KPS \<le> gp_kps p) \<and>
     gp_partial p * 8 \<le> n * k \<and> gp_smem p \<le> 16 + QUANT_SMEM_MAX \<and>
     bit (gp_flags p) 0 = gp_fq p \<and> bit (gp_flags p) 1 = gp_fr p \<and> Inr (drop_bit 8 (gp_flags p)) = plan_pf e pf \<and>
     1 \<le> gp_launches p \<and> gp_launches p \<le> 3"
proof -
  define s0 kps s where "s0 = splits_for n k m" and "kps = cdivn (k div 64) s0" and "s = cdivn (k div 64) kps"
  obtain md pfv where p: "p = build_plan n m s kps md prequant pfv" and pf: "plan_pf e pf = Inr pfv"
    and pos: "0 < m" "64 \<le> k" "0 < n"
    using plan_split[OF assms(1)] by (auto simp: s0_def kps_def s_def)
  have steps: "0 < k div 64" using pos(2) by (simp add: div_greater_zero_iff)
  have s0: "0 < s0" "s0 \<le> MAX_SPLITS" using splits_for_bounds[of n k m] by (simp_all add: s0_def)
  have kps: "0 < kps" unfolding kps_def using s0(1) steps by (rule cdivn_pos)
  have s1: "0 < s" unfolding s_def using kps steps by (rule cdivn_pos)
  have sle: "s \<le> s0" unfolding s_def
    using kps cdivn_ge[OF s0(1), of "k div 64"] by (intro cdivn_le) (simp_all add: kps_def mult.commute)
  have cover: "(s - 1) * kps < k div 64" "k div 64 \<le> s * kps"
    unfolding s_def using cdivn_less[OF kps steps] cdivn_ge[OF kps, of "k div 64"] by simp_all
  have deep: "MIN_KPS \<le> kps" if "1 < s"
  proof (rule ccontr)
    assume "\<not> MIN_KPS \<le> kps"
    then have "kps \<le> 1" by (simp add: MIN_KPS_def)
    moreover have "k div 64 \<le> kps * s0" unfolding kps_def by (rule cdivn_ge[OF s0(1)])
    ultimately have "k div 64 \<le> s0" using kps by (metis One_nat_def le_antisym mult_1 Suc_leI)
    moreover have "s0 * MIN_KPS \<le> k div 64" using splits_for_bounds(3)[of n k m] that sle by (simp add: s0_def)
    ultimately show False using steps s0(1) by (simp add: MIN_KPS_def)
  qed
  have part: "(if 1 < s then s * m * n else 0) * 8 \<le> n * k"
  proof (cases "1 < s")
    case True
    then have "s0 * (PARTIAL_DIV * tiles_for m) \<le> k" using splits_for_bounds(4)[of n k m] sle by (simp add: s0_def)
    moreover have "s * m * 8 \<le> s0 * (PARTIAL_DIV * tiles_for m)"
    proof -
      have "m * 8 \<le> PARTIAL_DIV * tiles_for m" using tiles_ge[of m] by (simp add: PARTIAL_DIV_def)
      then have "s * (m * 8) \<le> s0 * (PARTIAL_DIV * tiles_for m)" using sle by (rule mult_le_mono[rotated])
      then show ?thesis by (simp add: mult.assoc)
    qed
    ultimately have "s * m * 8 \<le> k" by linarith
    then have "s * m * 8 * n \<le> k * n" by (rule mult_le_mono1)
    then show ?thesis using True by (simp add: ac_simps)
  qed simp
  define fq where "fq = (md = FuseAll \<and> \<not> prequant \<and> m \<le> FUSED_QUANT_MAX_M \<and> quant_smem m kps \<le> QUANT_SMEM_MAX)"
  define fr where "fr = (md \<noteq> FuseOff \<and> 1 < s)"
  have f: "gp_fq p = fq" "gp_fr p = fr" "gp_flags p = plan_flags fq fr pfv"
    "gp_smem p = (if plan_flags fq fr pfv \<noteq> 0 then fst (fused_layout m kps s (plan_flags fq fr pfv)) else 0)"
    "gp_launches p = 1 + of_bool (\<not> fq \<and> \<not> prequant) + of_bool (1 < s \<and> \<not> fr)"
    by (simp_all add: p build_plan_def Let_def fq_def fr_def)
  have "gp_smem p \<le> 16 + QUANT_SMEM_MAX"
    unfolding f using smem_bound[OF pos(1) assms(2), of "plan_flags fq fr pfv" kps s] flag_bits(1)[of fq fr pfv]
    by (auto simp: fq_def)
  moreover have "1 \<le> gp_launches p \<and> gp_launches p \<le> 3" unfolding f by simp
  ultimately show ?thesis
    using cover s1 sle s0(2) deep part flag_bits[of fq fr pfv] pf f
    by (simp add: p build_plan_simps)
qed

lemma plan_is_launchable_witness:
  "\<exists>p. gemm_launch [] 64 256 5 None (Some FuseAll) False (Some 8) = Inr p \<and> gp_splits p = 2 \<and> gp_kps p = 2 \<and>
     gp_partial p * 8 \<le> 64 * 256 \<and> drop_bit 8 (gp_flags p) = 8"
proof -
  obtain p where p: "gemm_launch [] 64 256 5 None (Some FuseAll) False (Some 8) = Inr p" "gp_splits p = 2 \<and> gp_kps p = 2"
    by (simp add: gemm_launch_def Let_def plan_mode_def plan_pf_def PF_MAX_def build_plan_simps splits_for_def cdivn_def
        TARGET_CTAS_def MAX_SPLITS_def MIN_KPS_def PARTIAL_DIV_def tiles_for_def numeral_2_eq_2[symmetric])
  have "plan_pf [] (Some 8) = Inr 8" by (simp add: plan_pf_def PF_MAX_def)
  with plan_is_launchable[OF p(1)] p show ?thesis by simp
qed

section \<open>The workspace\<close>

text \<open>C38: The workspace computed from the tops of the row buckets is enough for the partial sums of every row
  count up to the maximum, and no switch makes it fail where a plan succeeds.\<close>

theorem workspace_suffices:
  assumes "partial_elems e n k max_m = Inr w" and "0 < m" and "m \<le> max_m"
  shows "\<exists>p. gemm_launch e n k m None None False None = Inr p \<and> gp_partial p \<le> w"
proof -
  obtain ps where ps: "rmap (\<lambda>m. gemm_launch e n k m None None False None) (bucket_tops max_m) = Inr ps" "w = Max (gp_partial ` set ps)"
    using assms(1) by (auto simp: partial_elems_def rbind_eq_Inr split: if_splits)
  define top where "top = min (16 * tiles_for m) max_m"
  have t: "0 < tiles_for m" unfolding tiles_for_def using assms(2) by (intro cdivn_pos) simp_all
  have "tiles_for m \<le> tiles_for max_m"
    unfolding tiles_for_def using assms(3) cdivn_ge[of 16 max_m] by (intro cdivn_le) linarith+
  then have mem: "top \<in> set (bucket_tops max_m)" using t by (auto simp: bucket_tops_def top_def)
  have top: "m \<le> top" "top \<le> 16 * tiles_for m" using tiles_ge[of m] assms(3) by (simp_all add: top_def)
  have same: "tiles_for top = tiles_for m"
  proof (rule antisym)
    show "tiles_for top \<le> tiles_for m" unfolding tiles_for_def[of top] using top(2) by (intro cdivn_le) simp_all
    show "tiles_for m \<le> tiles_for top" unfolding tiles_for_def[of m] using top(1) tiles_ge[of top] by (intro cdivn_le) linarith+
  qed
  obtain q where q: "gemm_launch e n k top None None False None = Inr q" "q \<in> set ps"
    using ps(1) mem by (rule rmap_mem)
  have sf: "splits_for n k top = splits_for n k m" by (simp add: splits_for_def same)
  obtain md pfv where qs: "q = build_plan n top (cdivn (k div 64) (cdivn (k div 64) (splits_for n k m))) (cdivn (k div 64) (splits_for n k m)) md False pfv"
    "plan_pf e None = Inr pfv" "64 \<le> k" "0 < n"
    using plan_split[OF q(1)] by (auto simp: sf)
  have "\<exists>md'. plan_mode e None m = Inr md'"
    using q(1) by (auto simp: gemm_launch_def plan_mode_def rbind_eq_Inr Let_def split: if_splits)
  then obtain md' where md': "plan_mode e None m = Inr md'" by blast
  have pm: "gemm_launch e n k m None None False None =
      Inr (build_plan n m (cdivn (k div 64) (cdivn (k div 64) (splits_for n k m))) (cdivn (k div 64) (splits_for n k m)) md' False pfv)"
    using assms(2) qs(2-4) md' by (simp add: gemm_launch_def Let_def)
  have "gp_partial (build_plan n m (cdivn (k div 64) (cdivn (k div 64) (splits_for n k m))) (cdivn (k div 64) (splits_for n k m)) md' False pfv)
      \<le> gp_partial q" using top(1) by (simp add: qs(1) build_plan_simps)
  also have "\<dots> \<le> w" unfolding ps(2) using q(2) by simp
  finally show ?thesis using pm by blast
qed

lemma workspace_suffices_witness:
  "partial_elems [] 64 256 16 = Inr 2048 \<and> (\<exists>p. gemm_launch [] 64 256 7 None None False None = Inr p \<and> gp_partial p \<le> 2048)"
proof -
  have w: "partial_elems [] 64 256 16 = Inr 2048"
    by (simp add: partial_elems_def bucket_tops_def tiles_for_def cdivn_def rbind_eq_Inr gemm_launch_def Let_def plan_mode_def
        plan_pf_def fused_mode_def fused_max_m_def pf_env_def env_get_def env_int_def dict_or_def py_strip_def py_int_def
        is_blank_def digit_val_def lower_def upt_rec splits_for_def build_plan_simps
        TARGET_CTAS_def MAX_SPLITS_def MIN_KPS_def PARTIAL_DIV_def numeral_2_eq_2[symmetric])
  from workspace_suffices[OF w, of 7] w show ?thesis by simp
qed

section \<open>Four-bit codes\<close>

definition E2M1 :: "rat list" where "E2M1 = [0, 1/2, 1, 3/2, 2, 3, 4, 6]"
definition MIDS :: "rat list" where "MIDS = [1/4, 3/4, 5/4, 7/4, 5/2, 7/2, 5]"

text \<open>The code of a magnitude: the midpoints below it, and a midpoint hit with an odd index.\<close>

definition e2m1_code :: "rat \<Rightarrow> nat" where
  "e2m1_code v = (let a = min \<bar>v\<bar> 6
     in length (filter (\<lambda>x. x < a) MIDS) + length (filter (\<lambda>i. MIDS ! i = a \<and> i mod 2 = 1) [0..<7]))"

definition signed_code :: "rat \<Rightarrow> nat" where
  "signed_code v = (e2m1_code v OR (if v < 0 then 8 else 0))"

definition decode_code :: "nat \<Rightarrow> rat" where
  "decode_code c = E2M1 ! (c AND 7) * (if bit c 3 then -1 else 1)"

definition pack_pair :: "nat \<Rightarrow> nat \<Rightarrow> nat" where "pack_pair lo hi = (lo OR push_bit 4 hi)"

definition unpack_pair :: "nat \<Rightarrow> nat \<times> nat" where "unpack_pair b = (b AND 15, drop_bit 4 b)"

lemma seven: "[0..<7] = [0, 1, 2, 3, 4, 5, 6 :: nat]"
  by (simp add: upt_rec)

lemma e2m1_code_cases:
  "a = min \<bar>v\<bar> 6 \<Longrightarrow> e2m1_code v =
    (if a \<le> 1/4 then 0 else if a < 3/4 then 1 else if a \<le> 5/4 then 2 else if a < 7/4 then 3 else if a \<le> 5/2 then 4
     else if a < 7/2 then 5 else if a \<le> 5 then 6 else 7)"
  unfolding e2m1_code_def Let_def MIDS_def seven by auto

text \<open>The code of a value is a nearest 4-bit magnitude, the even code where two are as near.\<close>

theorem e2m1_nearest:
  "e2m1_code v < 8 \<and> (\<forall>c < 8. \<bar>E2M1 ! e2m1_code v - min \<bar>v\<bar> 6\<bar> \<le> \<bar>E2M1 ! c - min \<bar>v\<bar> 6\<bar> \<and>
     (c \<noteq> e2m1_code v \<and> \<bar>E2M1 ! c - min \<bar>v\<bar> 6\<bar> = \<bar>E2M1 ! e2m1_code v - min \<bar>v\<bar> 6\<bar> \<longrightarrow> even (e2m1_code v)))"
proof -
  define a where "a = min \<bar>v\<bar> 6"
  have a: "0 \<le> a" "a \<le> 6" by (simp_all add: a_def)
  note code = e2m1_code_cases[OF a_def]
  have eight: "(\<forall>c < 8. P c) \<longleftrightarrow> P 0 \<and> P 1 \<and> P 2 \<and> P 3 \<and> P 4 \<and> P 5 \<and> P 6 \<and> P (7 :: nat)" for P
    by (auto simp: eval_nat_numeral All_less_Suc)
  define e where "e = e2m1_code v"
  consider "a \<le> 1/4" "e = 0" | "1/4 < a" "a < 3/4" "e = 1" | "3/4 \<le> a" "a \<le> 5/4" "e = 2" | "5/4 < a" "a < 7/4" "e = 3"
    | "7/4 \<le> a" "a \<le> 5/2" "e = 4" | "5/2 < a" "a < 7/2" "e = 5" | "7/2 \<le> a" "a \<le> 5" "e = 6" | "5 < a" "e = 7"
    using code unfolding e_def by (auto split: if_splits)
  then show ?thesis unfolding a_def[symmetric] e_def[symmetric] eight E2M1_def using a
    by cases (simp_all add: abs_if)
qed

lemma e2m1_nearest_witness: "e2m1_code (5/2) = 4 \<and> even (e2m1_code (5/2))"
  using e2m1_nearest[of "5/2"] by (simp add: e2m1_code_def MIDS_def seven)

lemma or_small: "x < 2 ^ k \<Longrightarrow> y < 2 ^ k \<Longrightarrow> x OR y < (2 :: nat) ^ k"
  by (metis take_bit_nat_eq_self_iff take_bit_or)

text \<open>It decodes to that magnitude with the sign of the value.\<close>

lemma decode_signed: "decode_code (signed_code v) = (if v < 0 then - (E2M1 ! e2m1_code v) else E2M1 ! e2m1_code v)"
proof -
  have "e2m1_code v \<in> {0, 1, 2, 3, 4, 5, 6, 7}" by (simp add: e2m1_code_cases[OF refl])
  then show ?thesis by (auto simp: decode_code_def signed_code_def bit_0 E2M1_def)
qed

lemma code_range: "signed_code v < 16"
proof -
  have "e2m1_code v < 2 ^ 4" by (simp add: e2m1_code_cases[OF refl])
  then have "signed_code v < 2 ^ 4" unfolding signed_code_def by (rule or_small) simp_all
  then show ?thesis by simp
qed

text \<open>Two codes share a byte and come back.\<close>

lemma unpack_pack: "lo < 16 \<Longrightarrow> hi < 16 \<Longrightarrow> unpack_pair (pack_pair lo hi) = (lo, hi)"
proof -
  assume l: "lo < 16" and h: "hi < 16"
  have b: "\<not> bit lo i" if "4 \<le> i" for i
  proof -
    have "lo < 2 ^ i" using l power_increasing[OF that, of "2 :: nat"] by simp
    then show ?thesis by (simp add: bit_iff_odd)
  qed
  have "pack_pair lo hi AND 15 = lo"
  proof (rule bit_eqI)
    fix i
    have "bit (15 :: nat) i = (i < 4)" using bit_mask_iff[of 4 i, where 'a = nat] by (simp add: mask_eq_exp_minus_1)
    then show "bit (pack_pair lo hi AND 15) i = bit lo i"
      using b[of i] by (auto simp: pack_pair_def bit_simps)
  qed
  moreover have "drop_bit 4 (pack_pair lo hi) = hi"
    by (rule bit_eqI) (use b in \<open>auto simp: pack_pair_def bit_simps\<close>)
  ultimately show ?thesis by (simp add: unpack_pair_def)
qed

section \<open>Block scales\<close>

text \<open>Scales padded to multiples of 128 rows and 4 blocks, cut into tiles of 4 times 32 rows and 4 blocks and
  laid out tile by tile with the row inside a quarter outermost: the flattened transpose of the source.\<close>

definition padded_scale :: "nat list list \<Rightarrow> nat \<Rightarrow> nat \<Rightarrow> nat" where
  "padded_scale sf row kb = (if row < length sf \<and> kb < length (sf ! row) then sf ! row ! kb else 0)"

definition swizzle_sf :: "nat list list \<Rightarrow> nat \<Rightarrow> nat list" where
  "swizzle_sf sf c =
     (let rp = cdivn (length sf) 128 * 128; cp = cdivn c 4 * 4
      in map (\<lambda>p. let l = p mod 4; j = p div 4 mod 4; i = p div 16 mod 32; q = p div 512 mod (cp div 4); a = p div 512 div (cp div 4)
                  in padded_scale sf (a * 128 + j * 32 + i) (q * 4 + l)) [0..<rp * cp])"

definition sf_offset :: "nat \<Rightarrow> nat \<Rightarrow> nat \<Rightarrow> nat" where
  "sf_offset row kb kb_pad =
     (let atom = (row div 128) * (kb_pad div 4) + kb div 4
      in atom * 512 + (row mod 32) * 16 + ((row div 32) mod 4) * 4 + kb mod 4)"

lemma offset_digits:
  fixes a i j l :: nat
  assumes "i < 32" "j < 4" "l < 4" and p: "p = a * 512 + i * 16 + j * 4 + l"
  shows "p mod 4 = l" "p div 4 mod 4 = j" "p div 16 mod 32 = i" "p div 512 = a"
proof -
  have p4: "p = l + 4 * (j + 4 * (i + 32 * a))" by (simp add: p)
  have d4: "p div 4 = j + 4 * (i + 32 * a)" unfolding p4 using assms(3) by simp
  have "p div 16 = p div 4 div 4" by (simp add: div_mult2_eq[symmetric])
  then have d16: "p div 16 = i + 32 * a" unfolding d4 using assms(2) by simp
  have "p div 512 = p div 16 div 32" by (simp add: div_mult2_eq[symmetric])
  then show "p div 512 = a" unfolding d16 using assms(1) by simp
  show "p mod 4 = l" unfolding p4 mod_mult_self2 using assms(3) by simp
  show "p div 4 mod 4 = j" unfolding d4 mod_mult_self2 using assms(2) by simp
  show "p div 16 mod 32 = i" unfolding d16 mod_mult_self2 using assms(1) by simp
qed

text \<open>C40: The offset the kernel reads the scale of a row and block at is where the swizzle has put it, inside the
  padded buffer.\<close>

theorem scale_at_offset:
  assumes "row < length sf" and "kb < c" and "\<And>r. r < length sf \<Longrightarrow> length (sf ! r) = c"
  shows "sf_offset row kb (cdivn c 4 * 4) < length (swizzle_sf sf c) \<and>
     swizzle_sf sf c ! sf_offset row kb (cdivn c 4 * 4) = sf ! row ! kb"
proof -
  let ?A = "cdivn (length sf) 128" and ?Q = "cdivn c 4"
  have cq: "?Q * 4 div 4 = ?Q" by simp
  define i j l a q where "i = row mod 32" and "j = (row div 32) mod 4" and "l = kb mod 4" and "a = row div 128" and "q = kb div 4"
  have small: "i < 32" "j < 4" "l < 4" by (simp_all add: i_def j_def l_def)
  have q: "q < ?Q" unfolding q_def using assms(2) cdivn_ge[of 4 c] by (simp add: div_less_iff_less_mult)
  have a: "a < ?A" unfolding a_def using assms(1) cdivn_ge[of 128 "length sf"] by (simp add: div_less_iff_less_mult)
  define p where "p = sf_offset row kb (?Q * 4)"
  have p: "p = (a * ?Q + q) * 512 + i * 16 + j * 4 + l"
    by (simp add: p_def sf_offset_def Let_def i_def j_def l_def a_def q_def)
  note dig = offset_digits[OF small p]
  have "p < (a * ?Q + q + 1) * 512" unfolding p using small by simp
  also have "\<dots> \<le> (?A * ?Q) * 512"
  proof -
    have "a * ?Q + q + 1 \<le> (a + 1) * ?Q" using q by simp
    also have "\<dots> \<le> ?A * ?Q" using a by (intro mult_le_mono1) simp
    finally show ?thesis by (rule mult_le_mono1)
  qed
  finally have pl: "p < ?A * 128 * (?Q * 4)" by (simp add: ac_simps)
  have row: "a * 128 + j * 32 + i = row"
  proof -
    have "row div 32 div 4 = row div 128" by (simp add: div_mult2_eq[symmetric])
    then have "row div 32 = a * 4 + j" unfolding a_def j_def by (metis div_mult_mod_eq)
    then show ?thesis unfolding i_def using div_mult_mod_eq[of row 32] by simp
  qed
  have kb: "q * 4 + l = kb" by (simp add: q_def l_def)
  have aq: "p div 512 mod ?Q = q" "p div 512 div ?Q = a" using q dig(4) by simp_all
  have "swizzle_sf sf c ! p = padded_scale sf row kb"
    unfolding swizzle_sf_def Let_def cq using pl by (simp add: dig(1-3) aq row kb)
  moreover have "length (swizzle_sf sf c) = ?A * 128 * (?Q * 4)" by (simp add: swizzle_sf_def Let_def)
  ultimately show ?thesis using pl assms p_def by (simp add: padded_scale_def)
qed

lemma scale_at_offset_witness: "swizzle_sf [[5, 6, 7, 8, 9]] 5 ! sf_offset 0 4 8 = 9"
  using scale_at_offset[of 0 "[[5, 6, 7, 8, 9]]" 4 5] by (simp add: cdivn_def)

section \<open>The split-K fix-up\<close>

text \<open>The blocks arrive in any order; each leaves its partial sums and draws a ticket of its column tile; the
  one that draws the last ticket adds the partial sums of all splits, \<open>ch\<close> at a time, in split order.\<close>

record 'o fix_state =
  fx_written :: "(nat \<times> nat) list"
  fx_counters :: "nat \<Rightarrow> nat"
  fx_out :: "nat \<Rightarrow> nat \<Rightarrow> 'o"

function stage_sum :: "('a \<Rightarrow> 'a \<Rightarrow> 'a) \<Rightarrow> (nat \<Rightarrow> 'a) \<Rightarrow> nat \<Rightarrow> nat \<Rightarrow> nat \<Rightarrow> 'a \<Rightarrow> 'a" where
  "stage_sum add f ch n s0 acc =
     (if n \<le> s0 \<or> ch = 0 then acc
      else let cn = min ch (n - s0) in stage_sum add f ch n (s0 + cn) (foldl add acc (map f [s0..<s0 + cn])))"
  by pat_completeness auto
termination by (relation "measure (\<lambda>(add, f, ch, n, s0, acc). n - s0)") auto

declare stage_sum.simps [simp del]

definition reduce_ref :: "('a \<Rightarrow> 'a \<Rightarrow> 'a) \<Rightarrow> 'a \<Rightarrow> ('a \<Rightarrow> 'o) \<Rightarrow> nat \<Rightarrow> (nat \<Rightarrow> nat \<Rightarrow> nat \<Rightarrow> 'a) \<Rightarrow> nat \<Rightarrow> nat \<Rightarrow> 'o" where
  "reduce_ref add zero fin sn part row col = fin (foldl add zero (map (\<lambda>s. part s row col) [0..<sn]))"

definition fix_step :: "('a \<Rightarrow> 'a \<Rightarrow> 'a) \<Rightarrow> 'a \<Rightarrow> ('a \<Rightarrow> 'o) \<Rightarrow> nat \<Rightarrow> nat \<Rightarrow> nat \<Rightarrow> nat \<Rightarrow> (nat \<Rightarrow> nat \<Rightarrow> nat \<Rightarrow> 'a) \<Rightarrow>
    nat \<times> nat \<Rightarrow> 'o fix_state \<Rightarrow> 'o fix_state res" where
  "fix_step add zero fin m n ch sn part arr st =
     (let (x, sp) = arr; written = (x, sp) # fx_written st; t = fx_counters st x;
          st1 = st\<lparr>fx_written := written, fx_counters := (fx_counters st)(x := if sn - 1 \<le> t then 0 else t + 1)\<rparr>
      in if t \<noteq> sn - 1 then Inr st1
         else if \<not> list_all (\<lambda>s. (x, s) \<in> set written) [0..<sn] then Inl OtherError
         else Inr (st1\<lparr>fx_out := (\<lambda>row col.
                if row < m \<and> col div 32 = x \<and> col < n then fin (stage_sum add (\<lambda>s. part s row col) ch sn 0 zero)
                else fx_out st row col)\<rparr>))"

fun fixup :: "('a \<Rightarrow> 'a \<Rightarrow> 'a) \<Rightarrow> 'a \<Rightarrow> ('a \<Rightarrow> 'o) \<Rightarrow> nat \<Rightarrow> nat \<Rightarrow> nat \<Rightarrow> nat \<Rightarrow> (nat \<Rightarrow> nat \<Rightarrow> nat \<Rightarrow> 'a) \<Rightarrow>
    (nat \<times> nat) list \<Rightarrow> 'o fix_state \<Rightarrow> 'o fix_state res" where
  "fixup add zero fin m n ch sn part [] st = Inr st"
| "fixup add zero fin m n ch sn part (arr # order) st =
     rbind (fix_step add zero fin m n ch sn part arr st) (fixup add zero fin m n ch sn part order)"

lemma stage_sum_all: "0 < ch \<Longrightarrow> s0 \<le> n \<Longrightarrow> stage_sum add f ch n s0 acc = foldl add acc (map f [s0..<n])"
proof (induction add f ch n s0 acc rule: stage_sum.induct)
  case (1 add f ch n s0 acc)
  show ?case
  proof (cases "n \<le> s0")
    case True
    then show ?thesis by (simp add: stage_sum.simps[of add f ch n s0])
  next
    case False
    define cn where "cn = min ch (n - s0)"
    have c: "s0 + cn \<le> n" using False by (simp add: cn_def)
    have "[s0..<n] = [s0..<s0 + cn] @ [s0 + cn..<n]" using upt_add_eq_append[of s0 "s0 + cn" "n - (s0 + cn)"] c by simp
    then show ?thesis
      using "1.IH"[OF _ cn_def] "1.prems" False c by (simp add: stage_sum.simps[of add f ch n s0] cn_def[symmetric] Let_def)
  qed
qed

text \<open>After a prefix of the arrivals: what each tile has been through.\<close>

definition fix_inv :: "('a \<Rightarrow> 'a \<Rightarrow> 'a) \<Rightarrow> 'a \<Rightarrow> ('a \<Rightarrow> 'o) \<Rightarrow> nat \<Rightarrow> nat \<Rightarrow> nat \<Rightarrow> (nat \<Rightarrow> nat \<Rightarrow> nat \<Rightarrow> 'a) \<Rightarrow>
    (nat \<times> nat) set \<Rightarrow> 'o fix_state \<Rightarrow> bool" where
  "fix_inv add zero fin m n sn part seen st \<longleftrightarrow> finite seen \<and> seen \<subseteq> UNIV \<times> {..<sn} \<and> set (fx_written st) = seen \<and>
     (\<forall>x. let cnt = card {s. (x, s) \<in> seen}
          in fx_counters st x = (if cnt = sn then 0 else cnt) \<and>
             (cnt = sn \<longrightarrow> (\<forall>row < m. \<forall>col < n. col div 32 = x \<longrightarrow> fx_out st row col = reduce_ref add zero fin sn part row col)))"

lemma fix_step_inv:
  assumes inv: "fix_inv add zero fin m n sn part seen st" and sn: "0 < sn" and ch: "0 < ch"
    and new: "(x, sp) \<notin> seen" "sp < sn"
  shows "\<exists>st'. fix_step add zero fin m n ch sn part (x, sp) st = Inr st' \<and> fix_inv add zero fin m n sn part (insert (x, sp) seen) st'"
proof -
  let ?c = "\<lambda>y. card {s. (y, s) \<in> seen}" and ?c' = "\<lambda>y. card {s. (y, s) \<in> insert (x, sp) seen}"
  have fs: "finite {s. (y, s) \<in> seen}" "{s. (y, s) \<in> seen} \<subseteq> {..<sn}" for y
    using inv by (auto simp: fix_inv_def intro: finite_subset[of _ "{..<sn}"])
  have cx: "?c' x = Suc (?c x)"
  proof -
    have "{s. (x, s) \<in> insert (x, sp) seen} = insert sp {s. (x, s) \<in> seen}" by auto
    then show ?thesis using fs(1) new by simp
  qed
  have cy: "?c' y = ?c y" if "y \<noteq> x" for y using that by (intro arg_cong[of _ _ card]) auto
  have lt: "?c x < sn"
  proof -
    have "{s. (x, s) \<in> seen} \<subset> {..<sn}" using fs(2)[of x] new by blast
    from psubset_card_mono[OF _ this] show ?thesis by simp
  qed
  have cnt: "fx_counters st y = (if ?c y = sn then 0 else ?c y)" for y using inv by (simp add: fix_inv_def Let_def)
  have tick: "fx_counters st x = ?c x" using cnt[of x] lt by simp
  have wr: "set (fx_written st) = seen" using inv by (simp add: fix_inv_def)
  define st1 where "st1 = st\<lparr>fx_written := (x, sp) # fx_written st,
      fx_counters := (fx_counters st)(x := if sn - 1 \<le> ?c x then 0 else ?c x + 1)\<rparr>"
  have base: "finite (insert (x, sp) seen)" "insert (x, sp) seen \<subseteq> UNIV \<times> {..<sn}" using inv new by (auto simp: fix_inv_def)
  have counters: "fx_counters st1 y = (if ?c' y = sn then 0 else ?c' y)" for y
    using cnt[of y] lt cx cy[of y] sn by (cases "y = x") (auto simp: st1_def)
  have old: "fx_out st row col = reduce_ref add zero fin sn part row col"
    if "y \<noteq> x" "?c' y = sn" "row < m" "col < n" "col div 32 = y" for y row col
    using inv that cy[of y] by (auto simp: fix_inv_def Let_def)
  show ?thesis
  proof (cases "?c x = sn - 1")
    case False
    have "fix_step add zero fin m n ch sn part (x, sp) st = Inr st1"
      using False by (simp add: fix_step_def Let_def tick st1_def)
    moreover have "fix_inv add zero fin m n sn part (insert (x, sp) seen) st1"
    proof -
      have nx: "?c' x \<noteq> sn" using cx False sn by linarith
      have "fx_out st1 row col = reduce_ref add zero fin sn part row col"
        if "?c' y = sn" "row < m" "col < n" "col div 32 = y" for y row col
        using that nx old[of y row col] by (cases "y = x") (simp_all add: st1_def)
      then show ?thesis unfolding fix_inv_def Let_def using base counters wr by (simp add: st1_def)
    qed
    ultimately show ?thesis by blast
  next
    case True
    have full: "{s. (x, s) \<in> insert (x, sp) seen} = {..<sn}"
    proof (rule card_subset_eq)
      show "{s. (x, s) \<in> insert (x, sp) seen} \<subseteq> {..<sn}" using fs(2)[of x] new by auto
      show "card {s. (x, s) \<in> insert (x, sp) seen} = card {..<sn}" using cx True sn by simp
    qed simp
    define st2 where "st2 = st1\<lparr>fx_out := (\<lambda>row col.
        if row < m \<and> col div 32 = x \<and> col < n then fin (stage_sum add (\<lambda>s. part s row col) ch sn 0 zero) else fx_out st row col)\<rparr>"
    have "list_all (\<lambda>s. (x, s) \<in> set ((x, sp) # fx_written st)) [0..<sn]"
    proof -
      have "(x, s) \<in> insert (x, sp) seen" if "s < sn" for s using full that by blast
      then show ?thesis unfolding list_all_iff by (simp add: wr)
    qed
    then have "fix_step add zero fin m n ch sn part (x, sp) st = Inr st2"
      using True by (simp add: fix_step_def Let_def tick st1_def st2_def)
    moreover have "fix_inv add zero fin m n sn part (insert (x, sp) seen) st2"
    proof -
      have "fx_out st2 row col = reduce_ref add zero fin sn part row col"
        if "?c' y = sn" "row < m" "col < n" "col div 32 = y" for y row col
        using that old[of y row col] by (cases "y = x") (simp_all add: st2_def reduce_ref_def stage_sum_all[OF ch])
      then show ?thesis unfolding fix_inv_def Let_def using base counters wr by (simp add: st2_def st1_def)
    qed
    ultimately show ?thesis by blast
  qed
qed

lemma fixup_inv:
  "fix_inv add zero fin m n sn part seen st \<Longrightarrow> 0 < sn \<Longrightarrow> 0 < ch \<Longrightarrow> distinct order \<Longrightarrow> set order \<inter> seen = {} \<Longrightarrow>
   set order \<subseteq> UNIV \<times> {..<sn} \<Longrightarrow>
   \<exists>st'. fixup add zero fin m n ch sn part order st = Inr st' \<and> fix_inv add zero fin m n sn part (set order \<union> seen) st'"
proof (induction order arbitrary: seen st)
  case (Cons arr order)
  obtain x sp where arr: "arr = (x, sp)" by (cases arr)
  then obtain st1 where st1: "fix_step add zero fin m n ch sn part arr st = Inr st1"
    "fix_inv add zero fin m n sn part (insert arr seen) st1"
    using fix_step_inv[OF Cons.prems(1-3), of x sp] Cons.prems(5,6) by auto
  have "\<exists>st'. fixup add zero fin m n ch sn part order st1 = Inr st' \<and> fix_inv add zero fin m n sn part (set order \<union> insert arr seen) st'"
    by (rule Cons.IH[OF st1(2)]) (use Cons.prems in auto)
  then show ?case using st1(1) by simp
qed simp

text \<open>C32: Whatever order the blocks arrive in, the fix-up reads no partial sum before it is written, leaves in every
  cell what the separate reduction kernel computes, addition by addition, and every counter back at
  zero for the next launch.\<close>

theorem fixup_any_order:
  assumes "distinct order" and "set order = {..<cdivn n 32} \<times> {..<sn}" and "0 < sn" and "0 < ch"
    and "\<And>x. fx_counters st x = 0" and "fx_written st = []"
  shows "\<exists>st'. fixup add zero fin m n ch sn part order st = Inr st' \<and> (\<forall>x. fx_counters st' x = 0) \<and>
     (\<forall>row < m. \<forall>col < n. fx_out st' row col = reduce_ref add zero fin sn part row col)"
proof -
  have "fix_inv add zero fin m n sn part {} st" using assms(3,5,6) by (simp add: fix_inv_def)
  from fixup_inv[OF this assms(3,4,1)] assms(2) obtain st' where
    st': "fixup add zero fin m n ch sn part order st = Inr st'" "fix_inv add zero fin m n sn part (set order) st'" by auto
  have c: "card {s. (x, s) \<in> set order} = (if x < cdivn n 32 then sn else 0)" for x
  proof -
    have "{s. (x, s) \<in> set order} = (if x < cdivn n 32 then {..<sn} else {})" by (auto simp: assms(2))
    then show ?thesis by simp
  qed
  have "col div 32 < cdivn n 32" if "col < n" for col
    using that cdivn_ge[of 32 n] by (simp add: div_less_iff_less_mult)
  then show ?thesis using st' c assms(3) by (auto simp: fix_inv_def Let_def split: if_splits)
qed

lemma fixup_any_order_witness:
  "\<exists>st'. fixup (+) 0 id 1 33 1 2 (\<lambda>s row col. Suc s) [(1, 1), (0, 0), (1, 0), (0, 1)]
       \<lparr>fx_written = [], fx_counters = (\<lambda>_. 0), fx_out = (\<lambda>_ _. 0)\<rparr> = Inr st' \<and> fx_out st' 0 32 = 3"
proof -
  have s: "set [(1, 1), (0, 0), (1, 0), (0 :: nat, 1 :: nat)] = {..<cdivn 33 32} \<times> {..<2}"
    by (auto simp: cdivn_def less_Suc_eq numeral_2_eq_2)
  obtain st' where "fixup (+) 0 id 1 33 1 2 (\<lambda>s row col. Suc s) [(1, 1), (0, 0), (1, 0), (0, 1)]
       \<lparr>fx_written = [], fx_counters = (\<lambda>_. 0), fx_out = (\<lambda>_ _. 0 :: nat)\<rparr> = Inr st'"
    "\<forall>row < 1. \<forall>col < 33. fx_out st' row col = reduce_ref (+) 0 id 2 (\<lambda>s row col. Suc s) row col"
    using fixup_any_order[OF _ s, of 1 "\<lparr>fx_written = [], fx_counters = (\<lambda>_. 0), fx_out = (\<lambda>_ _. 0 :: nat)\<rparr>" "(+)" 0 id 1
        "\<lambda>s row col. Suc s"] by auto
  then show ?thesis by (intro exI[of _ st']) (simp add: reduce_ref_def numeral_2_eq_2)
qed

end
