(* ===== verification/Spec2Isabelle.thy ===== *)
theory Spec2Isabelle
  imports NativeHook AsyncSpec NcclSplit IdleTune WrapV1 SchedSync HostAllReduce ResidencyLaunch SpecInstall FastPath SftService DsaSelect DevArgs GemmPlan
begin

text \<open>
  A verification library for \<open>vllm-suffix-hybrid\<close>, a plugin that adds suffix and in-request n-gram drafts to
  the speculative decoding of vLLM, with the collectives, the cache resolver, the tuning and the fine-tuning
  that ship with it. File names are relative to the root of the repository.

  \<^bold>\<open>The parts and how they interact.\<close> A model runner calls the drafter once a step. The hook around it
  (\<open>suffix_hybrid/wrap_v2.py\<close>, \<open>suffix_hybrid/wrap.py\<close> for the V1 runner) keeps a copy of each request's tokens on
  the CPU, hands them to the Rust core (\<open>src/mixer.rs\<close> over the corpus of \<open>src/lib.rs\<close>) and puts the drafts of the
  core behind or in place of the native ones. Three modes exist: mixing around a native drafter, suffix only,
  and asynchronous scheduling (\<open>suffix_hybrid/async_spec.py\<close>). Beside it work the size-routed and the host-memory
  all-reduce, the residency resolver of the sparse cache, the idle-time tuner of the draft head, the in-place
  fine-tuning service, the top-k of the sparse indexer, the plan of the 4-bit GEMM and the development switch of the command line.

  \<^bold>\<open>Theories.\<close>
  \<^item> \<open>Prelude\<close>: errors as left values, statements that keep their state when they raise, dictionaries as
    association lists, slices, ceiling division, the environment.
  \<^item> \<open>HistoryMirror\<close>, \<open>NativeHook\<close>: the token mirror (\<open>_Row\<close>, the two staging buffers, \<open>_enqueue\<close>, \<open>_absorb_pending\<close>)
    and the mixing hook \<open>_wrap_propose\<close> over any mixer. The record \<open>hook\<close> is the dict \<open>st\<close> of the source. The mirror
    equals the committed history of the live requests; the shortcut for unchanged rows publishes the same rows. A step
    of the whole group (\<open>group_step\<close>) delivers the rows of rank 0 to every rank, or hangs when a rank stays out of the
    collective: then every rank holds the same rows of the native width, native or written by the mixer.
  \<^item> \<open>SuffixCache\<close>, \<open>SuffixProposer\<close>, \<open>Mixer\<close>: the corpus with its eviction and index, \<open>V2SuffixProposer\<close> and
    \<open>HybridMixer\<close>. The budgets hold and adding ends; a draft is a continuation found in the corpus; a proposer call
    leaves each mirror equal to the history; a mixed draft starts with native tokens. The locale \<open>suffix_proposer\<close> is the
    interface the Python side relies on, interpreted on the Rust model.
  \<^item> \<open>TotalsPipe\<close>, \<open>SuffixOnly\<close>, \<open>FastPath\<close>, \<open>AsyncSpec\<close>: the pipelined read of the totals, at most one step old; one call of
    the suffix-only \<open>propose\<close> with its ledger and its fast path; over runs of such calls every long mirror is in the ledger,
    so that a step on the fast path publishes what a stock call would; the asynchronous drafter, whose resolve drafts
    exactly the candidate behind the history.
  \<^item> \<open>SpecInstall\<close>: \<open>install_v2\<close>, the \<open>load_model\<close> it puts in place, the widths given to the scheduler and the warm start.
    What a load installs carries the fresh states of the theories above and fits the speculator it sits on (its buffer,
    its draft steps, whether its drafts are probabilistic), so their properties apply to it.
  \<^item> \<open>WrapV1\<close>, \<open>SchedSync\<close>: the V1 hook, which serves native drafts or the rows of one mixer call, and the switch that
    makes every configuration synchronous, or in asynchronous mode leaves the operator's choice.
  \<^item> \<open>BandText\<close>, \<open>NcclSplit\<close>, \<open>HostAllReduce\<close>: the texts of sizes and bands with their round trip; the measurement of
    the communicators, equal on all ranks; the rounds, chunks and barriers of the host-memory all-reduce over all
    interleavings of the ranks, its result and that it is never stuck.
  \<^item> \<open>Capture\<close>, \<open>IdleTune\<close>: the capture of the drafter's inputs into windows, and the tuner with its gate and its
    collectives, in step on all ranks.
  \<^item> \<open>Residency\<close>, \<open>ResidencySafe\<close>, \<open>ResidencyLaunch\<close> (\<open>sm120/hisparse_mtp_patch/own_resolver.py\<close>): the reference
    semantics and the CUDA kernel of the resolver, equal for every insertion order and visibility; the hot rows stay
    current; the order of the blocks of a launch does not matter.
  \<^item> \<open>SftData\<close>, \<open>SftWorker\<close>, \<open>SftServer\<close>, \<open>SftSafe\<close>, \<open>SftService\<close> (\<open>suffix_hybrid/sft/api.py\<close>, \<open>worker.py\<close>): the examples,
    packing and schedule; the operations of a rank behind the vote; \<open>Hub\<close> and \<open>State\<close> (record \<open>srv\<close>) with start-up,
    training and loading, with faults on any rank and calls that raise before or after they have run, the cleanup
    included; that an idle server serves what it records, when else all ranks serve one checkpoint, what a failed run
    leaves and what a restart finds.
  \<^item> \<open>DsaSelect\<close> (\<open>suffix_hybrid/kernels/dsa_select.py\<close>): the warm-start selection is a top-k of the window. The locale
    \<open>top_k\<close> is what it needs of vLLM's kernel, interpreted on the reference.
  \<^item> \<open>GemmPlan\<close> (\<open>suffix_hybrid/kernels/nvfp4_gemm.py\<close>): the launch plan and its workspace, the 4-bit codes, the placement
    of the scales, and the split-K fix-up, which equals the separate reduction in every order of arrival.
  \<^item> \<open>DevArgs\<close> (\<open>suffix_hybrid/dev_args.py\<close>): what an edit of the command line changes and what it lets through.

  \<^bold>\<open>Conventions.\<close> A record is the state of a class or closure, a function one call; a call that may raise returns a
  left value of type \<open>pyerr\<close> or, as a statement, the state it reached. Python integers are \<open>int\<close> or \<open>nat\<close>, integers of
  the device and of Rust are words or bounded where they can wrap. Floating-point averages are rationals; rounding is
  modelled only where a theorem speaks of it and is an argument elsewhere. Runs are inductive predicates, the
  invariants are proved by rule induction on them.

  \<^bold>\<open>Fuel and bounds.\<close> \<open>evict_loop\<close> and \<open>match_back\<close> of \<open>SuffixCache\<close> take the number of sequences and of positions,
  \<open>plan_next\<close> of \<open>IdleTune\<close> the length of its queue: each round uses one up, and the lemmas on them show that the fuel
  never decides. The loop of \<open>Capture\<close> that may not end is a \<open>partial_function\<close>; it ends with a positive window.

  \<^bold>\<open>Arguments of the model.\<close> What vLLM, torch, NCCL, the Hub, the file system and the device answer; the native
  drafts; the adapter values a training step computes; measured times; the tokenizer and its chat template.

  \<^bold>\<open>Not modelled.\<close> GPU kernels in Triton, Helion and cuda-oxide and their launchers, apart from what is named above:
  they are floating-point tile programs whose meaning lies in the compiler and the device. Source patches of vLLM and
  FlashInfer: the patched text is third-party. The training forward and the gradients of tuner and fine-tuning. The
  decision service, profilers, warm-up, offline tools, benches, build scripts and start-up glue. Log lines, timers and
  traces everywhere. Of the modelled parts: the sharing of the arrival counter among the blocks of one rank, its
  time-outs and the int8 transport of \<open>host_ar.py\<close>; the option \<open>SUFFIX_HYBRID_SPLIT\<close> of the mixer; memory votes and HTTP
  of the fine-tuning service.
\<close>

end
